(* ===== verification/Prelude.thy ===== *)
theory Prelude
  imports Main "HOL-Library.Word" "HOL-Library.Monad_Syntax"
begin

text \<open>
  Shared vocabulary of the development.

  A kernel routine that can hit an \<open>ASSERT\<close>, a \<open>PANIC\<close> or an access through a
  null pointer is a function into \<open>'a option\<close>: \<open>None\<close> is the kernel stopping
  (Pintos halts in \<open>debug_panic\<close> of \<open>src/lib/kernel/debug.c\<close>), \<open>Some\<close> is the
  value the C function returns together with the state it leaves behind.
  Error codes that C code returns (\<open>NULL\<close>, \<open>-1\<close>, \<open>false\<close>,
  \<open>BITMAP_ERROR\<close>) are ordinary values inside \<open>Some\<close>.
\<close>

section \<open>Fact collections\<close>

named_theorems kernel_simps \<open>unfolding of assertions and sequencing\<close>
named_theorems frame_simps \<open>what an update leaves unchanged\<close>

section \<open>Machine types\<close>

type_synonym u8 = "8 word"
type_synonym u16 = "16 word"
type_synonym u32 = "32 word"
type_synonym u64 = "64 word"

text \<open>An address; \<open>NULL\<close> is zero, as on the x86.\<close>

type_synonym ptr = nat

abbreviation NULL :: ptr where
  "NULL \<equiv> 0"

section \<open>Assertions\<close>

definition ASSERT :: "bool \<Rightarrow> unit option" where
  "ASSERT b = (if b then Some () else None)"

lemma ASSERT_True [simp]: "ASSERT True = Some ()"
  by (simp add: ASSERT_def)

lemma ASSERT_False [simp]: "ASSERT False = None"
  by (simp add: ASSERT_def)

lemma ASSERT_eq_Some [simp]: "ASSERT b = Some u \<longleftrightarrow> b"
  by (simp add: ASSERT_def)

lemma ASSERT_eq_None [simp]: "ASSERT b = None \<longleftrightarrow> \<not> b"
  by (simp add: ASSERT_def)

lemma bind_ASSERT [simp, kernel_simps]:
  "Option.bind (ASSERT b) f = (if b then f () else None)"
  by (simp add: ASSERT_def)

lemma bind_if [kernel_simps]:
  "Option.bind (if b then x else y) f = (if b then Option.bind x f else Option.bind y f)"
  by simp

lemmas bind_Some_conv [kernel_simps] = Option.bind_eq_Some_conv

section \<open>Orders\<close>

text \<open>What the comparison functions of the library promise.\<close>

definition strict_weak :: "('a \<Rightarrow> 'a \<Rightarrow> bool) \<Rightarrow> bool" where
  "strict_weak lt \<longleftrightarrow>
     (\<forall>a b. lt a b \<longrightarrow> \<not> lt b a) \<and> (\<forall>a b c. \<not> lt a b \<longrightarrow> \<not> lt b c \<longrightarrow> \<not> lt a c)"

section \<open>Lists\<close>

lemma takeWhile_eq_append:
  assumes "\<And>x. x \<in> set xs \<Longrightarrow> P x" and "ys = [] \<or> \<not> P (hd ys)"
  shows "takeWhile P (xs @ ys) = xs"
  using assms by (induction xs) (cases ys; auto)+

end
