(* ===== verification/Interfaces.thy ===== *)
theory Interfaces
  imports Prelude
begin

text \<open>
  The contracts that several components of the kernel share, as locales. Each is
  interpreted in the theory of the component that provides it.

  \<^item> \<open>fifo\<close>: a queue in some state, with a representation relation, insertion at the
    back and removal at the front. Provided by the kernel list and, as a \<open>bounded_fifo\<close> that refuses
    more than its capacity, by the interrupt queue.
  \<^item> \<open>allocator\<close>: numbered units handed out in contiguous ranges, and \<open>complete_allocator\<close>: one that
    fails only when no range is free. Provided by the bit map and, as \<open>allocators\<close> with a choice per request, by
    the page allocator.
  \<^item> \<open>keyed_set\<close>: a set of elements with at most one per key. Provided by the hash table.
\<close>

section \<open>First in, first out\<close>

fun push_all :: "('h \<Rightarrow> 'l \<Rightarrow> 'e \<Rightarrow> 'h option) \<Rightarrow> 'h \<Rightarrow> 'l \<Rightarrow> 'e list \<Rightarrow> 'h option" where
  "push_all push h l [] = Some h"
| "push_all push h l (e # es) = do { h \<leftarrow> push h l e; push_all push h l es }"

fun pop_all :: "('h \<Rightarrow> 'l \<Rightarrow> ('e \<times> 'h) option) \<Rightarrow> 'h \<Rightarrow> 'l \<Rightarrow> nat \<Rightarrow> ('e list \<times> 'h) option" where
  "pop_all pop h l 0 = Some ([], h)"
| "pop_all pop h l (Suc n) = do {
     (e, h) \<leftarrow> pop h l;
     (es, h) \<leftarrow> pop_all pop h l n;
     Some (e # es, h)
   }"

locale fifo =
  fixes rep :: "'h \<Rightarrow> 'l \<Rightarrow> 'e list \<Rightarrow> bool"
    and fits :: "'l \<Rightarrow> 'e list \<Rightarrow> 'e \<Rightarrow> bool"
    and push :: "'h \<Rightarrow> 'l \<Rightarrow> 'e \<Rightarrow> 'h option"
    and pop :: "'h \<Rightarrow> 'l \<Rightarrow> ('e \<times> 'h) option"
  assumes push_law: "rep h l xs \<Longrightarrow> fits l xs e \<Longrightarrow> \<exists>h'. push h l e = Some h' \<and> rep h' l (xs @ [e])"
    and pop_law: "rep h l (x # xs) \<Longrightarrow> \<exists>h'. pop h l = Some (x, h') \<and> rep h' l xs"
    and pop_empty_law: "rep h l [] \<Longrightarrow> pop h l = None"
begin

lemma push_all_rep:
  "rep h l xs \<Longrightarrow> (\<And>i. i < length es \<Longrightarrow> fits l (xs @ take i es) (es ! i)) \<Longrightarrow>
   \<exists>h'. push_all push h l es = Some h' \<and> rep h' l (xs @ es)"
proof (induction es arbitrary: h xs)
  case Nil
  then show ?case by simp
next
  case (Cons e es)
  obtain h1 where h1: "push h l e = Some h1" "rep h1 l (xs @ [e])"
    using push_law [OF Cons.prems(1), of e] Cons.prems(2) [of 0] by auto
  have "fits l ((xs @ [e]) @ take i es) (es ! i)" if "i < length es" for i
    using Cons.prems(2) [of "Suc i"] that by simp
  from Cons.IH [OF h1(2) this] h1(1) show ?case by simp
qed

lemma pop_all_rep: "rep h l xs \<Longrightarrow> \<exists>h'. pop_all pop h l (length xs) = Some (xs, h') \<and> rep h' l []"
proof (induction xs arbitrary: h)
  case (Cons x xs)
  obtain h1 where h1: "pop h l = Some (x, h1)" "rep h1 l xs" using pop_law [OF Cons.prems] by blast
  with Cons.IH [OF h1(2)] show ?case by auto
qed simp

lemma pop_all_too_many: "rep h l xs \<Longrightarrow> length xs < n \<Longrightarrow> pop_all pop h l n = None"
proof (induction xs arbitrary: h n)
  case Nil
  then show ?case by (cases n) (auto simp: pop_empty_law)
next
  case (Cons x xs)
  then obtain m where "n = Suc m" "length xs < m" by (cases n) auto
  moreover obtain h1 where "pop h l = Some (x, h1)" "rep h1 l xs" using pop_law [OF Cons.prems(1)] by blast
  ultimately show ?case using Cons.IH by auto
qed

lemma drained_in_order:
  assumes "rep h l xs" and "\<And>i. i < length es \<Longrightarrow> fits l (xs @ take i es) (es ! i)"
  shows "\<exists>h1 h2. push_all push h l es = Some h1 \<and>
           pop_all pop h1 l (length xs + length es) = Some (xs @ es, h2) \<and> rep h2 l []"
  using push_all_rep [OF assms] pop_all_rep by fastforce

end

text \<open>A queue with room for \<open>cap\<close> elements: one more is refused.\<close>

locale bounded_fifo = fifo rep "\<lambda>l xs e. length xs < cap" push pop
  for rep :: "'h \<Rightarrow> 'l \<Rightarrow> 'e list \<Rightarrow> bool" and cap :: nat and push :: "'h \<Rightarrow> 'l \<Rightarrow> 'e \<Rightarrow> 'h option"
    and pop :: "'h \<Rightarrow> 'l \<Rightarrow> ('e \<times> 'h) option" +
  assumes push_full_law: "rep h l xs \<Longrightarrow> cap \<le> length xs \<Longrightarrow> push h l e = None"
begin

lemma push_all_bounded:
  "rep h l xs \<Longrightarrow> length xs \<le> cap \<Longrightarrow>
     if length xs + length es \<le> cap then \<exists>h'. push_all push h l es = Some h' \<and> rep h' l (xs @ es) else push_all push h l es = None"
proof (induction es arbitrary: h xs)
  case (Cons e es)
  show ?case
  proof (cases "length xs < cap")
    case True
    obtain h1 where h1: "push h l e = Some h1" "rep h1 l (xs @ [e])" using push_law [OF Cons.prems(1) True] by blast
    with Cons.IH [OF h1(2)] True show ?thesis by (simp split: if_splits)
  next
    case False
    then show ?thesis using push_full_law [OF Cons.prems(1)] by simp
  qed
qed simp

end

section \<open>Allocation of ranges\<close>

text \<open>What a client does to an allocator: it asks for \<open>n\<close> units, or gives back the
  \<open>k\<close>-th of the ranges it holds. \<open>held\<close> is the list of ranges it holds, as start and length.\<close>

datatype request = Alloc nat | Release nat

fun serve ::
  "('s \<Rightarrow> nat \<Rightarrow> (nat \<times> 's) option) \<Rightarrow> ('s \<Rightarrow> nat \<Rightarrow> nat \<Rightarrow> 's option) \<Rightarrow> nat \<Rightarrow>
   's \<Rightarrow> (nat \<times> nat) list \<Rightarrow> request list \<Rightarrow> ('s \<times> (nat \<times> nat) list) option" where
  "serve alloc release err s held [] = Some (s, held)"
| "serve alloc release err s held (Alloc n # rs) = do {
     (i, s) \<leftarrow> alloc s n;
     serve alloc release err s (if i = err then held else (i, n) # held) rs
   }"
| "serve alloc release err s held (Release k # rs) =
     (if k < length held
      then do {
        s \<leftarrow> release s (fst (held ! k)) (snd (held ! k));
        serve alloc release err s (take k held @ drop (Suc k) held) rs
      }
      else serve alloc release err s held rs)"

definition range_set :: "nat \<times> nat \<Rightarrow> nat set" where
  "range_set r = {fst r..<fst r + snd r}"

fun holds :: "nat \<Rightarrow> nat set \<Rightarrow> (nat \<times> nat) list \<Rightarrow> bool" where
  "holds cap U [] \<longleftrightarrow> U = {}"
| "holds cap U (r # rs) \<longleftrightarrow>
     range_set r \<subseteq> U \<and> fst r + snd r \<le> cap \<and> holds cap (U - range_set r) rs"

lemma holds_nth: "holds cap U rs \<Longrightarrow> k < length rs \<Longrightarrow> range_set (rs ! k) \<subseteq> U \<and> fst (rs ! k) + snd (rs ! k) \<le> cap"
proof (induction rs arbitrary: U k)
  case (Cons r rs)
  then show ?case by (cases k) auto
qed simp

lemma holds_disjoint: "holds cap U rs \<Longrightarrow> i < j \<Longrightarrow> j < length rs \<Longrightarrow> range_set (rs ! i) \<inter> range_set (rs ! j) = {}"
proof (induction rs arbitrary: U i j)
  case (Cons r rs)
  then obtain j' where j: "j = Suc j'" by (cases j) auto
  show ?case
  proof (cases i)
    case 0
    with Cons.prems j holds_nth [of cap "U - range_set r" rs j'] show ?thesis by auto
  next
    case (Suc i')
    with Cons.prems j Cons.IH [of "U - range_set r" i' j'] show ?thesis by simp
  qed
qed simp

lemma holds_remove:
  "holds cap U rs \<Longrightarrow> k < length rs \<Longrightarrow> holds cap (U - range_set (rs ! k)) (take k rs @ drop (Suc k) rs)"
proof (induction rs arbitrary: U k)
  case (Cons r rs)
  show ?case
  proof (cases k)
    case (Suc k')
    have "range_set r \<inter> range_set (rs ! k') = {}"
      using holds_disjoint [OF Cons.prems(1), of 0 k] Cons.prems(2) Suc by simp
    moreover have "holds cap (U - range_set r - range_set (rs ! k')) (take k' rs @ drop (Suc k') rs)"
      using Cons Suc by simp
    moreover have "U - range_set r - range_set (rs ! k') = U - range_set (rs ! k') - range_set r" by blast
    ultimately show ?thesis using Cons.prems Suc by auto
  qed (use Cons.prems in simp)
qed simp

locale allocator =
  fixes inv :: "'s \<Rightarrow> bool"
    and cap :: "'s \<Rightarrow> nat"
    and used :: "'s \<Rightarrow> nat set"
    and alloc :: "'s \<Rightarrow> nat \<Rightarrow> (nat \<times> 's) option"
    and release :: "'s \<Rightarrow> nat \<Rightarrow> nat \<Rightarrow> 's option"
    and err :: nat
  assumes alloc_law: "inv s \<Longrightarrow> \<exists>i s'. alloc s n = Some (i, s') \<and> inv s' \<and> cap s' = cap s \<and>
      (if i = err then used s' = used s
       else i + n \<le> cap s \<and> {i..<i + n} \<inter> used s = {} \<and> used s' = used s \<union> {i..<i + n})"
    and release_law: "inv s \<Longrightarrow> i + n \<le> cap s \<Longrightarrow> {i..<i + n} \<subseteq> used s \<Longrightarrow>
      \<exists>s'. release s i n = Some s' \<and> inv s' \<and> cap s' = cap s \<and> used s' = used s - {i..<i + n}"
begin

lemma serve_holds:
  "inv s \<Longrightarrow> holds (cap s) (used s) held \<Longrightarrow>
   \<exists>s' held'. serve alloc release err s held rs = Some (s', held') \<and> inv s' \<and> cap s' = cap s \<and>
     holds (cap s) (used s') held'"
proof (induction rs arbitrary: s held)
  case (Cons r rs)
  show ?case
  proof (cases r)
    case (Alloc n)
    obtain i s1 where s1: "alloc s n = Some (i, s1)" "inv s1" "cap s1 = cap s"
      "if i = err then used s1 = used s
       else i + n \<le> cap s \<and> {i..<i + n} \<inter> used s = {} \<and> used s1 = used s \<union> {i..<i + n}"
      using alloc_law [OF Cons.prems(1)] by blast
    have "holds (cap s1) (used s1) (if i = err then held else (i, n) # held)"
    proof (cases "i = err")
      case False
      then have "used s1 - range_set (i, n) = used s" using s1(4) by (auto simp: range_set_def)
      with False s1 Cons.prems(2) show ?thesis by (auto simp: range_set_def)
    qed (use s1 Cons.prems in simp)
    from Cons.IH [OF s1(2) this] s1 Alloc show ?thesis by simp
  next
    case (Release k)
    show ?thesis
    proof (cases "k < length held")
      case True
      obtain s1 where s1: "release s (fst (held ! k)) (snd (held ! k)) = Some s1" "inv s1" "cap s1 = cap s"
          "used s1 = used s - range_set (held ! k)"
        using release_law [OF Cons.prems(1)] holds_nth [OF Cons.prems(2) True] by (metis range_set_def)
      have "holds (cap s1) (used s1) (take k held @ drop (Suc k) held)"
        using holds_remove [OF Cons.prems(2) True] s1 by simp
      from Cons.IH [OF s1(2) this] s1 Release True show ?thesis by simp
    qed (use Cons Release in simp)
  qed
qed simp

end

text \<open>Several allocators that hand out ranges of the same units, or one with several ways to ask it: each request
  says which one it is for.\<close>

fun serve_each ::
  "('m \<Rightarrow> 's \<Rightarrow> nat \<Rightarrow> (nat \<times> 's) option) \<Rightarrow> ('s \<Rightarrow> nat \<Rightarrow> nat \<Rightarrow> 's option) \<Rightarrow> nat \<Rightarrow>
   's \<Rightarrow> (nat \<times> nat) list \<Rightarrow> ('m \<times> request) list \<Rightarrow> ('s \<times> (nat \<times> nat) list) option" where
  "serve_each alloc release err s held [] = Some (s, held)"
| "serve_each alloc release err s held ((m, r) # rs) = do {
     (s, held) \<leftarrow> serve (alloc m) release err s held [r];
     serve_each alloc release err s held rs
   }"

locale allocators =
  fixes inv :: "'s \<Rightarrow> bool"
    and cap :: "'s \<Rightarrow> nat"
    and used :: "'s \<Rightarrow> nat set"
    and alloc :: "'m \<Rightarrow> 's \<Rightarrow> nat \<Rightarrow> (nat \<times> 's) option"
    and release :: "'s \<Rightarrow> nat \<Rightarrow> nat \<Rightarrow> 's option"
    and err :: nat
  assumes each: "allocator inv cap used (alloc m) release err"
begin

lemma serve_each_holds:
  "inv s \<Longrightarrow> holds (cap s) (used s) held \<Longrightarrow>
   \<exists>s' held'. serve_each alloc release err s held rs = Some (s', held') \<and> inv s' \<and> cap s' = cap s \<and>
     holds (cap s) (used s') held'"
proof (induction rs arbitrary: s held)
  case (Cons q rs)
  obtain m r where q: "q = (m, r)" by fastforce
  obtain s1 held1 where s1: "serve (alloc m) release err s held [r] = Some (s1, held1)" "inv s1" "cap s1 = cap s"
      "holds (cap s) (used s1) held1"
    using allocator.serve_holds [OF each Cons.prems] by blast
  with Cons.IH [OF s1(2), of held1] q show ?case by (simp del: serve.simps)
qed simp

end

text \<open>An allocator that fails only when there is no free range.\<close>

locale complete_allocator = allocator +
  assumes alloc_complete: "inv s \<Longrightarrow> i + n \<le> cap s \<Longrightarrow> {i..<i + n} \<inter> used s = {} \<Longrightarrow> alloc s n \<noteq> Some (err, s')"
begin

lemma alloc_fails_only_when_full:
  assumes "inv s" "alloc s n = Some (err, s')" "i + n \<le> cap s"
  shows "{i..<i + n} \<inter> used s \<noteq> {}"
  using alloc_complete [OF assms(1,3), of s'] assms(2) by blast

end

section \<open>Sets with keys\<close>

text \<open>What a client does to such a set, and what it means: \<open>eqv\<close> says that two elements have the
  same key.\<close>

datatype 'e dict_request = Insert 'e | Replace 'e | Delete 'e

fun dict_spec :: "('e \<Rightarrow> 'e \<Rightarrow> bool) \<Rightarrow> 'e set \<Rightarrow> 'e dict_request \<Rightarrow> 'e set" where
  "dict_spec eqv S (Insert e) = (if \<exists>x\<in>S. eqv x e then S else insert e S)"
| "dict_spec eqv S (Replace e) = insert e {x\<in>S. \<not> eqv x e}"
| "dict_spec eqv S (Delete e) = {x\<in>S. \<not> eqv x e}"

fun dict_elem :: "'e dict_request \<Rightarrow> 'e" where
  "dict_elem (Insert e) = e"
| "dict_elem (Replace e) = e"
| "dict_elem (Delete e) = e"

text \<open>\<open>answer\<close> is what an operation returns: the element with the key of \<open>e\<close>, or none.\<close>

definition answer :: "('e \<Rightarrow> 'e \<Rightarrow> bool) \<Rightarrow> 'e set \<Rightarrow> 'e \<Rightarrow> 'e option \<Rightarrow> bool" where
  "answer eqv S e r \<longleftrightarrow> (case r of None \<Rightarrow> \<forall>x\<in>S. \<not> eqv x e | Some x \<Rightarrow> x \<in> S \<and> eqv x e)"

text \<open>A history is a list of requests, each with the circumstances \<open>m\<close> of its execution (whether memory is
  available, say). It returns the answers and the last state.\<close>

fun dict_run :: "('m \<Rightarrow> 'h \<Rightarrow> 'e dict_request \<Rightarrow> ('e option \<times> 'h) option) \<Rightarrow> 'h \<Rightarrow> ('m \<times> 'e dict_request) list \<Rightarrow>
    ('e option list \<times> 'h) option" where
  "dict_run step h [] = Some ([], h)"
| "dict_run step h ((m, r) # rs) = do { (x, h) \<leftarrow> step m h r; (xs, h) \<leftarrow> dict_run step h rs; Some (x # xs, h) }"

fun dict_after :: "('e \<Rightarrow> 'e \<Rightarrow> bool) \<Rightarrow> 'e set \<Rightarrow> ('m \<times> 'e dict_request) list \<Rightarrow> 'e set" where
  "dict_after eqv S [] = S"
| "dict_after eqv S ((m, r) # rs) = dict_after eqv (dict_spec eqv S r) rs"

fun answers :: "('e \<Rightarrow> 'e \<Rightarrow> bool) \<Rightarrow> 'e set \<Rightarrow> ('m \<times> 'e dict_request) list \<Rightarrow> 'e option list \<Rightarrow> bool" where
  "answers eqv S [] xs \<longleftrightarrow> xs = []"
| "answers eqv S ((m, r) # rs) xs \<longleftrightarrow>
     (\<exists>x ys. xs = x # ys \<and> answer eqv S (dict_elem r) x \<and> answers eqv (dict_spec eqv S r) rs ys)"

locale keyed_set =
  fixes eqv :: "'e \<Rightarrow> 'e \<Rightarrow> bool"
    and U :: "'e set"
    and ok :: "'h \<Rightarrow> bool"
    and elems :: "'h \<Rightarrow> 'e set"
    and step :: "'m \<Rightarrow> 'h \<Rightarrow> 'e dict_request \<Rightarrow> ('e option \<times> 'h) option"
    and lookup :: "'h \<Rightarrow> 'e \<Rightarrow> 'e option option"
  assumes step_law: "ok h \<Longrightarrow> dict_elem r \<in> U \<Longrightarrow>
      \<exists>x h'. step m h r = Some (x, h') \<and> answer eqv (elems h) (dict_elem r) x \<and> ok h' \<and>
        elems h' = dict_spec eqv (elems h) r"
    and lookup_law: "ok h \<Longrightarrow> e \<in> U \<Longrightarrow> \<exists>x. lookup h e = Some x \<and> answer eqv (elems h) e x"
begin

lemma history:
  assumes "ok h" "\<forall>(m, r)\<in>set rs. dict_elem r \<in> U"
  shows "\<exists>xs h'. dict_run step h rs = Some (xs, h') \<and> ok h' \<and> answers eqv (elems h) rs xs \<and> elems h' = dict_after eqv (elems h) rs"
  using assms
proof (induction rs arbitrary: h)
  case (Cons q rs)
  obtain m r where q: "q = (m, r)" by fastforce
  obtain x h1 where h1: "step m h r = Some (x, h1)" "answer eqv (elems h) (dict_elem r) x" "ok h1"
      "elems h1 = dict_spec eqv (elems h) r"
    using step_law [OF Cons.prems(1), of r m] Cons.prems(2) q by auto
  obtain xs h' where "dict_run step h1 rs = Some (xs, h')" "ok h'" "answers eqv (elems h1) rs xs" "elems h' = dict_after eqv (elems h1) rs"
    using Cons.IH [OF h1(3)] Cons.prems(2) by auto
  with h1 q show ?case by simp
qed simp

lemma lookup_after:
  assumes "ok h" "\<forall>(m, r)\<in>set rs. dict_elem r \<in> U" "e \<in> U"
  shows "\<exists>xs h' x. dict_run step h rs = Some (xs, h') \<and> answers eqv (elems h) rs xs \<and> lookup h' e = Some x \<and>
     answer eqv (dict_after eqv (elems h) rs) e x"
  using history [OF assms(1,2)] lookup_law [OF _ assms(3)] by metis

end

end
