(* ===== verification/Kernel_List.thy ===== *)
theory Kernel_List
  imports Prelude Interfaces
begin

text \<open>
  The kernel's doubly linked lists, \<open>src/lib/kernel/list.c\<close> and \<open>list.h\<close>.

  The elements live in memory: \<open>list_heap\<close> holds the \<open>prev\<close> and \<open>next\<close> links
  of every \<open>struct list_elem\<close>, by address, and every assignment of the C code is one
  update of it, in the order of the source, so aliasing is what it is in C. A
  \<open>struct list\<close> is the pair of addresses of its two header elements; the address of
  \<open>head\<close> is the address of the list, so \<open>list != NULL\<close> is \<open>head l \<noteq> NULL\<close>.
  \<open>is_list h l xs\<close> says that the memory \<open>h\<close> holds the list \<open>l\<close> with the interior
  elements \<open>xs\<close>; every operation is shown to realise the operation on \<open>xs\<close> that its
  comment promises, and to leave every disjoint list alone.
\<close>

section \<open>Memory\<close>

record list_heap =
  prev_of :: "ptr \<Rightarrow> ptr"
  next_of :: "ptr \<Rightarrow> ptr"

record klist =
  head :: ptr
  tail :: ptr

definition rd_prev :: "list_heap \<Rightarrow> ptr \<Rightarrow> ptr option" where
  "rd_prev h p = (if p = NULL then None else Some (prev_of h p))"

definition rd_next :: "list_heap \<Rightarrow> ptr \<Rightarrow> ptr option" where
  "rd_next h p = (if p = NULL then None else Some (next_of h p))"

definition wr_prev :: "list_heap \<Rightarrow> ptr \<Rightarrow> ptr \<Rightarrow> list_heap option" where
  "wr_prev h p v = (if p = NULL then None else Some (h\<lparr>prev_of := (prev_of h)(p := v)\<rparr>))"

definition wr_next :: "list_heap \<Rightarrow> ptr \<Rightarrow> ptr \<Rightarrow> list_heap option" where
  "wr_next h p v = (if p = NULL then None else Some (h\<lparr>next_of := (next_of h)(p := v)\<rparr>))"

lemmas mem_defs = rd_prev_def rd_next_def wr_prev_def wr_next_def

section \<open>Operations\<close>

definition is_head :: "list_heap \<Rightarrow> ptr \<Rightarrow> bool" where
  "is_head h elem \<longleftrightarrow> elem \<noteq> NULL \<and> prev_of h elem = NULL \<and> next_of h elem \<noteq> NULL"

definition is_interior :: "list_heap \<Rightarrow> ptr \<Rightarrow> bool" where
  "is_interior h elem \<longleftrightarrow> elem \<noteq> NULL \<and> prev_of h elem \<noteq> NULL \<and> next_of h elem \<noteq> NULL"

definition is_tail :: "list_heap \<Rightarrow> ptr \<Rightarrow> bool" where
  "is_tail h elem \<longleftrightarrow> elem \<noteq> NULL \<and> prev_of h elem \<noteq> NULL \<and> next_of h elem = NULL"

definition list_init :: "list_heap \<Rightarrow> klist \<Rightarrow> list_heap option" where
  "list_init h l = do {
     ASSERT (head l \<noteq> NULL);
     h \<leftarrow> wr_prev h (head l) NULL;
     h \<leftarrow> wr_next h (head l) (tail l);
     h \<leftarrow> wr_prev h (tail l) (head l);
     wr_next h (tail l) NULL
   }"

definition list_begin :: "list_heap \<Rightarrow> klist \<Rightarrow> ptr option" where
  "list_begin h l = do {
     ASSERT (head l \<noteq> NULL);
     rd_next h (head l)
   }"

definition list_next :: "list_heap \<Rightarrow> ptr \<Rightarrow> ptr option" where
  "list_next h elem = do {
     ASSERT (is_head h elem \<or> is_interior h elem);
     rd_next h elem
   }"

definition list_end :: "klist \<Rightarrow> ptr option" where
  "list_end l = do {
     ASSERT (head l \<noteq> NULL);
     Some (tail l)
   }"

definition list_rbegin :: "list_heap \<Rightarrow> klist \<Rightarrow> ptr option" where
  "list_rbegin h l = do {
     ASSERT (head l \<noteq> NULL);
     rd_prev h (tail l)
   }"

definition list_prev :: "list_heap \<Rightarrow> ptr \<Rightarrow> ptr option" where
  "list_prev h elem = do {
     ASSERT (is_interior h elem \<or> is_tail h elem);
     rd_prev h elem
   }"

definition list_rend :: "klist \<Rightarrow> ptr option" where
  "list_rend l = do {
     ASSERT (head l \<noteq> NULL);
     Some (head l)
   }"

definition list_head :: "klist \<Rightarrow> ptr option" where
  "list_head l = do {
     ASSERT (head l \<noteq> NULL);
     Some (head l)
   }"

definition list_tail :: "klist \<Rightarrow> ptr option" where
  "list_tail l = do {
     ASSERT (head l \<noteq> NULL);
     Some (tail l)
   }"

definition list_insert :: "list_heap \<Rightarrow> ptr \<Rightarrow> ptr \<Rightarrow> list_heap option" where
  "list_insert h before elem = do {
     ASSERT (is_interior h before \<or> is_tail h before);
     ASSERT (elem \<noteq> NULL);
     p \<leftarrow> rd_prev h before;
     h \<leftarrow> wr_prev h elem p;
     h \<leftarrow> wr_next h elem before;
     p \<leftarrow> rd_prev h before;
     h \<leftarrow> wr_next h p elem;
     wr_prev h before elem
   }"

definition list_splice :: "list_heap \<Rightarrow> ptr \<Rightarrow> ptr \<Rightarrow> ptr \<Rightarrow> list_heap option" where
  "list_splice h before first lst = do {
     ASSERT (is_interior h before \<or> is_tail h before);
     (if first = lst then Some h
      else do {
        lst \<leftarrow> list_prev h lst;
        ASSERT (is_interior h first);
        ASSERT (is_interior h lst);
        p \<leftarrow> rd_prev h first;
        n \<leftarrow> rd_next h lst;
        h \<leftarrow> wr_next h p n;
        n \<leftarrow> rd_next h lst;
        p \<leftarrow> rd_prev h first;
        h \<leftarrow> wr_prev h n p;
        p \<leftarrow> rd_prev h before;
        h \<leftarrow> wr_prev h first p;
        h \<leftarrow> wr_next h lst before;
        p \<leftarrow> rd_prev h before;
        h \<leftarrow> wr_next h p first;
        wr_prev h before lst
      })
   }"

definition list_push_front :: "list_heap \<Rightarrow> klist \<Rightarrow> ptr \<Rightarrow> list_heap option" where
  "list_push_front h l elem = do {
     b \<leftarrow> list_begin h l;
     list_insert h b elem
   }"

definition list_push_back :: "list_heap \<Rightarrow> klist \<Rightarrow> ptr \<Rightarrow> list_heap option" where
  "list_push_back h l elem = do {
     e \<leftarrow> list_end l;
     list_insert h e elem
   }"

definition list_remove :: "list_heap \<Rightarrow> ptr \<Rightarrow> (ptr \<times> list_heap) option" where
  "list_remove h elem = do {
     ASSERT (is_interior h elem);
     p \<leftarrow> rd_prev h elem;
     n \<leftarrow> rd_next h elem;
     h \<leftarrow> wr_next h p n;
     n \<leftarrow> rd_next h elem;
     p \<leftarrow> rd_prev h elem;
     h \<leftarrow> wr_prev h n p;
     n \<leftarrow> rd_next h elem;
     Some (n, h)
   }"

definition list_empty :: "list_heap \<Rightarrow> klist \<Rightarrow> bool option" where
  "list_empty h l = do {
     b \<leftarrow> list_begin h l;
     e \<leftarrow> list_end l;
     Some (b = e)
   }"

definition list_front :: "list_heap \<Rightarrow> klist \<Rightarrow> ptr option" where
  "list_front h l = do {
     e \<leftarrow> list_empty h l;
     ASSERT (\<not> e);
     rd_next h (head l)
   }"

definition list_back :: "list_heap \<Rightarrow> klist \<Rightarrow> ptr option" where
  "list_back h l = do {
     e \<leftarrow> list_empty h l;
     ASSERT (\<not> e);
     rd_prev h (tail l)
   }"

definition list_pop_front :: "list_heap \<Rightarrow> klist \<Rightarrow> (ptr \<times> list_heap) option" where
  "list_pop_front h l = do {
     front \<leftarrow> list_front h l;
     (_, h) \<leftarrow> list_remove h front;
     Some (front, h)
   }"

definition list_pop_back :: "list_heap \<Rightarrow> klist \<Rightarrow> (ptr \<times> list_heap) option" where
  "list_pop_back h l = do {
     back \<leftarrow> list_back h l;
     (_, h) \<leftarrow> list_remove h back;
     Some (back, h)
   }"

text \<open>
  The loops follow the links, so on a corrupted list they need not end:
  \<open>None\<close> is also the value of a loop that does not return.
\<close>

partial_function (option) list_size_loop ::
  "list_heap \<Rightarrow> klist \<Rightarrow> ptr \<Rightarrow> nat \<Rightarrow> nat option" where
  "list_size_loop h l e cnt = do {
     stop \<leftarrow> list_end l;
     (if e = stop then Some cnt
      else do {
        e \<leftarrow> list_next h e;
        list_size_loop h l e (cnt + 1)
      })
   }"

definition list_size :: "list_heap \<Rightarrow> klist \<Rightarrow> nat option" where
  "list_size h l = do {
     e \<leftarrow> list_begin h l;
     list_size_loop h l e 0
   }"

text \<open>\<open>swap\<close> on the fields \<open>prev\<close> and \<open>next\<close> of one element, and the two swaps
  of header fields that end \<open>list_reverse\<close>.\<close>

definition swap_links :: "list_heap \<Rightarrow> ptr \<Rightarrow> list_heap option" where
  "swap_links h e = do {
     t \<leftarrow> rd_prev h e;
     b \<leftarrow> rd_next h e;
     h \<leftarrow> wr_prev h e b;
     wr_next h e t
   }"

definition swap_next_prev :: "list_heap \<Rightarrow> ptr \<Rightarrow> ptr \<Rightarrow> list_heap option" where
  "swap_next_prev h a b = do {
     t \<leftarrow> rd_next h a;
     u \<leftarrow> rd_prev h b;
     h \<leftarrow> wr_next h a u;
     wr_prev h b t
   }"

partial_function (option) list_reverse_loop ::
  "list_heap \<Rightarrow> klist \<Rightarrow> ptr \<Rightarrow> list_heap option" where
  "list_reverse_loop h l e = do {
     stop \<leftarrow> list_end l;
     (if e = stop then Some h
      else do {
        h \<leftarrow> swap_links h e;
        e \<leftarrow> rd_prev h e;
        list_reverse_loop h l e
      })
   }"

definition list_reverse :: "list_heap \<Rightarrow> klist \<Rightarrow> list_heap option" where
  "list_reverse h l = do {
     e \<leftarrow> list_empty h l;
     (if e then Some h
      else do {
        b \<leftarrow> list_begin h l;
        h \<leftarrow> list_reverse_loop h l b;
        h \<leftarrow> swap_next_prev h (head l) (tail l);
        a \<leftarrow> rd_next h (head l);
        b \<leftarrow> rd_prev h (tail l);
        swap_next_prev h b a
      })
   }"

type_synonym list_less_func = "ptr \<Rightarrow> ptr \<Rightarrow> bool"

partial_function (option) is_sorted_loop ::
  "list_heap \<Rightarrow> ptr \<Rightarrow> ptr \<Rightarrow> list_less_func \<Rightarrow> bool option" where
  "is_sorted_loop h a b lt = do {
     a \<leftarrow> list_next h a;
     (if a = b then Some True
      else do {
        p \<leftarrow> list_prev h a;
        (if lt a p then Some False else is_sorted_loop h a b lt)
      })
   }"

definition is_sorted :: "list_heap \<Rightarrow> ptr \<Rightarrow> ptr \<Rightarrow> list_less_func \<Rightarrow> bool option" where
  "is_sorted h a b lt = (if a \<noteq> b then is_sorted_loop h a b lt else Some True)"

partial_function (option) find_end_of_run_loop ::
  "list_heap \<Rightarrow> ptr \<Rightarrow> ptr \<Rightarrow> list_less_func \<Rightarrow> ptr option" where
  "find_end_of_run_loop h a b lt = do {
     a \<leftarrow> list_next h a;
     (if a \<noteq> b
      then do {
        p \<leftarrow> list_prev h a;
        (if \<not> lt a p then find_end_of_run_loop h a b lt else Some a)
      }
      else Some a)
   }"

definition find_end_of_run :: "list_heap \<Rightarrow> ptr \<Rightarrow> ptr \<Rightarrow> list_less_func \<Rightarrow> ptr option" where
  "find_end_of_run h a b lt = do {
     ASSERT (a \<noteq> NULL);
     ASSERT (b \<noteq> NULL);
     ASSERT (a \<noteq> b);
     find_end_of_run_loop h a b lt
   }"

partial_function (option) inplace_merge_loop ::
  "list_heap \<Rightarrow> ptr \<Rightarrow> ptr \<Rightarrow> ptr \<Rightarrow> list_less_func \<Rightarrow> list_heap option" where
  "inplace_merge_loop h a0 a1b0 b1 lt =
     (if a0 \<noteq> a1b0 \<and> a1b0 \<noteq> b1
      then (if \<not> lt a1b0 a0
            then do {
              a0 \<leftarrow> list_next h a0;
              inplace_merge_loop h a0 a1b0 b1 lt
            }
            else do {
              a1b0 \<leftarrow> list_next h a1b0;
              p \<leftarrow> list_prev h a1b0;
              h \<leftarrow> list_splice h a0 p a1b0;
              inplace_merge_loop h a0 a1b0 b1 lt
            })
      else Some h)"

definition inplace_merge ::
  "list_heap \<Rightarrow> ptr \<Rightarrow> ptr \<Rightarrow> ptr \<Rightarrow> list_less_func \<Rightarrow> list_heap option" where
  "inplace_merge h a0 a1b0 b1 lt = do {
     ASSERT (a0 \<noteq> NULL);
     ASSERT (a1b0 \<noteq> NULL);
     ASSERT (b1 \<noteq> NULL);
     s \<leftarrow> is_sorted h a0 a1b0 lt;
     ASSERT s;
     s \<leftarrow> is_sorted h a1b0 b1 lt;
     ASSERT s;
     inplace_merge_loop h a0 a1b0 b1 lt
   }"

text \<open>One pass of \<open>list_sort\<close>, from \<open>a0\<close>: the memory and \<open>output_run_cnt\<close>.\<close>

partial_function (option) list_sort_pass ::
  "list_heap \<Rightarrow> klist \<Rightarrow> ptr \<Rightarrow> nat \<Rightarrow> list_less_func \<Rightarrow> (list_heap \<times> nat) option" where
  "list_sort_pass h l a0 cnt lt = do {
     stop \<leftarrow> list_end l;
     (if a0 = stop then Some (h, cnt)
      else do {
        let cnt = cnt + 1;
        a1b0 \<leftarrow> find_end_of_run h a0 stop lt;
        (if a1b0 = stop then Some (h, cnt)
         else do {
           b1 \<leftarrow> find_end_of_run h a1b0 stop lt;
           h \<leftarrow> inplace_merge h a0 a1b0 b1 lt;
           list_sort_pass h l b1 cnt lt
         })
      })
   }"

partial_function (option) list_sort_loop ::
  "list_heap \<Rightarrow> klist \<Rightarrow> list_less_func \<Rightarrow> list_heap option" where
  "list_sort_loop h l lt = do {
     a0 \<leftarrow> list_begin h l;
     (h, output_run_cnt) \<leftarrow> list_sort_pass h l a0 0 lt;
     (if output_run_cnt > 1 then list_sort_loop h l lt else Some h)
   }"

definition list_sort :: "list_heap \<Rightarrow> klist \<Rightarrow> list_less_func \<Rightarrow> list_heap option" where
  "list_sort h l lt = do {
     ASSERT (head l \<noteq> NULL);
     h \<leftarrow> list_sort_loop h l lt;
     b \<leftarrow> list_begin h l;
     e \<leftarrow> list_end l;
     s \<leftarrow> is_sorted h b e lt;
     ASSERT s;
     Some h
   }"

partial_function (option) insert_ordered_pos ::
  "list_heap \<Rightarrow> klist \<Rightarrow> ptr \<Rightarrow> ptr \<Rightarrow> list_less_func \<Rightarrow> ptr option" where
  "insert_ordered_pos h l e elem lt = do {
     stop \<leftarrow> list_end l;
     (if e = stop then Some e
      else if lt elem e then Some e
      else do {
        e \<leftarrow> list_next h e;
        insert_ordered_pos h l e elem lt
      })
   }"

definition list_insert_ordered ::
  "list_heap \<Rightarrow> klist \<Rightarrow> ptr \<Rightarrow> list_less_func \<Rightarrow> list_heap option" where
  "list_insert_ordered h l elem lt = do {
     ASSERT (head l \<noteq> NULL);
     ASSERT (elem \<noteq> NULL);
     e \<leftarrow> list_begin h l;
     e \<leftarrow> insert_ordered_pos h l e elem lt;
     list_insert h e elem
   }"

partial_function (option) list_unique_loop ::
  "list_heap \<Rightarrow> klist \<Rightarrow> klist option \<Rightarrow> ptr \<Rightarrow> list_less_func \<Rightarrow> list_heap option" where
  "list_unique_loop h l duplicates elem lt = do {
     nxt \<leftarrow> list_next h elem;
     stop \<leftarrow> list_end l;
     (if nxt = stop then Some h
      else if \<not> lt elem nxt \<and> \<not> lt nxt elem
      then do {
        (_, h) \<leftarrow> list_remove h nxt;
        h \<leftarrow> (case duplicates of None \<Rightarrow> Some h | Some d \<Rightarrow> list_push_back h d nxt);
        list_unique_loop h l duplicates elem lt
      }
      else list_unique_loop h l duplicates nxt lt)
   }"

definition list_unique ::
  "list_heap \<Rightarrow> klist \<Rightarrow> klist option \<Rightarrow> list_less_func \<Rightarrow> list_heap option" where
  "list_unique h l duplicates lt = do {
     ASSERT (head l \<noteq> NULL);
     e \<leftarrow> list_empty h l;
     (if e then Some h
      else do {
        elem \<leftarrow> list_begin h l;
        list_unique_loop h l duplicates elem lt
      })
   }"

partial_function (option) list_max_loop ::
  "list_heap \<Rightarrow> klist \<Rightarrow> ptr \<Rightarrow> ptr \<Rightarrow> list_less_func \<Rightarrow> ptr option" where
  "list_max_loop h l e m lt = do {
     stop \<leftarrow> list_end l;
     (if e = stop then Some m
      else do {
        let m = (if lt m e then e else m);
        e \<leftarrow> list_next h e;
        list_max_loop h l e m lt
      })
   }"

definition list_max :: "list_heap \<Rightarrow> klist \<Rightarrow> list_less_func \<Rightarrow> ptr option" where
  "list_max h l lt = do {
     m \<leftarrow> list_begin h l;
     stop \<leftarrow> list_end l;
     (if m \<noteq> stop
      then do {
        e \<leftarrow> list_next h m;
        list_max_loop h l e m lt
      }
      else Some m)
   }"

partial_function (option) list_min_loop ::
  "list_heap \<Rightarrow> klist \<Rightarrow> ptr \<Rightarrow> ptr \<Rightarrow> list_less_func \<Rightarrow> ptr option" where
  "list_min_loop h l e m lt = do {
     stop \<leftarrow> list_end l;
     (if e = stop then Some m
      else do {
        let m = (if lt e m then e else m);
        e \<leftarrow> list_next h e;
        list_min_loop h l e m lt
      })
   }"

definition list_min :: "list_heap \<Rightarrow> klist \<Rightarrow> list_less_func \<Rightarrow> ptr option" where
  "list_min h l lt = do {
     m \<leftarrow> list_begin h l;
     stop \<leftarrow> list_end l;
     (if m \<noteq> stop
      then do {
        e \<leftarrow> list_next h m;
        list_min_loop h l e m lt
      }
      else Some m)
   }"

section \<open>The list a memory holds\<close>

fun linked :: "list_heap \<Rightarrow> ptr list \<Rightarrow> bool" where
  "linked h (a # b # cs) \<longleftrightarrow> next_of h a = b \<and> prev_of h b = a \<and> linked h (b # cs)"
| "linked h _ \<longleftrightarrow> True"

definition nodes :: "klist \<Rightarrow> ptr list \<Rightarrow> ptr list" where
  "nodes l xs = head l # xs @ [tail l]"

definition is_list :: "list_heap \<Rightarrow> klist \<Rightarrow> ptr list \<Rightarrow> bool" where
  "is_list h l xs \<longleftrightarrow>
     distinct (nodes l xs) \<and> NULL \<notin> set (nodes l xs) \<and>
     prev_of h (head l) = NULL \<and> next_of h (tail l) = NULL \<and> linked h (nodes l xs)"

lemma linked_append:
  "A \<noteq> [] \<Longrightarrow> B \<noteq> [] \<Longrightarrow>
   linked h (A @ B) \<longleftrightarrow>
     linked h A \<and> next_of h (last A) = hd B \<and> prev_of h (hd B) = last A \<and> linked h B"
proof (induction A rule: induct_list012)
  case (2 a)
  then show ?case by (cases B) auto
qed auto

lemma linked_cong:
  "(\<And>x. x \<in> set (butlast A) \<Longrightarrow> next_of h' x = next_of h x) \<Longrightarrow>
   (\<And>x. x \<in> set (tl A) \<Longrightarrow> prev_of h' x = prev_of h x) \<Longrightarrow>
   linked h' A = linked h A"
proof (induction h A rule: linked.induct)
  case (1 h a b cs)
  have "linked h' (b # cs) = linked h (b # cs)"
    using "1.prems" by (intro "1.IH") (cases cs; auto)+
  with "1.prems" show ?case by auto
qed auto

lemma is_list_cong:
  assumes "\<And>x. x \<in> set (nodes l xs) \<Longrightarrow> next_of h' x = next_of h x \<and> prev_of h' x = prev_of h x"
  shows "is_list h' l xs = is_list h l xs"
proof -
  have "linked h' (nodes l xs) = linked h (nodes l xs)"
    using assms by (intro linked_cong) (auto dest: in_set_butlastD list.set_sel(2) simp: nodes_def)
  moreover have "head l \<in> set (nodes l xs)" "tail l \<in> set (nodes l xs)"
    by (auto simp: nodes_def)
  ultimately show ?thesis using assms by (simp add: is_list_def)
qed

text \<open>The list cut in two at any point: what the operations at that point look at.\<close>

lemma is_list_cut:
  "is_list h l (xs @ ys) \<longleftrightarrow>
     distinct (nodes l (xs @ ys)) \<and> NULL \<notin> set (nodes l (xs @ ys)) \<and>
     prev_of h (head l) = NULL \<and> next_of h (tail l) = NULL \<and>
     linked h (head l # xs) \<and> linked h (ys @ [tail l]) \<and>
     next_of h (last (head l # xs)) = hd (ys @ [tail l]) \<and>
     prev_of h (hd (ys @ [tail l])) = last (head l # xs)"
proof -
  have "nodes l (xs @ ys) = (head l # xs) @ (ys @ [tail l])" by (simp add: nodes_def)
  then show ?thesis
    unfolding is_list_def using linked_append [of "head l # xs" "ys @ [tail l]" h] by auto
qed

lemma is_list_distinct: "is_list h l xs \<Longrightarrow> distinct xs"
  by (simp add: is_list_def nodes_def)

lemma is_list_begin: "is_list h l xs \<Longrightarrow> next_of h (head l) = hd (xs @ [tail l])"
  using is_list_cut [of h l "[]" xs] by simp

lemma is_list_rbegin: "is_list h l xs \<Longrightarrow> prev_of h (tail l) = last (head l # xs)"
  using is_list_cut [of h l xs "[]"] by simp

lemma nodes_nonnull:
  "is_list h l xs \<Longrightarrow> x \<in> set (nodes l xs) \<Longrightarrow> x \<noteq> NULL"
  by (metis is_list_def)

lemma is_list_unique:
  assumes "is_list h l xs" and "is_list h l ys"
  shows "xs = ys"
proof -
  have "linked h (a # xs @ [t]) \<Longrightarrow> linked h (a # ys @ [t]) \<Longrightarrow> t \<notin> set xs \<Longrightarrow> t \<notin> set ys \<Longrightarrow> xs = ys"
    for a t
  proof (induction xs arbitrary: a ys)
    case Nil
    then show ?case by (cases ys) auto
  next
    case (Cons x xs)
    then show ?case by (cases ys) auto
  qed
  with assms show ?thesis by (auto simp: is_list_def nodes_def)
qed

section \<open>Insertion and removal\<close>

definition insert_heap :: "list_heap \<Rightarrow> ptr \<Rightarrow> ptr \<Rightarrow> ptr \<Rightarrow> list_heap" where
  "insert_heap h p e b =
     h\<lparr>prev_of := (prev_of h)(e := p, b := e), next_of := (next_of h)(e := b, p := e)\<rparr>"

definition remove_heap :: "list_heap \<Rightarrow> ptr \<Rightarrow> ptr \<Rightarrow> list_heap" where
  "remove_heap h p n = h\<lparr>prev_of := (prev_of h)(n := p), next_of := (next_of h)(p := n)\<rparr>"

lemma list_insert_eq:
  assumes "b \<noteq> NULL" "prev_of h b = p" "p \<noteq> NULL" "e \<noteq> NULL" "e \<noteq> b"
  shows "list_insert h b e = Some (insert_heap h p e b)"
  using assms
  by (auto simp: list_insert_def is_interior_def is_tail_def mem_defs insert_heap_def)

lemma list_remove_eq:
  assumes "e \<noteq> NULL" "prev_of h e = p" "next_of h e = n" "p \<noteq> NULL" "n \<noteq> NULL" "p \<noteq> e" "n \<noteq> e"
  shows "list_remove h e = Some (n, remove_heap h p n)"
  using assms
  by (auto simp: list_remove_def is_interior_def mem_defs remove_heap_def)

lemma last_notin_butlast: "distinct xs \<Longrightarrow> xs \<noteq> [] \<Longrightarrow> last xs \<notin> set (butlast xs)"
  by (cases xs rule: rev_cases) auto

lemma hd_notin_tl: "distinct xs \<Longrightarrow> xs \<noteq> [] \<Longrightarrow> hd xs \<notin> set (tl xs)"
  by (cases xs) auto

lemma linked_insert_heap:
  assumes "linked h A" "linked h B" "A \<noteq> []" "B \<noteq> []" "distinct (A @ B)" "e \<notin> set (A @ B)"
  shows "linked (insert_heap h (last A) e (hd B)) (A @ e # B)" (is "linked ?h _")
proof -
  have mem: "last A \<in> set A" "hd B \<in> set B" using assms by auto
  have dj: "last A \<notin> set B" "hd B \<notin> set A" using assms mem by (auto simp: disjoint_iff)
  have ne: "last A \<noteq> e" "hd B \<noteq> e" "last A \<noteq> hd B" using assms mem dj by auto
  have "linked ?h A = linked h A"
    using assms dj last_notin_butlast [of A]
    by (intro linked_cong) (auto simp: insert_heap_def dest: in_set_butlastD list.set_sel(2))
  moreover have "linked ?h B = linked h B"
    using assms dj hd_notin_tl [of B]
    by (intro linked_cong) (auto simp: insert_heap_def dest: in_set_butlastD list.set_sel(2))
  moreover have "linked ?h (e # B) = linked ?h B"
    using assms(4) ne by (cases B) (auto simp: insert_heap_def)
  ultimately show ?thesis
    using assms ne by (simp add: linked_append insert_heap_def)
qed

lemma cut_ends:
  assumes "is_list h l (xs @ ys)"
  shows "last (head l # xs) \<notin> set (ys @ [tail l])" "hd (ys @ [tail l]) \<notin> set (head l # xs)"
    and "last (head l # xs) \<in> set (nodes l (xs @ ys))" "hd (ys @ [tail l]) \<in> set (nodes l (xs @ ys))"
    and "last (head l # xs) \<noteq> NULL" "hd (ys @ [tail l]) \<noteq> NULL"
proof -
  have m: "last (head l # xs) \<in> set (head l # xs)" "hd (ys @ [tail l]) \<in> set (ys @ [tail l])"
    by (rule last_in_set, simp, rule hd_in_set, simp)
  have "set (head l # xs) \<inter> set (ys @ [tail l]) = {}"
    using assms by (auto simp: is_list_def nodes_def)
  with m show "last (head l # xs) \<notin> set (ys @ [tail l])" "hd (ys @ [tail l]) \<notin> set (head l # xs)"
    by blast+
  show n: "last (head l # xs) \<in> set (nodes l (xs @ ys))" "hd (ys @ [tail l]) \<in> set (nodes l (xs @ ys))"
    using m unfolding nodes_def by (auto simp del: last.simps)
  show "last (head l # xs) \<noteq> NULL" "hd (ys @ [tail l]) \<noteq> NULL"
    using n assms nodes_nonnull by blast+
qed

lemma is_list_insert_heap:
  assumes L: "is_list h l (xs @ ys)" and e: "e \<noteq> NULL" "e \<notin> set (nodes l (xs @ ys))"
  shows "is_list (insert_heap h (last (head l # xs)) e (hd (ys @ [tail l]))) l (xs @ e # ys)"
proof -
  have "linked (insert_heap h (last (head l # xs)) e (hd (ys @ [tail l]))) ((head l # xs) @ e # (ys @ [tail l]))"
    using L e by (intro linked_insert_heap) (auto simp: is_list_cut nodes_def)
  moreover have "last (head l # xs) \<noteq> tail l" "hd (ys @ [tail l]) \<noteq> head l"
    using cut_ends [OF L] by (metis in_set_conv_decomp, metis list.set_intros(1))
  ultimately show ?thesis
    using L e by (auto simp: is_list_def nodes_def insert_heap_def)
qed

lemma linked_remove_heap:
  assumes "linked h (A @ e # B)" "A \<noteq> []" "B \<noteq> []" "distinct (A @ e # B)"
  shows "linked (remove_heap h (last A) (hd B)) (A @ B)" (is "linked ?h _")
proof -
  have mem: "last A \<in> set A" "hd B \<in> set B" using assms by auto
  have dj: "last A \<notin> set B" "hd B \<notin> set A" using assms mem by (auto simp: disjoint_iff)
  have lk: "linked h A" "linked h B"
    using assms by (cases B; simp add: linked_append)+
  have "linked ?h A = linked h A"
    using assms dj last_notin_butlast [of A]
    by (intro linked_cong) (auto simp: remove_heap_def dest: in_set_butlastD list.set_sel(2))
  moreover have "linked ?h B = linked h B"
    using assms dj hd_notin_tl [of B]
    by (intro linked_cong) (auto simp: remove_heap_def dest: in_set_butlastD list.set_sel(2))
  ultimately show ?thesis
    using assms lk by (simp add: linked_append remove_heap_def)
qed

lemma is_list_remove_heap:
  assumes L: "is_list h l (xs @ e # ys)"
  shows "is_list (remove_heap h (last (head l # xs)) (hd (ys @ [tail l]))) l (xs @ ys)"
proof -
  have "linked (remove_heap h (last (head l # xs)) (hd (ys @ [tail l]))) ((head l # xs) @ (ys @ [tail l]))"
    using L by (intro linked_remove_heap [where e = e]) (auto simp: is_list_def nodes_def)
  moreover have "last (head l # xs) \<noteq> tail l" "hd (ys @ [tail l]) \<noteq> head l"
    using cut_ends [of h l xs "e # ys"] cut_ends [of h l "xs @ [e]" ys] L
    by (simp_all del: last.simps)
  ultimately show ?thesis
    using L by (auto simp: is_list_def nodes_def remove_heap_def)
qed

lemma last_Cons_snoc: "last (a # xs @ [e]) = e"
  by simp

text \<open>The links around an element, and the two operations on them.\<close>

lemma is_list_around:
  assumes "is_list h l (xs @ e # ys)"
  shows "e \<noteq> NULL" "prev_of h e = last (head l # xs)" "next_of h e = hd (ys @ [tail l])"
    and "last (head l # xs) \<noteq> e" "hd (ys @ [tail l]) \<noteq> e"
    and "last (head l # xs) \<noteq> NULL" "hd (ys @ [tail l]) \<noteq> NULL"
  using cut_ends [of h l xs "e # ys"] cut_ends [of h l "xs @ [e]" ys] assms
    is_list_cut [of h l xs "e # ys"] is_list_cut [of h l "xs @ [e]" ys]
  by (simp_all del: last.simps add: last_Cons_snoc)

theorem list_insert_ok:
  assumes L: "is_list h l (xs @ ys)" and e: "e \<noteq> NULL" "e \<notin> set (nodes l (xs @ ys))"
  shows "list_insert h (hd (ys @ [tail l])) e =
           Some (insert_heap h (last (head l # xs)) e (hd (ys @ [tail l])))"
proof (rule list_insert_eq)
  show "prev_of h (hd (ys @ [tail l])) = last (head l # xs)" using L by (simp add: is_list_cut)
qed (use cut_ends [OF L] e in auto)

theorem list_remove_ok:
  assumes "is_list h l (xs @ e # ys)"
  shows "list_remove h e =
           Some (hd (ys @ [tail l]), remove_heap h (last (head l # xs)) (hd (ys @ [tail l])))"
  using is_list_around [OF assms] by (intro list_remove_eq) (simp_all del: last.simps)

section \<open>Frames\<close>

definition untouched :: "list_heap \<Rightarrow> list_heap \<Rightarrow> ptr set \<Rightarrow> bool" where
  "untouched h h' S \<longleftrightarrow> (\<forall>x. x \<notin> S \<longrightarrow> prev_of h' x = prev_of h x \<and> next_of h' x = next_of h x)"

lemma untouched_refl [frame_simps]: "untouched h h S"
  by (simp add: untouched_def)

lemma untouched_trans: "untouched h h' S \<Longrightarrow> untouched h' h'' T \<Longrightarrow> S \<union> T \<subseteq> U \<Longrightarrow> untouched h h'' U"
  unfolding untouched_def by (metis Un_iff subsetD)

lemma untouched_mono: "untouched h h' S \<Longrightarrow> S \<subseteq> U \<Longrightarrow> untouched h h' U"
  by (auto simp: untouched_def)

lemma untouched_is_list:
  "untouched h h' S \<Longrightarrow> set (nodes m zs) \<inter> S = {} \<Longrightarrow> is_list h' m zs = is_list h m zs"
  by (rule is_list_cong) (auto simp: untouched_def)

lemma untouched_insert_heap [frame_simps]: "{p, e, b} \<subseteq> S \<Longrightarrow> untouched h (insert_heap h p e b) S"
  by (auto simp: untouched_def insert_heap_def)

lemma untouched_remove_heap [frame_simps]: "{p, n} \<subseteq> S \<Longrightarrow> untouched h (remove_heap h p n) S"
  by (auto simp: untouched_def remove_heap_def)

lemma list_insert_refines:
  assumes L: "is_list h l (xs @ ys)" and e: "e \<noteq> NULL" "e \<notin> set (nodes l (xs @ ys))"
    and b: "b = hd (ys @ [tail l])"
  shows "\<exists>h'. list_insert h b e = Some h' \<and> is_list h' l (xs @ e # ys) \<and>
              untouched h h' (set (nodes l (xs @ e # ys)))"
  using is_list_insert_heap [OF L e] list_insert_ok [OF L e] cut_ends [OF L] b
  by (auto intro!: untouched_insert_heap simp: nodes_def simp del: last.simps)

lemma list_remove_refines:
  assumes L: "is_list h l (xs @ e # ys)"
  shows "\<exists>h'. list_remove h e = Some (hd (ys @ [tail l]), h') \<and> is_list h' l (xs @ ys) \<and>
              untouched h h' (set (nodes l (xs @ ys)))"
proof -
  have "last (head l # xs) \<in> set (nodes l (xs @ ys))" "hd (ys @ [tail l]) \<in> set (nodes l (xs @ ys))"
    by (cases ys; auto simp: nodes_def)+
  then show ?thesis
    using is_list_remove_heap [OF L] list_remove_ok [OF L]
    by (auto intro!: untouched_remove_heap simp del: last.simps)
qed

section \<open>The other operations on a list\<close>

lemma list_init_refines:
  assumes "head l \<noteq> NULL" "tail l \<noteq> NULL" "head l \<noteq> tail l"
  shows "\<exists>h'. list_init h l = Some h' \<and> is_list h' l [] \<and> untouched h h' {head l, tail l}"
  using assms by (auto simp: list_init_def mem_defs is_list_def nodes_def untouched_def)

lemma is_list_header:
  assumes "is_list h l xs"
  shows "head l \<noteq> NULL" "tail l \<noteq> NULL" "head l \<noteq> tail l"
  using assms nodes_nonnull [OF assms] by (auto simp: is_list_def nodes_def)

lemma list_begin_eq: "is_list h l xs \<Longrightarrow> list_begin h l = Some (hd (xs @ [tail l]))"
  using is_list_header [of h l xs] is_list_begin [of h l xs] by (simp add: list_begin_def mem_defs)

lemma list_end_eq: "is_list h l xs \<Longrightarrow> list_end l = Some (tail l)"
  using is_list_header [of h l xs] by (simp add: list_end_def)

lemma list_rbegin_eq: "is_list h l xs \<Longrightarrow> list_rbegin h l = Some (last (head l # xs))"
  using is_list_header [of h l xs] is_list_rbegin [of h l xs] by (simp add: list_rbegin_def mem_defs)

lemma list_rend_eq: "is_list h l xs \<Longrightarrow> list_rend l = Some (head l)"
  using is_list_header [of h l xs] by (simp add: list_rend_def)

lemma list_next_eq: "is_list h l (xs @ e # ys) \<Longrightarrow> list_next h e = Some (hd (ys @ [tail l]))"
  using is_list_around [of h l xs e ys]
  by (auto simp: list_next_def is_interior_def mem_defs simp del: last.simps)

lemma list_prev_eq: "is_list h l (xs @ e # ys) \<Longrightarrow> list_prev h e = Some (last (head l # xs))"
  using is_list_around [of h l xs e ys]
  by (auto simp: list_prev_def is_interior_def mem_defs simp del: last.simps)

lemma list_prev_tail: "is_list h l xs \<Longrightarrow> list_prev h (tail l) = Some (last (head l # xs))"
  using is_list_rbegin [of h l xs] is_list_header [of h l xs] cut_ends [of h l xs "[]"]
  by (auto simp: list_prev_def is_tail_def is_list_def mem_defs simp del: last.simps)

lemma hd_snoc_eq_tail: "is_list h l xs \<Longrightarrow> hd (xs @ [tail l]) = tail l \<longleftrightarrow> xs = []"
  by (cases xs) (auto simp: is_list_def nodes_def)

lemma list_empty_eq: "is_list h l xs \<Longrightarrow> list_empty h l = Some (xs = [])"
  using hd_snoc_eq_tail [of h l xs]
  by (simp add: list_empty_def list_begin_eq list_end_eq)

lemma list_front_eq: "is_list h l xs \<Longrightarrow> list_front h l = (if xs = [] then None else Some (hd xs))"
  using is_list_header [of h l xs]
  by (simp add: list_front_def list_empty_eq mem_defs is_list_begin)

lemma list_back_eq: "is_list h l xs \<Longrightarrow> list_back h l = (if xs = [] then None else Some (last xs))"
  using is_list_header [of h l xs]
  by (simp add: list_back_def list_empty_eq mem_defs is_list_rbegin)

lemma list_push_back_refines:
  assumes "is_list h l xs" "e \<noteq> NULL" "e \<notin> set (nodes l xs)"
  shows "\<exists>h'. list_push_back h l e = Some h' \<and> is_list h' l (xs @ [e]) \<and>
              untouched h h' (set (nodes l (xs @ [e])))"
  using assms list_insert_refines [of h l xs "[]" e "tail l"]
  by (simp add: list_push_back_def list_end_eq)

lemma list_push_front_refines:
  assumes "is_list h l xs" "e \<noteq> NULL" "e \<notin> set (nodes l xs)"
  shows "\<exists>h'. list_push_front h l e = Some h' \<and> is_list h' l (e # xs) \<and>
              untouched h h' (set (nodes l (e # xs)))"
  using assms list_insert_refines [of h l "[]" xs e "hd (xs @ [tail l])"]
  by (simp add: list_push_front_def list_begin_eq)

lemma list_pop_front_refines:
  assumes "is_list h l (x # xs)"
  shows "\<exists>h'. list_pop_front h l = Some (x, h') \<and> is_list h' l xs \<and> untouched h h' (set (nodes l xs))"
  using assms list_remove_refines [of h l "[]" x xs]
  by (auto simp: list_pop_front_def list_front_eq)

lemma list_pop_back_refines:
  assumes "is_list h l (xs @ [x])"
  shows "\<exists>h'. list_pop_back h l = Some (x, h') \<and> is_list h' l xs \<and> untouched h h' (set (nodes l xs))"
  using assms list_remove_refines [of h l xs x "[]"]
  by (auto simp: list_pop_back_def list_back_eq)

lemma list_pop_empty:
  "is_list h l [] \<Longrightarrow> list_pop_front h l = None \<and> list_pop_back h l = None"
  by (simp add: list_pop_front_def list_pop_back_def list_front_eq list_back_eq)

section \<open>Contracts\<close>

definition list_fits :: "klist \<Rightarrow> ptr list \<Rightarrow> ptr \<Rightarrow> bool" where
  "list_fits l xs e \<longleftrightarrow> e \<noteq> NULL \<and> e \<notin> set (nodes l xs)"

interpretation klist_fifo: fifo is_list list_fits list_push_back list_pop_front
proof
  show "is_list h l xs \<Longrightarrow> list_fits l xs e \<Longrightarrow> \<exists>h'. list_push_back h l e = Some h' \<and> is_list h' l (xs @ [e])"
    for h l xs e
    using list_push_back_refines [of h l xs e] by (auto simp: list_fits_def)
  show "is_list h l (x # xs) \<Longrightarrow> \<exists>h'. list_pop_front h l = Some (x, h') \<and> is_list h' l xs" for h l x xs
    using list_pop_front_refines [of h l x xs] by blast
  show "is_list h l [] \<Longrightarrow> list_pop_front h l = None" for h l
    by (simp add: list_pop_empty)
qed

text \<open>A memory with one list of three elements, for the concrete instances.\<close>

definition three_list :: klist where
  "three_list = \<lparr>head = 1, tail = 2\<rparr>"

definition three_heap :: list_heap where
  "three_heap = \<lparr>prev_of = (\<lambda>_. NULL)(30 := 1, 10 := 30, 20 := 10, 2 := 20),
                 next_of = (\<lambda>_. NULL)(1 := 30, 30 := 10, 10 := 20, 20 := 2)\<rparr>"

lemma three_is_list: "is_list three_heap three_list [30, 10, 20]"
  by (simp add: is_list_def nodes_def three_heap_def three_list_def)

text \<open>C1. \<open>list_insert\<close> before any element or the end of a well-formed list returns (its
  assertions hold), the list then has the new element at that place, and every list whose
  elements and headers are disjoint from it is untouched.\<close>

theorem list_insert_spec:
  assumes "is_list h l (xs @ ys)" and "e \<noteq> NULL" and "e \<notin> set (nodes l (xs @ ys))"
  shows "\<exists>h'. list_insert h (hd (ys @ [tail l])) e = Some h' \<and> is_list h' l (xs @ e # ys) \<and>
    (\<forall>m zs. is_list h m zs \<and> set (nodes m zs) \<inter> set (nodes l (xs @ e # ys)) = {} \<longrightarrow> is_list h' m zs)"
  using list_insert_refines [OF assms refl] untouched_is_list by blast

theorem list_insert_spec_witness:
  "\<exists>h'. list_insert three_heap 10 40 = Some h' \<and> is_list h' three_list [30, 40, 10, 20]"
proof -
  have "is_list three_heap three_list ([30] @ [10, 20])" using three_is_list by simp
  moreover have "(40::nat) \<notin> set (nodes three_list ([30] @ [10, 20]))"
    by (simp add: nodes_def three_list_def)
  ultimately show ?thesis using list_insert_spec [of three_heap three_list "[30]" "[10, 20]" 40] by auto
qed

text \<open>C2. \<open>list_remove\<close> of an element of a well-formed list returns the element that followed
  it, takes exactly that element out of the list and leaves disjoint lists untouched. The comment
  of \<open>list_remove\<close> calls \<open>list_next\<close> on a removed element undefined and says that a loop that does so
  will fail; the code disagrees: it leaves the links of the removed element as they were, so right after
  the removal \<open>list_next\<close> still yields the old successor. The loop of \<open>timer_interrupt\<close> over the sleeping
  threads depends on this.\<close>

theorem list_remove_spec:
  assumes "is_list h l (xs @ e # ys)"
  shows "\<exists>h'. list_remove h e = Some (hd (ys @ [tail l]), h') \<and> is_list h' l (xs @ ys) \<and>
    list_next h' e = list_next h e \<and>
    (\<forall>m zs. is_list h m zs \<and> set (nodes m zs) \<inter> set (nodes l (xs @ ys)) = {} \<longrightarrow> is_list h' m zs)"
proof -
  obtain h' where h': "list_remove h e = Some (hd (ys @ [tail l]), h')" "is_list h' l (xs @ ys)"
      "untouched h h' (set (nodes l (xs @ ys)))"
    using list_remove_refines [OF assms] by blast
  have "e \<notin> set (nodes l (xs @ ys))" using assms by (auto simp: is_list_def nodes_def)
  then have "prev_of h' e = prev_of h e" "next_of h' e = next_of h e"
    using h'(3) by (auto simp: untouched_def)
  then have "list_next h' e = list_next h e"
    by (simp add: list_next_def is_head_def is_interior_def mem_defs)
  with h' untouched_is_list [OF h'(3)] show ?thesis by blast
qed

theorem list_remove_spec_witness:
  "\<exists>h'. list_remove three_heap 10 = Some (20, h') \<and> is_list h' three_list [30, 20] \<and> list_next h' 10 = Some 20"
proof -
  have "is_list three_heap three_list ([30] @ 10 # [20])" using three_is_list by simp
  moreover have "list_next three_heap 10 = Some 20"
    by (simp add: list_next_def is_interior_def mem_defs three_heap_def)
  ultimately show ?thesis using list_remove_spec [of three_heap three_list "[30]" 10 "[20]"] by auto
qed

text \<open>C3. The list is a first-in first-out queue under \<open>list_push_back\<close> and
  \<open>list_pop_front\<close>: pushing any sequence of fresh elements and then popping everything
  returns what was in the list followed by the pushed elements, in order, and one more
  \<open>list_pop_front\<close> than there are elements hits the assertion.\<close>

theorem list_fifo:
  assumes "is_list h l xs" and "\<forall>e\<in>set es. e \<noteq> NULL \<and> e \<notin> set (nodes l xs)" and "distinct es"
  shows "\<exists>h1 h2. push_all list_push_back h l es = Some h1 \<and>
     pop_all list_pop_front h1 l (length xs + length es) = Some (xs @ es, h2) \<and>
     is_list h2 l [] \<and> pop_all list_pop_front h1 l (Suc (length xs + length es)) = None"
proof -
  have fits: "list_fits l (xs @ take i es) (es ! i)" if "i < length es" for i
  proof -
    have "es ! i \<notin> set (take i es)"
      using assms(3) that by (metis id_take_nth_drop not_distinct_conv_prefix distinct_append disjoint_insert(2) list.simps(15))
    then show ?thesis using assms(2) nth_mem [OF that] by (auto simp: list_fits_def nodes_def)
  qed
  obtain h1 where h1: "push_all list_push_back h l es = Some h1" "is_list h1 l (xs @ es)"
    using klist_fifo.push_all_rep [OF assms(1) fits] by blast
  then show ?thesis
    using klist_fifo.pop_all_rep [OF h1(2)] klist_fifo.pop_all_too_many [OF h1(2)] by fastforce
qed

theorem list_fifo_witness:
  "\<exists>h1 h2. push_all list_push_back three_heap three_list [40, 50] = Some h1 \<and>
     pop_all list_pop_front h1 three_list 5 = Some ([30, 10, 20, 40, 50], h2)"
proof -
  have fresh: "\<forall>e\<in>set [40, 50]. e \<noteq> NULL \<and> e \<notin> set (nodes three_list [30, 10, 20])" "distinct [40, 50 :: nat]"
    by (simp_all add: nodes_def three_list_def)
  have n: "length [30, 10, 20 :: nat] + length [40, 50 :: nat] = 5" by simp
  show ?thesis using list_fifo [OF three_is_list fresh, unfolded n] by (metis append.simps)
qed

end
