(* ===== verification/Kernel_List_Algo.thy ===== *)
theory Kernel_List_Algo
  imports Kernel_List "HOL-Library.Multiset"
begin

text \<open>
  Correctness of the algorithms of \<open>src/lib/kernel/list.c\<close> that walk a list:
  size, ordered insertion, maximum and minimum, removal of adjacent duplicates, reversal
  and the natural merge sort. Each loop of the memory model is shown to compute a
  function of the list of elements, and with it to return.
\<close>

section \<open>Walking a list\<close>

lemma walk_step:
  assumes "is_list h l (xs @ e # ys)"
  shows "list_end l = Some (tail l)" "e \<noteq> tail l" "list_next h e = Some (hd (ys @ [tail l]))"
  using assms list_end_eq [OF assms] list_next_eq [OF assms] by (auto simp: is_list_def nodes_def)

lemma list_size_loop_eq:
  "is_list h l (xs @ ys) \<Longrightarrow> list_size_loop h l (hd (ys @ [tail l])) n = Some (n + length ys)"
proof (induction ys arbitrary: xs n)
  case Nil
  then show ?case by (subst list_size_loop.simps) (simp add: list_end_eq)
next
  case (Cons y ys)
  with Cons.IH [of "xs @ [y]"] walk_step [OF Cons.prems] show ?case
    by (subst list_size_loop.simps) simp
qed

lemma list_size_eq: "is_list h l xs \<Longrightarrow> list_size h l = Some (length xs)"
  using list_size_loop_eq [of h l "[]" xs 0]
  by (simp add: list_size_def list_begin_eq)

lemma insert_ordered_pos_eq:
  "is_list h l (xs @ ys) \<Longrightarrow>
   insert_ordered_pos h l (hd (ys @ [tail l])) e lt =
     Some (hd (dropWhile (\<lambda>x. \<not> lt e x) ys @ [tail l]))"
proof (induction ys arbitrary: xs)
  case Nil
  then show ?case by (subst insert_ordered_pos.simps) (simp add: list_end_eq)
next
  case (Cons y ys)
  with Cons.IH [of "xs @ [y]"] walk_step [OF Cons.prems] show ?case
    by (subst insert_ordered_pos.simps) simp
qed

lemma list_insert_ordered_refines:
  assumes L: "is_list h l xs" and e: "e \<noteq> NULL" "e \<notin> set (nodes l xs)"
  shows "\<exists>h'. list_insert_ordered h l e lt = Some h' \<and>
     is_list h' l (takeWhile (\<lambda>x. \<not> lt e x) xs @ e # dropWhile (\<lambda>x. \<not> lt e x) xs) \<and>
     untouched h h' (set (nodes l (e # xs)))"
proof -
  let ?P = "\<lambda>x. \<not> lt e x"
  have "set (nodes l (takeWhile ?P xs @ e # dropWhile ?P xs)) = set (nodes l (e # xs))"
    by (metis (no_types, lifting) Un_insert_right list.simps(15) nodes_def set_append takeWhile_dropWhile_id)
  moreover have "is_list h l (takeWhile ?P xs @ dropWhile ?P xs)" using L by simp
  ultimately show ?thesis
    using L e is_list_header [OF L] insert_ordered_pos_eq [of h l "[]" xs e lt]
      list_insert_refines [of h l "takeWhile ?P xs" "dropWhile ?P xs" e]
    by (simp add: list_insert_ordered_def list_begin_eq)
qed

section \<open>Maximum and minimum\<close>

fun max_from :: "(ptr \<Rightarrow> ptr \<Rightarrow> bool) \<Rightarrow> ptr \<Rightarrow> ptr list \<Rightarrow> ptr" where
  "max_from lt m [] = m"
| "max_from lt m (x # xs) = max_from lt (if lt m x then x else m) xs"

lemma list_max_loop_eq:
  "is_list h l (xs @ ys) \<Longrightarrow> list_max_loop h l (hd (ys @ [tail l])) m lt = Some (max_from lt m ys)"
proof (induction ys arbitrary: xs m)
  case Nil
  then show ?case by (subst list_max_loop.simps) (simp add: list_end_eq)
next
  case (Cons y ys)
  with Cons.IH [of "xs @ [y]"] walk_step [OF Cons.prems] show ?case
    by (subst list_max_loop.simps) simp
qed

lemma list_min_loop_eq:
  "is_list h l (xs @ ys) \<Longrightarrow>
   list_min_loop h l (hd (ys @ [tail l])) m lt = Some (max_from (\<lambda>a b. lt b a) m ys)"
proof (induction ys arbitrary: xs m)
  case Nil
  then show ?case by (subst list_min_loop.simps) (simp add: list_end_eq)
next
  case (Cons y ys)
  with Cons.IH [of "xs @ [y]"] walk_step [OF Cons.prems] show ?case
    by (subst list_min_loop.simps) simp
qed

lemma list_max_eq: "is_list h l (x # xs) \<Longrightarrow> list_max h l lt = Some (max_from lt x xs)"
  using walk_step [of h l "[]" x xs] list_max_loop_eq [of h l "[x]" xs]
  by (simp add: list_max_def list_begin_eq)

lemma list_min_eq: "is_list h l (x # xs) \<Longrightarrow> list_min h l lt = Some (max_from (\<lambda>a b. lt b a) x xs)"
  using walk_step [of h l "[]" x xs] list_min_loop_eq [of h l "[x]" xs]
  by (simp add: list_min_def list_begin_eq)

lemma list_max_empty: "is_list h l [] \<Longrightarrow> list_max h l lt = Some (tail l) \<and> list_min h l lt = Some (tail l)"
  by (simp add: list_max_def list_min_def list_begin_eq list_end_eq)

lemma max_from_first:
  "strict_weak lt \<Longrightarrow> \<exists>as bs. m # xs = as @ max_from lt m xs # bs \<and>
     (\<forall>a\<in>set as. lt a (max_from lt m xs)) \<and> (\<forall>b\<in>set bs. \<not> lt (max_from lt m xs) b)"
proof (induction xs arbitrary: m rule: rev_induct)
  case Nil
  show ?case by (intro exI [of _ "[]"]) auto
next
  case (snoc x xs)
  let ?m = "max_from lt m xs"
  have app: "max_from lt m (xs @ [x]) = (if lt ?m x then x else ?m)"
    by (induction xs arbitrary: m) auto
  obtain as bs where *: "m # xs = as @ ?m # bs" "\<forall>a\<in>set as. lt a ?m" "\<forall>b\<in>set bs. \<not> lt ?m b"
    using snoc by blast
  show ?case
  proof (cases "lt ?m x")
    case True
    have "a \<in> set (as @ ?m # bs) \<Longrightarrow> lt a x" for a
      using *(2,3) True snoc.prems unfolding strict_weak_def by (metis Un_iff set_append set_ConsD)
    then have "\<forall>a\<in>set (m # xs). lt a x" using *(1) by metis
    with True app show ?thesis by (intro exI [of _ "m # xs"] exI [of _ "[]"]) auto
  next
    case False
    with * app show ?thesis by (intro exI [of _ as] exI [of _ "bs @ [x]"]) auto
  qed
qed

section \<open>Adjacent duplicates\<close>

fun uniq :: "(ptr \<Rightarrow> ptr \<Rightarrow> bool) \<Rightarrow> ptr \<Rightarrow> ptr list \<Rightarrow> ptr list" where
  "uniq lt x [] = [x]"
| "uniq lt x (y # ys) = (if \<not> lt x y \<and> \<not> lt y x then uniq lt x ys else x # uniq lt y ys)"

fun dups :: "(ptr \<Rightarrow> ptr \<Rightarrow> bool) \<Rightarrow> ptr \<Rightarrow> ptr list \<Rightarrow> ptr list" where
  "dups lt x [] = []"
| "dups lt x (y # ys) = (if \<not> lt x y \<and> \<not> lt y x then y # dups lt x ys else dups lt y ys)"

lemma mset_uniq_dups: "mset (uniq lt x ys) + mset (dups lt x ys) = mset (x # ys)"
  by (induction ys arbitrary: x) auto

lemma uniq_distinct_adjacent:
  "successively (\<lambda>a b. lt a b \<or> lt b a) (uniq lt x ys) \<and> hd (uniq lt x ys) = x \<and> uniq lt x ys \<noteq> []"
proof (induction ys arbitrary: x)
  case (Cons y ys)
  from Cons.IH [of x] Cons.IH [of y] show ?case by (auto simp: successively_Cons)
qed simp

lemma list_unique_loop_dup:
  assumes "is_list h l (xs @ x # ys)" "is_list h d zs" "set (nodes l (xs @ x # ys)) \<inter> set (nodes d zs) = {}"
  shows "\<exists>h'. list_unique_loop h l (Some d) x lt = Some h' \<and> is_list h' l (xs @ uniq lt x ys) \<and>
              is_list h' d (zs @ dups lt x ys)"
  using assms
proof (induction ys arbitrary: h xs x zs)
  case Nil
  with walk_step [OF Nil(1)] show ?case by (subst list_unique_loop.simps) simp
next
  case (Cons y ys)
  note st = walk_step [OF Cons.prems(1)]
  have Ly: "is_list h l ((xs @ [x]) @ y # ys)" using Cons.prems(1) by simp
  then have y: "y \<noteq> tail l" "y \<noteq> NULL"
    using is_list_around(1) [OF Ly] by (auto simp: is_list_def nodes_def)
  show ?case
  proof (cases "\<not> lt x y \<and> \<not> lt y x")
    case True
    obtain h1 where h1: "list_remove h y = Some (hd (ys @ [tail l]), h1)" "is_list h1 l (xs @ x # ys)"
        "untouched h h1 (set (nodes l (xs @ x # ys)))"
      using list_remove_refines [OF Ly] by auto
    have "is_list h1 d zs"
      using untouched_is_list [OF h1(3), of d zs] Cons.prems by (auto simp: nodes_def)
    then obtain h2 where h2: "list_push_back h1 d y = Some h2" "is_list h2 d (zs @ [y])"
        "untouched h1 h2 (set (nodes d (zs @ [y])))"
      using list_push_back_refines [of h1 d zs y] y Cons.prems(3) by (auto simp: nodes_def)
    have "distinct (nodes l (xs @ x # y # ys))" using Cons.prems(1) by (simp add: is_list_def)
    then have "set (nodes l (xs @ x # ys)) \<inter> set (nodes d (zs @ [y])) = {}"
      using Cons.prems(3) by (auto simp: nodes_def)
    with h1(2) h2(3) have "is_list h2 l (xs @ x # ys)" by (simp add: untouched_is_list)
    with Cons.IH [OF this h2(2)] \<open>set (nodes l (xs @ x # ys)) \<inter> _ = {}\<close> h1 h2 True st y show ?thesis
      by (subst list_unique_loop.simps) auto
  next
    case False
    with Cons.IH [OF Ly Cons.prems(2)] Cons.prems(3) st y show ?thesis
      by (subst list_unique_loop.simps) (auto simp: nodes_def)
  qed
qed

lemma list_unique_loop_nodup:
  assumes "is_list h l (xs @ x # ys)"
  shows "\<exists>h'. list_unique_loop h l None x lt = Some h' \<and> is_list h' l (xs @ uniq lt x ys)"
  using assms
proof (induction ys arbitrary: h xs x)
  case Nil
  with walk_step [OF Nil(1)] show ?case by (subst list_unique_loop.simps) simp
next
  case (Cons y ys)
  note st = walk_step [OF Cons.prems(1)]
  have Ly: "is_list h l ((xs @ [x]) @ y # ys)" using Cons.prems(1) by simp
  then have y: "y \<noteq> tail l" by (auto simp: is_list_def nodes_def)
  show ?case
  proof (cases "\<not> lt x y \<and> \<not> lt y x")
    case True
    obtain h1 where h1: "list_remove h y = Some (hd (ys @ [tail l]), h1)" "is_list h1 l (xs @ x # ys)"
      using list_remove_refines [OF Ly] by auto
    from Cons.IH [OF this(2)] h1 True st y show ?thesis
      by (subst list_unique_loop.simps) auto
  next
    case False
    with Cons.IH [OF Ly] st y show ?thesis
      by (subst list_unique_loop.simps) auto
  qed
qed

section \<open>Reversal\<close>

definition swapped :: "list_heap \<Rightarrow> ptr set \<Rightarrow> list_heap" where
  "swapped h S = h\<lparr>prev_of := \<lambda>x. if x \<in> S then next_of h x else prev_of h x,
                   next_of := \<lambda>x. if x \<in> S then prev_of h x else next_of h x\<rparr>"

lemma list_reverse_loop_eq:
  "is_list h l (xs @ ys) \<Longrightarrow>
   list_reverse_loop (swapped h (set xs)) l (hd (ys @ [tail l])) = Some (swapped h (set (xs @ ys)))"
proof (induction ys arbitrary: xs)
  case Nil
  then show ?case by (subst list_reverse_loop.simps) (simp add: list_end_eq)
next
  case (Cons y ys)
  note L = Cons.prems
  have y: "y \<notin> set xs" "y \<noteq> NULL" "next_of h y = hd (ys @ [tail l])"
    using is_list_around [OF L] is_list_distinct [OF L] by auto
  then have "swap_links (swapped h (set xs)) y = Some (swapped h (set (xs @ [y])))"
    by (auto simp: swap_links_def mem_defs swapped_def fun_eq_iff)
  moreover have "rd_prev (swapped h (set (xs @ [y]))) y = Some (hd (ys @ [tail l]))"
    using y by (simp add: mem_defs swapped_def)
  ultimately show ?case
    using Cons.IH [of "xs @ [y]"] L walk_step [OF L]
    by (subst list_reverse_loop.simps) simp
qed

lemma linked_rev:
  "linked h A \<Longrightarrow> (\<And>x. x \<in> set (tl A) \<Longrightarrow> next_of h' x = prev_of h x) \<Longrightarrow>
   (\<And>x. x \<in> set (butlast A) \<Longrightarrow> prev_of h' x = next_of h x) \<Longrightarrow> linked h' (rev A)"
proof (induction A rule: induct_list012)
  case (3 a b cs)
  have "linked h' (rev (b # cs))" using 3 by (cases cs) auto
  with 3 show ?case
    using linked_append [of "rev (b # cs)" "[a]" h'] by auto
qed auto

lemma list_reverse_links:
  assumes L: "is_list h l xs" and ne: "xs \<noteq> []"
  shows "\<exists>h'. list_reverse h l = Some h' \<and>
     prev_of h' = (prev_of (swapped h (set xs)))(tail l := hd xs, last xs := head l) \<and>
     next_of h' = (next_of (swapped h (set xs)))(head l := last xs, hd xs := tail l)"
proof -
  define a z where "a = hd xs" and "z = last xs"
  have ends: "next_of h (head l) = a" "prev_of h (tail l) = z" "prev_of h a = head l" "next_of h z = tail l"
    using is_list_cut [of h l "[]" xs] is_list_cut [of h l xs "[]"] L ne by (auto simp: a_def z_def)
  have mem: "a \<in> set xs" "z \<in> set xs" using ne by (auto simp: a_def z_def)
  then have nz: "a \<noteq> NULL" "z \<noteq> NULL" using nodes_nonnull [OF L] by (simp_all add: nodes_def)
  have nh: "head l \<notin> set xs" "tail l \<notin> set xs" using L by (auto simp: is_list_def nodes_def)
  have neq: "a \<noteq> head l" "a \<noteq> tail l" "z \<noteq> head l" "z \<noteq> tail l" using mem nh by auto
  have "list_begin h l = Some a" using list_begin_eq [OF L] ne by (simp add: a_def)
  moreover have "list_reverse_loop h l a = Some (swapped h (set xs))"
    using list_reverse_loop_eq [of h l "[]" xs] L ne by (simp add: swapped_def a_def)
  ultimately have "\<exists>h'. list_reverse h l = Some h' \<and>
     prev_of h' = (prev_of (swapped h (set xs)))(tail l := a, z := head l) \<and>
     next_of h' = (next_of (swapped h (set xs)))(head l := z, a := tail l)"
    using ne ends mem nz nh neq is_list_header [OF L]
    by (auto simp: list_reverse_def list_empty_eq [OF L] swap_next_prev_def mem_defs swapped_def)
  then show ?thesis by (simp add: a_def z_def)
qed

lemma is_list_interior: "is_list h l xs \<Longrightarrow> linked h xs"
  using linked_append [of "[head l]" "xs @ [tail l]" h] linked_append [of xs "[tail l]" h]
  by (cases "xs = []") (auto simp: is_list_def nodes_def)

lemma is_list_from_interior:
  assumes "xs \<noteq> []" "linked h xs" "distinct (nodes l xs)" "NULL \<notin> set (nodes l xs)"
    and "prev_of h (head l) = NULL" "next_of h (tail l) = NULL"
    and "next_of h (head l) = hd xs" "prev_of h (hd xs) = head l"
    and "next_of h (last xs) = tail l" "prev_of h (tail l) = last xs"
  shows "is_list h l xs"
  using assms linked_append [of "[head l]" "xs @ [tail l]" h] linked_append [of xs "[tail l]" h]
  by (auto simp: is_list_def nodes_def)

lemma list_reverse_refines:
  assumes L: "is_list h l xs"
  shows "\<exists>h'. list_reverse h l = Some h' \<and> is_list h' l (rev xs) \<and> untouched h h' (set (nodes l xs))"
proof (cases "xs = []")
  case True
  with L show ?thesis by (auto simp: list_reverse_def list_empty_eq frame_simps)
next
  case False
  then obtain h' where h': "list_reverse h l = Some h'"
      and p: "prev_of h' = (prev_of (swapped h (set xs)))(tail l := hd xs, last xs := head l)"
      and n: "next_of h' = (next_of (swapped h (set xs)))(head l := last xs, hd xs := tail l)"
    using list_reverse_links [OF L] by blast
  have mem: "hd xs \<in> set xs" "last xs \<in> set xs" using False by auto
  have nh: "head l \<notin> set xs" "tail l \<notin> set xs" "distinct xs" "head l \<noteq> tail l"
    using L by (auto simp: is_list_def nodes_def)
  then have neq: "hd xs \<noteq> head l" "hd xs \<noteq> tail l" "last xs \<noteq> head l" "last xs \<noteq> tail l" using mem by auto
  have "linked h' (rev xs)"
    using nh neq last_notin_butlast [of xs] hd_notin_tl [of xs] False
    by (intro linked_rev [OF is_list_interior [OF L]])
       (auto simp: p n swapped_def dest: in_set_butlastD list.set_sel(2))
  then have "is_list h' l (rev xs)"
    using L False nh neq
    by (intro is_list_from_interior) (auto simp: is_list_def nodes_def p n swapped_def hd_rev last_rev)
  moreover have "untouched h h' (set (nodes l xs))"
    using mem by (auto simp: untouched_def p n swapped_def nodes_def)
  ultimately show ?thesis using h' by blast
qed

section \<open>Splicing\<close>

definition splice_heap :: "list_heap \<Rightarrow> ptr list \<Rightarrow> ptr list \<Rightarrow> ptr list \<Rightarrow> ptr list \<Rightarrow> list_heap" where
  "splice_heap h A Y M B =
     h\<lparr>prev_of := (prev_of h)(hd B := last Y, hd M := last A, hd Y := last M),
       next_of := (next_of h)(last Y := hd B, last M := hd Y, last A := hd M)\<rparr>"

lemma linked_splice_heap:
  assumes "linked h (A @ Y @ M @ B)" "A \<noteq> []" "Y \<noteq> []" "M \<noteq> []" "B \<noteq> []" "distinct (A @ Y @ M @ B)"
  shows "linked (splice_heap h A Y M B) (A @ M @ Y @ B)" (is "linked ?h _")
proof -
  have lk: "linked h A" "linked h Y" "linked h M" "linked h B"
    using assms by (auto simp: linked_append)
  have mem: "last A \<in> set A" "last Y \<in> set Y" "last M \<in> set M" "hd Y \<in> set Y" "hd M \<in> set M" "hd B \<in> set B"
    using assms by auto
  have d: "set A \<inter> set Y = {}" "set A \<inter> set M = {}" "set A \<inter> set B = {}"
      "set Y \<inter> set M = {}" "set Y \<inter> set B = {}" "set M \<inter> set B = {}"
    using assms(6) by auto
  have nl: "last A \<notin> set Y \<union> set M \<union> set B" "last Y \<notin> set A \<union> set M \<union> set B"
      "last M \<notin> set A \<union> set Y \<union> set B" "hd Y \<notin> set A \<union> set M \<union> set B"
      "hd M \<notin> set A \<union> set Y \<union> set B" "hd B \<notin> set A \<union> set Y \<union> set M"
    using mem d by blast+
  have ends: "last A \<notin> set (butlast A)" "last Y \<notin> set (butlast Y)" "last M \<notin> set (butlast M)"
      "hd Y \<notin> set (tl Y)" "hd M \<notin> set (tl M)" "hd B \<notin> set (tl B)"
    using assms by (simp_all add: last_notin_butlast hd_notin_tl)
  have keep: "linked ?h C = linked h C"
    if "last A \<notin> set (butlast C)" "last Y \<notin> set (butlast C)" "last M \<notin> set (butlast C)"
      "hd Y \<notin> set (tl C)" "hd M \<notin> set (tl C)" "hd B \<notin> set (tl C)" for C
    using that by (intro linked_cong) (auto simp: splice_heap_def)
  have "linked ?h A" "linked ?h Y" "linked ?h M" "linked ?h B"
    using lk nl ends assms(2-5)
    by (subst keep; auto dest: in_set_butlastD list.set_sel(2))+
  moreover have "last A \<noteq> last Y" "last A \<noteq> last M" "last M \<noteq> last Y" "hd B \<noteq> hd M" "hd B \<noteq> hd Y" "hd M \<noteq> hd Y"
    using mem nl by auto
  ultimately show ?thesis
    using assms(2-5) by (simp add: linked_append splice_heap_def)
qed

lemma list_splice_eq:
  assumes "lst \<noteq> NULL" "prev_of h lst = m" "m \<noteq> NULL" "prev_of h m \<noteq> NULL" "next_of h m = lst"
    and "first \<noteq> lst" "first \<noteq> NULL" "prev_of h first = y" "y \<noteq> NULL" "next_of h first \<noteq> NULL"
    and "before \<noteq> NULL" "prev_of h before = p" "p \<noteq> NULL"
    and "before \<noteq> lst" "before \<noteq> first" "y \<noteq> m" "m \<noteq> p" "y \<noteq> p" "lst \<noteq> first"
  shows "list_splice h before first lst =
     Some (h\<lparr>prev_of := (prev_of h)(lst := y, first := p, before := m),
             next_of := (next_of h)(y := lst, m := before, p := first)\<rparr>)"
proof -
  have "list_prev h lst = Some m" "is_interior h first" "is_interior h m"
      "is_interior h before \<or> is_tail h before"
    using assms by (auto simp: list_prev_def is_interior_def is_tail_def mem_defs)
  then show ?thesis using assms by (simp add: list_splice_def mem_defs)
qed

lemma linked_neighbours:
  assumes "linked h (A @ M @ B)" "A \<noteq> []" "B \<noteq> []" "x \<in> set M"
  shows "next_of h x \<in> set (M @ B)" "prev_of h x \<in> set (A @ M)"
proof -
  obtain U V where M: "M = U @ x # V" using assms(4) by (meson split_list)
  have "next_of h x = hd (V @ B)" "prev_of h x = last (A @ U)"
    using assms linked_append [of "A @ U @ [x]" "V @ B" h] linked_append [of "A @ U" "x # V @ B" h]
    by (auto simp: M)
  moreover have "hd (V @ B) \<in> set (V @ B)" "last (A @ U) \<in> set (A @ U)"
    using assms by (metis append_is_Nil_conv hd_in_set, metis append_is_Nil_conv last_in_set)
  ultimately show "next_of h x \<in> set (M @ B)" "prev_of h x \<in> set (A @ M)" by (auto simp: M)
qed

lemma list_splice_linked:
  assumes lk: "linked h (A @ Y @ M @ B)" and ne: "A \<noteq> []" "Y \<noteq> []" "M \<noteq> []" "B \<noteq> []"
    and d: "distinct (A @ Y @ M @ B)" and nn: "NULL \<notin> set (A @ Y @ M @ B)"
  shows "list_splice h (hd Y) (hd M) (hd B) = Some (splice_heap h A Y M B)"
proof -
  have mem: "last A \<in> set A" "last Y \<in> set Y" "last M \<in> set M" "hd Y \<in> set Y" "hd M \<in> set M" "hd B \<in> set B"
    using ne by auto
  have nz: "last A \<noteq> NULL" "last Y \<noteq> NULL" "last M \<noteq> NULL" "hd Y \<noteq> NULL" "hd M \<noteq> NULL" "hd B \<noteq> NULL"
    using mem nn by (metis Un_iff set_append)+
  have lnk: "prev_of h (hd B) = last M" "next_of h (last M) = hd B" "prev_of h (hd M) = last Y"
      "prev_of h (hd Y) = last A"
    using lk ne by (auto simp: linked_append)
  have "next_of h (hd M) \<in> set (M @ B)" "prev_of h (last M) \<in> set ((A @ Y) @ M)"
    using linked_neighbours [of h "A @ Y" M B] lk ne mem by auto
  then have nb: "next_of h (hd M) \<noteq> NULL" "prev_of h (last M) \<noteq> NULL"
    using nn by (metis Un_iff set_append)+
  have "set A \<inter> set Y = {}" "set A \<inter> set M = {}" "set Y \<inter> set M = {}" "set Y \<inter> set B = {}" "set M \<inter> set B = {}"
    using d by auto
  then have neq: "hd M \<noteq> hd B" "hd Y \<noteq> hd B" "hd Y \<noteq> hd M" "last Y \<noteq> last M" "last M \<noteq> last A" "last Y \<noteq> last A"
    using mem by (metis disjoint_iff)+
  show ?thesis
    unfolding splice_heap_def by (rule list_splice_eq) (use lnk nz nb neq in auto)
qed

lemma list_splice_refines:
  assumes L: "is_list h l (P @ Y @ M @ Z)" and ne: "Y \<noteq> []" "M \<noteq> []"
  shows "\<exists>h'. list_splice h (hd Y) (hd M) (hd (Z @ [tail l])) = Some h' \<and>
              is_list h' l (P @ M @ Y @ Z) \<and> untouched h h' (set (nodes l (P @ Y @ M @ Z)))"
proof -
  define A B where "A = head l # P" and "B = Z @ [tail l]"
  have all: "nodes l (P @ Y @ M @ Z) = A @ Y @ M @ B" "nodes l (P @ M @ Y @ Z) = A @ M @ Y @ B"
    and AB: "A \<noteq> []" "B \<noteq> []" by (simp_all add: nodes_def A_def B_def)
  have L': "linked h (A @ Y @ M @ B)" "distinct (A @ Y @ M @ B)" "NULL \<notin> set (A @ Y @ M @ B)"
      "prev_of h (head l) = NULL" "next_of h (tail l) = NULL"
    using L unfolding is_list_def all by auto
  have mem: "last A \<in> set A" "last Y \<in> set Y" "last M \<in> set M" "hd Y \<in> set Y" "hd M \<in> set M" "hd B \<in> set B"
    using ne AB by auto
  have "head l \<in> set A" "tail l \<in> set B" by (auto simp: A_def B_def)
  moreover have "set A \<inter> set Y = {}" "set A \<inter> set M = {}" "set A \<inter> set B = {}" "set Y \<inter> set B = {}" "set M \<inter> set B = {}"
    using L'(2) by auto
  ultimately have "head l \<noteq> hd B" "head l \<noteq> hd M" "head l \<noteq> hd Y" "tail l \<noteq> last Y" "tail l \<noteq> last M" "tail l \<noteq> last A"
    using mem by (metis disjoint_iff)+
  then have "prev_of (splice_heap h A Y M B) (head l) = NULL" "next_of (splice_heap h A Y M B) (tail l) = NULL"
    using L' by (auto simp: splice_heap_def)
  then have "is_list (splice_heap h A Y M B) l (P @ M @ Y @ Z)"
    using linked_splice_heap [of h A Y M B] L' ne AB unfolding is_list_def all by auto
  moreover have "untouched h (splice_heap h A Y M B) (set (nodes l (P @ Y @ M @ Z)))"
    unfolding all untouched_def splice_heap_def using mem by auto
  moreover have "list_splice h (hd Y) (hd M) (hd B) = Some (splice_heap h A Y M B)"
    using L' ne AB by (intro list_splice_linked)
  ultimately show ?thesis by (auto simp: B_def)
qed

end
