(* ===== verification/Kernel_List_Sort.thy ===== *)
theory Kernel_List_Sort
  imports Kernel_List_Algo
begin

text \<open>
  The natural merge sort \<open>list_sort\<close> of \<open>src/lib/kernel/list.c\<close>: the runs it finds,
  the in-place merge, one pass over the list, and the outer loop, which ends because every
  pass at least halves the number of runs (rounded up).
\<close>

section \<open>Runs\<close>

abbreviation ascending :: "(ptr \<Rightarrow> ptr \<Rightarrow> bool) \<Rightarrow> ptr list \<Rightarrow> bool" where
  "ascending lt \<equiv> successively (\<lambda>x y. \<not> lt y x)"

fun run_rest :: "(ptr \<Rightarrow> ptr \<Rightarrow> bool) \<Rightarrow> ptr \<Rightarrow> ptr list \<Rightarrow> ptr list" where
  "run_rest lt x [] = []"
| "run_rest lt x (y # ys) = (if \<not> lt y x then run_rest lt y ys else y # ys)"

fun run_of :: "(ptr \<Rightarrow> ptr \<Rightarrow> bool) \<Rightarrow> ptr \<Rightarrow> ptr list \<Rightarrow> ptr list" where
  "run_of lt x [] = [x]"
| "run_of lt x (y # ys) = (if \<not> lt y x then x # run_of lt y ys else [x])"

lemma run_of_rest: "run_of lt x xs @ run_rest lt x xs = x # xs"
  by (induction xs arbitrary: x) auto

lemma run_of_hd: "run_of lt x xs \<noteq> [] \<and> hd (run_of lt x xs) = x"
  by (cases xs) auto

lemma run_of_ascending: "ascending lt (run_of lt x xs)"
proof (induction xs arbitrary: x)
  case (Cons y ys)
  then show ?case using run_of_hd [of lt y ys] by (auto simp: successively_Cons)
qed simp

lemma length_run_rest: "length (run_rest lt x xs) \<le> length xs"
  by (induction xs arbitrary: x) (auto simp: le_SucI)

text \<open>The number of maximal runs of a list.\<close>

fun descents :: "(ptr \<Rightarrow> ptr \<Rightarrow> bool) \<Rightarrow> ptr list \<Rightarrow> nat" where
  "descents lt (x # y # ys) = (if lt y x then 1 else 0) + descents lt (y # ys)"
| "descents lt _ = 0"

definition runs :: "(ptr \<Rightarrow> ptr \<Rightarrow> bool) \<Rightarrow> ptr list \<Rightarrow> nat" where
  "runs lt xs = (if xs = [] then 0 else Suc (descents lt xs))"

lemma descents_ascending: "ascending lt xs \<Longrightarrow> descents lt xs = 0"
  by (induction lt xs rule: descents.induct) auto

lemma descents_append: "descents lt (xs @ ys) \<le> descents lt xs + descents lt ys + 1"
proof (induction xs rule: induct_list012)
  case (2 x)
  then show ?case by (cases ys) auto
qed auto

lemma runs_append: "runs lt (xs @ ys) \<le> runs lt xs + runs lt ys"
  using descents_append [of lt xs ys] by (auto simp: runs_def)

lemma runs_concat: "(\<And>r. r \<in> set rs \<Longrightarrow> ascending lt r) \<Longrightarrow> runs lt (concat rs) \<le> length rs"
proof (induction rs)
  case (Cons r rs)
  have "runs lt r \<le> 1" using Cons.prems [of r] by (simp add: runs_def descents_ascending)
  then show ?case using Cons runs_append [of lt r "concat rs"] by fastforce
qed (simp add: runs_def)

lemma runs_rest: "runs lt (x # xs) = Suc (runs lt (run_rest lt x xs))"
  by (induction xs arbitrary: x) (auto simp: runs_def)

lemma ascending_append:
  "xs \<noteq> [] \<Longrightarrow> ys \<noteq> [] \<Longrightarrow>
   ascending lt (xs @ ys) \<longleftrightarrow> ascending lt xs \<and> ascending lt ys \<and> \<not> lt (hd ys) (last xs)"
  by (simp add: successively_append_iff)

section \<open>The scans\<close>

lemma list_next_prev_in:
  assumes "is_list h l (xs @ x # y # ys)"
  shows "list_next h x = Some y" "list_prev h y = Some x"
  using list_next_eq [of h l xs x "y # ys"] list_prev_eq [of h l "xs @ [x]" y ys] assms
  by (simp_all add: last_Cons_snoc)

lemma find_end_of_run_loop_eq:
  "is_list h l (xs @ x # ys) \<Longrightarrow>
   find_end_of_run_loop h x (tail l) lt = Some (hd (run_rest lt x ys @ [tail l]))"
proof (induction ys arbitrary: xs x)
  case Nil
  then show ?case using walk_step [OF Nil] by (subst find_end_of_run_loop.simps) simp
next
  case (Cons y ys)
  have L: "is_list h l ((xs @ [x]) @ y # ys)" using Cons.prems by simp
  then show ?case
    using Cons.IH [OF L] list_next_prev_in [OF Cons.prems] walk_step [OF L]
    by (subst find_end_of_run_loop.simps) simp
qed

lemma find_end_of_run_eq:
  "is_list h l (xs @ x # ys) \<Longrightarrow>
   find_end_of_run h x (tail l) lt = Some (hd (run_rest lt x ys @ [tail l]))"
  using find_end_of_run_loop_eq [of h l xs x ys lt] is_list_around(1) [of h l xs x ys]
    is_list_header [of h l "xs @ x # ys"] walk_step(2) [of h l xs x ys]
  by (simp add: find_end_of_run_def)

lemma is_sorted_loop_eq:
  "is_list h l (xs @ x # ys @ zs) \<Longrightarrow>
   is_sorted_loop h x (hd (zs @ [tail l])) lt = Some (ascending lt (x # ys))"
proof (induction ys arbitrary: xs x)
  case Nil
  then show ?case using walk_step [of h l xs x zs] by (subst is_sorted_loop.simps) simp
next
  case (Cons y ys)
  have L: "is_list h l ((xs @ [x]) @ y # ys @ zs)" using Cons.prems by simp
  have "y \<noteq> hd (zs @ [tail l])"
    using Cons.prems by (cases zs) (auto simp: is_list_def nodes_def)
  then show ?case
    using Cons.IH [OF L] list_next_prev_in [of h l xs x y "ys @ zs"] Cons.prems
    by (subst is_sorted_loop.simps) simp
qed

lemma is_sorted_eq:
  assumes "is_list h l (xs @ ys @ zs)"
  shows "is_sorted h (hd (ys @ zs @ [tail l])) (hd (zs @ [tail l])) lt = Some (ascending lt ys)"
proof (cases ys)
  case Nil
  then show ?thesis by (simp add: is_sorted_def)
next
  case (Cons y ys')
  have "y \<noteq> hd (zs @ [tail l])"
    using assms Cons by (cases zs) (auto simp: is_list_def nodes_def)
  with Cons show ?thesis
    using is_sorted_loop_eq [of h l xs y ys' zs lt] assms by (simp add: is_sorted_def)
qed

section \<open>The merge\<close>

fun merge :: "(ptr \<Rightarrow> ptr \<Rightarrow> bool) \<Rightarrow> ptr list \<Rightarrow> ptr list \<Rightarrow> ptr list" where
  "merge lt (a # as) (b # bs) =
     (if \<not> lt b a then a # merge lt as (b # bs) else b # merge lt (a # as) bs)"
| "merge lt [] bs = bs"
| "merge lt as [] = as"

lemma mset_merge: "mset (merge lt as bs) = mset as + mset bs"
  by (induction lt as bs rule: merge.induct) auto

lemma hd_merge: "merge lt as bs \<noteq> [] \<Longrightarrow>
  (as \<noteq> [] \<and> hd (merge lt as bs) = hd as) \<or> (bs \<noteq> [] \<and> hd (merge lt as bs) = hd bs)"
  by (induction lt as bs rule: merge.induct) auto

lemma ascending_ConsI:
  "ascending lt xs \<Longrightarrow> xs = [] \<or> \<not> lt (hd xs) x \<Longrightarrow> ascending lt (x # xs)"
  by (cases xs) auto

lemma ascending_ConsD:
  "ascending lt (x # xs) \<Longrightarrow> ascending lt xs" "ascending lt (x # xs) \<Longrightarrow> xs \<noteq> [] \<Longrightarrow> \<not> lt (hd xs) x"
  by (cases xs; simp)+

lemma merge_ascending:
  assumes "strict_weak lt" "ascending lt as" "ascending lt bs"
  shows "ascending lt (merge lt as bs)"
  using assms
proof (induction lt as bs rule: merge.induct)
  case (1 lt a as b bs)
  note asc = ascending_ConsD [OF "1.prems"(2)] ascending_ConsD [OF "1.prems"(3)]
  show ?case
  proof (cases "lt b a")
    case True
    then have "\<not> lt a b" using "1.prems"(1) unfolding strict_weak_def by blast
    then have "merge lt (a # as) bs = [] \<or> \<not> lt (hd (merge lt (a # as) bs)) b"
      using hd_merge [of lt "a # as" bs] asc(4) by (metis list.sel(1))
    moreover have "ascending lt (merge lt (a # as) bs)"
      using True "1.prems" asc by (intro "1.IH"(2)) simp_all
    ultimately have "ascending lt (b # merge lt (a # as) bs)"
      by (intro ascending_ConsI)
    with True show ?thesis by (simp only: merge.simps if_True if_False simp_thms)
  next
    case False
    then have "merge lt as (b # bs) = [] \<or> \<not> lt (hd (merge lt as (b # bs))) a"
      using hd_merge [of lt as "b # bs"] asc(2) by (metis list.sel(1))
    moreover have "ascending lt (merge lt as (b # bs))"
      using False "1.prems" asc by (intro "1.IH"(1)) simp_all
    ultimately have "ascending lt (a # merge lt as (b # bs))"
      by (intro ascending_ConsI)
    with False show ?thesis by (simp only: merge.simps if_True if_False simp_thms)
  qed
qed simp_all

lemma inplace_merge_loop_eq:
  "is_list h l (P @ A @ B @ S) \<Longrightarrow>
   \<exists>h'. inplace_merge_loop h (hd (A @ B @ S @ [tail l])) (hd (B @ S @ [tail l])) (hd (S @ [tail l])) lt = Some h' \<and>
        is_list h' l (P @ merge lt A B @ S) \<and> untouched h h' (set (nodes l (P @ A @ B @ S)))"
proof (induction lt A B arbitrary: h P rule: merge.induct)
  case (1 lt a as b bs)
  note L = "1.prems"
  have d: "a \<noteq> b" "b \<noteq> hd (S @ [tail l])"
    using L by (cases S; auto simp: is_list_def nodes_def)+
  show ?case
  proof (cases "lt b a")
    case False
    have L': "is_list h l ((P @ [a]) @ as @ (b # bs) @ S)" using L by simp
    have "list_next h a = Some (hd (as @ (b # bs) @ S @ [tail l]))"
      using list_next_eq [of h l P a "as @ (b # bs) @ S"] L by simp
    with "1.IH"(1) [OF False L'] False d show ?thesis
      by (subst inplace_merge_loop.simps) simp
  next
    case True
    have "list_next h b = Some (hd (bs @ S @ [tail l]))"
      using list_next_eq [of h l "P @ a # as" b "bs @ S"] L by simp
    moreover have "list_prev h (hd (bs @ S @ [tail l])) = Some b"
    proof (cases "bs @ S")
      case Nil
      then show ?thesis using list_prev_tail [of h l "P @ (a # as) @ [b]"] L by (simp add: last_Cons_snoc)
    next
      case (Cons y ys)
      then have "hd (bs @ S @ [tail l]) = y" by (metis append_assoc append_Cons list.sel(1))
      then show ?thesis using list_next_prev_in [of h l "P @ a # as" b y ys] L Cons by simp
    qed
    moreover obtain h1 where h1: "list_splice h a b (hd (bs @ S @ [tail l])) = Some h1"
        "is_list h1 l ((P @ [b]) @ (a # as) @ bs @ S)"
        "untouched h h1 (set (nodes l (P @ (a # as) @ (b # bs) @ S)))"
      using list_splice_refines [of h l P "a # as" "[b]" "bs @ S"] L by auto
    moreover obtain h2 where h2:
        "inplace_merge_loop h1 a (hd (bs @ S @ [tail l])) (hd (S @ [tail l])) lt = Some h2"
        "is_list h2 l ((P @ [b]) @ merge lt (a # as) bs @ S)"
        "untouched h1 h2 (set (nodes l ((P @ [b]) @ (a # as) @ bs @ S)))"
      using "1.IH"(2) [OF _ h1(2)] True by auto
    moreover have "untouched h h2 (set (nodes l (P @ (a # as) @ (b # bs) @ S)))"
      by (rule untouched_trans [OF h1(3) h2(3)]) (auto simp: nodes_def)
    ultimately show ?thesis
      using True d by (subst inplace_merge_loop.simps) auto
  qed
next
  case (2 lt bs)
  then show ?case by (subst inplace_merge_loop.simps) (simp add: frame_simps)
next
  case (3 lt v va)
  then show ?case by (subst inplace_merge_loop.simps) (simp add: frame_simps)
qed

lemma inplace_merge_refines:
  assumes L: "is_list h l (P @ A @ B @ S)" and ne: "A \<noteq> []" "B \<noteq> []"
    and asc: "ascending lt A" "ascending lt B"
  shows "\<exists>h'. inplace_merge h (hd A) (hd B) (hd (S @ [tail l])) lt = Some h' \<and>
              is_list h' l (P @ merge lt A B @ S) \<and> untouched h h' (set (nodes l (P @ A @ B @ S)))"
proof -
  have "hd A \<in> set A" "hd B \<in> set B" using ne by auto
  then have nz: "hd A \<noteq> NULL" "hd B \<noteq> NULL"
    using nodes_nonnull [OF L] by (auto simp: nodes_def)
  moreover have "hd (S @ [tail l]) \<noteq> NULL"
    using cut_ends(6) [of h l "P @ A @ B" S] L by simp
  moreover have "is_sorted h (hd A) (hd B) lt = Some True"
    using is_sorted_eq [of h l P A "B @ S" lt] L asc ne by simp
  moreover have "is_sorted h (hd B) (hd (S @ [tail l])) lt = Some True"
    using is_sorted_eq [of h l "P @ A" B S lt] L asc ne by simp
  ultimately show ?thesis
    using inplace_merge_loop_eq [OF L, of lt] ne by (auto simp: inplace_merge_def)
qed

section \<open>The passes\<close>

lemma list_sort_pass_refines:
  assumes "strict_weak lt" and "is_list h l (P @ A)"
  shows "\<exists>h' Rs. list_sort_pass h l (hd (A @ [tail l])) c lt = Some (h', c + length Rs) \<and>
     is_list h' l (P @ concat Rs) \<and> (\<forall>r\<in>set Rs. ascending lt r) \<and>
     length Rs = (runs lt A + 1) div 2 \<and> mset (concat Rs) = mset A \<and>
     untouched h h' (set (nodes l (P @ A)))"
  using assms
proof (induction A arbitrary: h P c rule: measure_induct_rule [of length])
  case (less A)
  note L = less.prems(2)
  show ?case
  proof (cases A)
    case Nil
    with L show ?thesis
      by (subst list_sort_pass.simps, intro exI [of _ h] exI [of _ "[]"])
         (simp add: list_end_eq runs_def frame_simps)
  next
    case (Cons x xs)
    define Q where "Q = run_rest lt x xs"
    have R: "run_of lt x xs @ Q = A" using run_of_rest by (simp add: Cons Q_def)
    have f1: "find_end_of_run h x (tail l) lt = Some (hd (Q @ [tail l]))"
      using find_end_of_run_eq [of h l P x xs] L by (simp add: Cons Q_def)
    have e: "list_end l = Some (tail l)" "x \<noteq> tail l" using walk_step [of h l P x xs] L by (auto simp: Cons)
    show ?thesis
    proof (cases Q)
      case Nil
      then have "ascending lt A" "runs lt A = 1"
        using R run_of_ascending [of lt x xs] runs_rest [of lt x xs] by (auto simp: Cons Q_def runs_def)
      with Nil f1 e L show ?thesis
        by (subst list_sort_pass.simps, intro exI [of _ h] exI [of _ "[A]"])
           (simp add: Cons frame_simps)
    next
      case (Cons y ys)
      define T where "T = run_rest lt y ys"
      let ?R1 = "run_of lt x xs" and ?R2 = "run_of lt y ys"
      have A: "A = ?R1 @ ?R2 @ T" using R Cons run_of_rest [of lt y ys] by (simp add: T_def)
      have L2: "is_list h l (P @ ?R1 @ ?R2 @ T)" using L A by simp
      have Ly: "is_list h l ((P @ ?R1) @ y # ys)" using L R Cons by auto
      have f2: "find_end_of_run h y (tail l) lt = Some (hd (T @ [tail l]))"
        using find_end_of_run_eq [OF Ly] by (simp add: T_def)
      have yt: "y \<noteq> tail l" using walk_step [OF Ly] by simp
      obtain h1 where h1: "inplace_merge h x y (hd (T @ [tail l])) lt = Some h1"
          "is_list h1 l ((P @ merge lt ?R1 ?R2) @ T)"
          "untouched h h1 (set (nodes l (P @ A)))"
        using inplace_merge_refines [OF L2, of lt] run_of_hd [of lt x xs] run_of_hd [of lt y ys]
          run_of_ascending [of lt x xs] run_of_ascending [of lt y ys] by (auto simp: A)
      have "length T < length A" using A run_of_hd [of lt x xs] by (cases ?R1) auto
      from less.IH [OF this less.prems(1) h1(2), of "Suc c"]
      obtain h2 Rs where h2: "list_sort_pass h1 l (hd (T @ [tail l])) (Suc c) lt = Some (h2, Suc c + length Rs)"
          "is_list h2 l ((P @ merge lt ?R1 ?R2) @ concat Rs)" "\<forall>r\<in>set Rs. ascending lt r"
          "length Rs = (runs lt T + 1) div 2" "mset (concat Rs) = mset T"
          "untouched h1 h2 (set (nodes l ((P @ merge lt ?R1 ?R2) @ T)))"
        by blast
      have "set (merge lt ?R1 ?R2) = set ?R1 \<union> set ?R2"
        using mset_merge [of lt ?R1 ?R2] by (metis set_mset_mset set_mset_union)
      then have "untouched h h2 (set (nodes l (P @ A)))"
        using A by (intro untouched_trans [OF h1(3) h2(6)]) (auto simp: nodes_def)
      moreover have "runs lt A = 2 + runs lt T"
        using runs_rest [of lt x xs] runs_rest [of lt y ys] \<open>A = x # xs\<close> Cons by (simp add: Q_def T_def)
      moreover have "list_sort_pass h l x c lt = Some (h2, c + length (merge lt ?R1 ?R2 # Rs))"
        using e f1 f2 yt h1(1) h2(1) Cons by (subst list_sort_pass.simps) simp
      moreover have "ascending lt (merge lt ?R1 ?R2)"
        using merge_ascending [OF less.prems(1)] run_of_ascending by blast
      moreover have "mset A = mset (merge lt ?R1 ?R2) + mset T"
        using arg_cong [OF A, of mset] by (simp add: mset_merge)
      ultimately show ?thesis
        using h2(2-5) \<open>A = x # xs\<close>
        by (intro exI [of _ h2] exI [of _ "merge lt ?R1 ?R2 # Rs"]) simp
    qed
  qed
qed

lemma list_sort_loop_refines:
  assumes "strict_weak lt" and "is_list h l xs"
  shows "\<exists>h' ys. list_sort_loop h l lt = Some h' \<and> is_list h' l ys \<and> ascending lt ys \<and>
     mset ys = mset xs \<and> untouched h h' (set (nodes l xs))"
  using assms(2)
proof (induction xs arbitrary: h rule: measure_induct_rule [of "runs lt"])
  case (less xs)
  obtain h1 Rs where h1: "list_sort_pass h l (hd (xs @ [tail l])) 0 lt = Some (h1, length Rs)"
      "is_list h1 l (concat Rs)" "\<forall>r\<in>set Rs. ascending lt r" "length Rs = (runs lt xs + 1) div 2"
      "mset (concat Rs) = mset xs" "untouched h h1 (set (nodes l xs))"
    using list_sort_pass_refines [OF assms(1), of h l "[]" xs 0] less.prems by auto
  have b: "list_begin h l = Some (hd (xs @ [tail l]))" using list_begin_eq [OF less.prems] .
  have st: "set (nodes l (concat Rs)) = set (nodes l xs)"
    using h1(5) by (metis nodes_def list.simps(15) set_append set_mset_mset)
  show ?case
  proof (cases "length Rs > 1")
    case True
    then have "runs lt (concat Rs) < runs lt xs"
      using runs_concat [of Rs lt] h1(3,4) by fastforce
    from less.IH [OF this h1(2)] obtain h2 ys where
      "list_sort_loop h1 l lt = Some h2" "is_list h2 l ys" "ascending lt ys"
      "mset ys = mset (concat Rs)" "untouched h1 h2 (set (nodes l (concat Rs)))" by blast
    moreover from this have "untouched h h2 (set (nodes l xs))"
      using untouched_trans [OF h1(6), of h2] st by blast
    moreover have "list_sort_loop h l lt = list_sort_loop h1 l lt"
      using True b h1(1) by (subst list_sort_loop.simps) simp
    ultimately show ?thesis using h1(5) by auto
  next
    case False
    then have "ascending lt (concat Rs)"
      using h1(3) by (cases Rs) auto
    moreover have "list_sort_loop h l lt = Some h1"
      using False b h1(1) by (subst list_sort_loop.simps) simp
    ultimately show ?thesis using h1 by blast
  qed
qed

lemma ascending_sorted_wrt:
  assumes "strict_weak lt"
  shows "ascending lt xs \<longleftrightarrow> sorted_wrt (\<lambda>x y. \<not> lt y x) xs"
proof (rule successively_conv_sorted_wrt, rule transpI)
  fix x y z assume "\<not> lt y x" "\<not> lt z y"
  with assms show "\<not> lt z x" unfolding strict_weak_def by blast
qed

section \<open>Properties\<close>

text \<open>The order of the concrete instances: the addresses themselves.\<close>

lemma strict_weak_less: "strict_weak ((<) :: nat \<Rightarrow> nat \<Rightarrow> bool)"
  by (auto simp: strict_weak_def)

text \<open>C4. \<open>list_sort\<close> with any strict weak order terminates without failing an assertion
  on every well-formed list; the list then holds a permutation of its elements in which no
  element is less than an earlier one, and disjoint lists are untouched.\<close>

theorem list_sort_spec:
  assumes "strict_weak lt" and "is_list h l xs"
  shows "\<exists>h' ys. list_sort h l lt = Some h' \<and> is_list h' l ys \<and> mset ys = mset xs \<and>
     sorted_wrt (\<lambda>x y. \<not> lt y x) ys \<and>
     (\<forall>m zs. is_list h m zs \<and> set (nodes m zs) \<inter> set (nodes l xs) = {} \<longrightarrow> is_list h' m zs)"
proof -
  obtain h' ys where h': "list_sort_loop h l lt = Some h'" "is_list h' l ys" "ascending lt ys"
      "mset ys = mset xs" "untouched h h' (set (nodes l xs))"
    using list_sort_loop_refines [OF assms] by blast
  have "list_sort h l lt = Some h'"
    using h' is_list_header [OF h'(2)] is_sorted_eq [of h' l "[]" ys "[]" lt]
    by (simp add: list_sort_def list_begin_eq list_end_eq)
  with h' ascending_sorted_wrt [OF assms(1)] untouched_is_list [OF h'(5)] show ?thesis by blast
qed

theorem list_sort_spec_witness:
  "\<exists>h' ys. list_sort three_heap three_list (<) = Some h' \<and> is_list h' three_list ys \<and>
     mset ys = {#30, 10, 20#} \<and> sorted_wrt (\<lambda>x y. \<not> y < x) ys"
  using list_sort_spec [OF strict_weak_less three_is_list] by auto

text \<open>C5. \<open>list_insert_ordered\<close> puts the new element after the last element it is not
  less than that precedes the first element it is less than; on a sorted list the result is
  sorted.\<close>

theorem list_insert_ordered_spec:
  assumes "strict_weak lt" and "is_list h l xs" and "e \<noteq> NULL" and "e \<notin> set (nodes l xs)"
    and "sorted_wrt (\<lambda>x y. \<not> lt y x) xs"
  shows "\<exists>h' as bs. list_insert_ordered h l e lt = Some h' \<and> xs = as @ bs \<and>
     is_list h' l (as @ e # bs) \<and> (\<forall>a\<in>set as. \<not> lt e a) \<and> (\<forall>b\<in>set bs. lt e b) \<and>
     sorted_wrt (\<lambda>x y. \<not> lt y x) (as @ e # bs)"
proof -
  define as bs where "as = takeWhile (\<lambda>x. \<not> lt e x) xs" and "bs = dropWhile (\<lambda>x. \<not> lt e x) xs"
  have sw: "lt a b \<Longrightarrow> \<not> lt b a" "\<not> lt a b \<Longrightarrow> \<not> lt b c \<Longrightarrow> \<not> lt a c" for a b c
    using assms(1) unfolding strict_weak_def by blast+
  have xs: "xs = as @ bs" by (simp add: as_def bs_def)
  have srt: "sorted_wrt (\<lambda>x y. \<not> lt y x) as" "sorted_wrt (\<lambda>x y. \<not> lt y x) bs"
      "\<forall>a\<in>set as. \<forall>b\<in>set bs. \<not> lt b a"
    using assms(5) by (simp_all add: xs sorted_wrt_append)
  have as: "\<forall>a\<in>set as. \<not> lt e a" by (auto simp: as_def dest: set_takeWhileD)
  have bs: "\<forall>b\<in>set bs. lt e b"
  proof (cases bs)
    case (Cons c cs)
    then have "lt e c" using hd_dropWhile [of "\<lambda>x. \<not> lt e x" xs] by (simp add: bs_def)
    moreover have "\<forall>b\<in>set cs. \<not> lt b c" using srt(2) Cons by simp
    ultimately show ?thesis using sw(2) Cons by (metis set_ConsD)
  qed simp
  have "sorted_wrt (\<lambda>x y. \<not> lt y x) (as @ e # bs)"
    using srt as bs sw(1) unfolding sorted_wrt_append by simp
  with list_insert_ordered_refines [OF assms(2-4), of lt] as bs xs show ?thesis
    unfolding as_def [symmetric] bs_def [symmetric] by blast
qed

theorem list_insert_ordered_spec_witness:
  "\<exists>h h' as bs. is_list h three_list [10] \<and> list_insert_ordered h three_list 20 (<) = Some h' \<and>
     [10] = as @ bs \<and> is_list h' three_list (as @ 20 # bs)"
proof -
  let ?h = "\<lparr>prev_of = (\<lambda>_. NULL)(10 := 1, 2 := 10), next_of = (\<lambda>_. NULL)(1 := 10, 10 := 2)\<rparr>"
  have L: "is_list ?h three_list [10]" by (simp add: is_list_def nodes_def three_list_def)
  then show ?thesis
    using list_insert_ordered_spec [OF strict_weak_less L, of 20] by (auto simp: nodes_def three_list_def)
qed

text \<open>C6. \<open>list_reverse\<close> returns on every well-formed list and leaves exactly the reversed
  list, touching nothing outside it; reversing twice gives the list back.\<close>

theorem list_reverse_spec:
  assumes "is_list h l xs"
  shows "\<exists>h' h''. list_reverse h l = Some h' \<and> is_list h' l (rev xs) \<and>
     list_reverse h' l = Some h'' \<and> is_list h'' l xs \<and>
     (\<forall>m zs. is_list h m zs \<and> set (nodes m zs) \<inter> set (nodes l xs) = {} \<longrightarrow> is_list h' m zs)"
proof -
  obtain h' where h': "list_reverse h l = Some h'" "is_list h' l (rev xs)" "untouched h h' (set (nodes l xs))"
    using list_reverse_refines [OF assms] by blast
  obtain h'' where "list_reverse h' l = Some h''" "is_list h'' l xs"
    using list_reverse_refines [OF h'(2)] by auto
  with h' untouched_is_list [OF h'(3)] show ?thesis by blast
qed

theorem list_reverse_spec_witness:
  "\<exists>h'. list_reverse three_heap three_list = Some h' \<and> is_list h' three_list [20, 10, 30]"
  using list_reverse_spec [OF three_is_list] by auto

text \<open>\<open>list_unique\<close> with a list for the duplicates keeps the first element of every group
  of adjacent equivalent elements: afterwards no two neighbours are equivalent, the elements
  removed are appended to the other list, and no element is lost.\<close>

theorem list_unique_spec:
  assumes "is_list h l (x # xs)" and "is_list h d zs"
    and "set (nodes l (x # xs)) \<inter> set (nodes d zs) = {}"
  shows "\<exists>h' ys ds. list_unique h l (Some d) lt = Some h' \<and> is_list h' l (x # ys) \<and>
     is_list h' d (zs @ ds) \<and> mset (x # ys) + mset ds = mset (x # xs) \<and>
     successively (\<lambda>a b. lt a b \<or> lt b a) (x # ys)"
proof -
  obtain ys where ys: "uniq lt x xs = x # ys" using uniq_distinct_adjacent [of lt x xs] by (metis list.collapse)
  have "list_unique h l (Some d) lt = list_unique_loop h l (Some d) x lt"
    using assms(1) is_list_header [OF assms(1)] by (simp add: list_unique_def list_empty_eq list_begin_eq)
  with list_unique_loop_dup [of h l "[]" x xs d zs lt] assms mset_uniq_dups [of lt x xs]
    uniq_distinct_adjacent [of lt x xs] show ?thesis
    unfolding ys by (intro exI [of _ "the (list_unique h l (Some d) lt)"] exI [of _ ys] exI [of _ "dups lt x xs"]) auto
qed

theorem list_unique_spec_witness:
  "\<exists>h h' d ys ds. is_list h three_list [30, 10, 20] \<and> is_list h d [] \<and>
     list_unique h three_list (Some d) (\<lambda>a b. a div 15 < b div 15) = Some h' \<and>
     is_list h' three_list (30 # ys) \<and> is_list h' d ds"
proof -
  let ?h = "three_heap\<lparr>prev_of := (prev_of three_heap)(4 := 3), next_of := (next_of three_heap)(3 := 4)\<rparr>"
  let ?d = "\<lparr>head = 3, tail = 4\<rparr>"
  have l: "is_list ?h three_list [30, 10, 20]" and d: "is_list ?h ?d []"
    by (simp_all add: is_list_def nodes_def three_heap_def three_list_def)
  have "set (nodes three_list [30, 10, 20]) \<inter> set (nodes ?d []) = {}"
    by (simp add: nodes_def three_list_def)
  then obtain h' ys ds where "list_unique ?h three_list (Some ?d) (\<lambda>a b. a div 15 < b div 15) = Some h'"
      "is_list h' three_list (30 # ys)" "is_list h' ?d ([] @ ds)"
    using list_unique_spec [OF l d, of "\<lambda>a b. a div 15 < b div 15"] by blast
  with l d show ?thesis
    by (intro exI [of _ ?h] exI [of _ h'] exI [of _ ?d] exI [of _ ys] exI [of _ ds]) simp
qed

end
