(* ===== verification/Bitmap.thy ===== *)
theory Bitmap
  imports Prelude Interfaces
begin

text \<open>
  Bit maps, \<open>src/lib/kernel/bitmap.c\<close>: an array of 32-bit elements (\<open>elem_type\<close> is
  \<open>unsigned long\<close>, 32 bits on the i386) that stands for an array of \<open>bit_cnt\<close> bits.

  \<open>size_t\<close> values are natural numbers; every sum the source forms is reduced modulo
  \<open>2 ^ 32\<close>. An access to \<open>bits\<close> outside the array is \<open>None\<close>, like a failed assertion.
  \<open>bits_of\<close> reads the array of bits off the words; each operation is shown to compute the
  operation on that list of bits which its comment describes. \<open>malloc\<close> is a parameter:
  the words that happen to be in the block it returns, or \<open>None\<close> when it fails.
\<close>

unbundle bit_operations_syntax

section \<open>Model\<close>

abbreviation size_mod :: nat where
  "size_mod \<equiv> 4294967296"

abbreviation ELEM_BITS :: nat where
  "ELEM_BITS \<equiv> 32"

definition BITMAP_ERROR :: nat where
  "BITMAP_ERROR = size_mod - 1"

record bitmap =
  bit_cnt :: nat
  bits :: "u32 list"

definition DIV_ROUND_UP :: "nat \<Rightarrow> nat \<Rightarrow> nat" where
  "DIV_ROUND_UP x step = ((x + step - 1) mod size_mod) div step"

definition elem_idx :: "nat \<Rightarrow> nat" where
  "elem_idx bit_idx = bit_idx div ELEM_BITS"

definition bit_mask :: "nat \<Rightarrow> u32" where
  "bit_mask bit_idx = push_bit (bit_idx mod ELEM_BITS) 1"

definition elem_cnt :: "nat \<Rightarrow> nat" where
  "elem_cnt cnt = DIV_ROUND_UP cnt ELEM_BITS"

definition byte_cnt :: "nat \<Rightarrow> nat" where
  "byte_cnt cnt = (4 * elem_cnt cnt) mod size_mod"

definition last_mask :: "bitmap \<Rightarrow> u32" where
  "last_mask b =
     (let last_bits = bit_cnt b mod ELEM_BITS
      in if last_bits \<noteq> 0 then push_bit last_bits 1 - 1 else - 1)"

definition bitmap_buf_size :: "nat \<Rightarrow> nat" where
  "bitmap_buf_size cnt = (8 + byte_cnt cnt) mod size_mod"

definition bitmap_size :: "bitmap \<Rightarrow> nat" where
  "bitmap_size b = bit_cnt b"

definition upd_elem :: "bitmap \<Rightarrow> nat \<Rightarrow> (u32 \<Rightarrow> u32) \<Rightarrow> bitmap option" where
  "upd_elem b idx f =
     (if idx < length (bits b) then Some (b\<lparr>bits := (bits b)[idx := f (bits b ! idx)]\<rparr>) else None)"

definition bitmap_mark :: "bitmap \<Rightarrow> nat \<Rightarrow> bitmap option" where
  "bitmap_mark b bit_idx = upd_elem b (elem_idx bit_idx) (\<lambda>e. e OR bit_mask bit_idx)"

definition bitmap_reset :: "bitmap \<Rightarrow> nat \<Rightarrow> bitmap option" where
  "bitmap_reset b bit_idx = upd_elem b (elem_idx bit_idx) (\<lambda>e. e AND NOT (bit_mask bit_idx))"

definition bitmap_flip :: "bitmap \<Rightarrow> nat \<Rightarrow> bitmap option" where
  "bitmap_flip b bit_idx = upd_elem b (elem_idx bit_idx) (\<lambda>e. e XOR bit_mask bit_idx)"

definition bitmap_set :: "bitmap \<Rightarrow> nat \<Rightarrow> bool \<Rightarrow> bitmap option" where
  "bitmap_set b idx value = do {
     ASSERT (idx < bit_cnt b);
     (if value then bitmap_mark b idx else bitmap_reset b idx)
   }"

definition bitmap_test :: "bitmap \<Rightarrow> nat \<Rightarrow> bool option" where
  "bitmap_test b idx = do {
     ASSERT (idx < bit_cnt b);
     (if elem_idx idx < length (bits b)
      then Some ((bits b ! elem_idx idx) AND bit_mask idx \<noteq> 0)
      else None)
   }"

function bitmap_set_multiple_loop :: "bitmap \<Rightarrow> nat \<Rightarrow> nat \<Rightarrow> bool \<Rightarrow> nat \<Rightarrow> bitmap option" where
  "bitmap_set_multiple_loop b start cnt value i =
     (if i < cnt
      then do {
        b \<leftarrow> bitmap_set b ((start + i) mod size_mod) value;
        bitmap_set_multiple_loop b start cnt value (i + 1)
      }
      else Some b)"
  by pat_completeness auto

termination
  by (relation "measure (\<lambda>(b, start, cnt, value, i). cnt - i)") auto

definition bitmap_set_multiple :: "bitmap \<Rightarrow> nat \<Rightarrow> nat \<Rightarrow> bool \<Rightarrow> bitmap option" where
  "bitmap_set_multiple b start cnt value = do {
     ASSERT (start \<le> bit_cnt b);
     ASSERT ((start + cnt) mod size_mod \<le> bit_cnt b);
     bitmap_set_multiple_loop b start cnt value 0
   }"

definition bitmap_set_all :: "bitmap \<Rightarrow> bool \<Rightarrow> bitmap option" where
  "bitmap_set_all b value = bitmap_set_multiple b 0 (bitmap_size b) value"

function bitmap_count_loop :: "bitmap \<Rightarrow> nat \<Rightarrow> nat \<Rightarrow> bool \<Rightarrow> nat \<Rightarrow> nat \<Rightarrow> nat option" where
  "bitmap_count_loop b start cnt value i value_cnt =
     (if i < cnt
      then do {
        v \<leftarrow> bitmap_test b ((start + i) mod size_mod);
        bitmap_count_loop b start cnt value (i + 1) (if v = value then value_cnt + 1 else value_cnt)
      }
      else Some value_cnt)"
  by pat_completeness auto

termination
  by (relation "measure (\<lambda>(b, start, cnt, value, i, value_cnt). cnt - i)") auto

definition bitmap_count :: "bitmap \<Rightarrow> nat \<Rightarrow> nat \<Rightarrow> bool \<Rightarrow> nat option" where
  "bitmap_count b start cnt value = do {
     ASSERT (start \<le> bit_cnt b);
     ASSERT ((start + cnt) mod size_mod \<le> bit_cnt b);
     bitmap_count_loop b start cnt value 0 0
   }"

function bitmap_contains_loop :: "bitmap \<Rightarrow> nat \<Rightarrow> nat \<Rightarrow> bool \<Rightarrow> nat \<Rightarrow> bool option" where
  "bitmap_contains_loop b start cnt value i =
     (if i < cnt
      then do {
        v \<leftarrow> bitmap_test b ((start + i) mod size_mod);
        (if v = value then Some True else bitmap_contains_loop b start cnt value (i + 1))
      }
      else Some False)"
  by pat_completeness auto

termination
  by (relation "measure (\<lambda>(b, start, cnt, value, i). cnt - i)") auto

definition bitmap_contains :: "bitmap \<Rightarrow> nat \<Rightarrow> nat \<Rightarrow> bool \<Rightarrow> bool option" where
  "bitmap_contains b start cnt value = do {
     ASSERT (start \<le> bit_cnt b);
     ASSERT ((start + cnt) mod size_mod \<le> bit_cnt b);
     bitmap_contains_loop b start cnt value 0
   }"

definition bitmap_any :: "bitmap \<Rightarrow> nat \<Rightarrow> nat \<Rightarrow> bool option" where
  "bitmap_any b start cnt = bitmap_contains b start cnt True"

definition bitmap_none :: "bitmap \<Rightarrow> nat \<Rightarrow> nat \<Rightarrow> bool option" where
  "bitmap_none b start cnt = map_option Not (bitmap_contains b start cnt True)"

definition bitmap_all :: "bitmap \<Rightarrow> nat \<Rightarrow> nat \<Rightarrow> bool option" where
  "bitmap_all b start cnt = map_option Not (bitmap_contains b start cnt False)"

function bitmap_scan_loop :: "bitmap \<Rightarrow> nat \<Rightarrow> nat \<Rightarrow> nat \<Rightarrow> bool \<Rightarrow> nat option" where
  "bitmap_scan_loop b i lst cnt value =
     (if i \<le> lst
      then do {
        c \<leftarrow> bitmap_contains b i cnt (\<not> value);
        (if \<not> c then Some i else bitmap_scan_loop b (i + 1) lst cnt value)
      }
      else Some BITMAP_ERROR)"
  by pat_completeness auto

termination
  by (relation "measure (\<lambda>(b, i, lst, cnt, value). Suc lst - i)") auto

definition bitmap_scan :: "bitmap \<Rightarrow> nat \<Rightarrow> nat \<Rightarrow> bool \<Rightarrow> nat option" where
  "bitmap_scan b start cnt value = do {
     ASSERT (start \<le> bit_cnt b);
     (if cnt \<le> bit_cnt b
      then bitmap_scan_loop b start (bit_cnt b - cnt) cnt value
      else Some BITMAP_ERROR)
   }"

definition bitmap_scan_and_flip :: "bitmap \<Rightarrow> nat \<Rightarrow> nat \<Rightarrow> bool \<Rightarrow> (nat \<times> bitmap) option" where
  "bitmap_scan_and_flip b start cnt value = do {
     idx \<leftarrow> bitmap_scan b start cnt value;
     (if idx \<noteq> BITMAP_ERROR
      then do {
        b \<leftarrow> bitmap_set_multiple b idx cnt (\<not> value);
        Some (idx, b)
      }
      else Some (idx, b))
   }"

definition bitmap_create :: "bool \<Rightarrow> u32 list option \<Rightarrow> nat \<Rightarrow> bitmap option option" where
  "bitmap_create got_header got_bits cnt =
     (if got_header
      then (case got_bits of
              Some junk \<Rightarrow> map_option Some (bitmap_set_all \<lparr>bit_cnt = cnt, bits = junk\<rparr> False)
            | None \<Rightarrow> if cnt = 0
                      then map_option Some (bitmap_set_all \<lparr>bit_cnt = cnt, bits = []\<rparr> False)
                      else Some None)
      else Some None)"

definition bitmap_create_in_buf :: "nat \<Rightarrow> u32 list \<Rightarrow> nat \<Rightarrow> bitmap option" where
  "bitmap_create_in_buf cnt block block_size = do {
     ASSERT (block_size \<ge> bitmap_buf_size cnt);
     bitmap_set_all \<lparr>bit_cnt = cnt, bits = block\<rparr> False
   }"

definition bitmap_file_size :: "bitmap \<Rightarrow> nat" where
  "bitmap_file_size b = byte_cnt (bit_cnt b)"

declare bitmap_set_multiple_loop.simps [simp del]
  bitmap_count_loop.simps [simp del]
  bitmap_contains_loop.simps [simp del]
  bitmap_scan_loop.simps [simp del]

section \<open>The bits a bit map stands for\<close>

definition bitmap_wf :: "bitmap \<Rightarrow> bool" where
  "bitmap_wf b \<longleftrightarrow> bit_cnt b \<le> size_mod - ELEM_BITS \<and> length (bits b) = elem_cnt (bit_cnt b)"

definition bits_of :: "bitmap \<Rightarrow> bool list" where
  "bits_of b = map (\<lambda>i. bit (bits b ! (i div ELEM_BITS)) (i mod ELEM_BITS)) [0..<bit_cnt b]"

lemma length_bits_of [simp]: "length (bits_of b) = bit_cnt b"
  by (simp add: bits_of_def)

lemma elem_cnt_eq: "n \<le> size_mod - ELEM_BITS \<Longrightarrow> elem_cnt n = (n + 31) div ELEM_BITS"
  by (simp add: elem_cnt_def DIV_ROUND_UP_def)

lemma elem_idx_in_bits: "bitmap_wf b \<Longrightarrow> i < bit_cnt b \<Longrightarrow> elem_idx i < length (bits b)"
  by (auto simp: bitmap_wf_def elem_cnt_eq elem_idx_def)

lemma bit_bit_mask: "j < ELEM_BITS \<Longrightarrow> bit (bit_mask i) j \<longleftrightarrow> j = i mod ELEM_BITS"
  by (auto simp: bit_mask_def bit_exp_iff possible_bit_word)

lemma and_bit_mask: "(w AND bit_mask i \<noteq> 0) \<longleftrightarrow> bit w (i mod ELEM_BITS)"
proof -
  have "w AND bit_mask i = (if bit w (i mod ELEM_BITS) then bit_mask i else 0)"
    by (rule bit_word_eqI) (auto simp: bit_and_iff bit_bit_mask)
  moreover have "bit (bit_mask i) (i mod ELEM_BITS)" by (simp add: bit_bit_mask)
  ultimately show ?thesis by (auto simp: bit_and_iff)
qed

lemma div_mod_eq: "(i :: nat) div n = j div n \<Longrightarrow> i mod n = j mod n \<Longrightarrow> i = j"
  by (metis div_mult_mod_eq)

lemma upd_elem_refines:
  assumes wf: "bitmap_wf b" and i: "i < bit_cnt b"
    and f: "\<And>w j. j < ELEM_BITS \<Longrightarrow> bit (f w) j = (if j = i mod ELEM_BITS then v (bit w j) else bit w j)"
  shows "\<exists>b'. upd_elem b (elem_idx i) f = Some b' \<and> bitmap_wf b' \<and> bit_cnt b' = bit_cnt b \<and>
              bits_of b' = (bits_of b)[i := v (bits_of b ! i)]"
proof -
  let ?b = "b\<lparr>bits := (bits b)[elem_idx i := f (bits b ! elem_idx i)]\<rparr>"
  have e: "elem_idx i < length (bits b)" using elem_idx_in_bits [OF wf i] .
  have "bits_of ?b ! j = (bits_of b)[i := v (bits_of b ! i)] ! j" if "j < bit_cnt b" for j
  proof (cases "j div ELEM_BITS = i div ELEM_BITS")
    case True
    with div_mod_eq [OF True] that i e f [of "j mod ELEM_BITS" "bits b ! (i div ELEM_BITS)"] show ?thesis
      by (cases "j = i") (auto simp: bits_of_def elem_idx_def)
  next
    case False
    then have "j \<noteq> i" by auto
    with False that show ?thesis by (simp add: bits_of_def elem_idx_def)
  qed
  then have "bits_of ?b = (bits_of b)[i := v (bits_of b ! i)]"
    by (intro nth_equalityI) simp_all
  with e wf show ?thesis by (simp add: upd_elem_def bitmap_wf_def)
qed

lemma bitmap_mark_refines:
  assumes "bitmap_wf b" "i < bit_cnt b"
  shows "\<exists>b'. bitmap_mark b i = Some b' \<and> bitmap_wf b' \<and> bit_cnt b' = bit_cnt b \<and>
              bits_of b' = (bits_of b)[i := True]"
  unfolding bitmap_mark_def
  using upd_elem_refines [OF assms, of "\<lambda>e. e OR bit_mask i" "\<lambda>_. True"]
  by (simp add: bit_or_iff bit_bit_mask)

lemma bitmap_reset_refines:
  assumes "bitmap_wf b" "i < bit_cnt b"
  shows "\<exists>b'. bitmap_reset b i = Some b' \<and> bitmap_wf b' \<and> bit_cnt b' = bit_cnt b \<and>
              bits_of b' = (bits_of b)[i := False]"
  unfolding bitmap_reset_def
  using upd_elem_refines [OF assms, of "\<lambda>e. e AND NOT (bit_mask i)" "\<lambda>_. False"]
  by (simp add: bit_and_iff bit_not_iff bit_bit_mask)

lemma bitmap_flip_refines:
  assumes "bitmap_wf b" "i < bit_cnt b"
  shows "\<exists>b'. bitmap_flip b i = Some b' \<and> bitmap_wf b' \<and> bit_cnt b' = bit_cnt b \<and>
              bits_of b' = (bits_of b)[i := \<not> bits_of b ! i]"
  unfolding bitmap_flip_def
  using upd_elem_refines [OF assms, of "\<lambda>e. e XOR bit_mask i" Not]
  by (simp add: bit_xor_iff bit_bit_mask)

lemma bitmap_set_refines:
  assumes "bitmap_wf b" "i < bit_cnt b"
  shows "\<exists>b'. bitmap_set b i v = Some b' \<and> bitmap_wf b' \<and> bit_cnt b' = bit_cnt b \<and>
              bits_of b' = (bits_of b)[i := v]"
  using bitmap_mark_refines [OF assms] bitmap_reset_refines [OF assms] assms
  by (cases v) (simp_all add: bitmap_set_def)

lemma bitmap_set_out: "bit_cnt b \<le> i \<Longrightarrow> bitmap_set b i v = None"
  by (simp add: bitmap_set_def)

lemma bitmap_test_eq: "bitmap_wf b \<Longrightarrow> i < bit_cnt b \<Longrightarrow> bitmap_test b i = Some (bits_of b ! i)"
  using elem_idx_in_bits [of b i] by (simp add: bitmap_test_def and_bit_mask bits_of_def elem_idx_def)

lemma bitmap_test_out: "bit_cnt b \<le> i \<Longrightarrow> bitmap_test b i = None"
  by (simp add: bitmap_test_def)

section \<open>Ranges of bits\<close>

definition set_range :: "bool list \<Rightarrow> nat \<Rightarrow> nat \<Rightarrow> bool \<Rightarrow> bool list" where
  "set_range xs start cnt v = take start xs @ replicate cnt v @ drop (start + cnt) xs"

lemma length_set_range [simp]: "start + cnt \<le> length xs \<Longrightarrow> length (set_range xs start cnt v) = length xs"
  by (simp add: set_range_def)

lemma nth_set_range:
  "start + cnt \<le> length xs \<Longrightarrow> i < length xs \<Longrightarrow>
   set_range xs start cnt v ! i = (if start \<le> i \<and> i < start + cnt then v else xs ! i)"
  by (auto simp: set_range_def nth_append)

lemma set_range_Suc:
  "start + Suc cnt \<le> length xs \<Longrightarrow> (set_range xs start cnt v)[start + cnt := v] = set_range xs start (Suc cnt) v"
  by (rule nth_equalityI) (auto simp: nth_set_range nth_list_update)

lemma set_range_0 [simp]: "set_range xs start 0 v = xs"
  by (simp add: set_range_def)

lemma bitmap_set_multiple_loop_ok:
  assumes "bitmap_wf b" "bits_of b = set_range xs start i v" "i \<le> cnt" "start + cnt \<le> bit_cnt b"
    "length xs = bit_cnt b"
  shows "\<exists>b'. bitmap_set_multiple_loop b start cnt v i = Some b' \<and> bitmap_wf b' \<and>
              bit_cnt b' = bit_cnt b \<and> bits_of b' = set_range xs start cnt v"
  using assms
proof (induction "cnt - i" arbitrary: b i)
  case 0
  then show ?case by (subst bitmap_set_multiple_loop.simps) simp
next
  case (Suc n)
  then have lt: "i < cnt" "start + i < bit_cnt b" by auto
  then have m: "(start + i) mod size_mod = start + i" using Suc.prems(1) by (simp add: bitmap_wf_def)
  obtain b1 where b1: "bitmap_set b (start + i) v = Some b1" "bitmap_wf b1" "bit_cnt b1 = bit_cnt b"
      "bits_of b1 = (bits_of b)[start + i := v]"
    using bitmap_set_refines [OF Suc.prems(1) lt(2)] by blast
  have "bits_of b1 = set_range xs start (Suc i) v"
    using b1(4) Suc.prems lt set_range_Suc [of start i xs v] by simp
  with Suc.hyps(1) [of "i + 1" b1] Suc.hyps(2) Suc.prems b1 lt
  have "\<exists>b'. bitmap_set_multiple_loop b1 start cnt v (i + 1) = Some b' \<and> bitmap_wf b' \<and>
              bit_cnt b' = bit_cnt b \<and> bits_of b' = set_range xs start cnt v"
    by simp
  with b1(1) lt(1) m show ?case by (subst bitmap_set_multiple_loop.simps) simp
qed

lemma bitmap_set_multiple_loop_out:
  assumes "bitmap_wf b" "start + i \<le> bit_cnt b" "bit_cnt b < start + cnt"
  shows "bitmap_set_multiple_loop b start cnt v i = None"
  using assms
proof (induction "bit_cnt b - (start + i)" arbitrary: b i)
  case 0
  then show ?case by (subst bitmap_set_multiple_loop.simps) (simp add: bitmap_set_out bitmap_wf_def)
next
  case (Suc n)
  then have lt: "i < cnt" "start + i < bit_cnt b" by auto
  then have m: "(start + i) mod size_mod = start + i" using Suc.prems(1) by (simp add: bitmap_wf_def)
  obtain b1 where "bitmap_set b (start + i) v = Some b1" "bitmap_wf b1" "bit_cnt b1 = bit_cnt b"
    using bitmap_set_refines [OF Suc.prems(1) lt(2)] by blast
  with Suc lt m show ?case by (subst bitmap_set_multiple_loop.simps) simp
qed

lemma bitmap_set_multiple_refines:
  assumes "bitmap_wf b" "start + cnt \<le> bit_cnt b"
  shows "\<exists>b'. bitmap_set_multiple b start cnt v = Some b' \<and> bitmap_wf b' \<and>
              bit_cnt b' = bit_cnt b \<and> bits_of b' = set_range (bits_of b) start cnt v"
proof -
  have "(start + cnt) mod size_mod = start + cnt" using assms by (simp add: bitmap_wf_def)
  then show ?thesis
    using assms bitmap_set_multiple_loop_ok [of b "bits_of b" start 0 v cnt]
    by (simp add: bitmap_set_multiple_def)
qed

lemma bitmap_set_multiple_out:
  assumes "bitmap_wf b" "bit_cnt b < start + cnt"
  shows "bitmap_set_multiple b start cnt v = None"
  using assms bitmap_set_multiple_loop_out [of b start 0 cnt v]
  by (simp add: bitmap_set_multiple_def)

lemma bitmap_contains_loop_eq:
  assumes "bitmap_wf b" "start + cnt \<le> bit_cnt b" "i \<le> cnt"
  shows "bitmap_contains_loop b start cnt v i = Some (\<exists>j. i \<le> j \<and> j < cnt \<and> bits_of b ! (start + j) = v)"
  using assms(3)
proof (induction "cnt - i" arbitrary: i)
  case 0
  then show ?case by (subst bitmap_contains_loop.simps) simp
next
  case (Suc n)
  then have lt: "i < cnt" "start + i < bit_cnt b" using assms(2) by auto
  then have t: "bitmap_test b ((start + i) mod size_mod) = Some (bits_of b ! (start + i))"
    using assms(1) by (simp add: bitmap_test_eq bitmap_wf_def)
  have *: "(\<exists>j. i \<le> j \<and> j < cnt \<and> bits_of b ! (start + j) = v) \<longleftrightarrow>
        bits_of b ! (start + i) = v \<or> (\<exists>j. i + 1 \<le> j \<and> j < cnt \<and> bits_of b ! (start + j) = v)"
    using lt(1) by (metis Suc_eq_plus1 Suc_leI Suc_le_lessD le_neq_implies_less le_refl less_imp_le_nat)
  have "bitmap_contains_loop b start cnt v (i + 1) =
      Some (\<exists>j. i + 1 \<le> j \<and> j < cnt \<and> bits_of b ! (start + j) = v)"
    using Suc by (intro Suc.hyps) auto
  with t lt(1) show ?case
    unfolding * by (subst bitmap_contains_loop.simps) simp
qed

lemma bitmap_contains_eq:
  assumes "bitmap_wf b" "start + cnt \<le> bit_cnt b"
  shows "bitmap_contains b start cnt v = Some (\<exists>j<cnt. bits_of b ! (start + j) = v)"
  using assms bitmap_contains_loop_eq [OF assms, of 0]
  by (simp add: bitmap_contains_def bitmap_wf_def)

lemma bitmap_count_loop_eq:
  assumes "bitmap_wf b" "start + cnt \<le> bit_cnt b" "i \<le> cnt"
  shows "bitmap_count_loop b start cnt v i n =
           Some (n + length (filter (\<lambda>x. x = v) (take (cnt - i) (drop (start + i) (bits_of b)))))"
  using assms(3)
proof (induction "cnt - i" arbitrary: i n)
  case 0
  then show ?case by (subst bitmap_count_loop.simps) simp
next
  case (Suc k)
  then have lt: "i < cnt" "start + i < bit_cnt b" using assms(2) by auto
  then have t: "bitmap_test b ((start + i) mod size_mod) = Some (bits_of b ! (start + i))"
    using assms(1) by (simp add: bitmap_test_eq bitmap_wf_def)
  have "drop (start + i) (bits_of b) = bits_of b ! (start + i) # drop (start + (i + 1)) (bits_of b)"
    using lt(2) by (simp add: Cons_nth_drop_Suc)
  moreover have "cnt - i = Suc (cnt - (i + 1))" using lt by simp
  ultimately have "take (cnt - i) (drop (start + i) (bits_of b)) =
      bits_of b ! (start + i) # take (cnt - (i + 1)) (drop (start + (i + 1)) (bits_of b))" by simp
  with t lt(1) Suc.hyps(1) [of "i + 1"] Suc.hyps(2) show ?case
    by (subst bitmap_count_loop.simps) simp
qed

lemma bitmap_count_eq:
  assumes "bitmap_wf b" "start + cnt \<le> bit_cnt b"
  shows "bitmap_count b start cnt v = Some (length (filter (\<lambda>x. x = v) (take cnt (drop start (bits_of b)))))"
  using assms bitmap_count_loop_eq [OF assms, of 0]
  by (simp add: bitmap_count_def bitmap_wf_def)

section \<open>Scanning\<close>

definition group_at :: "bool list \<Rightarrow> nat \<Rightarrow> nat \<Rightarrow> bool \<Rightarrow> bool" where
  "group_at xs i cnt v \<longleftrightarrow> i + cnt \<le> length xs \<and> (\<forall>j<cnt. xs ! (i + j) = v)"

definition first_group :: "bool list \<Rightarrow> nat \<Rightarrow> nat \<Rightarrow> bool \<Rightarrow> nat \<Rightarrow> bool" where
  "first_group xs start cnt v i \<longleftrightarrow>
     start \<le> i \<and> group_at xs i cnt v \<and> (\<forall>k. start \<le> k \<and> k < i \<longrightarrow> \<not> group_at xs k cnt v)"

lemma bitmap_scan_loop_cases:
  assumes wf: "bitmap_wf b" and c: "cnt \<le> bit_cnt b"
  shows "(\<exists>j. bitmap_scan_loop b i (bit_cnt b - cnt) cnt v = Some j \<and> first_group (bits_of b) i cnt v j) \<or>
         (bitmap_scan_loop b i (bit_cnt b - cnt) cnt v = Some BITMAP_ERROR \<and>
          (\<forall>k\<ge>i. \<not> group_at (bits_of b) k cnt v))"
proof (induction "Suc (bit_cnt b - cnt) - i" arbitrary: i)
  case 0
  then show ?case using c by (subst (1 2) bitmap_scan_loop.simps) (auto simp: group_at_def)
next
  case (Suc n)
  then have i: "i \<le> bit_cnt b - cnt" "i + cnt \<le> bit_cnt b" using c by auto
  have ct: "bitmap_contains b i cnt (\<not> v) = Some (\<not> group_at (bits_of b) i cnt v)"
    using bitmap_contains_eq [OF wf i(2)] i(2) by (auto simp: group_at_def)
  show ?case
  proof (cases "group_at (bits_of b) i cnt v")
    case True
    then have "first_group (bits_of b) i cnt v i" by (auto simp: first_group_def)
    with ct i(1) True show ?thesis by (subst bitmap_scan_loop.simps) auto
  next
    case False
    then have "bitmap_scan_loop b i (bit_cnt b - cnt) cnt v = bitmap_scan_loop b (i + 1) (bit_cnt b - cnt) cnt v"
      using ct i(1) by (subst bitmap_scan_loop.simps) simp
    moreover have "n = Suc (bit_cnt b - cnt) - (i + 1)" using Suc.hyps(2) by simp
    moreover have "first_group (bits_of b) i cnt v j" if "first_group (bits_of b) (i + 1) cnt v j" for j
      using that False unfolding first_group_def by (metis Suc_eq_plus1 Suc_leD not_less_eq_eq le_antisym)
    moreover have "\<forall>k\<ge>i. \<not> group_at (bits_of b) k cnt v" if "\<forall>k\<ge>i + 1. \<not> group_at (bits_of b) k cnt v"
      using that False by (metis Suc_eq_plus1 not_less_eq_eq le_antisym)
    ultimately show ?thesis using Suc.hyps(1) [of "i + 1"] by metis
  qed
qed

lemma bitmap_scan_cases:
  assumes "bitmap_wf b" "start \<le> bit_cnt b"
  obtains (found) i where "bitmap_scan b start cnt v = Some i" "first_group (bits_of b) start cnt v i" "i < BITMAP_ERROR"
  | (none) "bitmap_scan b start cnt v = Some BITMAP_ERROR" "\<forall>k\<ge>start. \<not> group_at (bits_of b) k cnt v"
proof (cases "cnt \<le> bit_cnt b")
  case True
  then have eq: "bitmap_scan b start cnt v = bitmap_scan_loop b start (bit_cnt b - cnt) cnt v"
    using assms by (simp add: bitmap_scan_def)
  have "first_group (bits_of b) start cnt v i \<Longrightarrow> i < BITMAP_ERROR" for i
    using assms(1) by (auto simp: first_group_def group_at_def bitmap_wf_def BITMAP_ERROR_def)
  then show ?thesis
    using bitmap_scan_loop_cases [OF assms(1) True, of start v] found none unfolding eq by blast
next
  case False
  then show ?thesis using assms by (intro none) (auto simp: bitmap_scan_def group_at_def)
qed

lemma bitmap_scan_and_flip_found:
  assumes wf: "bitmap_wf b" and g: "bitmap_scan b start cnt v = Some i" "first_group (bits_of b) start cnt v i"
    "i < BITMAP_ERROR"
  shows "\<exists>b'. bitmap_scan_and_flip b start cnt v = Some (i, b') \<and> bitmap_wf b' \<and> bit_cnt b' = bit_cnt b \<and>
              bits_of b' = set_range (bits_of b) i cnt (\<not> v)"
proof -
  have "i + cnt \<le> bit_cnt b" using g by (simp add: first_group_def group_at_def)
  from bitmap_set_multiple_refines [OF wf this, of "\<not> v"] g show ?thesis
    by (auto simp: bitmap_scan_and_flip_def)
qed

section \<open>The bit map as an allocator\<close>

definition used_bits :: "bitmap \<Rightarrow> nat set" where
  "used_bits b = {i. i < bit_cnt b \<and> bits_of b ! i}"

lemma used_bits_set_range:
  assumes "bits_of b' = set_range (bits_of b) i n v" "bit_cnt b' = bit_cnt b" "i + n \<le> bit_cnt b"
  shows "used_bits b' = (if v then used_bits b \<union> {i..<i + n} else used_bits b - {i..<i + n})"
  using assms by (auto simp: used_bits_def nth_set_range split: if_splits)

lemma group_at_free:
  "i + n \<le> bit_cnt b \<Longrightarrow> group_at (bits_of b) i n False \<longleftrightarrow> {i..<i + n} \<inter> used_bits b = {}"
proof -
  assume le: "i + n \<le> bit_cnt b"
  have "(\<forall>j<n. \<not> bits_of b ! (i + j)) \<longleftrightarrow> (\<forall>k. i \<le> k \<and> k < i + n \<longrightarrow> \<not> bits_of b ! k)"
    by (metis add_less_cancel_left le_Suc_ex le_add1)
  with le show ?thesis by (auto simp: group_at_def used_bits_def)
qed

text \<open>The two outcomes of taking a range, in terms of the bits that are set.\<close>

lemma bitmap_take_cases:
  assumes wf: "bitmap_wf b"
  obtains (taken) i b' where "bitmap_scan_and_flip b 0 n False = Some (i, b')" "i \<noteq> BITMAP_ERROR" "bitmap_wf b'"
      "bit_cnt b' = bit_cnt b" "i + n \<le> bit_cnt b" "{i..<i + n} \<inter> used_bits b = {}" "used_bits b' = used_bits b \<union> {i..<i + n}"
  | (full) "bitmap_scan_and_flip b 0 n False = Some (BITMAP_ERROR, b)"
      "\<And>i. i + n \<le> bit_cnt b \<Longrightarrow> {i..<i + n} \<inter> used_bits b \<noteq> {}"
  using wf le0
proof (cases rule: bitmap_scan_cases [where cnt = n and v = False])
  case (found i)
  then have g: "group_at (bits_of b) i n False" by (simp add: first_group_def)
  then have le: "i + n \<le> bit_cnt b" by (simp add: group_at_def)
  with g have fr: "{i..<i + n} \<inter> used_bits b = {}" by (simp add: group_at_free)
  obtain b' where "bitmap_scan_and_flip b 0 n False = Some (i, b')" "bitmap_wf b'" "bit_cnt b' = bit_cnt b"
      "bits_of b' = set_range (bits_of b) i n True"
    using bitmap_scan_and_flip_found [OF wf found] by auto
  with le fr found(3) used_bits_set_range [of b' b i n True] show ?thesis by (intro taken) auto
next
  case none
  then show ?thesis using group_at_free by (intro full) (auto simp: bitmap_scan_and_flip_def)
qed

lemma bitmap_give_back:
  assumes "bitmap_wf b" "i + n \<le> bit_cnt b"
  shows "\<exists>b'. bitmap_set_multiple b i n False = Some b' \<and> bitmap_wf b' \<and> bit_cnt b' = bit_cnt b \<and>
      used_bits b' = used_bits b - {i..<i + n}"
  using assms bitmap_set_multiple_refines [of b i n False] used_bits_set_range [of _ b i n False] by force

lemma bitmap_all_used:
  assumes "bitmap_wf b" "i + n \<le> bit_cnt b"
  shows "bitmap_all b i n = Some ({i..<i + n} \<subseteq> used_bits b)"
proof -
  have "(\<forall>j<n. bits_of b ! (i + j)) \<longleftrightarrow> (\<forall>k. i \<le> k \<and> k < i + n \<longrightarrow> bits_of b ! k)"
    by (metis add_less_cancel_left le_Suc_ex le_add1)
  with assms show ?thesis by (auto simp: bitmap_all_def bitmap_contains_eq used_bits_def)
qed

interpretation bitmap_alloc: complete_allocator bitmap_wf bit_cnt used_bits
  "\<lambda>b n. bitmap_scan_and_flip b 0 n False" "\<lambda>b i n. bitmap_set_multiple b i n False" BITMAP_ERROR
proof
  fix b n assume wf: "bitmap_wf b"
  show "\<exists>i b'. bitmap_scan_and_flip b 0 n False = Some (i, b') \<and> bitmap_wf b' \<and> bit_cnt b' = bit_cnt b \<and>
      (if i = BITMAP_ERROR then used_bits b' = used_bits b
       else i + n \<le> bit_cnt b \<and> {i..<i + n} \<inter> used_bits b = {} \<and> used_bits b' = used_bits b \<union> {i..<i + n})"
    by (rule bitmap_take_cases [OF wf, of n]) (use wf in auto)
next
  fix b :: bitmap and i n
  assume "bitmap_wf b" "i + n \<le> bit_cnt b"
  then show "\<exists>b'. bitmap_set_multiple b i n False = Some b' \<and> bitmap_wf b' \<and> bit_cnt b' = bit_cnt b \<and>
      used_bits b' = used_bits b - {i..<i + n}" by (rule bitmap_give_back)
next
  fix b b' :: bitmap and i n
  assume wf: "bitmap_wf b" and le: "i + n \<le> bit_cnt b" and fr: "{i..<i + n} \<inter> used_bits b = {}"
  show "bitmap_scan_and_flip b 0 n False \<noteq> Some (BITMAP_ERROR, b')"
    by (rule bitmap_take_cases [OF wf, of n]) (use le fr in auto)
qed

section \<open>Properties\<close>

text \<open>C7. \<open>bitmap_scan_and_flip\<close> on a well-formed bit map either returns the first group of
  \<open>cnt\<close> consecutive bits at or after \<open>start\<close> that all have the value and flips exactly that
  group, or there is no such group, it returns \<open>BITMAP_ERROR\<close> and changes nothing.\<close>

theorem bitmap_scan_and_flip_spec:
  assumes "bitmap_wf b" and "start \<le> bit_cnt b"
  shows "(\<exists>i b'. bitmap_scan_and_flip b start cnt v = Some (i, b') \<and> i < BITMAP_ERROR \<and>
            first_group (bits_of b) start cnt v i \<and>
            bitmap_wf b' \<and> bits_of b' = set_range (bits_of b) i cnt (\<not> v)) \<or>
         (bitmap_scan_and_flip b start cnt v = Some (BITMAP_ERROR, b) \<and>
            (\<forall>i\<ge>start. \<not> group_at (bits_of b) i cnt v))"
  using assms
proof (cases rule: bitmap_scan_cases [where cnt = cnt and v = v])
  case (found i)
  then show ?thesis using bitmap_scan_and_flip_found [OF assms(1) found] by blast
next
  case none
  then show ?thesis by (simp add: bitmap_scan_and_flip_def)
qed

text \<open>C8. Clients of a bit map that take ranges with \<open>bitmap_scan_and_flip\<close> and give them back with
  \<open>bitmap_set_multiple\<close> never hold overlapping ranges, whatever the order of their requests:
  starting from an empty bit map no request fails an assertion, the ranges held are pairwise
  disjoint, and the bits set are exactly those held.\<close>

theorem bitmap_clients_disjoint:
  assumes "bitmap_wf b" and "used_bits b = {}"
  shows "\<exists>b' held. serve (\<lambda>b n. bitmap_scan_and_flip b 0 n False) (\<lambda>b i n. bitmap_set_multiple b i n False)
            BITMAP_ERROR b [] rs = Some (b', held) \<and> holds (bit_cnt b) (used_bits b') held \<and>
          (\<forall>i j. i < j \<and> j < length held \<longrightarrow> range_set (held ! i) \<inter> range_set (held ! j) = {})"
  using bitmap_alloc.serve_holds [OF assms(1), of "[]" rs] assms(2) holds_disjoint by fastforce

text \<open>A bit map of forty bits whose first and third bits are set.\<close>

definition forty :: bitmap where
  "forty = \<lparr>bit_cnt = 40, bits = [5, 0]\<rparr>"

lemma forty_wf: "bitmap_wf forty"
  by (simp add: forty_def bitmap_wf_def elem_cnt_def DIV_ROUND_UP_def)

lemmas bitmap_eval = bitmap_scan_and_flip_def bitmap_scan_def bitmap_scan_loop.simps bitmap_contains_def
  bitmap_contains_loop.simps bitmap_test_def bitmap_set_multiple_def bitmap_set_multiple_loop.simps
  bitmap_set_def bitmap_mark_def bitmap_reset_def upd_elem_def elem_idx_def bit_mask_def BITMAP_ERROR_def

theorem bitmap_scan_and_flip_spec_witness:
  "bitmap_scan_and_flip forty 0 2 False = Some (3, \<lparr>bit_cnt = 40, bits = [29, 0]\<rparr>) \<and>
   first_group (bits_of forty) 0 2 False 3"
proof -
  have e: "bitmap_scan_and_flip forty 0 2 False = Some (3, \<lparr>bit_cnt = 40, bits = [29, 0]\<rparr>)"
    by (simp add: forty_def bitmap_eval)
  with bitmap_scan_and_flip_spec [OF forty_wf, of 0 2 False] show ?thesis
    by (auto simp: BITMAP_ERROR_def)
qed

theorem bitmap_clients_disjoint_witness:
  "\<exists>b' held. serve (\<lambda>b n. bitmap_scan_and_flip b 0 n False) (\<lambda>b i n. bitmap_set_multiple b i n False)
      BITMAP_ERROR \<lparr>bit_cnt = 40, bits = [0, 0]\<rparr> [] [Alloc 3, Alloc 30, Release 1, Alloc 2] = Some (b', held) \<and>
    holds 40 (used_bits b') held"
proof -
  let ?b = "\<lparr>bit_cnt = 40, bits = [0, 0]\<rparr> :: bitmap"
  have "bitmap_wf ?b" by (simp add: bitmap_wf_def elem_cnt_def DIV_ROUND_UP_def)
  moreover have "used_bits ?b = {}"
  proof -
    have "(i :: nat) < 40 \<Longrightarrow> ([0, 0] :: u32 list) ! (i div 32) = 0" for i
      by (cases "i < 32") (auto simp: nth_Cons')
    then show ?thesis by (auto simp: used_bits_def bits_of_def)
  qed
  ultimately show ?thesis
    using bitmap_clients_disjoint [of ?b "[Alloc 3, Alloc 30, Release 1, Alloc 2]"] by fastforce
qed

text \<open>C9. \<open>bitmap_set_multiple\<close> succeeds exactly when the range lies inside the bit map, and
  then sets exactly that range. This includes ranges whose end wraps around in the
  32-bit sum \<open>start + cnt\<close>: they pass the assertion on that sum but fail later.\<close>

theorem bitmap_set_multiple_spec:
  assumes "bitmap_wf b"
  shows "(start + cnt \<le> bit_cnt b \<longrightarrow>
            (\<exists>b'. bitmap_set_multiple b start cnt v = Some b' \<and> bitmap_wf b' \<and>
                  bits_of b' = set_range (bits_of b) start cnt v)) \<and>
         (bit_cnt b < start + cnt \<longrightarrow> bitmap_set_multiple b start cnt v = None)"
  using bitmap_set_multiple_refines [OF assms] bitmap_set_multiple_out [OF assms] by blast

theorem bitmap_set_multiple_spec_witness:
  "bitmap_set_multiple forty 4 4294967295 True = None \<and> (4 + 4294967295) mod size_mod \<le> bit_cnt forty \<and>
   (\<exists>b'. bitmap_set_multiple forty 4 30 True = Some b' \<and> bits_of b' = set_range (bits_of forty) 4 30 True)"
  using bitmap_set_multiple_spec [OF forty_wf, of 4 4294967295 True]
    bitmap_set_multiple_spec [OF forty_wf, of 4 30 True]
  by (simp add: forty_def) blast

text \<open>Asked for a group of zero bits, \<open>bitmap_scan_and_flip\<close> returns \<open>start\<close> and changes
  nothing; its comment says it returns 0.\<close>

theorem bitmap_scan_and_flip_zero:
  assumes "bitmap_wf b" and "start \<le> bit_cnt b"
  shows "bitmap_scan_and_flip b start 0 v = Some (start, b)"
proof -
  have "bitmap_contains b start 0 (\<not> v) = Some False"
    using bitmap_contains_eq [of b start 0] assms by simp
  moreover have "start \<noteq> BITMAP_ERROR" "start mod size_mod \<le> bit_cnt b"
    using assms by (auto simp: bitmap_wf_def BITMAP_ERROR_def)
  moreover have "bitmap_set_multiple_loop b start 0 (\<not> v) 0 = Some b"
    by (subst bitmap_set_multiple_loop.simps) simp
  ultimately have "bitmap_set_multiple b start 0 (\<not> v) = Some b" "bitmap_scan b start 0 v = Some start"
    using assms(2) by (simp add: bitmap_set_multiple_def, simp add: bitmap_scan_def, subst bitmap_scan_loop.simps, simp)
  with \<open>start \<noteq> BITMAP_ERROR\<close> show ?thesis by (simp add: bitmap_scan_and_flip_def)
qed

theorem bitmap_scan_and_flip_zero_witness:
  "bitmap_scan_and_flip forty 7 0 False = Some (7, forty)"
  using bitmap_scan_and_flip_zero [OF forty_wf, of 7] by (simp add: forty_def)

end
