(* ===== verification/Hash_Table.thy ===== *)
theory Hash_Table
  imports Interfaces "HOL-Library.Multiset"
begin

text \<open>
  Hash tables, \<open>src/lib/kernel/hash.c\<close>: chained buckets, a number of buckets that is a power of
  two and follows the number of elements. A bucket is the list of its elements (\<open>Kernel_List\<close> shows
  that the intrusive lists realise such lists); an element is its address. The hash and comparison
  functions are fields of the table, as in the code. Whether \<open>malloc\<close> succeeds is the argument
  \<open>mem\<close> of the operations that call it.
\<close>

unbundle bit_operations_syntax

section \<open>The table\<close>

record 'e hash =
  elem_cnt :: u32
  bucket_cnt :: u32
  buckets :: "'e list list"
  hashf :: "'e \<Rightarrow> u32"
  lessf :: "'e \<Rightarrow> 'e \<Rightarrow> bool"

definition hash_same :: "'e hash \<Rightarrow> 'e \<Rightarrow> 'e \<Rightarrow> bool" where
  "hash_same h a b \<longleftrightarrow> \<not> lessf h a b \<and> \<not> lessf h b a"

definition find_bucket :: "'e hash \<Rightarrow> 'e \<Rightarrow> nat" where
  "find_bucket h e = unat (hashf h e AND (bucket_cnt h - 1))"

definition bucket_at :: "'e hash \<Rightarrow> nat \<Rightarrow> 'e list option" where
  "bucket_at h i = (if i < length (buckets h) then Some (buckets h ! i) else None)"

definition find_elem :: "'e hash \<Rightarrow> 'e list \<Rightarrow> 'e \<Rightarrow> 'e option" where
  "find_elem h bucket e = find (\<lambda>hi. hash_same h hi e) bucket"

definition insert_elem :: "'e hash \<Rightarrow> nat \<Rightarrow> 'e \<Rightarrow> 'e hash option" where
  "insert_elem h i e = do {
     b \<leftarrow> bucket_at h i;
     Some (h\<lparr>elem_cnt := elem_cnt h + 1, buckets := (buckets h)[i := e # b]\<rparr>)
   }"

text \<open>\<open>list_remove\<close> unlinks the element from the bucket it is in.\<close>

definition remove_elem :: "'e hash \<Rightarrow> 'e \<Rightarrow> 'e hash" where
  "remove_elem h e = h\<lparr>elem_cnt := elem_cnt h - 1, buckets := map (remove1 e) (buckets h)\<rparr>"

definition turn_off_least_1bit :: "u32 \<Rightarrow> u32" where
  "turn_off_least_1bit x = x AND (x - 1)"

definition is_power_of_2 :: "u32 \<Rightarrow> bool" where
  "is_power_of_2 x \<longleftrightarrow> x \<noteq> 0 \<and> turn_off_least_1bit x = 0"

partial_function (option) power_loop :: "u32 \<Rightarrow> u32 option" where
  "power_loop x = (if is_power_of_2 x then Some x else power_loop (turn_off_least_1bit x))"

text \<open>The element is taken out of its old bucket and pushed in front of the new one.\<close>

fun rehash_bucket :: "'e hash \<Rightarrow> 'e list \<Rightarrow> 'e hash option" where
  "rehash_bucket h [] = Some h"
| "rehash_bucket h (e # es) = do {
     b \<leftarrow> bucket_at h (find_bucket h e);
     rehash_bucket (h\<lparr>buckets := (buckets h)[find_bucket h e := e # b]\<rparr>) es
   }"

fun rehash_move :: "'e hash \<Rightarrow> 'e list list \<Rightarrow> 'e hash option" where
  "rehash_move h [] = Some h"
| "rehash_move h (b # bs) = do { h \<leftarrow> rehash_bucket h b; rehash_move h bs }"

definition rehash :: "bool \<Rightarrow> 'e hash \<Rightarrow> 'e hash option" where
  "rehash mem h = do {
     let n = elem_cnt h div 2;
     let n = (if n < 4 then 4 else n);
     n \<leftarrow> power_loop n;
     (if n = bucket_cnt h then Some h
      else if \<not> mem then Some h
      else rehash_move (h\<lparr>buckets := replicate (unat n) [], bucket_cnt := n\<rparr>) (buckets h))
   }"

definition hash_clear :: "'e hash \<Rightarrow> 'e hash" where
  "hash_clear h = h\<lparr>buckets := map (\<lambda>_. []) (buckets h), elem_cnt := 0\<rparr>"

text \<open>\<open>hash_clear\<close> with a destructor calls it for every element, bucket by bucket.\<close>

definition hash_clear_calls :: "'e hash \<Rightarrow> 'e list" where
  "hash_clear_calls h = concat (buckets h)"

text \<open>The fields before \<open>hash_clear\<close> holds four buckets of arbitrary content \<open>g\<close>.\<close>

definition hash_init :: "bool \<Rightarrow> 'e list list \<Rightarrow> ('e \<Rightarrow> u32) \<Rightarrow> ('e \<Rightarrow> 'e \<Rightarrow> bool) \<Rightarrow> bool \<times> 'e hash" where
  "hash_init mem g hsh lss =
     (let h = \<lparr>elem_cnt = 0, bucket_cnt = 4, buckets = (if mem then g else []), hashf = hsh, lessf = lss\<rparr>
      in if mem then (True, hash_clear h) else (False, h))"

definition hash_insert :: "bool \<Rightarrow> 'e hash \<Rightarrow> 'e \<Rightarrow> ('e option \<times> 'e hash) option" where
  "hash_insert mem h e = do {
     let i = find_bucket h e;
     b \<leftarrow> bucket_at h i;
     let old = find_elem h b e;
     h \<leftarrow> (if old = None then insert_elem h i e else Some h);
     h \<leftarrow> rehash mem h;
     Some (old, h)
   }"

definition hash_replace :: "bool \<Rightarrow> 'e hash \<Rightarrow> 'e \<Rightarrow> ('e option \<times> 'e hash) option" where
  "hash_replace mem h e = do {
     let i = find_bucket h e;
     b \<leftarrow> bucket_at h i;
     let old = find_elem h b e;
     let h = (case old of None \<Rightarrow> h | Some x \<Rightarrow> remove_elem h x);
     h \<leftarrow> insert_elem h i e;
     h \<leftarrow> rehash mem h;
     Some (old, h)
   }"

definition hash_find :: "'e hash \<Rightarrow> 'e \<Rightarrow> 'e option option" where
  "hash_find h e = do { b \<leftarrow> bucket_at h (find_bucket h e); Some (find_elem h b e) }"

definition hash_delete :: "bool \<Rightarrow> 'e hash \<Rightarrow> 'e \<Rightarrow> ('e option \<times> 'e hash) option" where
  "hash_delete mem h e = do {
     b \<leftarrow> bucket_at h (find_bucket h e);
     (case find_elem h b e of
        None \<Rightarrow> Some (None, h)
      | Some x \<Rightarrow> do { h \<leftarrow> rehash mem (remove_elem h x); Some (Some x, h) })
   }"

text \<open>\<open>hash_apply\<close> calls the action on the elements in this order.\<close>

definition hash_apply_calls :: "'e hash \<Rightarrow> 'e list" where
  "hash_apply_calls h = concat (map (\<lambda>i. buckets h ! i) [0..<unat (bucket_cnt h)])"

definition hash_size :: "'e hash \<Rightarrow> u32" where
  "hash_size h = elem_cnt h"

definition hash_empty :: "'e hash \<Rightarrow> bool" where
  "hash_empty h \<longleftrightarrow> elem_cnt h = 0"

section \<open>Iteration\<close>

text \<open>The iterator stands on a position of a bucket: 0 is the list head, as after
  \<open>hash_first\<close>, \<open>n + 1\<close> the end of a bucket of \<open>n\<close> elements. \<open>None\<close> for the position is the null
  element at the end of the table.\<close>

record hash_iterator =
  it_bucket :: nat
  it_elem :: "nat option"

definition hash_first :: hash_iterator where
  "hash_first = \<lparr>it_bucket = 0, it_elem = Some 0\<rparr>"

text \<open>The \<open>while\<close> of \<open>hash_next\<close>: skip to the first bucket after \<open>i\<close> that is not empty.\<close>

function hash_next_loop :: "'e hash \<Rightarrow> nat \<Rightarrow> nat \<Rightarrow> hash_iterator" where
  "hash_next_loop h i p =
     (if i < length (buckets h) \<and> p = Suc (length (buckets h ! i))
      then (if Suc i \<ge> length (buckets h) then \<lparr>it_bucket = Suc i, it_elem = None\<rparr> else hash_next_loop h (Suc i) 1)
      else \<lparr>it_bucket = i, it_elem = Some p\<rparr>)"
  by auto
termination by (relation "measure (\<lambda>(h, i, p). length (buckets h) - i)") auto

declare hash_next_loop.simps [simp del]

definition hash_next :: "'e hash \<Rightarrow> hash_iterator \<Rightarrow> hash_iterator option" where
  "hash_next h it = do {
     p \<leftarrow> it_elem it;
     b \<leftarrow> bucket_at h (it_bucket it);
     ASSERT (p \<le> length b);
     Some (hash_next_loop h (it_bucket it) (Suc p))
   }"

definition hash_cur :: "'e hash \<Rightarrow> hash_iterator \<Rightarrow> 'e option" where
  "hash_cur h it = do {
     p \<leftarrow> it_elem it;
     b \<leftarrow> bucket_at h (it_bucket it);
     (if 0 < p \<and> p \<le> length b then Some (b ! (p - 1)) else None)
   }"

section \<open>Hash functions\<close>

definition FNV_32_PRIME :: u32 where "FNV_32_PRIME = 16777619"
definition FNV_32_BASIS :: u32 where "FNV_32_BASIS = 2166136261"

definition fnv_step :: "u8 \<Rightarrow> u32 \<Rightarrow> u32" where
  "fnv_step b hsh = (hsh * FNV_32_PRIME) XOR ucast b"

definition hash_bytes :: "u8 list \<Rightarrow> nat \<Rightarrow> u32" where
  "hash_bytes buf n = fold fnv_step (take n buf) FNV_32_BASIS"

definition hash_string :: "u8 list \<Rightarrow> u32" where
  "hash_string s = fold fnv_step (takeWhile (\<lambda>c. c \<noteq> 0) s) FNV_32_BASIS"

text \<open>The bytes of an integer in memory, least significant first.\<close>

definition int_bytes :: "u32 \<Rightarrow> u8 list" where
  "int_bytes i = [ucast i, ucast (drop_bit 8 i), ucast (drop_bit 16 i), ucast (drop_bit 24 i)]"

definition hash_int :: "u32 \<Rightarrow> u32" where
  "hash_int i = hash_bytes (int_bytes i) 4"

section \<open>The number of buckets\<close>

lemma turn_off_less: "x \<noteq> 0 \<Longrightarrow> turn_off_least_1bit x < x"
proof -
  assume x: "x \<noteq> 0"
  have "x AND (x - 1) \<le> x - 1" by (simp add: word_and_le1 and.commute)
  also have "x - 1 < x" using x by (simp add: word_less_nat_alt measure_unat)
  finally show ?thesis by (simp add: turn_off_least_1bit_def)
qed

lemma power_loop_returns: "x \<noteq> 0 \<Longrightarrow> \<exists>n. power_loop x = Some n \<and> is_power_of_2 n \<and> n \<le> x"
proof (induction "unat x" arbitrary: x rule: less_induct)
  case less
  show ?case
  proof (cases "is_power_of_2 x")
    case True
    then show ?thesis by (simp add: power_loop.simps)
  next
    case False
    let ?y = "turn_off_least_1bit x"
    have y: "?y \<noteq> 0" "?y < x" using False less.prems turn_off_less by (auto simp: is_power_of_2_def)
    then have "unat ?y < unat x" by (simp add: word_less_nat_alt)
    from less.hyps [OF this y(1)] y(2) False show ?thesis by (auto simp: power_loop.simps [of x])
  qed
qed

lemma is_power_of_2_nonzero: "is_power_of_2 n \<Longrightarrow> n \<noteq> 0"
  by (simp add: is_power_of_2_def)

section \<open>The invariant\<close>

definition keys_ok :: "('e \<Rightarrow> u32) \<Rightarrow> ('e \<Rightarrow> 'e \<Rightarrow> bool) \<Rightarrow> bool" where
  "keys_ok hsh lss \<longleftrightarrow> (\<forall>a. \<not> lss a a) \<and>
     (\<forall>a b c. \<not> lss a b \<and> \<not> lss b a \<and> \<not> lss b c \<and> \<not> lss c b \<longrightarrow> \<not> lss a c \<and> \<not> lss c a) \<and>
     (\<forall>a b. \<not> lss a b \<and> \<not> lss b a \<longrightarrow> hsh a = hsh b)"

definition same_key :: "('e \<Rightarrow> 'e \<Rightarrow> bool) \<Rightarrow> 'e \<Rightarrow> 'e \<Rightarrow> bool" where
  "same_key lss a b \<longleftrightarrow> \<not> lss a b \<and> \<not> lss b a"

definition hash_elems :: "'e hash \<Rightarrow> 'e set" where
  "hash_elems h = set (concat (buckets h))"

definition placed :: "'e hash \<Rightarrow> bool" where
  "placed h \<longleftrightarrow> is_power_of_2 (bucket_cnt h) \<and> length (buckets h) = unat (bucket_cnt h) \<and>
     (\<forall>i < length (buckets h). \<forall>e \<in> set (buckets h ! i). find_bucket h e = i)"

definition hash_ok :: "('e \<Rightarrow> u32) \<Rightarrow> ('e \<Rightarrow> 'e \<Rightarrow> bool) \<Rightarrow> 'e set \<Rightarrow> 'e hash \<Rightarrow> bool" where
  "hash_ok hsh lss U h \<longleftrightarrow> hashf h = hsh \<and> lessf h = lss \<and> keys_ok hsh lss \<and> finite U \<and> card U < 2 ^ 32 \<and>
     placed h \<and> distinct (concat (buckets h)) \<and> hash_elems h \<subseteq> U \<and>
     (\<forall>a\<in>hash_elems h. \<forall>b\<in>hash_elems h. same_key lss a b \<longrightarrow> a = b) \<and>
     unat (elem_cnt h) = length (concat (buckets h))"

lemma find_bucket_range: "placed h \<Longrightarrow> find_bucket h e < length (buckets h)"
proof -
  assume p: "placed h"
  have "hashf h e AND (bucket_cnt h - 1) \<le> bucket_cnt h - 1" by (rule word_and_le1)
  also have "bucket_cnt h - 1 < bucket_cnt h"
    using p by (simp add: placed_def is_power_of_2_def word_less_nat_alt measure_unat)
  finally show ?thesis using p by (simp add: find_bucket_def placed_def word_less_nat_alt)
qed

lemma mset_concat_push:
  "i < length bs \<Longrightarrow> mset (concat (bs[i := e # bs ! i])) = add_mset e (mset (concat bs))"
  by (induction bs arbitrary: i) (auto split: nat.splits)

lemma set_concat_nth: "i < length bs \<Longrightarrow> x \<in> set (bs ! i) \<Longrightarrow> x \<in> set (concat bs)"
  by auto

lemma placed_push:
  assumes "placed h" "find_bucket h e = i"
  shows "placed (h\<lparr>elem_cnt := n, buckets := (buckets h)[i := e # buckets h ! i]\<rparr>)"
  using assms find_bucket_range [OF assms(1), of e]
  by (auto simp: placed_def find_bucket_def nth_list_update split: if_splits)

lemma placed_push':
  assumes "placed h" "find_bucket h e = i"
  shows "placed (h\<lparr>buckets := (buckets h)[i := e # buckets h ! i]\<rparr>)"
  using placed_push [OF assms, of "elem_cnt h"] by simp

lemma rehash_bucket_spec:
  "placed h \<Longrightarrow> \<exists>h'. rehash_bucket h es = Some h' \<and> placed h' \<and> bucket_cnt h' = bucket_cnt h \<and>
     hashf h' = hashf h \<and> lessf h' = lessf h \<and> elem_cnt h' = elem_cnt h \<and>
     mset (concat (buckets h')) = mset (concat (buckets h)) + mset es"
proof (induction es arbitrary: h)
  case (Cons e es)
  let ?i = "find_bucket h e" and ?h = "h\<lparr>buckets := (buckets h)[find_bucket h e := e # buckets h ! find_bucket h e]\<rparr>"
  have r: "?i < length (buckets h)" by (rule find_bucket_range [OF Cons.prems])
  from Cons.IH [OF placed_push' [OF Cons.prems refl, of e]] mset_concat_push [OF r, of e] r
  show ?case by (auto simp: bucket_at_def)
qed simp

lemma rehash_move_spec:
  "placed h \<Longrightarrow> \<exists>h'. rehash_move h bs = Some h' \<and> placed h' \<and> bucket_cnt h' = bucket_cnt h \<and>
     hashf h' = hashf h \<and> lessf h' = lessf h \<and> elem_cnt h' = elem_cnt h \<and>
     mset (concat (buckets h')) = mset (concat (buckets h)) + mset (concat bs)"
proof (induction bs arbitrary: h)
  case (Cons b bs)
  obtain h1 where h1: "rehash_bucket h b = Some h1" "placed h1" "bucket_cnt h1 = bucket_cnt h" "hashf h1 = hashf h"
      "lessf h1 = lessf h" "elem_cnt h1 = elem_cnt h" "mset (concat (buckets h1)) = mset (concat (buckets h)) + mset b"
    using rehash_bucket_spec [OF Cons.prems] by blast
  from Cons.IH [OF h1(2)] h1 show ?case by (auto simp: ac_simps)
qed simp

text \<open>Changing the number of buckets keeps the elements.\<close>

lemma rehash_spec:
  assumes "placed h"
  shows "\<exists>h'. rehash mem h = Some h' \<and> placed h' \<and> hashf h' = hashf h \<and> lessf h' = lessf h \<and>
     elem_cnt h' = elem_cnt h \<and> mset (concat (buckets h')) = mset (concat (buckets h))"
proof -
  let ?n = "if elem_cnt h div 2 < 4 then 4 else elem_cnt h div 2"
  have "?n \<noteq> 0" by auto
  then obtain n where n: "power_loop ?n = Some n" "is_power_of_2 n" using power_loop_returns by blast
  let ?h = "h\<lparr>buckets := replicate (unat n) [], bucket_cnt := n\<rparr>"
  have "placed ?h" using n(2) by (auto simp: placed_def)
  from rehash_move_spec [OF this, of "buckets h"] n(1) assms show ?thesis
    by (auto simp: rehash_def Let_def concat_replicate_trivial)
qed

lemma hash_ok_mset:
  assumes ok: "hash_ok hsh lss U h" and h': "placed h'" "hashf h' = hsh" "lessf h' = lss" "elem_cnt h' = elem_cnt h"
    "mset (concat (buckets h')) = mset (concat (buckets h))"
  shows "hash_ok hsh lss U h' \<and> hash_elems h' = hash_elems h"
proof -
  have "set (concat (buckets h')) = set (concat (buckets h))" "length (concat (buckets h')) = length (concat (buckets h))"
    "distinct (concat (buckets h')) = distinct (concat (buckets h))"
    using h'(5) by (rule mset_eq_setD, metis size_mset, rule mset_eq_imp_distinct_iff)
  then show ?thesis using ok h' unfolding hash_ok_def hash_elems_def by simp
qed

section \<open>Operations\<close>

lemma same_key_equiv:
  assumes "keys_ok hsh lss"
  shows "same_key lss a a" "same_key lss a b \<Longrightarrow> same_key lss b a"
    "same_key lss a b \<Longrightarrow> same_key lss b c \<Longrightarrow> same_key lss a c" "same_key lss a b \<Longrightarrow> hsh a = hsh b"
  using assms unfolding keys_ok_def same_key_def by blast+

lemma find_elem_spec:
  assumes ok: "hash_ok hsh lss U h"
  shows "\<exists>b. bucket_at h (find_bucket h e) = Some b \<and> b = buckets h ! find_bucket h e \<and>
     answer (same_key lss) (hash_elems h) e (find_elem h b e)"
proof -
  note o = ok [unfolded hash_ok_def]
  let ?i = "find_bucket h e" and ?b = "buckets h ! find_bucket h e"
  have pl: "placed h" using o by blast
  have r: "?i < length (buckets h)" by (rule find_bucket_range [OF pl])
  have same: "hash_same h a b = same_key lss a b" for a b using o by (simp add: hash_same_def same_key_def)
  have here: "x \<in> set ?b" if x: "x \<in> hash_elems h" "same_key lss x e" for x
  proof -
    obtain c where "c \<in> set (buckets h)" "x \<in> set c" using x(1) unfolding hash_elems_def by auto
    then obtain j where j: "j < length (buckets h)" "x \<in> set (buckets h ! j)" by (auto simp: in_set_conv_nth [of c])
    have "find_bucket h x = j" using pl j by (simp add: placed_def)
    moreover have "hashf h x = hashf h e" using same_key_equiv(4) x(2) o by metis
    then have "find_bucket h x = ?i" by (simp add: find_bucket_def)
    ultimately show ?thesis using j by simp
  qed
  have "answer (same_key lss) (hash_elems h) e (find_elem h ?b e)"
  proof (cases "find_elem h ?b e")
    case None
    then have "\<not> same_key lss x e" if "x \<in> set ?b" for x using that same by (auto simp: find_elem_def find_None_iff)
    then show ?thesis unfolding None answer_def using here by auto
  next
    case (Some x)
    then have "x \<in> set ?b" "same_key lss x e" using same by (auto simp: find_elem_def find_Some_iff)
    then show ?thesis using Some r set_concat_nth [of ?i "buckets h" x] by (simp add: answer_def hash_elems_def)
  qed
  then show ?thesis using r by (simp add: bucket_at_def)
qed

lemma hash_ok_push:
  assumes ok: "hash_ok hsh lss U h" and e: "e \<in> U" "e \<notin> hash_elems h" "\<And>x. x \<in> hash_elems h \<Longrightarrow> \<not> same_key lss x e"
  shows "\<exists>h'. insert_elem h (find_bucket h e) e = Some h' \<and> hash_ok hsh lss U h' \<and> hash_elems h' = insert e (hash_elems h)"
proof -
  note o = ok [unfolded hash_ok_def]
  let ?i = "find_bucket h e"
  have pl: "placed h" using o by blast
  have r: "?i < length (buckets h)" by (rule find_bucket_range [OF pl])
  let ?h = "h\<lparr>elem_cnt := elem_cnt h + 1, buckets := (buckets h)[?i := e # buckets h ! ?i]\<rparr>"
  have m: "mset (concat (buckets ?h)) = mset (e # concat (buckets h))" using mset_concat_push [OF r, of e] by simp
  have S: "set (concat (buckets ?h)) = insert e (set (concat (buckets h)))" using mset_eq_setD [OF m] by simp
  have L: "length (concat (buckets ?h)) = Suc (length (concat (buckets h)))" using mset_eq_length [OF m] by simp
  have D: "distinct (concat (buckets ?h))" using mset_eq_imp_distinct_iff [OF m] o e(2) by (simp add: hash_elems_def)
  have "card (insert e (hash_elems h)) \<le> card U" using o e(1) by (intro card_mono) auto
  moreover have "card (hash_elems h) = length (concat (buckets h))"
    using o distinct_card [of "concat (buckets h)"] unfolding hash_elems_def by blast
  moreover have "finite (hash_elems h)" unfolding hash_elems_def by (rule finite_set)
  ultimately have "Suc (unat (elem_cnt h)) < 2 ^ 32" using o e(2) by simp
  then have "unat (elem_cnt h + 1) = Suc (unat (elem_cnt h))" by (simp add: unat_word_ariths)
  moreover have "\<not> same_key lss e x" if "x \<in> hash_elems h" for x using e(3) [OF that] by (auto simp: same_key_def)
  moreover have "placed ?h" using placed_push [OF pl refl] .
  moreover have E: "hash_elems ?h = insert e (hash_elems h)" using S by (simp add: hash_elems_def)
  ultimately have "hash_ok hsh lss U ?h"
    unfolding hash_ok_def E using o e L D same_key_equiv(1) [of hsh lss e] by auto
  then show ?thesis using r E by (auto simp: insert_elem_def bucket_at_def)
qed

lemma mset_concat_remove:
  "distinct (concat bs) \<Longrightarrow> mset (concat (map (remove1 e) bs)) = mset (concat bs) - {#e#}"
proof (induction bs)
  case (Cons b bs)
  show ?case
  proof (cases "e \<in> set b")
    case True
    then have "e \<notin> set x" if "x \<in> set bs" for x using Cons.prems that by auto
    then have m: "map (remove1 e) bs = bs" by (simp add: map_idI remove1_idem)
    have "mset (concat bs) + mset b - {#e#} = mset (concat bs) + (mset b - {#e#})"
      using True by (intro diff_union_single_conv) simp
    then show ?thesis by (simp add: m add.commute)
  next
    case False
    have "mset b + mset (concat bs) - {#e#} = mset b + (mset (concat bs) - {#e#})"
    proof (cases "e \<in># mset (concat bs)")
      case True
      then show ?thesis by (rule diff_union_single_conv)
    next
      case ne: False
      with False show ?thesis by (simp add: diff_single_trivial)
    qed
    then show ?thesis using False Cons.IH Cons.prems by (simp add: remove1_idem)
  qed
qed simp

lemma hash_ok_remove:
  assumes ok: "hash_ok hsh lss U h" and x: "x \<in> hash_elems h"
  shows "hash_ok hsh lss U (remove_elem h x) \<and> hash_elems (remove_elem h x) = hash_elems h - {x}"
proof -
  note o = ok [unfolded hash_ok_def]
  let ?h = "remove_elem h x" and ?c = "concat (buckets h)"
  have d: "distinct ?c" using o by blast
  have "mset (concat (buckets ?h)) = mset (remove1 x ?c)" using mset_concat_remove [OF d] by (simp add: remove_elem_def)
  from mset_eq_setD [OF this] mset_eq_length [OF this] mset_eq_imp_distinct_iff [OF this]
  have c: "set (concat (buckets ?h)) = set ?c - {x}" "length (concat (buckets ?h)) = length ?c - 1" "distinct (concat (buckets ?h))"
    using d x by (simp_all add: hash_elems_def length_remove1)
  have "placed ?h"
    using o unfolding placed_def by (auto simp: remove_elem_def find_bucket_def dest: subsetD [OF set_remove1_subset])
  moreover have "0 < length ?c" using x unfolding hash_elems_def by (rule length_pos_if_in_set)
  then have "elem_cnt h \<noteq> 0" using o by auto
  then have "unat (elem_cnt ?h) = length ?c - 1" using o by (simp add: remove_elem_def unat_minus_one)
  moreover have E: "hash_elems ?h = hash_elems h - {x}" using c(1) by (simp add: hash_elems_def)
  ultimately show ?thesis using o c(2,3) unfolding hash_ok_def E by (auto simp: remove_elem_def)
qed

lemma hash_ok_rehash:
  assumes "hash_ok hsh lss U h"
  shows "\<exists>h'. rehash mem h = Some h' \<and> hash_ok hsh lss U h' \<and> hash_elems h' = hash_elems h"
proof -
  have "placed h" "hashf h = hsh" "lessf h = lss" using assms by (auto simp: hash_ok_def)
  with rehash_spec [OF this(1), of mem] obtain h' where "rehash mem h = Some h'" "placed h'" "hashf h' = hsh"
      "lessf h' = lss" "elem_cnt h' = elem_cnt h" "mset (concat (buckets h')) = mset (concat (buckets h))"
    by blast
  with hash_ok_mset [OF assms this(2-6)] show ?thesis by blast
qed

text \<open>One request; \<open>mem\<close> says whether \<open>malloc\<close> succeeds in this call.\<close>

fun hash_step :: "bool \<Rightarrow> 'e hash \<Rightarrow> 'e dict_request \<Rightarrow> ('e option \<times> 'e hash) option" where
  "hash_step mem h (Insert e) = hash_insert mem h e"
| "hash_step mem h (Replace e) = hash_replace mem h e"
| "hash_step mem h (Delete e) = hash_delete mem h e"

lemma not_in_table:
  assumes "hash_ok hsh lss U h" "\<forall>x\<in>hash_elems h. \<not> same_key lss x e"
  shows "e \<notin> hash_elems h"
  using assms same_key_equiv(1) [of hsh lss e] unfolding hash_ok_def by blast

lemma hash_insert_ok:
  assumes ok: "hash_ok hsh lss U h" and e: "e \<in> U"
  shows "\<exists>x h'. hash_insert mem h e = Some (x, h') \<and> answer (same_key lss) (hash_elems h) e x \<and> hash_ok hsh lss U h' \<and>
     hash_elems h' = dict_spec (same_key lss) (hash_elems h) (Insert e)"
proof -
  obtain b where b: "bucket_at h (find_bucket h e) = Some b" "answer (same_key lss) (hash_elems h) e (find_elem h b e)"
    using find_elem_spec [OF ok] by blast
  show ?thesis
  proof (cases "find_elem h b e")
    case None
    then have n: "\<forall>x\<in>hash_elems h. \<not> same_key lss x e" using b(2) by (simp add: answer_def)
    obtain h1 where h1: "insert_elem h (find_bucket h e) e = Some h1" "hash_ok hsh lss U h1" "hash_elems h1 = insert e (hash_elems h)"
      using hash_ok_push [OF ok e] n not_in_table [OF ok] by blast
    obtain h2 where "rehash mem h1 = Some h2" "hash_ok hsh lss U h2" "hash_elems h2 = hash_elems h1"
      using hash_ok_rehash [OF h1(2)] by blast
    then show ?thesis using b None h1 n by (simp add: hash_insert_def)
  next
    case (Some x)
    obtain h2 where "rehash mem h = Some h2" "hash_ok hsh lss U h2" "hash_elems h2 = hash_elems h"
      using hash_ok_rehash [OF ok] by blast
    moreover have "\<exists>x\<in>hash_elems h. same_key lss x e" using b(2) Some by (auto simp: answer_def)
    ultimately show ?thesis using b Some by (simp add: hash_insert_def)
  qed
qed

lemma removed_others:
  assumes ok: "hash_ok hsh lss U h" and x: "x \<in> hash_elems h" "same_key lss x e"
  shows "hash_elems h - {x} = {y\<in>hash_elems h. \<not> same_key lss y e}"
proof -
  have k: "keys_ok hsh lss" and u: "\<forall>a\<in>hash_elems h. \<forall>b\<in>hash_elems h. same_key lss a b \<longrightarrow> a = b"
    using ok unfolding hash_ok_def by blast+
  have "y = x" if "y \<in> hash_elems h" "same_key lss y e" for y
  proof -
    have "same_key lss y x" using same_key_equiv(3) [OF k that(2) same_key_equiv(2) [OF k x(2)]] .
    then show ?thesis using u that(1) x(1) by blast
  qed
  then show ?thesis using x by blast
qed

lemma hash_delete_ok:
  assumes ok: "hash_ok hsh lss U h"
  shows "\<exists>x h'. hash_delete mem h e = Some (x, h') \<and> answer (same_key lss) (hash_elems h) e x \<and> hash_ok hsh lss U h' \<and>
     hash_elems h' = dict_spec (same_key lss) (hash_elems h) (Delete e)"
proof -
  obtain b where b: "bucket_at h (find_bucket h e) = Some b" "answer (same_key lss) (hash_elems h) e (find_elem h b e)"
    using find_elem_spec [OF ok] by blast
  show ?thesis
  proof (cases "find_elem h b e")
    case None
    then have "{x\<in>hash_elems h. \<not> same_key lss x e} = hash_elems h" using b(2) by (auto simp: answer_def)
    then show ?thesis using b ok None by (simp add: hash_delete_def)
  next
    case (Some x)
    then have x: "x \<in> hash_elems h" "same_key lss x e" using b(2) by (simp_all add: answer_def)
    note r = hash_ok_remove [OF ok x(1)]
    obtain h2 where "rehash mem (remove_elem h x) = Some h2" "hash_ok hsh lss U h2" "hash_elems h2 = hash_elems (remove_elem h x)"
      using hash_ok_rehash [OF conjunct1 [OF r]] by blast
    then show ?thesis using b Some r removed_others [OF ok x] by (simp add: hash_delete_def)
  qed
qed

lemma hash_replace_ok:
  assumes ok: "hash_ok hsh lss U h" and e: "e \<in> U"
  shows "\<exists>x h'. hash_replace mem h e = Some (x, h') \<and> answer (same_key lss) (hash_elems h) e x \<and> hash_ok hsh lss U h' \<and>
     hash_elems h' = dict_spec (same_key lss) (hash_elems h) (Replace e)"
proof -
  obtain b where b: "bucket_at h (find_bucket h e) = Some b" "answer (same_key lss) (hash_elems h) e (find_elem h b e)"
    using find_elem_spec [OF ok] by blast
  let ?h = "case find_elem h b e of None \<Rightarrow> h | Some x \<Rightarrow> remove_elem h x"
  have h1: "hash_ok hsh lss U ?h" "hash_elems ?h = {y\<in>hash_elems h. \<not> same_key lss y e}"
  proof -
    have "hash_ok hsh lss U ?h \<and> hash_elems ?h = {y\<in>hash_elems h. \<not> same_key lss y e}"
    proof (cases "find_elem h b e")
      case None
      then show ?thesis using b(2) ok by (auto simp: answer_def)
    next
      case (Some x)
      then have "x \<in> hash_elems h" "same_key lss x e" using b(2) by (simp_all add: answer_def)
      from hash_ok_remove [OF ok this(1)] removed_others [OF ok this] Some show ?thesis by simp
    qed
    then show "hash_ok hsh lss U ?h" "hash_elems ?h = {y\<in>hash_elems h. \<not> same_key lss y e}" by blast+
  qed
  have fb: "find_bucket ?h e = find_bucket h e" by (simp add: find_bucket_def remove_elem_def split: option.split)
  have "\<forall>x\<in>hash_elems ?h. \<not> same_key lss x e" unfolding h1(2) by blast
  then have n: "e \<notin> hash_elems ?h" "\<And>x. x \<in> hash_elems ?h \<Longrightarrow> \<not> same_key lss x e" using not_in_table [OF h1(1)] by blast+
  obtain h2 where h2: "insert_elem ?h (find_bucket h e) e = Some h2" "hash_ok hsh lss U h2" "hash_elems h2 = insert e (hash_elems ?h)"
    using hash_ok_push [OF h1(1) e n] unfolding fb by blast
  obtain h3 where "rehash mem h2 = Some h3" "hash_ok hsh lss U h3" "hash_elems h3 = hash_elems h2"
    using hash_ok_rehash [OF h2(2)] by blast
  then show ?thesis using b h2 h1(2) by (simp add: hash_replace_def)
qed

interpretation ht: keyed_set "same_key lss" U "hash_ok hsh lss U" hash_elems hash_step hash_find
  for lss :: "'e \<Rightarrow> 'e \<Rightarrow> bool" and U hsh
proof unfold_locales
  fix h :: "'e hash" and r mem
  assume a: "hash_ok hsh lss U h" "dict_elem r \<in> U"
  show "\<exists>x h'. hash_step mem h r = Some (x, h') \<and> answer (same_key lss) (hash_elems h) (dict_elem r) x \<and>
      hash_ok hsh lss U h' \<and> hash_elems h' = dict_spec (same_key lss) (hash_elems h) r"
  proof (cases r)
    case (Insert e)
    then show ?thesis using hash_insert_ok [OF a(1), of e mem] a(2) by simp
  next
    case (Replace e)
    then show ?thesis using hash_replace_ok [OF a(1), of e mem] a(2) by simp
  next
    case (Delete e)
    then show ?thesis using hash_delete_ok [OF a(1), of mem e] by simp
  qed
next
  fix h :: "'e hash" and e
  assume "hash_ok hsh lss U h"
  from find_elem_spec [OF this, of e] show "\<exists>x. hash_find h e = Some x \<and> answer (same_key lss) (hash_elems h) e x"
    by (auto simp: hash_find_def)
qed

lemma hash_init_ok:
  fixes g :: "'a list list"
  assumes "length g = 4" "keys_ok hsh lss" "finite U" "card U < 2 ^ 32" "hash_init True g hsh lss = (ok, h)"
  shows "ok \<and> hash_ok hsh lss U h \<and> hash_elems h = {}"
proof -
  have c: "concat (map (\<lambda>_. []) g) = ([] :: 'a list)" by simp
  have "is_power_of_2 4" by (simp add: is_power_of_2_def turn_off_least_1bit_def)
  then show ?thesis using assms c
    by (auto simp: hash_init_def hash_clear_def Let_def hash_ok_def hash_elems_def placed_def simp del: concat_eq_Nil_conv)
qed

section \<open>Iteration visits every element once\<close>

text \<open>The elements an iterator still has to visit.\<close>

definition rest :: "'e hash \<Rightarrow> hash_iterator \<Rightarrow> 'e list" where
  "rest h it = (case it_elem it of None \<Rightarrow> []
     | Some p \<Rightarrow> drop p (buckets h ! it_bucket it) @ concat (drop (Suc (it_bucket it)) (buckets h)))"

fun hash_iterate :: "nat \<Rightarrow> 'e hash \<Rightarrow> hash_iterator \<Rightarrow> 'e list option" where
  "hash_iterate 0 h it = None"
| "hash_iterate (Suc n) h it = do {
     it \<leftarrow> hash_next h it;
     (case hash_cur h it of None \<Rightarrow> Some [] | Some e \<Rightarrow> do { es \<leftarrow> hash_iterate n h it; Some (e # es) })
   }"

lemma hash_next_loop_spec:
  assumes "i < length (buckets h)" "0 < p" "p \<le> Suc (length (buckets h ! i))"
  shows "(case hash_cur h (hash_next_loop h i p) of
      None \<Rightarrow> drop (p - 1) (buckets h ! i) @ concat (drop (Suc i) (buckets h)) = []
    | Some e \<Rightarrow> drop (p - 1) (buckets h ! i) @ concat (drop (Suc i) (buckets h)) = e # rest h (hash_next_loop h i p) \<and>
        (\<exists>j q. hash_next_loop h i p = \<lparr>it_bucket = j, it_elem = Some q\<rparr> \<and> j < length (buckets h) \<and> q \<le> length (buckets h ! j)))"
  using assms
proof (induction h i p rule: hash_next_loop.induct)
  case (1 h i p)
  show ?case
  proof (cases "p = Suc (length (buckets h ! i))")
    case True
    show ?thesis
    proof (cases "Suc i \<ge> length (buckets h)")
      case True
      then show ?thesis using 1(2) \<open>p = _\<close> by (simp add: hash_cur_def hash_next_loop.simps [of h i])
    next
      case False
      then have "hash_next_loop h i p = hash_next_loop h (Suc i) 1"
        using 1(2) True by (simp add: hash_next_loop.simps [of h i])
      moreover have "drop (Suc i) (buckets h) = buckets h ! Suc i # drop (Suc (Suc i)) (buckets h)"
        using False by (simp add: Cons_nth_drop_Suc)
      ultimately show ?thesis using 1(1) 1(2) True False by (simp cong: option.case_cong)
    qed
  next
    case False
    then have "hash_next_loop h i p = \<lparr>it_bucket = i, it_elem = Some p\<rparr>"
      by (simp add: hash_next_loop.simps [of h i])
    moreover have "p \<le> length (buckets h ! i)" "p - 1 < length (buckets h ! i)" "Suc (p - 1) = p" using 1(3,4) False by auto
    moreover from this have "drop (p - 1) (buckets h ! i) = buckets h ! i ! (p - 1) # drop p (buckets h ! i)"
      using Cons_nth_drop_Suc [of "p - 1" "buckets h ! i"] by simp
    ultimately show ?thesis using 1(2,3) by (auto simp: hash_cur_def bucket_at_def rest_def)
  qed
qed

lemma hash_iterate_spec:
  assumes "i < length (buckets h)" "p \<le> length (buckets h ! i)" "length (rest h \<lparr>it_bucket = i, it_elem = Some p\<rparr>) < n"
  shows "hash_iterate n h \<lparr>it_bucket = i, it_elem = Some p\<rparr> = Some (rest h \<lparr>it_bucket = i, it_elem = Some p\<rparr>)"
  using assms
proof (induction n arbitrary: i p)
  case (Suc n)
  let ?it = "hash_next_loop h i (Suc p)"
  have next': "hash_next h \<lparr>it_bucket = i, it_elem = Some p\<rparr> = Some ?it"
    using Suc.prems by (simp add: hash_next_def bucket_at_def)
  note s = hash_next_loop_spec [OF Suc.prems(1), of "Suc p"]
  show ?case
  proof (cases "hash_cur h ?it")
    case None
    then show ?thesis using s Suc.prems next' by (simp add: rest_def)
  next
    case (Some e)
    then obtain j q where it: "?it = \<lparr>it_bucket = j, it_elem = Some q\<rparr>" "j < length (buckets h)" "q \<le> length (buckets h ! j)"
      and r: "rest h \<lparr>it_bucket = i, it_elem = Some p\<rparr> = e # rest h ?it"
      using s Suc.prems by (auto simp: rest_def)
    have "hash_iterate n h ?it = Some (rest h ?it)" using Suc.IH [OF it(2,3)] Suc.prems(3) r it(1) by simp
    then show ?thesis using next' Some r by simp
  qed
qed simp

section \<open>Properties\<close>

text \<open>C15. A hash table is a set with keys: in any sequence of insertions, replacements and deletions on a new
  table, elements that are already in it included, no operation fails, whatever \<open>malloc\<close> answers in each of them,
  every operation returns the element with the same key that was in the table, if any, and afterwards a
  lookup answers as the abstract set of elements, with at most one per key, does. The hash function has to
  agree on elements that compare as equal, and there are fewer than \<open>2\<^sup>32\<close> elements.\<close>

theorem hash_lookup_after:
  fixes rs :: "(bool \<times> 'e dict_request) list"
  assumes "keys_ok hsh lss" and "finite U" "card U < 2 ^ 32" and "\<forall>(mem, r)\<in>set rs. dict_elem r \<in> U" and "e \<in> U"
    and "length g = 4"
  shows "\<exists>h xs h' x. hash_init True g hsh lss = (True, h) \<and> dict_run hash_step h rs = Some (xs, h') \<and>
    answers (same_key lss) {} rs xs \<and> hash_find h' e = Some x \<and> answer (same_key lss) (dict_after (same_key lss) {} rs) e x"
proof -
  obtain ok h where h: "hash_init True g hsh lss = (ok, h)" by fastforce
  have o: "ok" "hash_ok hsh lss U h" "hash_elems h = {}" using hash_init_ok [OF assms(6,1-3) h] by blast+
  from ht.lookup_after [OF o(2) assms(4,5)] h o(1,3) show ?thesis by simp
qed

text \<open>Two elements with the same key, inserted one after the other; the second is found to be there.\<close>

theorem hash_lookup_after_witness:
  "\<exists>h xs h'. hash_init True [[], [], [], []] (\<lambda>n :: nat. of_nat (n div 10)) (\<lambda>a b. a div 10 < b div 10) = (True, h) \<and>
     dict_run hash_step h [(True, Insert 13), (False, Insert 17), (True, Insert 13), (True, Insert 40), (True, Delete 40)] =
       Some (xs, h') \<and> hash_find h' 19 = Some (Some 13)"
proof -
  let ?l = "\<lambda>a b :: nat. a div 10 < b div 10" and ?hs = "\<lambda>n :: nat. of_nat (n div 10) :: u32"
  let ?rs = "[(True, Insert 13), (False, Insert 17), (True, Insert 13), (True, Insert 40), (True, Delete (40 :: nat))]"
  have k: "keys_ok ?hs ?l" by (auto simp: keys_ok_def)
  have s: "same_key ?l a b \<longleftrightarrow> a div 10 = b div 10" for a b by (auto simp: same_key_def)
  have u: "\<forall>(mem, r)\<in>set ?rs. dict_elem r \<in> {..<100}" by simp
  have "(19 :: nat) \<in> {..<100}" "finite {..<100 :: nat}" "card {..<100 :: nat} < 2 ^ 32" "length [[], [], [], [] :: nat list] = 4" by simp_all
  from hash_lookup_after [OF k this(2,3) u this(1,4)] obtain h xs h' x where h: "hash_init True [[], [], [], []] ?hs ?l = (True, h)"
      "dict_run hash_step h ?rs = Some (xs, h')" "hash_find h' 19 = Some x"
    and a: "answer (same_key ?l) (dict_after (same_key ?l) {} ?rs) 19 x"
    by blast
  have S: "dict_after (same_key ?l) {} ?rs = {13}" by (auto simp: s)
  have "x = Some 13" using a unfolding S by (cases x) (simp_all add: answer_def s)
  with h show ?thesis by blast
qed

text \<open>C16. Iterating over a table visits every element exactly once, in the order in which \<open>hash_apply\<close>
  calls its action, and then ends.\<close>

theorem hash_iteration_visits_all:
  assumes "hash_ok hsh lss U h"
  shows "hash_iterate (Suc (unat (elem_cnt h))) h hash_first = Some (hash_apply_calls h) \<and>
    distinct (hash_apply_calls h) \<and> set (hash_apply_calls h) = hash_elems h"
proof -
  note o = assms [unfolded hash_ok_def placed_def]
  have l: "length (buckets h) = unat (bucket_cnt h)" "bucket_cnt h \<noteq> 0" using o by (auto simp: is_power_of_2_def)
  then have n: "0 < length (buckets h)" using unat_eq_zero [of "bucket_cnt h"] by (simp add: unat_gt_0)
  have c: "hash_apply_calls h = concat (buckets h)" using l(1) by (simp add: hash_apply_calls_def map_nth flip: l(1))
  have "buckets h = buckets h ! 0 # drop (Suc 0) (buckets h)" using n Cons_nth_drop_Suc [of 0 "buckets h"] by simp
  then have "concat (buckets h) = buckets h ! 0 @ concat (drop (Suc 0) (buckets h))" by (metis concat.simps(2))
  then have r: "rest h hash_first = concat (buckets h)" by (simp add: rest_def hash_first_def)
  have "hash_iterate (Suc (unat (elem_cnt h))) h hash_first = Some (concat (buckets h))"
    using hash_iterate_spec [OF n, of 0 "Suc (unat (elem_cnt h))"] r o unfolding hash_first_def by simp
  then show ?thesis using c o unfolding hash_elems_def by simp
qed

theorem hash_iteration_visits_all_witness:
  "hash_iterate 3 \<lparr>elem_cnt = 2, bucket_cnt = 4, buckets = [[], [1, 5], [], []], hashf = (\<lambda>n :: nat. of_nat n), lessf = (<)\<rparr> hash_first = Some [1, 5]"
proof -
  let ?h = "\<lparr>elem_cnt = 2, bucket_cnt = 4, buckets = [[], [1, 5], [], []], hashf = (\<lambda>n :: nat. of_nat n), lessf = (<)\<rparr>"
  have i4: "i < Suc (Suc (Suc (Suc 0))) \<Longrightarrow> i = 0 \<or> i = 1 \<or> i = 2 \<or> i = 3" for i :: nat by auto
  have "keys_ok (\<lambda>n :: nat. of_nat n) (<)" by (auto simp: keys_ok_def)
  moreover have "placed ?h"
    by (auto simp: placed_def is_power_of_2_def turn_off_least_1bit_def find_bucket_def dest!: i4)
  ultimately have "hash_ok (\<lambda>n :: nat. of_nat n) (<) {..<10} ?h" by (auto simp: hash_ok_def hash_elems_def same_key_def)
  moreover have "hash_apply_calls ?h = [1, 5]" by (simp add: hash_apply_calls_def upt_rec)
  moreover have "Suc (unat (elem_cnt ?h)) = 3" by simp
  ultimately show ?thesis using hash_iteration_visits_all [of "\<lambda>n :: nat. of_nat n" "(<)" "{..<10}" ?h] by metis
qed

end
