(* ===== verification/Intq.thy ===== *)
theory Intq
  imports Interfaces
begin

text \<open>
  The interrupt queue, \<open>src/devices/intq.c\<close>: a ring buffer of bytes between threads and interrupt
  handlers. Interrupts are off in every operation. \<open>in_intr\<close> says whether the caller is an interrupt
  handler (\<open>intr_context\<close>) and \<open>cur\<close> is the running thread. An operation of a thread that has to
  wait registers the thread and blocks it: the outcome \<open>Blocks\<close>; it is retried from the start when
  the thread runs again. The outcome \<open>Done\<close> has the byte and the thread that is unblocked, if any.
\<close>

definition INTQ_BUFSIZE :: nat where
  "INTQ_BUFSIZE = 64"

record intq =
  not_full :: ptr
  not_empty :: ptr
  buf :: "u8 list"
  head :: nat
  tail :: nat



definition intq_init :: "u8 list \<Rightarrow> intq" where
  "intq_init b = \<lparr>not_full = NULL, not_empty = NULL, buf = b, head = 0, tail = 0\<rparr>"









section \<open>The queue of bytes\<close>

text \<open>The bytes in a queue of \<open>n\<close> elements, oldest first.\<close>

definition intq_list :: "intq \<Rightarrow> u8 list \<Rightarrow> bool" where
  "intq_list q xs \<longleftrightarrow> length (buf q) = INTQ_BUFSIZE \<and> tail q < INTQ_BUFSIZE \<and> length xs < INTQ_BUFSIZE \<and>
     head q = (tail q + length xs) mod INTQ_BUFSIZE \<and>
     (\<forall>i < length xs. buf q ! ((tail q + i) mod INTQ_BUFSIZE) = xs ! i)"




lemma intq_list_waiters [simp]:
  "intq_list (q\<lparr>not_full := w\<rparr>) xs = intq_list q xs" "intq_list (q\<lparr>not_empty := w\<rparr>) xs = intq_list q xs"
  by (simp_all add: intq_list_def)





section \<open>First in, first out\<close>






end
