(* ===== verification/Arith64.thy ===== *)
theory Arith64
  imports Prelude "HOL-Library.Signed_Division"
begin

text \<open>
  64-bit division, \<open>src/lib/arithmetic.c\<close>. \<open>divl\<close> is the processor's instruction: it traps
  (\<open>None\<close>) when the divisor is zero or the quotient does not fit 32 bits. Words of 64 bits stand for
  both \<open>uint64_t\<close> and \<open>int64_t\<close>; the signed routines read them with \<open>sint\<close>.
\<close>

unbundle bit_operations_syntax

section \<open>The routines\<close>

definition divl :: "u64 \<Rightarrow> u32 \<Rightarrow> u32 option" where
  "divl n d =
     (let q = unat n div unat d
      in if d = 0 \<or> q \<ge> 2 ^ 32 then None else Some (of_nat q))"

definition nlz :: "u32 \<Rightarrow> nat" where
  "nlz x =
     (let n = 0;
          (n, x) = (if x \<le> 0x0000FFFF then (n + 16, push_bit 16 x) else (n, x));
          (n, x) = (if x \<le> 0x00FFFFFF then (n + 8, push_bit 8 x) else (n, x));
          (n, x) = (if x \<le> 0x0FFFFFFF then (n + 4, push_bit 4 x) else (n, x));
          (n, x) = (if x \<le> 0x3FFFFFFF then (n + 2, push_bit 2 x) else (n, x))
      in if x \<le> 0x7FFFFFFF then n + 1 else n)"

definition udiv64 :: "u64 \<Rightarrow> u64 \<Rightarrow> u64 option" where
  "udiv64 n d =
     (if drop_bit 32 d = 0
      then do {
        let b = (push_bit 32 1 :: u64);
        let n1 = (ucast (drop_bit 32 n) :: u32);
        let n0 = (ucast n :: u32);
        let d0 = (ucast d :: u32);
        ASSERT (d0 \<noteq> 0);
        q \<leftarrow> divl (b * ucast (n1 mod d0) + ucast n0) d0;
        Some (ucast q + b * ucast (n1 div d0))
      }
      else if n < d then Some 0
      else do {
        let d1 = (ucast (drop_bit 32 d) :: u32);
        let s = nlz d1;
        q \<leftarrow> divl (drop_bit 1 n) (ucast (drop_bit 32 (push_bit s d)));
        let q = (ucast (drop_bit (31 - s) q) :: u64);
        Some (if n - (q - 1) * d < d then q - 1 else q)
      })"

text \<open>The remainders are converted to 32 bits when they are returned.\<close>

definition umod64 :: "u64 \<Rightarrow> u64 \<Rightarrow> u32 option" where
  "umod64 n d = do { q \<leftarrow> udiv64 n d; Some (ucast (n - d * q)) }"

definition sdiv64 :: "u64 \<Rightarrow> u64 \<Rightarrow> u64 option" where
  "sdiv64 n d = do {
     let n_abs = (if 0 \<le>s n then n else - n);
     let d_abs = (if 0 \<le>s d then d else - d);
     q_abs \<leftarrow> udiv64 n_abs d_abs;
     Some (if (n <s 0) = (d <s 0) then q_abs else - q_abs)
   }"

definition smod64 :: "u64 \<Rightarrow> u64 \<Rightarrow> u32 option" where
  "smod64 n d = do { q \<leftarrow> sdiv64 n d; Some (ucast (n - d * q)) }"

definition divdi3 :: "u64 \<Rightarrow> u64 \<Rightarrow> u64 option" where
  "divdi3 n d = sdiv64 n d"

definition moddi3 :: "u64 \<Rightarrow> u64 \<Rightarrow> u64 option" where
  "moddi3 n d = do { r \<leftarrow> smod64 n d; Some (scast r) }"

definition udivdi3 :: "u64 \<Rightarrow> u64 \<Rightarrow> u64 option" where
  "udivdi3 n d = udiv64 n d"

definition umoddi3 :: "u64 \<Rightarrow> u64 \<Rightarrow> u64 option" where
  "umoddi3 n d = do { r \<leftarrow> umod64 n d; Some (ucast r) }"

section \<open>Leading zeros\<close>

lemma unat_push_bit:
  assumes "unat (x :: 'a :: len word) < 2 ^ (LENGTH('a) - k)" "k < LENGTH('a)"
  shows "unat (push_bit k x) = unat x * 2 ^ k"
proof -
  have "unat x * 2 ^ k < 2 ^ (LENGTH('a) - k) * 2 ^ k" using assms(1) by simp
  also have "\<dots> = 2 ^ LENGTH('a)" using assms(2) by (simp flip: power_add)
  finally have "unat x * 2 ^ k < 2 ^ LENGTH('a)" .
  moreover have "of_nat (unat x * 2 ^ k) = push_bit k x" by (simp add: push_bit_eq_mult)
  ultimately show ?thesis by (rule of_nat_inverse [rotated])
qed

lemma unat_drop_bit: "unat (drop_bit k (x :: 'a :: len word)) = unat x div 2 ^ k"
  by (simp only: unsigned_drop_bit_eq) (simp add: drop_bit_eq_div take_bit_nat_eq_self)

text \<open>Each step of \<open>nlz\<close> shifts the leading one bit into the upper part.\<close>

lemma nlz_step:
  fixes x :: u32
  assumes "2 ^ a \<le> unat x" "m = (2 ^ (32 - k) - 1 :: nat)" "unat M = m" "k \<le> 16" "a + k \<le> 32 - k"
    and r: "(n', x') = (if x \<le> M then (n + k, push_bit k x) else (n, x))" and N: "N * 2 ^ n = unat x"
  shows "2 ^ (a + k) \<le> unat x' \<and> N * 2 ^ n' = unat x' \<and> n' \<le> n + k"
proof (cases "x \<le> M")
  case True
  then have "unat x \<le> 2 ^ (32 - k) - 1" using assms(2,3) by (simp add: word_le_nat_alt)
  then have l: "unat x < 2 ^ (32 - k)" by (rule le_less_trans) simp
  have "unat (push_bit k x) = unat x * 2 ^ k" using l assms(4) by (intro unat_push_bit) simp_all
  then show ?thesis using True r N assms(1) by (auto simp: power_add)
next
  case False
  then have "2 ^ (32 - k) \<le> unat x" using assms(2,3) by (simp add: word_le_nat_alt)
  moreover have "(2 :: nat) ^ (a + k) \<le> 2 ^ (32 - k)" using assms(5) by (auto intro: power_increasing)
  ultimately have "2 ^ (a + k) \<le> unat x" by (rule order.trans [rotated])
  then show ?thesis using False r N by simp
qed

lemma nlz_spec:
  assumes "x \<noteq> 0"
  shows "nlz x \<le> 31 \<and> 2 ^ 31 \<le> unat x * 2 ^ nlz x \<and> unat x * 2 ^ nlz x < 2 ^ 32"
proof -
  obtain n1 x1 where 1: "(n1, x1) = (if x \<le> 0x0000FFFF then ((0 :: nat) + 16, push_bit 16 x) else (0, x))" by (metis surj_pair)
  obtain n2 x2 where 2: "(n2, x2) = (if x1 \<le> 0x00FFFFFF then (n1 + 8, push_bit 8 x1) else (n1, x1))" by (metis surj_pair)
  obtain n3 x3 where 3: "(n3, x3) = (if x2 \<le> 0x0FFFFFFF then (n2 + 4, push_bit 4 x2) else (n2, x2))" by (metis surj_pair)
  obtain n4 x4 where 4: "(n4, x4) = (if x3 \<le> 0x3FFFFFFF then (n3 + 2, push_bit 2 x3) else (n3, x3))" by (metis surj_pair)
  have x: "2 ^ 0 \<le> unat x" using assms unat_gt_0 [of x] by (simp add: Suc_le_eq)
  have s1: "2 ^ (0 + 16) \<le> unat x1 \<and> unat x * 2 ^ n1 = unat x1 \<and> n1 \<le> 0 + 16"
    by (rule nlz_step [OF x _ _ _ _ 1]) simp_all
  have s2: "2 ^ (16 + 8) \<le> unat x2 \<and> unat x * 2 ^ n2 = unat x2 \<and> n2 \<le> n1 + 8"
    by (rule nlz_step [OF _ _ _ _ _ 2]) (use s1 in simp_all)
  have s3: "2 ^ (24 + 4) \<le> unat x3 \<and> unat x * 2 ^ n3 = unat x3 \<and> n3 \<le> n2 + 4"
    by (rule nlz_step [OF _ _ _ _ _ 3]) (use s2 in simp_all)
  have s4: "2 ^ (28 + 2) \<le> unat x4 \<and> unat x * 2 ^ n4 = unat x4 \<and> n4 \<le> n3 + 2"
    by (rule nlz_step [OF _ _ _ _ _ 4]) (use s3 in simp_all)
  have n: "nlz x = (if x4 \<le> 0x7FFFFFFF then n4 + 1 else n4)"
    unfolding nlz_def Let_def 1 [symmetric] split_conv 2 [symmetric] 3 [symmetric] 4 [symmetric] ..
  have b: "unat x4 < 2 ^ 32" using unsigned_less [of x4] by simp
  have "n4 \<le> 30" using s1 s2 s3 s4 by simp
  then show ?thesis using s4 b n by (auto simp: word_le_nat_alt)
qed

section \<open>Division\<close>

lemma div_two_digits:
  fixes a b c d :: nat
  assumes "0 < d"
  shows "(b * (a mod d) + c) div d + b * (a div d) = (b * a + c) div d"
proof -
  have "b * (d * (a div d) + a mod d) = b * a" by simp
  then have "b * a + c = b * (a mod d) + c + d * (b * (a div d))" by (simp only: algebra_simps)
  then show ?thesis using div_mult_self2 [of d "b * (a mod d) + c" "b * (a div d)"] assms by (simp only:)
qed

lemma digit_bound:
  fixes b c d e :: nat
  assumes "e < d" "c < b"
  shows "b * e + c < b * d"
proof -
  have "b * e + c < b * (e + 1)" using assms(2) by simp
  also have "\<dots> \<le> b * d" using assms(1) by (intro mult_le_mono) simp_all
  finally show ?thesis .
qed

lemma divl_Some:
  assumes "d \<noteq> 0" "unat n div unat d < 2 ^ 32"
  shows "\<exists>q. divl n d = Some q \<and> unat q = unat n div unat d"
  using assms by (auto simp: divl_def Let_def intro!: of_nat_inverse)

lemma ucast_nat: "(ucast (x :: 'a :: len word) :: 'b :: len word) = of_nat (unat x)"
  by transfer simp

lemma unat_ucast_up:
  assumes "LENGTH('a) \<le> LENGTH('b)"
  shows "unat (ucast (x :: 'a :: len word) :: 'b :: len word) = unat x"
proof -
  have "unat x < 2 ^ LENGTH('a)" by (rule unsigned_less)
  also have "(2 :: nat) ^ LENGTH('a) \<le> 2 ^ LENGTH('b)" using assms by (intro power_increasing) simp_all
  finally show ?thesis by (simp add: unsigned_ucast_eq take_bit_nat_eq_self)
qed

lemma unat_of_nat_64: "x < 2 ^ 64 \<Longrightarrow> unat (of_nat x :: u64) = x"
  by (simp add: of_nat_inverse)

text \<open>A divisor that fits 32 bits: schoolbook division in base \<open>2\<^sup>32\<close>.\<close>

lemma udiv64_short:
  assumes "drop_bit 32 d = 0" "d \<noteq> 0"
  shows "udiv64 n d = Some (n div d)"
proof -
  let ?B = "2 ^ 32 :: nat"
  define D N1 N0 where "D = unat d" and "N1 = unat n div ?B" and "N0 = unat n mod ?B"
  define d0 n1 n0 where "d0 = (ucast d :: u32)" and "n1 = (ucast (drop_bit 32 n) :: u32)" and "n0 = (ucast n :: u32)"
  have "unat d div ?B = 0" using assms(1) unat_drop_bit [of 32 d] by simp
  then have D: "D < ?B" unfolding D_def by (simp add: div_eq_0_iff)
  have "unat n < 2 ^ 64" using unsigned_less [of n] by simp
  then have N1: "N1 < ?B" unfolding N1_def by (intro less_mult_imp_div_less) simp
  have u: "unat d0 = D" "unat n1 = N1" "unat n0 = N0"
    using D N1 unfolding D_def N1_def N0_def d0_def n1_def n0_def
    by (simp_all add: unsigned_ucast_eq take_bit_nat_def unat_drop_bit)
  have D0: "0 < D" using assms(2) unfolding D_def by (simp add: unat_gt_0)
  have b: "?B * (N1 mod D) + N0 < ?B * D" using D0 unfolding N0_def by (intro digit_bound) simp_all
  also have "\<dots> \<le> ?B * ?B" using D by (intro mult_le_mono) simp_all
  finally have b64: "?B * (N1 mod D) + N0 < 2 ^ 64" by simp
  define m where "m = push_bit 32 1 * ucast (n1 mod d0) + (ucast n0 :: u64)"
  have "m = of_nat (?B * (N1 mod D) + N0)"
    unfolding m_def ucast_nat unat_mod_distrib u by (simp add: push_bit_eq_mult)
  then have m: "unat m = ?B * (N1 mod D) + N0" using b64 by (simp only: unat_of_nat_64)
  have "unat m div unat d0 < 2 ^ 32" unfolding m u using b by (intro less_mult_imp_div_less)
  then obtain q where q: "divl m d0 = Some q" "unat q = unat m div unat d0" using divl_Some [of d0 m] D0 u by fastforce
  have "d0 \<noteq> 0" using D0 u(1) by auto
  then have "udiv64 n d = Some (ucast q + push_bit 32 1 * ucast (n1 div d0))"
    using q(1) assms(1) unfolding m_def d0_def n1_def n0_def by (simp add: udiv64_def Let_def ASSERT_def)
  moreover have "ucast (n1 div d0) = (of_nat (N1 div D) :: u64)"
    unfolding u [symmetric] unat_div_distrib [symmetric] by (rule ucast_nat)
  moreover have "unat q + ?B * (N1 div D) = unat n div D"
    using div_two_digits [OF D0, of ?B N1 N0] unfolding q(2) m u by (simp only: N1_def N0_def) simp
  moreover have "n div d = of_nat (unat n div D)" unfolding D_def by (rule word_arith_nat_div)
  moreover have "ucast q + push_bit 32 1 * of_nat (N1 div D) = (of_nat (unat q + ?B * (N1 div D)) :: u64)"
    unfolding ucast_nat by (simp add: push_bit_eq_mult)
  ultimately show ?thesis by (simp only:)
qed

text \<open>A longer divisor is rounded down to its upper 32 significant bits; the quotient by the rounded
divisor exceeds the quotient by at most one.\<close>

lemma rounded_quotient:
  fixes N D E r Q :: nat
  assumes "D = E + r" "0 < E" "(N div D + 1) * r \<le> E"
  shows "N div D \<le> N div E \<and> N div E \<le> N div D + 1"
proof -
  let ?Q = "N div D"
  have "0 < D" using assms(1,2) by simp
  have "N < (?Q + 1) * D" using dividend_less_times_div [OF \<open>0 < D\<close>, of N] by (simp add: mult.commute)
  also have "\<dots> = (?Q + 1) * E + (?Q + 1) * r" unfolding assms(1) by (simp only: distrib_left)
  also have "\<dots> \<le> (?Q + 2) * E" using assms(3) by simp
  finally have "N div E < ?Q + 2" by (rule less_mult_imp_div_less)
  moreover have "?Q \<le> N div E" using assms(1,2) by (intro div_le_mono2) simp_all
  ultimately show ?thesis by simp
qed

lemma rounding_bound:
  fixes N D v s :: nat
  assumes "s \<le> 31" "D = v * 2 ^ (32 - s) + r" "r < 2 ^ (32 - s)" "2 ^ 31 \<le> v" "N < 2 ^ 64"
  shows "(N div D + 1) * r \<le> v * 2 ^ (32 - s)"
proof -
  have p: "(2 :: nat) ^ 31 * 2 ^ (32 - s) = 2 ^ (63 - s)" "(2 :: nat) ^ (s + 1) * 2 ^ (63 - s) = 2 ^ 64"
    "(2 :: nat) ^ (s + 1) * 2 ^ (32 - s) = 2 ^ 33"
    using assms(1) by (simp_all only: power_add [symmetric]) (simp_all add: algebra_simps)
  have E: "2 ^ (63 - s) \<le> v * 2 ^ (32 - s)" unfolding p(1) [symmetric] using assms(4) by (intro mult_le_mono1)
  then have "2 ^ (63 - s) \<le> D" using assms(2) by simp
  then have "2 ^ (s + 1) * 2 ^ (63 - s) \<le> 2 ^ (s + 1) * D" by (intro mult_le_mono2)
  then have "N < 2 ^ (s + 1) * D" using assms(5) unfolding p(2) by (rule less_le_trans [rotated])
  then have Q: "N div D + 1 \<le> 2 ^ (s + 1)" using less_mult_imp_div_less [of N "2 ^ (s + 1)" D] by simp
  have "(N div D + 1) * r \<le> 2 ^ (s + 1) * (2 ^ (32 - s) - 1)" using Q assms(3) by (intro mult_le_mono) simp_all
  also have "\<dots> = 2 ^ 33 - 2 ^ (s + 1)" unfolding diff_mult_distrib2 p(3) by simp
  also have "\<dots> \<le> 2 ^ (63 - s)"
  proof (cases "s = 31")
    case False
    then have "(2 :: nat) ^ 33 \<le> 2 ^ (63 - s)" using assms(1) by (intro power_increasing) simp_all
    then show ?thesis by (rule le_trans [rotated]) (rule diff_le_self)
  qed simp
  also note E
  finally show ?thesis .
qed

lemma normalised_divisor:
  fixes d :: u64
  assumes "drop_bit 32 d \<noteq> 0" "s = nlz (ucast (drop_bit 32 d))"
  shows "s \<le> 31 \<and> unat (ucast (drop_bit 32 (push_bit s d)) :: u32) = unat d div 2 ^ (32 - s) \<and>
    2 ^ 31 \<le> unat d div 2 ^ (32 - s)"
proof -
  define D d1 where "D = unat d" and "d1 = D div 2 ^ 32"
  have "D < 2 ^ 64" using unsigned_less [of d] by (simp add: D_def)
  then have "d1 < 2 ^ 32" unfolding d1_def by (intro less_mult_imp_div_less) simp
  then have u: "unat (ucast (drop_bit 32 d) :: u32) = d1"
    by (simp add: unsigned_ucast_eq take_bit_nat_def unat_drop_bit D_def d1_def)
  have "d1 \<noteq> 0" using assms(1) unat_drop_bit [of 32 d] unfolding d1_def D_def by (metis unat_eq_zero)
  then have "ucast (drop_bit 32 d) \<noteq> (0 :: u32)" using u by auto
  from nlz_spec [OF this] have s: "s \<le> 31" "2 ^ 31 \<le> d1 * 2 ^ s" "d1 * 2 ^ s < 2 ^ 32" unfolding assms(2) u by simp_all
  have p: "(2 :: nat) ^ (32 - s) * 2 ^ s = 2 ^ 32" "(2 :: nat) ^ (64 - s) = 2 ^ (32 - s) * 2 ^ 32"
    using s(1) by (simp_all only: power_add [symmetric]) (simp_all add: algebra_simps)
  have "d1 * 2 ^ s < 2 ^ (32 - s) * 2 ^ s" using s(3) unfolding p(1) .
  then have "d1 < 2 ^ (32 - s)" by simp
  then have "D < 2 ^ (64 - s)" unfolding p(2) d1_def by (subst (asm) div_less_iff_less_mult) simp_all
  then have "unat (push_bit s d) = D * 2 ^ s" using s(1) unfolding D_def by (intro unat_push_bit) simp_all
  then have "unat (drop_bit 32 (push_bit s d)) = D * 2 ^ s div (2 ^ (32 - s) * 2 ^ s)" unfolding unat_drop_bit p(1) by simp
  then have v: "unat (drop_bit 32 (push_bit s d)) = D div 2 ^ (32 - s)" by simp
  have "unat (drop_bit 32 (push_bit s d)) < 2 ^ 32"
    unfolding unat_drop_bit using unsigned_less [of "push_bit s d"] by (intro less_mult_imp_div_less) simp
  then have "unat (ucast (drop_bit 32 (push_bit s d)) :: u32) = D div 2 ^ (32 - s)"
    using v by (simp add: unsigned_ucast_eq take_bit_nat_def)
  moreover have "d1 * 2 ^ s \<le> D div 2 ^ (32 - s)"
  proof -
    have "d1 * 2 ^ s * 2 ^ (32 - s) = d1 * 2 ^ 32" using p(1) by (simp only: mult.assoc) (simp only: mult.commute)
    also have "\<dots> \<le> D" unfolding d1_def by simp
    finally show ?thesis by (subst less_eq_div_iff_mult_less_eq) simp_all
  qed
  ultimately show ?thesis using s unfolding D_def by linarith
qed

lemma corrected_quotient:
  fixes n d q :: u64
  assumes "unat q = unat n div unat d \<or> unat q = unat n div unat d + 1" "0 < unat q" "0 < unat d"
  shows "(if n - (q - 1) * d < d then q - 1 else q) = n div d"
proof -
  let ?Q = "unat n div unat d"
  have q1: "unat (q - 1) = unat q - 1" using assms(2) unat_minus_one [of q] by fastforce
  have "unat (q - 1) * unat d \<le> ?Q * unat d" unfolding q1 using assms(1) by (intro mult_le_mono1) auto
  also have "\<dots> \<le> unat n" by simp
  finally have le: "unat (q - 1) * unat d \<le> unat n" .
  have m: "unat ((q - 1) * d) = unat (q - 1) * unat d"
    using le_less_trans [OF le unsigned_less] unat_mult_lem by blast
  then have r: "unat (n - (q - 1) * d) = unat n - unat (q - 1) * unat d"
    using le by (simp add: unat_sub word_le_nat_alt)
  have Q: "n div d = of_nat ?Q" by (rule word_arith_nat_div)
  from assms(1) show ?thesis
  proof
    assume q: "unat q = ?Q"
    have "unat d + (?Q - 1) * unat d = ?Q * unat d" using assms(2) q by (cases ?Q) simp_all
    also have "\<dots> \<le> unat n" by simp
    finally have "unat d \<le> unat (n - (q - 1) * d)" unfolding r q1 q by simp
    moreover have "q = of_nat ?Q" unfolding q [symmetric] by simp
    ultimately show ?thesis using Q by (simp add: word_less_nat_alt)
  next
    assume q: "unat q = ?Q + 1"
    have "unat (n - (q - 1) * d) = unat n mod unat d" unfolding r q1 q by (simp add: minus_div_mult_eq_mod)
    then have "n - (q - 1) * d < d" using assms(3) by (simp add: word_less_nat_alt)
    moreover have "q - 1 = of_nat (unat (q - 1))" by simp
    ultimately show ?thesis using Q q1 q by simp
  qed
qed

lemma udiv64_long:
  assumes "drop_bit 32 d \<noteq> 0"
  shows "udiv64 n d = Some (n div d)"
proof (cases "n < d")
  case True
  then show ?thesis using assms by (simp add: udiv64_def word_arith_nat_div word_less_nat_alt)
next
  case False
  define N D s where "N = unat n" and "D = unat d" and "s = nlz (ucast (drop_bit 32 d))"
  define w v where "w = (ucast (drop_bit 32 (push_bit s d)) :: u32)" and "v = D div 2 ^ (32 - s)"
  have s: "s \<le> 31" and w: "unat w = v" and v: "2 ^ 31 \<le> v"
    using normalised_divisor [OF assms s_def] unfolding w_def v_def D_def by simp_all
  have N: "N < 2 ^ 64" "D \<le> N" using unsigned_less [of n] False by (simp_all add: N_def D_def word_le_nat_alt not_less)
  have v0: "0 < v" using v by (rule less_le_trans [rotated]) simp
  have h: "unat (drop_bit 1 n) = N div 2" by (simp add: unat_drop_bit N_def)
  have "N div 2 < 2 ^ 32 * 2 ^ 31" using N(1) by simp
  also have "\<dots> \<le> 2 ^ 32 * v" using v by (intro mult_le_mono2)
  finally have "unat (drop_bit 1 n) div unat w < 2 ^ 32" unfolding h w by (rule less_mult_imp_div_less)
  then obtain p where p: "divl (drop_bit 1 n) w = Some p" "unat p = N div 2 div v"
    using divl_Some [of w "drop_bit 1 n"] v0 w h by (metis less_numeral_extra(3) unat_0)
  define q where "q = (ucast (drop_bit (31 - s) p) :: u64)"
  let ?E = "v * 2 ^ (32 - s)"
  have "32 - s = Suc (31 - s)" using s by simp
  then have "2 * v * 2 ^ (31 - s) = ?E" by simp
  moreover have "unat q = N div (2 * v * 2 ^ (31 - s))"
    unfolding q_def using p(2) by (simp add: unat_ucast_up unat_drop_bit div_mult2_eq)
  ultimately have q: "unat q = N div ?E" by (simp only:)
  have D: "D = ?E + D mod 2 ^ (32 - s)" unfolding v_def by (rule div_mult_mod_eq [symmetric])
  then have "0 < D" using v0 by (metis add_gr_0 nat_0_less_mult_iff zero_less_numeral zero_less_power)
  have "N div D \<le> N div ?E \<and> N div ?E \<le> N div D + 1"
    using v0 by (intro rounded_quotient [OF D] rounding_bound [OF s D _ v N(1)]) simp_all
  moreover have "1 \<le> N div D" using N(2) \<open>0 < D\<close> by (simp add: Suc_le_eq div_greater_zero_iff)
  ultimately have Q: "unat q = N div D \<or> unat q = N div D + 1" "0 < unat q" using q by auto
  have "udiv64 n d = Some (if n - (q - 1) * d < d then q - 1 else q)"
    using assms False p(1) unfolding q_def w_def s_def by (simp add: udiv64_def Let_def)
  also have "(if n - (q - 1) * d < d then q - 1 else q) = n div d"
    using Q \<open>0 < D\<close> unfolding N_def D_def by (rule corrected_quotient)
  finally show ?thesis .
qed

lemma udiv64_correct: "udiv64 n d = (if d = 0 then None else Some (n div d))"
  by (cases "drop_bit 32 d = 0") (auto simp: udiv64_short udiv64_long, simp add: udiv64_def Let_def ASSERT_def)

section \<open>Signed division\<close>

lemma abs_word:
  fixes n :: u64
  shows "uint (if 0 \<le>s n then n else - n) = \<bar>sint n\<bar>"
proof -
  have eq: "(if 0 \<le>s n then n else - n) = word_of_int \<bar>sint n\<bar>" by (simp add: word_sle_eq)
  have "\<bar>sint n\<bar> < 2 ^ 64" using sint_greater_eq [of n] sint_less [of n] by simp
  then have "uint (word_of_int \<bar>sint n\<bar> :: u64) = \<bar>sint n\<bar>" by (simp add: uint_word_of_int)
  then show ?thesis using eq by simp
qed

lemma sdiv64_correct: "sdiv64 n d = (if d = 0 then None else Some (word_of_int (sint n sdiv sint d)))"
proof (cases "d = 0")
  case True
  then show ?thesis by (simp add: sdiv64_def udiv64_correct)
next
  case False
  let ?n = "if 0 \<le>s n then n else - n" and ?d = "if 0 \<le>s d then d else - d"
  have q: "?n div ?d = word_of_int (\<bar>sint n\<bar> div \<bar>sint d\<bar>)" 
    unfolding word_div_def by (simp only: abs_word)
  have "udiv64 ?n ?d = Some (word_of_int (\<bar>sint n\<bar> div \<bar>sint d\<bar>))"
    unfolding udiv64_correct q using False by (auto split: if_splits)
  then have "sdiv64 n d = Some (if (sint n < 0) = (sint d < 0) then word_of_int (\<bar>sint n\<bar> div \<bar>sint d\<bar>)
    else - word_of_int (\<bar>sint n\<bar> div \<bar>sint d\<bar>))"
    by (simp add: sdiv64_def word_sless_alt Let_def del: if_split_asm cong: if_cong)
  moreover have "sint d \<noteq> 0" using False by (metis signed_0 signed_word_eqI)
  ultimately show ?thesis using False by (auto simp: signed_divide_int_def sgn_if)
qed

lemma low_half: "(ucast (ucast (x :: u64) :: u32) :: u64) = take_bit 32 x"
  by (simp add: word_unat_eq_iff unat_ucast_up unsigned_take_bit_eq unsigned_ucast_eq)

section \<open>What the compiler's calls return\<close>

text \<open>C18. The 64-bit division routines compute the quotient: \<open>__udivdi3\<close> and \<open>__divdi3\<close> trap
exactly on a zero divisor and otherwise return the unsigned quotient, respectively the quotient
truncated towards zero (wrapping for the one signed division that overflows).\<close>

theorem division_correct:
  "udivdi3 n d = (if d = 0 then None else Some (n div d)) \<and>
   divdi3 n d = (if d = 0 then None else Some (word_of_int (sint n sdiv sint d)))"
  by (simp add: udivdi3_def divdi3_def udiv64_correct sdiv64_correct)

text \<open>C19. \<open>__umoddi3\<close> returns the low 32 bits of the remainder, because \<open>umod64\<close> is declared to
return a 32-bit integer: the remainder is right when it is below \<open>2\<^sup>32\<close> and wrong otherwise.\<close>

theorem umoddi3_truncates:
  "umoddi3 n d = (if d = 0 then None else Some (take_bit 32 (n mod d))) \<and>
   (umoddi3 n d = Some (n mod d) \<longleftrightarrow> d \<noteq> 0 \<and> unat (n mod d) < 2 ^ 32)"
proof -
  have m: "umoddi3 n d = (if d = 0 then None else Some (take_bit 32 (n mod d)))"
    by (simp add: umoddi3_def umod64_def udiv64_correct low_half minus_mult_div_eq_mod)
  have "take_bit 32 (n mod d) = n mod d \<longleftrightarrow> unat (n mod d) < 2 ^ 32"
    by (simp add: word_unat_eq_iff unsigned_take_bit_eq take_bit_nat_eq_self_iff)
  then show ?thesis using m by auto
qed

end
