(* ===== verification/C_Memory.thy ===== *)
theory C_Memory
  imports Prelude
begin

text \<open>
  The memory that the byte-level library routines work on: an address space of finitely many bytes.
  An access outside it is a fault (\<open>None\<close>), so that every scan of the memory ends. Pointers are
  addresses, and \<open>NULL\<close> is address 0.
\<close>

type_synonym memory = "u8 list"

definition rd :: "memory \<Rightarrow> ptr \<Rightarrow> u8 option" where
  "rd m p = (if p < length m then Some (m ! p) else None)"

definition wr :: "memory \<Rightarrow> ptr \<Rightarrow> u8 \<Rightarrow> memory option" where
  "wr m p b = (if p < length m then Some (m[p := b]) else None)"

definition peek :: "memory \<Rightarrow> ptr \<Rightarrow> nat \<Rightarrow> u8 list" where
  "peek m p n = take n (drop p m)"

definition poke :: "memory \<Rightarrow> ptr \<Rightarrow> u8 list \<Rightarrow> memory" where
  "poke m p bs = take p m @ bs @ drop (p + length bs) m"

lemma rd_Some: "p < length m \<Longrightarrow> rd m p = Some (m ! p)"
  by (simp add: rd_def)

lemma wr_Some: "p < length m \<Longrightarrow> wr m p b = Some (m[p := b])"
  by (simp add: wr_def)

lemma length_peek: "p + n \<le> length m \<Longrightarrow> length (peek m p n) = n"
  by (simp add: peek_def)

lemma nth_peek: "i < n \<Longrightarrow> p + n \<le> length m \<Longrightarrow> peek m p n ! i = m ! (p + i)"
  by (simp add: peek_def)

lemma length_poke: "p + length bs \<le> length m \<Longrightarrow> length (poke m p bs) = length m"
  by (simp add: poke_def)

lemma nth_poke:
  "p + length bs \<le> length m \<Longrightarrow> i < length m \<Longrightarrow>
   poke m p bs ! i = (if p \<le> i \<and> i < p + length bs then bs ! (i - p) else m ! i)"
  by (auto simp: poke_def nth_append min_def)

lemma poke_Nil: "p \<le> length m \<Longrightarrow> poke m p [] = m"
  by (simp add: poke_def)

lemma poke_eqI:
  assumes "length m' = length m" "p + length bs \<le> length m"
    and "\<And>i. i < length m \<Longrightarrow> m' ! i = (if p \<le> i \<and> i < p + length bs then bs ! (i - p) else m ! i)"
  shows "m' = poke m p bs"
  using assms by (intro nth_equalityI) (simp_all add: length_poke nth_poke)

lemma peek_eqI:
  assumes "length bs = n" "p + n \<le> length m" "\<And>i. i < n \<Longrightarrow> m ! (p + i) = bs ! i"
  shows "peek m p n = bs"
  using assms by (intro nth_equalityI) (simp_all add: length_peek nth_peek)

lemma peek_poke_same: "p + length bs \<le> length m \<Longrightarrow> peek (poke m p bs) p (length bs) = bs"
  by (simp add: peek_def poke_def)

lemma peek_poke_other:
  assumes "p + length bs \<le> length m" "q + n \<le> length m" "p + length bs \<le> q \<or> q + n \<le> p"
  shows "peek (poke m p bs) q n = peek m q n"
  using assms by (intro peek_eqI) (auto simp: length_peek nth_peek length_poke nth_poke)

lemma poke_Cons:
  assumes "p + length bs < length m"
  shows "poke (m[p := b]) (Suc p) bs = poke m p (b # bs)"
  using assms by (intro poke_eqI) (auto simp: length_poke nth_poke nth_list_update nth_Cons')

lemma poke_snoc:
  assumes "p + length bs < length m"
  shows "poke (m[p + length bs := b]) p bs = poke m p (bs @ [b])"
  using assms by (intro poke_eqI) (auto simp: length_poke nth_poke nth_list_update nth_append)

lemma peek_Suc: "p < length m \<Longrightarrow> peek m p (Suc n) = m ! p # peek m (Suc p) n"
  by (simp add: peek_def Cons_nth_drop_Suc [symmetric])

lemma peek_snoc: "p + n < length m \<Longrightarrow> peek m p (Suc n) = peek m p n @ [m ! (p + n)]"
  by (simp add: peek_def take_Suc_conv_app_nth)

lemma peek_update: "q < p \<or> p + n \<le> q \<Longrightarrow> p + n \<le> length m \<Longrightarrow> peek (m[q := b]) p n = peek m p n"
  by (intro peek_eqI) (auto simp: length_peek nth_peek)

lemma poke_one: "p < length m \<Longrightarrow> m[p := b] = poke m p [b]"
  using poke_Cons [of p "[]" m b] by (simp add: poke_Nil)

lemma poke_poke_prefix:
  assumes "peek m p (length bs) = bs" "p + length bs + length cs \<le> length m"
  shows "poke m (p + length bs) cs = poke m p (bs @ cs)"
proof (rule poke_eqI)
  fix i assume "i < length m"
  moreover have "bs ! (i - p) = m ! i" if "p \<le> i" "i < p + length bs"
    using nth_peek [of "i - p" "length bs" p m] that assms by simp
  ultimately show "poke m (p + length bs) cs ! i = (if p \<le> i \<and> i < p + length (bs @ cs) then (bs @ cs) ! (i - p) else m ! i)"
    using assms(2) by (auto simp: nth_poke nth_append)
qed (use assms(2) in \<open>simp_all add: length_poke\<close>)

section \<open>Strings\<close>

definition cstring :: "memory \<Rightarrow> ptr \<Rightarrow> u8 list \<Rightarrow> bool" where
  "cstring m p s \<longleftrightarrow> p + length s < length m \<and> peek m p (length s + 1) = s @ [0] \<and> 0 \<notin> set s"

lemma cstring_Nil: "cstring m p [] \<longleftrightarrow> rd m p = Some 0"
  by (auto simp: cstring_def rd_def peek_def take_Suc_conv_app_nth hd_drop_conv_nth take_Suc)

lemma cstring_Cons: "cstring m p (x # xs) \<longleftrightarrow> rd m p = Some x \<and> x \<noteq> 0 \<and> cstring m (Suc p) xs"
proof (cases "p < length m")
  case True
  then have "drop p m = m ! p # drop (Suc p) m" by (rule Cons_nth_drop_Suc [symmetric])
  then show ?thesis using True by (auto simp: cstring_def rd_def peek_def)
qed (auto simp: cstring_def rd_def)

lemma cstring_append:
  "cstring m p (xs @ ys) \<Longrightarrow> cstring m (p + length xs) ys"
proof (induction xs arbitrary: p)
  case (Cons x xs)
  then show ?case using Cons.IH [of "Suc p"] by (simp add: cstring_Cons)
qed simp

lemma cstring_nth: "cstring m p s \<Longrightarrow> i < length s \<Longrightarrow> rd m (p + i) = Some (s ! i) \<and> s ! i \<noteq> 0"
proof (induction s arbitrary: p i)
  case (Cons x xs)
  then show ?case using Cons.IH [of "Suc p" "i - 1"] by (cases i) (auto simp: cstring_Cons)
qed simp

lemma cstring_end: "cstring m p s \<Longrightarrow> rd m (p + length s) = Some 0"
  using cstring_append [of m p s "[]"] by (simp add: cstring_Nil)

lemma cstring_unique: "cstring m p s \<Longrightarrow> cstring m p t \<Longrightarrow> s = t"
proof (induction s arbitrary: p t)
  case Nil
  then show ?case by (cases t) (auto simp: cstring_Cons cstring_Nil)
next
  case (Cons x xs)
  then show ?case by (cases t) (auto simp: cstring_Cons cstring_Nil)
qed

lemma cstring_bound: "cstring m p s \<Longrightarrow> p + length s < length m"
  by (simp add: cstring_def)

lemma cstring_peek: "cstring m p s \<Longrightarrow> peek m p (length s) = s"
  by (intro peek_eqI) (auto simp: cstring_bound less_imp_le dest: cstring_nth split: if_splits simp: rd_def)

lemma cstring_cong:
  assumes "cstring m p s" "peek m' p (length s + 1) = peek m p (length s + 1)" "length m' = length m"
  shows "cstring m' p s"
  using assms by (simp add: cstring_def)

lemma cstring_poke:
  assumes "p + length s < length m" "0 \<notin> set s"
  shows "cstring (poke m p (s @ [0])) p s"
  using assms peek_poke_same [of p "s @ [0]" m] by (simp add: cstring_def length_poke)

lemma cstring_poke_other:
  assumes "cstring m q s" "p + length bs \<le> length m" "p + length bs \<le> q \<or> q + length s < p"
  shows "cstring (poke m p bs) q s"
  using assms cstring_bound [OF assms(1)]
  by (intro cstring_cong [OF assms(1)] peek_poke_other) (auto simp: length_poke)

end
