(* ===== verification/Cstring.thy ===== *)
theory Cstring
  imports C_Memory
begin

text \<open>
  Character classes and string routines, \<open>src/lib/ctype.h\<close> and \<open>src/lib/string.c\<close>, over the byte
  memory. A loop that walks a string is a recursive function whose measure is the distance to the end
  of the memory. Pointer results are addresses, \<open>NULL\<close> included, and routines that store return the
  memory they leave behind. \<open>size_t\<close> counts and addresses stay below the size of the memory.
\<close>

section \<open>Character classes\<close>

definition islower :: "int \<Rightarrow> bool" where "islower c = (97 \<le> c \<and> c \<le> 122)"
definition isupper :: "int \<Rightarrow> bool" where "isupper c = (65 \<le> c \<and> c \<le> 90)"
definition isalpha :: "int \<Rightarrow> bool" where "isalpha c = (islower c \<or> isupper c)"
definition isdigit :: "int \<Rightarrow> bool" where "isdigit c = (48 \<le> c \<and> c \<le> 57)"
definition isalnum :: "int \<Rightarrow> bool" where "isalnum c = (isalpha c \<or> isdigit c)"
definition isxdigit :: "int \<Rightarrow> bool" where
  "isxdigit c = (isdigit c \<or> 97 \<le> c \<and> c \<le> 102 \<or> 65 \<le> c \<and> c \<le> 70)"
definition isspace :: "int \<Rightarrow> bool" where
  "isspace c = (c = 32 \<or> c = 12 \<or> c = 10 \<or> c = 13 \<or> c = 9 \<or> c = 11)"
definition isblank :: "int \<Rightarrow> bool" where "isblank c = (c = 32 \<or> c = 9)"
definition isgraph :: "int \<Rightarrow> bool" where "isgraph c = (c > 32 \<and> c < 127)"
definition isprint :: "int \<Rightarrow> bool" where "isprint c = (c \<ge> 32 \<and> c < 127)"
definition iscntrl :: "int \<Rightarrow> bool" where "iscntrl c = (c \<ge> 0 \<and> c < 32 \<or> c = 127)"
definition isascii :: "int \<Rightarrow> bool" where "isascii c = (c \<ge> 0 \<and> c < 128)"
definition ispunct :: "int \<Rightarrow> bool" where "ispunct c = (isprint c \<and> \<not> isalnum c \<and> \<not> isspace c)"
definition tolower :: "int \<Rightarrow> int" where "tolower c = (if isupper c then c - 65 + 97 else c)"
definition toupper :: "int \<Rightarrow> int" where "toupper c = (if islower c then c - 97 + 65 else c)"

section \<open>Blocks of memory\<close>

fun copy_up :: "memory \<Rightarrow> ptr \<Rightarrow> ptr \<Rightarrow> nat \<Rightarrow> memory option" where
  "copy_up m dst src 0 = Some m"
| "copy_up m dst src (Suc sz) = do {
     b \<leftarrow> rd m src;
     m \<leftarrow> wr m dst b;
     copy_up m (dst + 1) (src + 1) sz
   }"

fun copy_down :: "memory \<Rightarrow> ptr \<Rightarrow> ptr \<Rightarrow> nat \<Rightarrow> memory option" where
  "copy_down m dst src 0 = Some m"
| "copy_down m dst src (Suc sz) = do {
     b \<leftarrow> rd m (src - 1);
     m \<leftarrow> wr m (dst - 1) b;
     copy_down m (dst - 1) (src - 1) sz
   }"

definition memcpy :: "memory \<Rightarrow> ptr \<Rightarrow> ptr \<Rightarrow> nat \<Rightarrow> (memory \<times> ptr) option" where
  "memcpy m dst src sz = do {
     ASSERT (dst \<noteq> NULL \<or> sz = 0);
     ASSERT (src \<noteq> NULL \<or> sz = 0);
     m \<leftarrow> copy_up m dst src sz;
     Some (m, dst)
   }"

text \<open>\<open>memmove\<close> returns the pointer its loop has moved.\<close>

definition memmove :: "memory \<Rightarrow> ptr \<Rightarrow> ptr \<Rightarrow> nat \<Rightarrow> (memory \<times> ptr) option" where
  "memmove m dst src sz = do {
     ASSERT (dst \<noteq> NULL \<or> sz = 0);
     ASSERT (src \<noteq> NULL \<or> sz = 0);
     if dst < src then do {
       m \<leftarrow> copy_up m dst src sz;
       Some (m, dst + sz)
     } else do {
       m \<leftarrow> copy_down m (dst + sz) (src + sz) sz;
       Some (m, dst + sz - sz)
     }
   }"

fun memcmp_loop :: "memory \<Rightarrow> ptr \<Rightarrow> ptr \<Rightarrow> nat \<Rightarrow> int option" where
  "memcmp_loop m a b 0 = Some 0"
| "memcmp_loop m a b (Suc sz) = do {
     x \<leftarrow> rd m a;
     y \<leftarrow> rd m b;
     if x \<noteq> y then Some (if x > y then 1 else -1) else memcmp_loop m (a + 1) (b + 1) sz
   }"

definition memcmp :: "memory \<Rightarrow> ptr \<Rightarrow> ptr \<Rightarrow> nat \<Rightarrow> int option" where
  "memcmp m a b sz = do {
     ASSERT (a \<noteq> NULL \<or> sz = 0);
     ASSERT (b \<noteq> NULL \<or> sz = 0);
     memcmp_loop m a b sz
   }"

fun memchr_loop :: "memory \<Rightarrow> ptr \<Rightarrow> u8 \<Rightarrow> nat \<Rightarrow> ptr option" where
  "memchr_loop m block ch 0 = Some NULL"
| "memchr_loop m block ch (Suc sz) = do {
     x \<leftarrow> rd m block;
     if x = ch then Some block else memchr_loop m (block + 1) ch sz
   }"

definition memchr :: "memory \<Rightarrow> ptr \<Rightarrow> u32 \<Rightarrow> nat \<Rightarrow> ptr option" where
  "memchr m block ch sz = do {
     ASSERT (block \<noteq> NULL \<or> sz = 0);
     memchr_loop m block (ucast ch) sz
   }"

fun memset_loop :: "memory \<Rightarrow> ptr \<Rightarrow> u8 \<Rightarrow> nat \<Rightarrow> memory option" where
  "memset_loop m dst v 0 = Some m"
| "memset_loop m dst v (Suc sz) = do {
     m \<leftarrow> wr m dst v;
     memset_loop m (dst + 1) v sz
   }"

definition memset :: "memory \<Rightarrow> ptr \<Rightarrow> u32 \<Rightarrow> nat \<Rightarrow> (memory \<times> ptr) option" where
  "memset m dst v sz = do {
     ASSERT (dst \<noteq> NULL \<or> sz = 0);
     m \<leftarrow> memset_loop m dst (ucast v) sz;
     Some (m, dst)
   }"

section \<open>Strings\<close>

function strcmp_loop :: "memory \<Rightarrow> ptr \<Rightarrow> ptr \<Rightarrow> int option" where
  "strcmp_loop m a b = do {
     x \<leftarrow> rd m a;
     y \<leftarrow> rd m b;
     if x \<noteq> 0 \<and> x = y then strcmp_loop m (a + 1) (b + 1)
     else Some (if x < y then -1 else if x > y then 1 else 0)
   }"
  by pat_completeness auto
termination
  by (relation "measure (\<lambda>(m, a, b). length m - a)") (auto simp: rd_def split: if_splits)

definition strcmp :: "memory \<Rightarrow> ptr \<Rightarrow> ptr \<Rightarrow> int option" where
  "strcmp m a b = do { ASSERT (a \<noteq> NULL); ASSERT (b \<noteq> NULL); strcmp_loop m a b }"

function strchr_loop :: "memory \<Rightarrow> ptr \<Rightarrow> u8 \<Rightarrow> ptr option" where
  "strchr_loop m s c = do {
     x \<leftarrow> rd m s;
     if x = c then Some s else if x = 0 then Some NULL else strchr_loop m (s + 1) c
   }"
  by pat_completeness auto
termination
  by (relation "measure (\<lambda>(m, s, c). length m - s)") (auto simp: rd_def split: if_splits)

definition strchr :: "memory \<Rightarrow> ptr \<Rightarrow> u8 \<Rightarrow> ptr option" where
  "strchr m s c = do { ASSERT (s \<noteq> NULL); strchr_loop m s c }"

function strcspn_loop :: "memory \<Rightarrow> ptr \<Rightarrow> ptr \<Rightarrow> nat \<Rightarrow> nat option" where
  "strcspn_loop m s stop len = do {
     x \<leftarrow> rd m (s + len);
     if x = 0 then Some len
     else do {
       p \<leftarrow> strchr m stop x;
       if p \<noteq> NULL then Some len else strcspn_loop m s stop (len + 1)
     }
   }"
  by pat_completeness auto
termination
  by (relation "measure (\<lambda>(m, s, stop, len). length m - (s + len))") (auto simp: rd_def split: if_splits)

definition strcspn :: "memory \<Rightarrow> ptr \<Rightarrow> ptr \<Rightarrow> nat option" where
  "strcspn m s stop = strcspn_loop m s stop 0"

function strpbrk :: "memory \<Rightarrow> ptr \<Rightarrow> ptr \<Rightarrow> ptr option" where
  "strpbrk m s stop = do {
     x \<leftarrow> rd m s;
     if x = 0 then Some NULL
     else do {
       p \<leftarrow> strchr m stop x;
       if p \<noteq> NULL then Some s else strpbrk m (s + 1) stop
     }
   }"
  by pat_completeness auto
termination
  by (relation "measure (\<lambda>(m, s, stop). length m - s)") (auto simp: rd_def split: if_splits)

function strrchr_loop :: "memory \<Rightarrow> ptr \<Rightarrow> u8 \<Rightarrow> ptr \<Rightarrow> ptr option" where
  "strrchr_loop m s c p = do {
     x \<leftarrow> rd m s;
     if x = 0 then Some p else strrchr_loop m (s + 1) c (if x = c then s else p)
   }"
  by pat_completeness auto
termination
  by (relation "measure (\<lambda>(m, s, c, p). length m - s)") (auto simp: rd_def split: if_splits)

definition strrchr :: "memory \<Rightarrow> ptr \<Rightarrow> u8 \<Rightarrow> ptr option" where
  "strrchr m s c = strrchr_loop m s c NULL"

function strspn_loop :: "memory \<Rightarrow> ptr \<Rightarrow> ptr \<Rightarrow> nat \<Rightarrow> nat option" where
  "strspn_loop m s skip len = do {
     x \<leftarrow> rd m (s + len);
     if x = 0 then Some len
     else do {
       p \<leftarrow> strchr m skip x;
       if p = NULL then Some len else strspn_loop m s skip (len + 1)
     }
   }"
  by pat_completeness auto
termination
  by (relation "measure (\<lambda>(m, s, skip, len). length m - (s + len))") (auto simp: rd_def split: if_splits)

definition strspn :: "memory \<Rightarrow> ptr \<Rightarrow> ptr \<Rightarrow> nat option" where
  "strspn m s skip = strspn_loop m s skip 0"

function strlen_loop :: "memory \<Rightarrow> ptr \<Rightarrow> ptr option" where
  "strlen_loop m p = do { x \<leftarrow> rd m p; if x \<noteq> 0 then strlen_loop m (p + 1) else Some p }"
  by pat_completeness auto
termination
  by (relation "measure (\<lambda>(m, p). length m - p)") (auto simp: rd_def split: if_splits)

definition strlen :: "memory \<Rightarrow> ptr \<Rightarrow> nat option" where
  "strlen m s = do { ASSERT (s \<noteq> NULL); p \<leftarrow> strlen_loop m s; Some (p - s) }"

function strnlen_loop :: "memory \<Rightarrow> ptr \<Rightarrow> nat \<Rightarrow> nat \<Rightarrow> nat option" where
  "strnlen_loop m s maxlen len = do {
     x \<leftarrow> rd m (s + len);
     if x \<noteq> 0 \<and> len < maxlen then strnlen_loop m s maxlen (len + 1) else Some len
   }"
  by pat_completeness auto
termination
  by (relation "measure (\<lambda>(m, s, maxlen, len). maxlen - len)") auto

definition strnlen :: "memory \<Rightarrow> ptr \<Rightarrow> nat \<Rightarrow> nat option" where
  "strnlen m s maxlen = strnlen_loop m s maxlen 0"

function strstr_loop :: "memory \<Rightarrow> ptr \<Rightarrow> ptr \<Rightarrow> nat \<Rightarrow> nat \<Rightarrow> nat \<Rightarrow> ptr option" where
  "strstr_loop m haystack needle needle_len final i =
     (if i \<le> final then do {
        c \<leftarrow> memcmp m (haystack + i) needle needle_len;
        if c = 0 then Some (haystack + i) else strstr_loop m haystack needle needle_len final (i + 1)
      } else Some NULL)"
  by pat_completeness auto
termination
  by (relation "measure (\<lambda>(m, h, n, l, final, i). Suc final - i)") auto

definition strstr :: "memory \<Rightarrow> ptr \<Rightarrow> ptr \<Rightarrow> ptr option" where
  "strstr m haystack needle = do {
     haystack_len \<leftarrow> strlen m haystack;
     needle_len \<leftarrow> strlen m needle;
     if haystack_len \<ge> needle_len
     then strstr_loop m haystack needle needle_len (haystack_len - needle_len) 0
     else Some NULL
   }"

function strtok_skip :: "memory \<Rightarrow> ptr \<Rightarrow> ptr \<Rightarrow> (bool \<times> ptr) option" where
  "strtok_skip m delimiters s = do {
     x \<leftarrow> rd m s;
     p \<leftarrow> strchr m delimiters x;
     if p \<noteq> NULL then (if x = 0 then Some (False, s) else strtok_skip m delimiters (s + 1))
     else Some (True, s)
   }"
  by pat_completeness auto
termination
  by (relation "measure (\<lambda>(m, d, s). length m - s)") (auto simp: rd_def split: if_splits)

function strtok_token :: "memory \<Rightarrow> ptr \<Rightarrow> ptr \<Rightarrow> ptr option" where
  "strtok_token m delimiters s = do {
     x \<leftarrow> rd m s;
     p \<leftarrow> strchr m delimiters x;
     if p = NULL then strtok_token m delimiters (s + 1) else Some s
   }"
  by pat_completeness auto
termination
  by (relation "measure (\<lambda>(m, d, s). length m - s)") (auto simp: rd_def split: if_splits)

text \<open>\<open>strtok_r\<close> takes and returns the saved position: the result is the memory, the token and the
new position.\<close>

definition strtok_r :: "memory \<Rightarrow> ptr \<Rightarrow> ptr \<Rightarrow> ptr \<Rightarrow> (memory \<times> ptr \<times> ptr) option" where
  "strtok_r m s delimiters save_ptr = do {
     ASSERT (delimiters \<noteq> NULL);
     let s = (if s = NULL then save_ptr else s);
     ASSERT (s \<noteq> NULL);
     (found, s) \<leftarrow> strtok_skip m delimiters s;
     if \<not> found then Some (m, NULL, s)
     else do {
       let token = s;
       s \<leftarrow> strtok_token m delimiters s;
       x \<leftarrow> rd m s;
       if x \<noteq> 0 then do {
         m \<leftarrow> wr m s 0;
         Some (m, token, s + 1)
       } else Some (m, token, s)
     }
   }"

definition strlcpy :: "memory \<Rightarrow> ptr \<Rightarrow> ptr \<Rightarrow> nat \<Rightarrow> (memory \<times> nat) option" where
  "strlcpy m dst src sz = do {
     ASSERT (dst \<noteq> NULL);
     ASSERT (src \<noteq> NULL);
     src_len \<leftarrow> strlen m src;
     if sz > 0 then do {
       let dst_len = sz - 1;
       let dst_len = (if src_len < dst_len then src_len else dst_len);
       (m, _) \<leftarrow> memcpy m dst src dst_len;
       m \<leftarrow> wr m (dst + dst_len) 0;
       Some (m, src_len)
     } else Some (m, src_len)
   }"

definition strlcat :: "memory \<Rightarrow> ptr \<Rightarrow> ptr \<Rightarrow> nat \<Rightarrow> (memory \<times> nat) option" where
  "strlcat m dst src sz = do {
     ASSERT (dst \<noteq> NULL);
     ASSERT (src \<noteq> NULL);
     src_len \<leftarrow> strlen m src;
     dst_len \<leftarrow> strlen m dst;
     if sz > 0 \<and> dst_len < sz then do {
       let copy_cnt = sz - dst_len - 1;
       let copy_cnt = (if src_len < copy_cnt then src_len else copy_cnt);
       (m, _) \<leftarrow> memcpy m (dst + dst_len) src copy_cnt;
       m \<leftarrow> wr m (dst + dst_len + copy_cnt) 0;
       Some (m, src_len + dst_len)
     } else Some (m, src_len + dst_len)
   }"

lemmas [simp del] = strcmp_loop.simps strchr_loop.simps strcspn_loop.simps strpbrk.simps strrchr_loop.simps
  strspn_loop.simps strlen_loop.simps strnlen_loop.simps strstr_loop.simps strtok_skip.simps strtok_token.simps

section \<open>Copying, filling and comparing blocks\<close>

lemma copy_up_spec:
  assumes "src + n \<le> length m" "dst + n \<le> length m" "dst \<le> src \<or> src + n \<le> dst"
  shows "copy_up m dst src n = Some (poke m dst (peek m src n))"
  using assms
proof (induction n arbitrary: m dst src)
  case 0
  then show ?case by (simp add: peek_def poke_Nil)
next
  case (Suc n)
  let ?m = "m[dst := m ! src]"
  have "copy_up ?m (dst + 1) (src + 1) n = Some (poke ?m (dst + 1) (peek ?m (src + 1) n))"
    using Suc.prems by (intro Suc.IH) auto
  moreover have "peek ?m (src + 1) n = peek m (src + 1) n" using Suc.prems by (intro peek_update) auto
  moreover have "poke ?m (Suc dst) (peek m (src + 1) n) = poke m dst (m ! src # peek m (src + 1) n)"
    using Suc.prems by (intro poke_Cons) (simp add: length_peek)
  ultimately show ?case using Suc.prems by (simp add: rd_Some wr_Some peek_Suc)
qed

lemma copy_down_spec:
  assumes "src + n \<le> length m" "dst + n \<le> length m" "src \<le> dst"
  shows "copy_down m (dst + n) (src + n) n = Some (poke m dst (peek m src n))"
  using assms
proof (induction n arbitrary: m)
  case 0
  then show ?case by (simp add: peek_def poke_Nil)
next
  case (Suc n)
  let ?m = "m[dst + n := m ! (src + n)]"
  have "copy_down ?m (dst + n) (src + n) n = Some (poke ?m dst (peek ?m src n))"
    using Suc.prems by (intro Suc.IH) auto
  moreover have "peek ?m src n = peek m src n" using Suc.prems by (intro peek_update) auto
  moreover have "poke ?m dst (peek m src n) = poke m dst (peek m src n @ [m ! (src + n)])"
    using Suc.prems poke_snoc [of dst "peek m src n" m "m ! (src + n)"] by (simp add: length_peek)
  ultimately show ?case using Suc.prems by (simp add: rd_Some wr_Some peek_snoc)
qed

lemma memcpy_spec:
  assumes "src + n \<le> length m" "dst + n \<le> length m" "dst \<le> src \<or> src + n \<le> dst" "dst \<noteq> NULL" "src \<noteq> NULL"
  shows "memcpy m dst src n = Some (poke m dst (peek m src n), dst)"
  using assms by (simp add: memcpy_def copy_up_spec)

lemma memset_loop_spec:
  "dst + n \<le> length m \<Longrightarrow> memset_loop m dst v n = Some (poke m dst (replicate n v))"
proof (induction n arbitrary: m dst)
  case 0
  then show ?case by (simp add: poke_Nil)
next
  case (Suc n)
  then have "poke (m[dst := v]) (Suc dst) (replicate n v) = poke m dst (v # replicate n v)" by (intro poke_Cons) simp
  then show ?case using Suc.prems Suc.IH [of "dst + 1" "m[dst := v]"] by (simp add: wr_Some)
qed

lemma memset_spec:
  assumes "dst + n \<le> length m" "dst \<noteq> NULL"
  shows "memset m dst v n = Some (poke m dst (replicate n (ucast v)), dst)"
  using assms by (simp add: memset_def memset_loop_spec)

text \<open>\<open>memcmp\<close> is the lexicographic comparison of the blocks.\<close>

lemma memcmp_loop_spec:
  assumes "a + n \<le> length m" "b + n \<le> length m"
  shows "\<exists>c. memcmp_loop m a b n = Some c \<and> (c = 0 \<longleftrightarrow> peek m a n = peek m b n) \<and>
    (c < 0 \<longleftrightarrow> (peek m a n, peek m b n) \<in> lex {(x, y). x < y}) \<and>
    (c > 0 \<longleftrightarrow> (peek m b n, peek m a n) \<in> lex {(x, y). x < y})"
  using assms
proof (induction n arbitrary: a b)
  case 0
  then show ?case by (simp add: peek_def)
next
  case (Suc n)
  then have l: "length (peek m (Suc a) n) = n" "length (peek m (Suc b) n) = n" by (simp_all add: length_peek)
  show ?case
    using Suc.prems Suc.IH [of "a + 1" "b + 1"] l by (auto simp: rd_Some peek_Suc)
qed

section \<open>Scanning strings\<close>

lemma strlen_loop_spec: "cstring m p s \<Longrightarrow> strlen_loop m p = Some (p + length s)"
proof (induction s arbitrary: p)
  case (Cons x s)
  then show ?case using Cons.IH [of "p + 1"] by (subst strlen_loop.simps) (simp add: cstring_Cons)
qed (simp add: strlen_loop.simps cstring_Nil)

lemma strlen_spec: "cstring m p s \<Longrightarrow> p \<noteq> NULL \<Longrightarrow> strlen m p = Some (length s)"
  by (simp add: strlen_def strlen_loop_spec)

lemma strchr_loop_spec:
  "cstring m p s \<Longrightarrow>
   strchr_loop m p c = Some (if c = 0 \<or> c \<in> set s then p + length (takeWhile (\<lambda>x. x \<noteq> c) s) else NULL)"
proof (induction s arbitrary: p)
  case (Cons x s)
  then show ?case using Cons.IH [of "p + 1"] by (subst strchr_loop.simps) (auto simp: cstring_Cons)
qed (auto simp: strchr_loop.simps cstring_Nil)

lemma strchr_spec:
  "cstring m p s \<Longrightarrow> p \<noteq> NULL \<Longrightarrow>
   strchr m p c = Some (if c = 0 \<or> c \<in> set s then p + length (takeWhile (\<lambda>x. x \<noteq> c) s) else NULL)"
  by (simp add: strchr_def strchr_loop_spec)

lemma strcmp_loop_spec:
  assumes "cstring m p s" "cstring m q t"
  shows "\<exists>c. strcmp_loop m p q = Some c \<and> (c = 0 \<longleftrightarrow> s = t) \<and>
    (c < 0 \<longleftrightarrow> (s, t) \<in> lexord {(x, y). x < y}) \<and> (c > 0 \<longleftrightarrow> (t, s) \<in> lexord {(x, y). x < y})"
  using assms
proof (induction s arbitrary: p q t)
  case Nil
  then show ?case
    by (cases t) (auto simp: strcmp_loop.simps cstring_Nil cstring_Cons word_neq_0_conv)
next
  case (Cons x s)
  show ?case
  proof (cases t)
    case Nil
    then show ?thesis using Cons.prems by (auto simp: strcmp_loop.simps cstring_Nil cstring_Cons word_neq_0_conv)
  next
    case (Cons y u)
    then show ?thesis
      using Cons.prems Cons.IH [of "p + 1" "q + 1" u]
      by (subst (1) strcmp_loop.simps) (auto simp: cstring_Cons)
  qed
qed

lemma strspn_loop_spec:
  assumes "cstring m skip D" "skip \<noteq> NULL"
  shows "cstring m (s + len) str \<Longrightarrow> strspn_loop m s skip len = Some (len + length (takeWhile (\<lambda>x. x \<in> set D) str))"
proof (induction str arbitrary: len)
  case (Cons x str)
  then show ?case using Cons.IH [of "len + 1"] assms
    by (subst strspn_loop.simps) (auto simp: cstring_Cons strchr_spec)
qed (simp add: strspn_loop.simps cstring_Nil)

lemma strcspn_loop_spec:
  assumes "cstring m stop D" "stop \<noteq> NULL"
  shows "cstring m (s + len) str \<Longrightarrow> strcspn_loop m s stop len = Some (len + length (takeWhile (\<lambda>x. x \<notin> set D) str))"
proof (induction str arbitrary: len)
  case (Cons x str)
  then show ?case using Cons.IH [of "len + 1"] assms
    by (subst strcspn_loop.simps) (auto simp: cstring_Cons strchr_spec)
qed (simp add: strcspn_loop.simps cstring_Nil)

lemma strpbrk_spec:
  assumes "cstring m stop D" "stop \<noteq> NULL"
  shows "cstring m s str \<Longrightarrow> strpbrk m s stop =
    Some (if set str \<inter> set D = {} then NULL else s + length (takeWhile (\<lambda>x. x \<notin> set D) str))"
proof (induction str arbitrary: s)
  case (Cons x str)
  then show ?case using Cons.IH [of "s + 1"] assms
    by (subst strpbrk.simps) (auto simp: cstring_Cons strchr_spec)
qed (simp add: strpbrk.simps cstring_Nil)

lemma strrchr_loop_spec:
  "cstring m s str \<Longrightarrow> strrchr_loop m s c p =
   Some (if c \<in> set str then s + (length str - 1 - length (takeWhile (\<lambda>x. x \<noteq> c) (rev str))) else p)"
proof (induction str arbitrary: s p)
  case (Cons x str)
  have l: "length (takeWhile (\<lambda>x. x \<noteq> c) (rev str)) < length str" if "c \<in> set str"
  proof -
    have "takeWhile (\<lambda>x. x \<noteq> c) (rev str) \<noteq> rev str" using that by (auto simp: takeWhile_eq_all_conv)
    then show ?thesis by (metis length_rev length_takeWhile_le nat_less_le order_refl take_all takeWhile_eq_take)
  qed
  show ?case using Cons Cons.IH [of "s + 1" "if x = c then s else p"]
    by (subst strrchr_loop.simps) (use l in \<open>auto simp: cstring_Cons takeWhile_append takeWhile_eq_all_conv [THEN iffD2]\<close>)
qed (simp add: strrchr_loop.simps cstring_Nil)

lemma strnlen_loop_spec:
  "cstring m (s + len) str \<Longrightarrow> len \<le> maxlen \<Longrightarrow> strnlen_loop m s maxlen len = Some (min maxlen (len + length str))"
proof (induction str arbitrary: len)
  case (Cons x str)
  then show ?case using Cons.IH [of "len + 1"]
    by (subst strnlen_loop.simps) (auto simp: cstring_Cons min_def)
qed (simp add: strnlen_loop.simps cstring_Nil)

lemma peek_peek: "j + k \<le> n \<Longrightarrow> take k (drop j (peek m p n)) = peek m (p + j) k"
  by (simp add: peek_def drop_take min_def add.commute)

lemma memcmp_eq_0:
  assumes "a + n \<le> length m" "b + n \<le> length m" "a \<noteq> NULL" "b \<noteq> NULL"
  shows "\<exists>c. memcmp m a b n = Some c \<and> (c = 0 \<longleftrightarrow> peek m a n = peek m b n)"
  using memcmp_loop_spec [OF assms(1,2)] assms(3,4) by (auto simp: memcmp_def)

lemma strstr_loop_spec:
  assumes "h + final + n \<le> length m" "nd + n \<le> length m" "h \<noteq> NULL" "nd \<noteq> NULL"
  shows "strstr_loop m h nd n final i =
    Some (case find (\<lambda>j. peek m (h + j) n = peek m nd n) [i..<Suc final] of None \<Rightarrow> NULL | Some j \<Rightarrow> h + j)"
proof (induction "Suc final - i" arbitrary: i)
  case 0
  then show ?case by (auto simp: strstr_loop.simps)
next
  case (Suc d)
  then have i: "i \<le> final" by simp
  then obtain c where c: "memcmp m (h + i) nd n = Some c" "c = 0 \<longleftrightarrow> peek m (h + i) n = peek m nd n"
    using memcmp_eq_0 [of "h + i" n m nd] assms by auto
  have "strstr_loop m h nd n final (i + 1) =
    Some (case find (\<lambda>j. peek m (h + j) n = peek m nd n) [i + 1..<Suc final] of None \<Rightarrow> NULL | Some j \<Rightarrow> h + j)"
    using Suc.hyps(2) by (intro Suc.hyps(1)) simp
  moreover have "[i..<Suc final] = i # [i + 1..<Suc final]" using i upt_conv_Cons [of i "Suc final"] by simp
  ultimately show ?case using i c by (subst strstr_loop.simps) simp
qed

lemma strstr_spec:
  assumes "cstring m h hs" "cstring m nd ns" "h \<noteq> NULL" "nd \<noteq> NULL"
  shows "strstr m h nd =
    Some (case find (\<lambda>j. take (length ns) (drop j hs) = ns) [0..<Suc (length hs) - length ns] of
      None \<Rightarrow> NULL | Some j \<Rightarrow> h + j)"
proof (cases "length ns \<le> length hs")
  case True
  let ?f = "length hs - length ns"
  have n: "peek m nd (length ns) = ns" by (rule cstring_peek [OF assms(2)])
  have "peek m (h + j) (length ns) = take (length ns) (drop j hs)" if "j \<in> set [0..<Suc ?f]" for j
  proof -
    have "j + length ns \<le> length hs" using that True by auto
    then show ?thesis using peek_peek [of j "length ns" "length hs" m h] unfolding cstring_peek [OF assms(1)] by simp
  qed
  then have "find (\<lambda>j. peek m (h + j) (length ns) = peek m nd (length ns)) [0..<Suc ?f] =
    find (\<lambda>j. take (length ns) (drop j hs) = ns) [0..<Suc ?f]"
    unfolding n by (intro find_cong refl) (simp only:)
  moreover have "strstr m h nd = strstr_loop m h nd (length ns) ?f 0"
    using True assms by (simp add: strstr_def strlen_spec)
  moreover have "strstr_loop m h nd (length ns) ?f 0 =
    Some (case find (\<lambda>j. peek m (h + j) (length ns) = peek m nd (length ns)) [0..<Suc ?f] of None \<Rightarrow> NULL | Some j \<Rightarrow> h + j)"
    using cstring_bound [OF assms(1)] cstring_bound [OF assms(2)] True assms(3,4) by (intro strstr_loop_spec) simp_all
  ultimately show ?thesis by (simp only: Suc_diff_le [OF True])
next
  case False
  then show ?thesis using assms by (simp add: strstr_def strlen_spec)
qed

section \<open>Tokens\<close>

lemma strtok_skip_spec:
  assumes "cstring m d D" "d \<noteq> NULL"
  shows "cstring m s str \<Longrightarrow> strtok_skip m d s =
    Some (\<exists>x\<in>set str. x \<notin> set D, s + length (takeWhile (\<lambda>x. x \<in> set D) str))"
proof (induction str arbitrary: s)
  case (Cons x str)
  then show ?case using Cons.IH [of "s + 1"] assms
    by (subst strtok_skip.simps) (auto simp: cstring_Cons strchr_spec)
qed (use assms in \<open>simp add: strtok_skip.simps cstring_Nil strchr_spec\<close>)

lemma strtok_token_spec:
  assumes "cstring m d D" "d \<noteq> NULL"
  shows "cstring m s str \<Longrightarrow> strtok_token m d s = Some (s + length (takeWhile (\<lambda>x. x \<notin> set D) str))"
proof (induction str arbitrary: s)
  case (Cons x str)
  then show ?case using Cons.IH [of "s + 1"] assms
    by (subst strtok_token.simps) (auto simp: cstring_Cons strchr_spec)
qed (use assms in \<open>simp add: strtok_token.simps cstring_Nil strchr_spec\<close>)

text \<open>Writing a null byte after a prefix of a string cuts it in two.\<close>

lemma cstring_cut:
  assumes "cstring m p (xs @ y # ys)"
  shows "cstring (m[p + length xs := 0]) p xs \<and> cstring (m[p + length xs := 0]) (p + length xs + 1) ys"
proof
  let ?q = "p + length xs"
  have y: "cstring m ?q (y # ys)" using assms by (rule cstring_append)
  then have q: "?q < length m" by (auto simp: cstring_Cons rd_def split: if_splits)
  have c: "cstring m (Suc ?q) ys" using y by (simp add: cstring_Cons)
  have "peek (m[?q := 0]) (Suc ?q) (length ys + 1) = peek m (Suc ?q) (length ys + 1)"
    using cstring_bound [OF c] by (intro peek_update) simp_all
  then show "cstring (m[?q := 0]) (?q + 1) ys" using cstring_cong [OF c] by (metis Suc_eq_plus1 length_list_update)
  have "xs @ [0] = peek (m[?q := 0]) p (length xs + 1)"
  proof (rule sym, rule peek_eqI)
    fix i assume "i < length xs + 1"
    then show "m[?q := 0] ! (p + i) = (xs @ [0]) ! i"
      using cstring_nth [OF assms, of i] q by (auto simp: nth_append rd_def less_Suc_eq split: if_splits)
  qed (use q in simp_all)
  then show "cstring (m[?q := 0]) p xs" using assms q by (auto simp: cstring_def)
qed

text \<open>What one call of \<open>strtok_r\<close> does to the string at its current position.\<close>

definition token_of :: "u8 list \<Rightarrow> u8 list \<Rightarrow> u8 list" where
  "token_of D str = takeWhile (\<lambda>x. x \<notin> set D) (dropWhile (\<lambda>x. x \<in> set D) str)"

definition after_token :: "u8 list \<Rightarrow> u8 list \<Rightarrow> u8 list" where
  "after_token D str = tl (dropWhile (\<lambda>x. x \<notin> set D) (dropWhile (\<lambda>x. x \<in> set D) str))"

lemma strtok_r_none:
  assumes "cstring m p str" "cstring m d D" "d \<noteq> NULL" "p \<noteq> NULL" "(if s = NULL then save else s) = p"
    and "token_of D str = []"
  shows "strtok_r m s d save = Some (m, NULL, p + length str)"
proof -
  have "dropWhile (\<lambda>x. x \<in> set D) str = []"
    using assms(6) hd_dropWhile [of "\<lambda>x. x \<in> set D" str]
    by (cases "dropWhile (\<lambda>x. x \<in> set D) str") (auto simp: token_of_def)
  then have all: "\<forall>x\<in>set str. x \<in> set D" by (simp add: dropWhile_eq_Nil_conv)
  then have "takeWhile (\<lambda>x. x \<in> set D) str = str" by (simp only: takeWhile_eq_all_conv)
  then have "strtok_skip m d p = Some (False, p + length str)"
    using all strtok_skip_spec [OF assms(2,3,1)] by (simp only:) blast
  then show ?thesis using assms(3-5) by (simp add: strtok_r_def)
qed

lemma strtok_r_some:
  assumes str: "cstring m p str" and D: "cstring m d D" "d \<noteq> NULL" and p: "p \<noteq> NULL" "(if s = NULL then save else s) = p"
    and apart: "d + length D < p \<or> p + length str < d" and tok: "token_of D str \<noteq> []"
  shows "\<exists>m' token save'. strtok_r m s d save = Some (m', token, save') \<and>
     cstring m' token (token_of D str) \<and> cstring m' save' (after_token D str) \<and> cstring m' d D \<and>
     length m' = length m \<and> p \<le> token \<and> token + length (token_of D str) \<le> save' \<and>
     save' + length (after_token D str) = p + length str \<and>
     (\<forall>a. a < p \<or> p + length str < a \<longrightarrow> m' ! a = m ! a)"
proof -
  define A B C where "A = takeWhile (\<lambda>x. x \<in> set D) str" and "B = token_of D str"
    and "C = dropWhile (\<lambda>x. x \<notin> set D) (dropWhile (\<lambda>x. x \<in> set D) str)"
  have s: "str = A @ B @ C" by (simp add: A_def B_def C_def token_of_def)
  then have len: "length str = length A + length B + length C" by (metis add.assoc length_append)
  let ?t = "p + length A"
  have BC: "cstring m ?t (B @ C)" using str unfolding s by (rule cstring_append)
  have ex: "\<exists>x\<in>set str. x \<notin> set D" using tok by (auto simp: token_of_def dropWhile_eq_Nil_conv takeWhile_eq_Nil_iff)
  have B: "takeWhile (\<lambda>x. x \<notin> set D) (B @ C) = B"
    unfolding B_def C_def token_of_def by simp
  have sk: "strtok_skip m d p = Some (True, ?t)" using strtok_skip_spec [OF D str] ex by (simp add: A_def)
  have tk: "strtok_token m d ?t = Some (?t + length B)" using strtok_token_spec [OF D BC] B by simp
  show ?thesis
  proof (cases C)
    case Nil
    have "rd m (?t + length B) = Some 0" using cstring_end [OF BC] Nil by simp
    then have "strtok_r m s d save = Some (m, ?t, ?t + length B)" using D(2) p sk tk by (simp add: strtok_r_def)
    moreover have "cstring m (?t + length B) []" using cstring_append [of m ?t B "[]"] BC Nil by simp
    moreover have "after_token D str = []" unfolding after_token_def C_def [symmetric] by (simp add: Nil)
    ultimately show ?thesis unfolding B_def [symmetric] using BC Nil D(1) len
      by (intro exI [of _ m] exI [of _ ?t] exI [of _ "?t + length B"]) simp
  next
    case (Cons c C')
    let ?q = "?t + length B" let ?m = "m[?q := 0]"
    have c: "rd m ?q = Some c" "c \<noteq> 0" using cstring_append [OF BC] Cons by (simp_all add: cstring_Cons)
    then have q: "?q < length m" by (simp add: rd_def split: if_splits)
    have "strtok_r m s d save = Some (?m, ?t, ?q + 1)" using D(2) p sk tk c q by (simp add: strtok_r_def wr_Some)
    moreover have "cstring ?m ?t B" "cstring ?m (?q + 1) C'" using cstring_cut [of m ?t B c C'] BC Cons by simp_all
    moreover have "after_token D str = C'" unfolding after_token_def C_def [symmetric] by (simp add: Cons)
    moreover have "?q \<le> p + length str" using len by simp
    moreover have "peek ?m d (length D + 1) = peek m d (length D + 1)"
      using apart len cstring_bound [OF D(1)] by (intro peek_update) auto
    then have "cstring ?m d D" by (rule cstring_cong [OF D(1)]) simp
    ultimately show ?thesis unfolding B_def [symmetric] using len Cons
      by (intro exI [of _ ?m] exI [of _ ?t] exI [of _ "?q + 1"]) simp
  qed
qed

section \<open>Bounded copies\<close>

lemma strlcpy_loop:
  assumes "cstring m src s" "src \<noteq> NULL" "dst \<noteq> NULL" "n \<le> length s" "dst + n < length m"
    and "dst + n < src \<or> src + length s < dst"
  shows "do { (m, _) \<leftarrow> memcpy m dst src n; wr m (dst + n) 0 } = Some (poke m dst (take n s @ [0]))"
proof -
  have p: "peek m src n = take n s"
    using cstring_peek [OF assms(1)] assms(4) by (metis min.absorb1 peek_def take_take)
  have "memcpy m dst src n = Some (poke m dst (take n s), dst)"
    using memcpy_spec [of src n m dst] assms cstring_bound [OF assms(1)] unfolding p by auto
  moreover have "(poke m dst (take n s))[dst + n := 0] = poke m dst (take n s @ [0])"
    using assms(4,5) by (intro poke_eqI) (auto simp: length_poke nth_poke nth_list_update nth_append min_def)
  ultimately show ?thesis using assms(4,5) by (simp add: wr_Some length_poke)
qed

lemma strlcpy_spec:
  assumes "cstring m src s" "src \<noteq> NULL" "dst \<noteq> NULL" "0 < sz" "dst + sz \<le> length m"
    and "dst + sz \<le> src \<or> src + length s < dst"
  shows "strlcpy m dst src sz = Some (poke m dst (take (sz - 1) s @ [0]), length s)"
proof -
  define n where "n = (if length s < sz - 1 then length s else sz - 1)"
  have t: "take n s = take (sz - 1) s" by (simp add: n_def)
  have "do { (m, _) \<leftarrow> memcpy m dst src n; wr m (dst + n) 0 } = Some (poke m dst (take n s @ [0]))"
    using assms by (intro strlcpy_loop) (auto simp: n_def)
  moreover have "strlcpy m dst src sz = do {
      m \<leftarrow> do { (m, _) \<leftarrow> memcpy m dst src n; wr m (dst + n) 0 }; Some (m, length s) }"
    using assms(1-4) by (simp add: strlcpy_def strlen_spec n_def Let_def case_prod_beta')
  ultimately show ?thesis by (simp add: t)
qed

lemma strlcat_spec:
  assumes "cstring m src s" "cstring m dst t" "src \<noteq> NULL" "dst \<noteq> NULL" "length t < sz" "dst + sz \<le> length m"
    and "dst + sz \<le> src \<or> src + length s < dst"
  shows "strlcat m dst src sz = Some (poke m (dst + length t) (take (sz - length t - 1) s @ [0]), length s + length t)"
proof -
  let ?d = "dst + length t"
  define n where "n = (if length s < sz - length t - 1 then length s else sz - length t - 1)"
  have t: "take n s = take (sz - length t - 1) s" by (simp add: n_def)
  have "do { (m, _) \<leftarrow> memcpy m ?d src n; wr m (?d + n) 0 } = Some (poke m ?d (take n s @ [0]))"
    using assms by (intro strlcpy_loop) (auto simp: n_def)
  moreover have "strlcat m dst src sz = do {
      m \<leftarrow> do { (m, _) \<leftarrow> memcpy m ?d src n; wr m (?d + n) 0 }; Some (m, length s + length t) }"
    using assms(1-5) by (simp add: strlcat_def strlen_spec n_def Let_def case_prod_beta')
  ultimately show ?thesis by (simp add: t)
qed

section \<open>Properties\<close>

text \<open>C20. \<open>memmove\<close> copies a block exactly, also between overlapping blocks: the destination holds the
old contents of the source and nothing else changes. The pointer it returns is the destination only
when the copy runs downwards; when the destination lies below the source it is the end of the block.\<close>

theorem memmove_exact:
  assumes "src + n \<le> length m" "dst + n \<le> length m" "dst \<noteq> NULL" "src \<noteq> NULL"
  shows "memmove m dst src n = Some (poke m dst (peek m src n), if dst < src then dst + n else dst)"
  using assms by (auto simp: memmove_def copy_up_spec copy_down_spec)

theorem memmove_exact_witness:
  "memmove [0, 1, 2, 3, 4, 5] 2 1 3 = Some ([0, 1, 1, 2, 3, 5], 2) \<and>
   memmove [0, 1, 2, 3, 4, 5] 1 2 3 = Some ([0, 2, 3, 4, 4, 5], 4)"
  using memmove_exact [of 1 3 "[0, 1, 2, 3, 4, 5]" 2] memmove_exact [of 2 3 "[0, 1, 2, 3, 4, 5]" 1]
  by (simp add: peek_def poke_def)

text \<open>C21. One call of \<open>strtok_r\<close> splits the string at the current position: when only delimiters are left
it returns null and changes nothing; otherwise it returns the first token, never empty, as a string
of its own, and the saved position is the rest of the string. Bytes outside the string, the
delimiters in particular, are not changed.\<close>

theorem strtok_r_splits:
  assumes "cstring m p str" "cstring m d D" "d \<noteq> NULL" "p \<noteq> NULL" "(if s = NULL then save else s) = p"
    and "d + length D < p \<or> p + length str < d"
  shows "if token_of D str = [] then strtok_r m s d save = Some (m, NULL, p + length str)
     else \<exists>m' token save'. strtok_r m s d save = Some (m', token, save') \<and>
       cstring m' token (token_of D str) \<and> cstring m' save' (after_token D str) \<and> cstring m' d D \<and>
       length m' = length m \<and> p \<le> token \<and> token + length (token_of D str) \<le> save' \<and>
       save' + length (after_token D str) = p + length str \<and>
       (\<forall>a. a < p \<or> p + length str < a \<longrightarrow> m' ! a = m ! a)"
  using strtok_r_none [OF assms(1-5)] strtok_r_some [OF assms] by simp

text \<open>The string \<open>" a bc"\<close> at address 3, with the delimiter string \<open>" "\<close> at address 1.\<close>

theorem strtok_r_splits_witness:
  "\<exists>m' token save'. strtok_r [0, 32, 0, 32, 97, 32, 98, 99, 0] 3 1 0 = Some (m', token, save') \<and>
     cstring m' token [97] \<and> cstring m' save' [98, 99]"
  using strtok_r_splits [of "[0, 32, 0, 32, 97, 32, 98, 99, 0]" 3 "[32, 97, 32, 98, 99]" 1 "[32]" 3 0]
  by (auto simp: token_of_def after_token_def cstring_def peek_def)

lemma strlcpy_result:
  assumes "cstring m src s" "src \<noteq> NULL" "dst \<noteq> NULL" "dst + sz \<le> length m" and "dst + sz \<le> src \<or> src + length s < dst"
  shows "\<exists>m1. strlcpy m dst src sz = Some (m1, length s) \<and> (if sz = 0 then m1 = m else cstring m1 dst (take (sz - 1) s)) \<and>
    (\<forall>a < length m. a < dst \<or> dst + sz \<le> a \<longrightarrow> m1 ! a = m ! a)"
proof (cases "sz = 0")
  case True
  then show ?thesis using assms(1-3) by (simp add: strlcpy_def strlen_spec)
next
  case False
  let ?a = "take (sz - 1) s"
  have "0 \<notin> set ?a" using assms(1) in_set_takeD [of 0 _ s] by (auto simp: cstring_def)
  then have "cstring (poke m dst (?a @ [0])) dst ?a" using False assms(4) by (intro cstring_poke) auto
  moreover have "\<forall>a < length m. a < dst \<or> dst + sz \<le> a \<longrightarrow> poke m dst (?a @ [0]) ! a = m ! a"
    using False assms(4) by (auto simp: nth_poke)
  ultimately show ?thesis using False strlcpy_spec [OF assms(1-3) _ assms(4,5)] by simp
qed

lemma strlcat_result:
  assumes "cstring m src s" "src \<noteq> NULL" "dst \<noteq> NULL" "dst + sz \<le> length m" and "dst + sz \<le> src \<or> src + length s < dst"
    and "cstring m dst t"
  shows "\<exists>m2. strlcat m dst src sz = Some (m2, length s + length t) \<and>
    (if length t < sz then cstring m2 dst (take (sz - 1) (t @ s)) else m2 = m) \<and>
    (\<forall>a < length m. a < dst \<or> dst + sz \<le> a \<longrightarrow> m2 ! a = m ! a)"
proof (cases "length t < sz")
  case True
  let ?b = "take (sz - length t - 1) s" let ?m2 = "poke m (dst + length t) (?b @ [0])"
  have 0: "0 \<notin> set s" "0 \<notin> set t" using assms(1,6) by (simp_all add: cstring_def)
  have b: "dst + length t + length (?b @ [0]) \<le> length m" using True assms(4) by auto
  then have "?m2 = poke m dst (t @ ?b @ [0])" by (rule poke_poke_prefix [OF cstring_peek [OF assms(6)]])
  then have "cstring ?m2 dst (t @ ?b)"
    using 0 b in_set_takeD [of 0 _ s] cstring_poke [of dst "t @ ?b" m] by (simp add: add.assoc) blast
  moreover have "take (sz - 1) (t @ s) = t @ ?b" using True by simp
  moreover have "\<forall>a < length m. a < dst \<or> dst + sz \<le> a \<longrightarrow> ?m2 ! a = m ! a"
    using True assms(4) by (auto simp: nth_poke)
  ultimately show ?thesis using True strlcat_spec [OF assms(1,6,2,3) True assms(4,5)] by simp
next
  case False
  then show ?thesis using assms by (simp add: strlcat_def strlen_spec)
qed

text \<open>C22. For a source string that does not overlap the \<open>sz\<close> bytes of the destination: \<open>strlcpy\<close> leaves a
terminated string of at most \<open>sz - 1\<close> bytes there, whatever the destination held before, unless \<open>sz\<close> is 0;
\<open>strlcat\<close>, on a destination that holds a string, appends as much as fits in \<open>sz - 1\<close> bytes and terminates it. When that string has
\<open>sz\<close> or more bytes \<open>strlcat\<close> writes nothing, no terminator either, although its comment says that one is always
written. Both write nothing outside the \<open>sz\<close> bytes and return the length of the string they tried to create.\<close>

theorem bounded_copies:
  assumes "cstring m src s" "src \<noteq> NULL" "dst \<noteq> NULL" "dst + sz \<le> length m" and "dst + sz \<le> src \<or> src + length s < dst"
  shows "(\<exists>m1. strlcpy m dst src sz = Some (m1, length s) \<and> (if sz = 0 then m1 = m else cstring m1 dst (take (sz - 1) s)) \<and>
      (\<forall>a < length m. a < dst \<or> dst + sz \<le> a \<longrightarrow> m1 ! a = m ! a)) \<and>
    (\<forall>t. cstring m dst t \<longrightarrow> (\<exists>m2. strlcat m dst src sz = Some (m2, length s + length t) \<and>
      (if length t < sz then cstring m2 dst (take (sz - 1) (t @ s)) else m2 = m) \<and>
      (\<forall>a < length m. a < dst \<or> dst + sz \<le> a \<longrightarrow> m2 ! a = m ! a)))"
  using strlcpy_result [OF assms] strlcat_result [OF assms] by blast

text \<open>The destination at address 1 holds \<open>"b"\<close>, then no string of fewer than 3 bytes.\<close>

theorem bounded_copies_witness:
  "(\<exists>m1 m2. strlcpy [0, 98, 0, 9, 97, 98, 99, 0] 1 4 3 = Some (m1, 3) \<and> cstring m1 1 [97, 98] \<and>
     strlcat [0, 98, 0, 9, 97, 98, 99, 0] 1 4 3 = Some (m2, 4) \<and> cstring m2 1 [98, 97]) \<and>
   strlcat [0, 98, 98, 98, 98, 0, 97, 0] 1 6 3 = Some ([0, 98, 98, 98, 98, 0, 97, 0], 5)"
proof -
  let ?m = "[0, 98, 0, 9, 97, 98, 99, 0] :: memory" and ?k = "[0, 98, 98, 98, 98, 0, 97, 0] :: memory"
  have "cstring ?m 4 [97, 98, 99]" "cstring ?k 6 [97]" by (simp_all add: cstring_def peek_def)
  note b = bounded_copies [OF this(1), of 1 3] bounded_copies [OF this(2), of 1 3]
  have "cstring ?m 1 [98]" "cstring ?k 1 [98, 98, 98, 98]" by (simp_all add: cstring_def peek_def)
  then have "\<exists>m2. strlcat ?m 1 4 3 = Some (m2, 4) \<and> cstring m2 1 [98, 97]" "strlcat ?k 1 6 3 = Some (?k, 5)"
    using b by fastforce+
  moreover have "\<exists>m1. strlcpy ?m 1 4 3 = Some (m1, 3) \<and> cstring m1 1 [97, 98]" using b(1) by auto
  ultimately show ?thesis by blast
qed

end
