(* ===== verification/Threads.thy ===== *)
theory Threads
  imports Prelude
begin

text \<open>
  Threads, the scheduler and the interrupt level: \<open>src/threads/thread.c\<close> and the part of
  \<open>src/threads/interrupt.c\<close> that switches interrupts and runs external handlers, in the
  configuration the sources build (\<open>PR_USER\<close>, \<open>PR_VM\<close> and \<open>PR_FS\<close> of
  \<open>src/lib/debug.h\<close>, round-robin ready list).

  One record \<open>kernel\<close> holds the globals of these files. A thread is found by its address.
  Lists of threads are lists of addresses; that the kernel list realises such lists, as long as an
  element is in one list only, is the subject of \<open>Kernel_List\<close>, and that the \<open>elem\<close> member
  is in one list only is shown in \<open>Threads_Props\<close>.

  A thread that gives up the processor stops inside \<open>schedule\<close> and goes on there later. What it
  still has to do is its kernel stack, a list of \<open>frame\<close>s: pending calls and the rest of calls
  under way. \<open>exec\<close> performs the topmost frame of the running thread. A step of the machine is
  such a frame, a call from the code of a thread, or a timer interrupt when interrupts are on.
  Every section that runs with interrupts on between two frames can be interrupted there.
\<close>

section \<open>Data\<close>

datatype thread_status = THREAD_RUNNING | THREAD_READY | THREAD_BLOCKED | THREAD_DYING

text \<open>A semaphore is a variable, or embedded in a lock, or embedded in the
  \<open>semaphore_elem\<close> on the stack of a thread inside \<open>cond_wait\<close>.\<close>

datatype sema_ref = Plain ptr | OfLock ptr | OfWaiter ptr

datatype frame =
    Sema_down sema_ref          \<comment> \<open>call of \<open>sema_down\<close>\<close>
  | Sema_loop sema_ref          \<comment> \<open>the \<open>while\<close> of \<open>sema_down\<close>\<close>
  | Sema_try_down sema_ref
  | Sema_up sema_ref
  | Lock_acquire ptr
  | Set_holder ptr              \<comment> \<open>rest of \<open>lock_acquire\<close> after \<open>sema_down\<close>\<close>
  | Lock_try_acquire ptr
  | Lock_release ptr
  | Cond_wait ptr ptr
  | Cond_signal ptr ptr
  | Cond_broadcast ptr ptr
  | Intr_set_level bool         \<comment> \<open>\<open>intr_set_level (old_level)\<close> at the end of a call\<close>
  | Iret                        \<comment> \<open>return from an external interrupt\<close>
  | Thread_yield
  | Thread_exit
  | Thread_create string int bool "frame list option"
                                \<comment> \<open>the function is what the new thread does, \<open>None\<close> the null pointer\<close>
  | Next_tid ptr                \<comment> \<open>\<open>next_tid++\<close> in \<open>allocate_tid\<close>\<close>
  | Create_tail ptr bool        \<comment> \<open>rest of \<open>thread_create\<close> after \<open>allocate_tid\<close>\<close>
  | Timer_sleep int
  | Kernel_thread               \<comment> \<open>entry of a new thread\<close>
  | Idle_init sema_ref          \<comment> \<open>entry of \<open>idle\<close>\<close>
  | Idle_loop                   \<comment> \<open>\<open>intr_disable (); thread_block ();\<close>\<close>
  | Idle_hlt                    \<comment> \<open>\<open>sti; hlt\<close>\<close>

record thread =
  tid :: int
  status :: thread_status
  name :: string
  stack :: int
  priority :: int
  sleepTick :: int
  pagedir :: ptr
  magic :: u32
  frames :: "frame list"
  result :: int                 \<comment> \<open>value returned by the last call\<close>

record semaphore =
  val :: u32
  waiters :: "ptr list"

record kernel =
  threads :: "ptr \<Rightarrow> thread option"
  running :: ptr
  ready_list :: "ptr list"
  all_threads :: "ptr list"
  sleepList :: "ptr list"
  idle_thread :: ptr
  initial_thread :: ptr
  next_tid :: int
  thread_ticks :: nat
  idle_ticks :: int
  kernel_ticks :: int
  user_ticks :: int
  ticks :: int
  intr_on :: bool
  in_external_intr :: bool
  yield_on_return :: bool
  semas :: "sema_ref \<Rightarrow> semaphore"
  holder :: "ptr \<Rightarrow> ptr"
  cond_waiters :: "ptr \<Rightarrow> ptr list"

definition THREAD_MAGIC :: u32 where
  "THREAD_MAGIC = 0xcd6abf4b"

definition TIME_SLICE :: nat where
  "TIME_SLICE = 4"

definition PRI_MIN :: int where "PRI_MIN = 0"
definition PRI_DEFAULT :: int where "PRI_DEFAULT = 31"
definition PRI_MAX :: int where "PRI_MAX = 63"
definition TID_ERROR :: int where "TID_ERROR = -1"
definition pgsize :: int where "pgsize = 4096"

text \<open>The address of the lock of \<open>allocate_tid\<close>.\<close>

definition tid_lock :: ptr where
  "tid_lock = 1"

lemma tid_lock_pos [simp]: "0 < tid_lock"
  by (simp add: tid_lock_def)

abbreviation upd_thread :: "kernel \<Rightarrow> ptr \<Rightarrow> thread \<Rightarrow> kernel" where
  "upd_thread k t th \<equiv> k\<lparr>threads := (threads k)(t \<mapsto> th)\<rparr>"

definition set_status :: "kernel \<Rightarrow> ptr \<Rightarrow> thread_status \<Rightarrow> kernel option" where
  "set_status k t s = do { th \<leftarrow> threads k t; Some (upd_thread k t (th\<lparr>status := s\<rparr>)) }"

definition set_frames :: "kernel \<Rightarrow> ptr \<Rightarrow> frame list \<Rightarrow> kernel option" where
  "set_frames k t fs = do { th \<leftarrow> threads k t; Some (upd_thread k t (th\<lparr>frames := fs\<rparr>)) }"

definition set_result :: "kernel \<Rightarrow> ptr \<Rightarrow> int \<Rightarrow> kernel option" where
  "set_result k t v = do { th \<leftarrow> threads k t; Some (upd_thread k t (th\<lparr>result := v\<rparr>)) }"

section \<open>Interrupt level\<close>

definition intr_get_level :: "kernel \<Rightarrow> bool" where
  "intr_get_level k = intr_on k"

definition intr_context :: "kernel \<Rightarrow> bool" where
  "intr_context k = in_external_intr k"

definition intr_enable :: "kernel \<Rightarrow> kernel option" where
  "intr_enable k = do { ASSERT (\<not> intr_context k); Some (k\<lparr>intr_on := True\<rparr>) }"

definition intr_disable :: "kernel \<Rightarrow> kernel" where
  "intr_disable k = k\<lparr>intr_on := False\<rparr>"

definition intr_set_level :: "kernel \<Rightarrow> bool \<Rightarrow> kernel option" where
  "intr_set_level k level = (if level then intr_enable k else Some (intr_disable k))"

definition intr_yield_on_return :: "kernel \<Rightarrow> kernel option" where
  "intr_yield_on_return k = do { ASSERT (intr_context k); Some (k\<lparr>yield_on_return := True\<rparr>) }"

section \<open>Threads\<close>

definition is_thread :: "kernel \<Rightarrow> ptr \<Rightarrow> bool" where
  "is_thread k t \<longleftrightarrow>
     t \<noteq> NULL \<and> (case threads k t of None \<Rightarrow> False | Some th \<Rightarrow> magic th = THREAD_MAGIC)"

definition thread_current :: "kernel \<Rightarrow> ptr option" where
  "thread_current k = do {
     ASSERT (is_thread k (running k));
     th \<leftarrow> threads k (running k);
     ASSERT (status th = THREAD_RUNNING);
     Some (running k)
   }"

definition thread_name :: "kernel \<Rightarrow> string option" where
  "thread_name k = do { t \<leftarrow> thread_current k; th \<leftarrow> threads k t; Some (name th) }"

definition thread_tid :: "kernel \<Rightarrow> int option" where
  "thread_tid k = do { t \<leftarrow> thread_current k; th \<leftarrow> threads k t; Some (tid th) }"

definition thread_set_priority :: "kernel \<Rightarrow> int \<Rightarrow> kernel option" where
  "thread_set_priority k new_priority = do {
     t \<leftarrow> thread_current k;
     th \<leftarrow> threads k t;
     Some (upd_thread k t (th\<lparr>priority := new_priority\<rparr>))
   }"

definition thread_get_priority :: "kernel \<Rightarrow> int option" where
  "thread_get_priority k = do { t \<leftarrow> thread_current k; th \<leftarrow> threads k t; Some (priority th) }"

definition next_thread_to_run :: "kernel \<Rightarrow> ptr \<times> kernel" where
  "next_thread_to_run k =
     (case ready_list k of
        [] \<Rightarrow> (idle_thread k, k)
      | t # ts \<Rightarrow> (t, k\<lparr>ready_list := ts\<rparr>))"

text \<open>\<open>prev\<close> is \<open>NULL\<close> when no switch took place. Freeing the page of a dying
  thread takes it out of \<open>threads\<close>.\<close>

definition schedule_tail :: "kernel \<Rightarrow> ptr \<Rightarrow> kernel option" where
  "schedule_tail k prev = do {
     ASSERT (\<not> intr_get_level k);
     k \<leftarrow> set_status k (running k) THREAD_RUNNING;
     let k = k\<lparr>thread_ticks := 0\<rparr>;
     (if prev = NULL then Some k
      else do {
        p \<leftarrow> threads k prev;
        (if status p = THREAD_DYING \<and> prev \<noteq> initial_thread k
         then do {
           ASSERT (prev \<noteq> running k);
           Some (k\<lparr>threads := (threads k)(prev := None)\<rparr>)
         }
         else Some k)
      })
   }"

text \<open>\<open>fs\<close> is what the caller has to do after \<open>schedule\<close> returns.\<close>

definition schedule :: "kernel \<Rightarrow> frame list \<Rightarrow> kernel option" where
  "schedule k fs = do {
     let curr = running k;
     let (nxt, k) = next_thread_to_run k;
     ASSERT (\<not> intr_get_level k);
     c \<leftarrow> threads k curr;
     ASSERT (status c \<noteq> THREAD_RUNNING);
     ASSERT (is_thread k nxt);
     k \<leftarrow> set_frames k curr fs;
     (if curr \<noteq> nxt then schedule_tail (k\<lparr>running := nxt\<rparr>) curr else schedule_tail k NULL)
   }"

definition thread_block :: "kernel \<Rightarrow> frame list \<Rightarrow> kernel option" where
  "thread_block k fs = do {
     ASSERT (\<not> intr_context k);
     ASSERT (\<not> intr_get_level k);
     curr \<leftarrow> thread_current k;
     k \<leftarrow> set_status k curr THREAD_BLOCKED;
     schedule k fs
   }"

definition thread_unblock :: "kernel \<Rightarrow> ptr \<Rightarrow> kernel option" where
  "thread_unblock k t = do {
     ASSERT (is_thread k t);
     let old_level = intr_get_level k;
     let k = intr_disable k;
     th \<leftarrow> threads k t;
     ASSERT (status th = THREAD_BLOCKED);
     k \<leftarrow> set_status k t THREAD_READY;
     let k = k\<lparr>ready_list := ready_list k @ [t]\<rparr>;
     intr_set_level k old_level
   }"

definition thread_yield :: "kernel \<Rightarrow> frame list \<Rightarrow> kernel option" where
  "thread_yield k fs = do {
     curr \<leftarrow> thread_current k;
     ASSERT (\<not> intr_context k);
     let old_level = intr_get_level k;
     let k = intr_disable k;
     let k = (if curr \<noteq> idle_thread k then k\<lparr>ready_list := ready_list k @ [curr]\<rparr> else k);
     k \<leftarrow> set_status k curr THREAD_READY;
     schedule k (Intr_set_level old_level # fs)
   }"

definition thread_exit :: "kernel \<Rightarrow> kernel option" where
  "thread_exit k = do {
     ASSERT (\<not> intr_context k);
     let k = intr_disable k;
     curr \<leftarrow> thread_current k;
     ASSERT (curr \<in> set (all_threads k));
     let k = k\<lparr>all_threads := remove1 curr (all_threads k)\<rparr>;
     k \<leftarrow> set_status k curr THREAD_DYING;
     schedule k []
   }"

text \<open>The name is a C string in the model, so \<open>ASSERT (name != NULL)\<close> holds.\<close>

definition init_thread :: "kernel \<Rightarrow> ptr \<Rightarrow> string \<Rightarrow> int \<Rightarrow> frame list \<Rightarrow> kernel option" where
  "init_thread k t nm prio fs = do {
     ASSERT (t \<noteq> NULL);
     ASSERT (PRI_MIN \<le> prio \<and> prio \<le> PRI_MAX);
     let th = \<lparr>tid = 0, status = THREAD_BLOCKED, name = take 15 nm, stack = int t + pgsize,
               priority = prio, sleepTick = 0, pagedir = NULL, magic = THREAD_MAGIC,
               frames = fs, result = 0\<rparr>;
     Some ((upd_thread k t th)\<lparr>all_threads := all_threads k @ [t]\<rparr>)
   }"

definition alloc_frame :: "kernel \<Rightarrow> ptr \<Rightarrow> int \<Rightarrow> kernel option" where
  "alloc_frame k t sz = do {
     ASSERT (is_thread k t);
     ASSERT (sz mod 4 = 0);
     th \<leftarrow> threads k t;
     Some (upd_thread k t (th\<lparr>stack := stack th - sz\<rparr>))
   }"

text \<open>\<open>page\<close> is what \<open>palloc_get_page\<close> returns and \<open>ok\<close> what \<open>process_create\<close>
  returns. \<open>ASSERT (function != NULL)\<close> fails for \<open>func = None\<close>; \<open>kernel_thread\<close> asserts it again,
  of the same pointer. The three stack frames have 12, 4 and 28 bytes.\<close>

definition thread_create :: "kernel \<Rightarrow> ptr \<Rightarrow> string \<Rightarrow> int \<Rightarrow> bool \<Rightarrow> frame list option \<Rightarrow> frame list \<Rightarrow> kernel option" where
  "thread_create k page nm prio ok func fs = do {
     body \<leftarrow> func;
     curr \<leftarrow> thread_current k;
     (if page = NULL then do { k \<leftarrow> set_result k curr TID_ERROR; set_frames k curr fs }
      else do {
        k \<leftarrow> init_thread k page nm prio (Kernel_thread # body);
        set_frames k curr (Lock_acquire tid_lock # Next_tid page # Lock_release tid_lock # Create_tail page ok # fs)
      })
   }"

definition allocate_tid_step :: "kernel \<Rightarrow> ptr \<Rightarrow> frame list \<Rightarrow> kernel option" where
  "allocate_tid_step k t fs = do {
     curr \<leftarrow> thread_current k;
     th \<leftarrow> threads k t;
     let k = upd_thread k t (th\<lparr>tid := next_tid k\<rparr>);
     set_frames (k\<lparr>next_tid := next_tid k + 1\<rparr>) curr fs
   }"

definition thread_create_tail :: "kernel \<Rightarrow> ptr \<Rightarrow> bool \<Rightarrow> frame list \<Rightarrow> kernel option" where
  "thread_create_tail k t ok fs = do {
     curr \<leftarrow> thread_current k;
     k \<leftarrow> alloc_frame k t 12;
     k \<leftarrow> alloc_frame k t 4;
     k \<leftarrow> alloc_frame k t 28;
     th \<leftarrow> threads k t;
     (if ok
      then do {
        k \<leftarrow> thread_unblock k t;
        k \<leftarrow> set_result k curr (tid th);
        set_frames k curr fs
      }
      else do { k \<leftarrow> set_result k curr TID_ERROR; set_frames k curr fs })
   }"

definition kernel_thread :: "kernel \<Rightarrow> frame list \<Rightarrow> kernel option" where
  "kernel_thread k fs = do { k \<leftarrow> intr_enable k; set_frames k (running k) fs }"

definition get_thread :: "kernel \<Rightarrow> int \<Rightarrow> ptr" where
  "get_thread k tid' =
     (case find (\<lambda>t. case threads k t of None \<Rightarrow> False | Some th \<Rightarrow> tid th = tid') (all_threads k) of
        None \<Rightarrow> NULL | Some t \<Rightarrow> t)"

definition thread_tick :: "kernel \<Rightarrow> kernel option" where
  "thread_tick k = do {
     t \<leftarrow> thread_current k;
     th \<leftarrow> threads k t;
     let k = (if t = idle_thread k then k\<lparr>idle_ticks := idle_ticks k + 1\<rparr>
              else if pagedir th \<noteq> NULL then k\<lparr>user_ticks := user_ticks k + 1\<rparr>
              else k\<lparr>kernel_ticks := kernel_ticks k + 1\<rparr>);
     let k = k\<lparr>thread_ticks := thread_ticks k + 1\<rparr>;
     (if thread_ticks k \<ge> TIME_SLICE then intr_yield_on_return k else Some k)
   }"

section \<open>The alarm clock\<close>

definition ThreadSleep :: "kernel \<Rightarrow> int \<Rightarrow> frame list \<Rightarrow> kernel option" where
  "ThreadSleep k tick fs = do {
     curr \<leftarrow> thread_current k;
     ASSERT (curr \<noteq> idle_thread k);
     (if tick \<le> 0 then set_frames k curr fs
      else do {
        let old_level = intr_get_level k;
        let k = intr_disable k;
        th \<leftarrow> threads k curr;
        let k = upd_thread k curr (th\<lparr>sleepTick := tick\<rparr>);
        let k = k\<lparr>sleepList := sleepList k @ [curr]\<rparr>;
        thread_block k (Intr_set_level old_level # fs)
      })
   }"

definition ThreadTick :: "kernel \<Rightarrow> ptr \<Rightarrow> (bool \<times> kernel) option" where
  "ThreadTick k t = do {
     th \<leftarrow> threads k t;
     ASSERT (sleepTick th > 0);
     let n = sleepTick th - 1;
     Some (n = 0, upd_thread k t (th\<lparr>sleepTick := n\<rparr>))
   }"

definition ThreadAwake :: "kernel \<Rightarrow> ptr \<Rightarrow> kernel option" where
  "ThreadAwake k t = do {
     ASSERT (t \<in> set (sleepList k));
     thread_unblock (k\<lparr>sleepList := remove1 t (sleepList k)\<rparr>) t
   }"

definition timer_ticks :: "kernel \<Rightarrow> (int \<times> kernel) option" where
  "timer_ticks k = do {
     let old_level = intr_get_level k;
     let k = intr_disable k;
     let t = ticks k;
     k \<leftarrow> intr_set_level k old_level;
     Some (t, k)
   }"

definition timer_elapsed :: "kernel \<Rightarrow> int \<Rightarrow> (int \<times> kernel) option" where
  "timer_elapsed k th = do { (t, k) \<leftarrow> timer_ticks k; Some (t - th, k) }"

definition timer_sleep :: "kernel \<Rightarrow> int \<Rightarrow> frame list \<Rightarrow> kernel option" where
  "timer_sleep k n fs = do {
     (start, k) \<leftarrow> timer_ticks k;
     ASSERT (intr_get_level k);
     ThreadSleep k n fs
   }"

lemma timer_ticks_eq: "timer_ticks k = (if intr_on k \<and> in_external_intr k then None else Some (ticks k, k))"
  by (simp add: timer_ticks_def intr_get_level_def intr_set_level_def intr_enable_def intr_disable_def intr_context_def Let_def)

lemma timer_sleep_eq:
  "timer_sleep k n fs = (if intr_on k \<and> \<not> in_external_intr k then ThreadSleep k n fs else None)"
  by (simp add: timer_sleep_def timer_ticks_eq intr_get_level_def)

text \<open>The loop over \<open>sleepList\<close>. The elements visited are those that were in the list
  when it started: a removed element keeps its links and nothing is added.\<close>

fun tick_sleepers :: "kernel \<Rightarrow> ptr list \<Rightarrow> kernel option" where
  "tick_sleepers k [] = Some k"
| "tick_sleepers k (t # ts) = do {
     (expired, k) \<leftarrow> ThreadTick k t;
     k \<leftarrow> (if expired then ThreadAwake k t else Some k);
     tick_sleepers k ts
   }"

definition timer_interrupt :: "kernel \<Rightarrow> kernel option" where
  "timer_interrupt k = do {
     k \<leftarrow> thread_tick (k\<lparr>ticks := ticks k + 1\<rparr>);
     tick_sleepers k (sleepList k)
   }"

text \<open>\<open>intr_handler\<close> for the timer's vector. On entry the processor turns interrupts off and
  saves where the thread was interrupted; \<open>Iret\<close> returns there and turns them on again.\<close>

definition intr_handler_timer :: "kernel \<Rightarrow> kernel option" where
  "intr_handler_timer k = do {
     th \<leftarrow> threads k (running k);
     let fs = Iret # frames th;
     k \<leftarrow> set_frames (k\<lparr>intr_on := False\<rparr>) (running k) fs;
     ASSERT (\<not> intr_context k);
     let k = k\<lparr>in_external_intr := True, yield_on_return := False\<rparr>;
     k \<leftarrow> timer_interrupt k;
     ASSERT (\<not> intr_get_level k);
     ASSERT (intr_context k);
     let k = k\<lparr>in_external_intr := False\<rparr>;
     (if yield_on_return k then thread_yield k fs else Some k)
   }"

end
