(* ===== verification/Synch.thy ===== *)
theory Synch
  imports Threads
begin

text \<open>
  Semaphores, locks and condition variables, \<open>src/threads/synch.c\<close>, and the machine that
  runs threads: \<open>exec\<close> performs the topmost frame of the running thread, \<open>kstep\<close> is one step.
\<close>

section \<open>Semaphores\<close>

abbreviation upd_sema :: "kernel \<Rightarrow> sema_ref \<Rightarrow> semaphore \<Rightarrow> kernel" where
  "upd_sema k s sm \<equiv> k\<lparr>semas := (semas k)(s := sm)\<rparr>"

text \<open>The null pointer. A semaphore inside a lock or a \<open>semaphore_elem\<close> has an offset or is on a stack.\<close>

definition sema_null :: "sema_ref \<Rightarrow> bool" where
  "sema_null s \<longleftrightarrow> s = Plain NULL"

lemma sema_null_simps [simp]: "sema_null (Plain p) \<longleftrightarrow> p = NULL" "\<not> sema_null (OfLock l)" "\<not> sema_null (OfWaiter t)"
  by (simp_all add: sema_null_def)

definition sema_init :: "kernel \<Rightarrow> sema_ref \<Rightarrow> u32 \<Rightarrow> kernel option" where
  "sema_init k s v = do { ASSERT (\<not> sema_null s); Some (upd_sema k s \<lparr>val = v, waiters = []\<rparr>) }"

text \<open>One round of the \<open>while\<close> of \<open>sema_down\<close>: wait, and look again after
  \<open>thread_block\<close> returns, or take the semaphore.\<close>

definition sema_down_loop :: "kernel \<Rightarrow> sema_ref \<Rightarrow> frame list \<Rightarrow> kernel option" where
  "sema_down_loop k s fs = do {
     let sm = semas k s;
     curr \<leftarrow> thread_current k;
     (if val sm = 0
      then thread_block (upd_sema k s (sm\<lparr>waiters := waiters sm @ [curr]\<rparr>)) (Sema_loop s # fs)
      else set_frames (upd_sema k s (sm\<lparr>val := val sm - 1\<rparr>)) curr fs)
   }"

definition sema_down :: "kernel \<Rightarrow> sema_ref \<Rightarrow> frame list \<Rightarrow> kernel option" where
  "sema_down k s fs = do {
     ASSERT (\<not> sema_null s);
     ASSERT (\<not> intr_context k);
     let old_level = intr_get_level k;
     let k = intr_disable k;
     set_frames k (running k) (Sema_loop s # Intr_set_level old_level # fs)
   }"

definition sema_try_down :: "kernel \<Rightarrow> sema_ref \<Rightarrow> (bool \<times> kernel) option" where
  "sema_try_down k s = do {
     ASSERT (\<not> sema_null s);
     let old_level = intr_get_level k;
     let k = intr_disable k;
     let sm = semas k s;
     let (success, k) = (if val sm > 0 then (True, upd_sema k s (sm\<lparr>val := val sm - 1\<rparr>)) else (False, k));
     k \<leftarrow> intr_set_level k old_level;
     Some (success, k)
   }"

lemma sema_try_down_eq:
  assumes "\<not> in_external_intr k" "\<not> sema_null s"
  shows "sema_try_down k s =
    Some (if val (semas k s) > 0 then (True, upd_sema k s ((semas k s)\<lparr>val := val (semas k s) - 1\<rparr>)) else (False, k))"
  using assms by (cases "intr_on k")
    (simp_all add: sema_try_down_def Let_def intr_get_level_def intr_disable_def intr_set_level_def intr_enable_def intr_context_def)

lemma sema_try_down_keeps:
  assumes "sema_try_down k s = Some (success, k')"
  shows "\<exists>sm. k' = upd_sema k s sm"
proof (cases "in_external_intr k \<and> intr_on k")
  case True
  then show ?thesis using assms
    by (auto simp: sema_try_down_def Let_def intr_get_level_def intr_disable_def intr_set_level_def intr_enable_def intr_context_def
        bind_eq_Some_conv split: if_splits)
next
  case False
  have same: "k = upd_sema k s (semas k s)" by simp
  consider "\<not> intr_on k" | "\<not> in_external_intr k" using False by blast
  then have "k' = k \<or> k' = upd_sema k s ((semas k s)\<lparr>val := val (semas k s) - 1\<rparr>)"
    by cases (use assms in \<open>auto simp: sema_try_down_def Let_def intr_get_level_def intr_disable_def intr_set_level_def
        intr_enable_def intr_context_def bind_eq_Some_conv split: if_splits\<close>)
  then show ?thesis using same by metis
qed

definition sema_up :: "kernel \<Rightarrow> sema_ref \<Rightarrow> kernel option" where
  "sema_up k s = do {
     ASSERT (\<not> sema_null s);
     let old_level = intr_get_level k;
     let k = intr_disable k;
     let sm = semas k s;
     k \<leftarrow> (case waiters sm of
            [] \<Rightarrow> Some k
          | t # ts \<Rightarrow> thread_unblock (upd_sema k s (sm\<lparr>waiters := ts\<rparr>)) t);
     let sm = semas k s;
     let k = upd_sema k s (sm\<lparr>val := val sm + 1\<rparr>);
     intr_set_level k old_level
   }"

section \<open>Locks\<close>

definition lock_init :: "kernel \<Rightarrow> ptr \<Rightarrow> kernel option" where
  "lock_init k l = do {
     ASSERT (l \<noteq> NULL);
     sema_init (k\<lparr>holder := (holder k)(l := NULL)\<rparr>) (OfLock l) 1
   }"

definition lock_held_by_current_thread :: "kernel \<Rightarrow> ptr \<Rightarrow> bool option" where
  "lock_held_by_current_thread k l = do {
     ASSERT (l \<noteq> NULL);
     curr \<leftarrow> thread_current k;
     Some (holder k l = curr)
   }"

definition lock_acquire :: "kernel \<Rightarrow> ptr \<Rightarrow> frame list \<Rightarrow> kernel option" where
  "lock_acquire k l fs = do {
     ASSERT (l \<noteq> NULL);
     ASSERT (\<not> intr_context k);
     held \<leftarrow> lock_held_by_current_thread k l;
     ASSERT (\<not> held);
     set_frames k (running k) (Sema_down (OfLock l) # Set_holder l # fs)
   }"

definition set_holder :: "kernel \<Rightarrow> ptr \<Rightarrow> frame list \<Rightarrow> kernel option" where
  "set_holder k l fs = do {
     curr \<leftarrow> thread_current k;
     set_frames (k\<lparr>holder := (holder k)(l := curr)\<rparr>) curr fs
   }"

definition lock_try_acquire :: "kernel \<Rightarrow> ptr \<Rightarrow> frame list \<Rightarrow> kernel option" where
  "lock_try_acquire k l fs = do {
     ASSERT (l \<noteq> NULL);
     held \<leftarrow> lock_held_by_current_thread k l;
     ASSERT (\<not> held);
     (success, k) \<leftarrow> sema_try_down k (OfLock l);
     k \<leftarrow> set_result k (running k) (if success then 1 else 0);
     set_frames k (running k) (if success then Set_holder l # fs else fs)
   }"

definition lock_release :: "kernel \<Rightarrow> ptr \<Rightarrow> frame list \<Rightarrow> kernel option" where
  "lock_release k l fs = do {
     ASSERT (l \<noteq> NULL);
     held \<leftarrow> lock_held_by_current_thread k l;
     ASSERT held;
     set_frames (k\<lparr>holder := (holder k)(l := NULL)\<rparr>) (running k) (Sema_up (OfLock l) # fs)
   }"

section \<open>Condition variables\<close>

definition cond_init :: "kernel \<Rightarrow> ptr \<Rightarrow> kernel option" where
  "cond_init k c = do { ASSERT (c \<noteq> NULL); Some (k\<lparr>cond_waiters := (cond_waiters k)(c := [])\<rparr>) }"

definition cond_wait :: "kernel \<Rightarrow> ptr \<Rightarrow> ptr \<Rightarrow> frame list \<Rightarrow> kernel option" where
  "cond_wait k c l fs = do {
     ASSERT (c \<noteq> NULL);
     ASSERT (l \<noteq> NULL);
     ASSERT (\<not> intr_context k);
     held \<leftarrow> lock_held_by_current_thread k l;
     ASSERT held;
     curr \<leftarrow> thread_current k;
     k \<leftarrow> sema_init k (OfWaiter curr) 0;
     let k = k\<lparr>cond_waiters := (cond_waiters k)(c := cond_waiters k c @ [curr])\<rparr>;
     set_frames k curr (Lock_release l # Sema_down (OfWaiter curr) # Lock_acquire l # fs)
   }"

definition cond_signal :: "kernel \<Rightarrow> ptr \<Rightarrow> ptr \<Rightarrow> frame list \<Rightarrow> kernel option" where
  "cond_signal k c l fs = do {
     ASSERT (c \<noteq> NULL);
     ASSERT (l \<noteq> NULL);
     ASSERT (\<not> intr_context k);
     held \<leftarrow> lock_held_by_current_thread k l;
     ASSERT held;
     (case cond_waiters k c of
        [] \<Rightarrow> set_frames k (running k) fs
      | w # ws \<Rightarrow> set_frames (k\<lparr>cond_waiters := (cond_waiters k)(c := ws)\<rparr>) (running k)
                    (Sema_up (OfWaiter w) # fs))
   }"

definition cond_broadcast :: "kernel \<Rightarrow> ptr \<Rightarrow> ptr \<Rightarrow> frame list \<Rightarrow> kernel option" where
  "cond_broadcast k c l fs = do {
     ASSERT (c \<noteq> NULL);
     ASSERT (l \<noteq> NULL);
     (if cond_waiters k c \<noteq> []
      then set_frames k (running k) (Cond_signal c l # Cond_broadcast c l # fs)
      else set_frames k (running k) fs)
   }"

section \<open>The machine\<close>

text \<open>The address of the lock that serialises the file system.\<close>

definition lock_file :: ptr where
  "lock_file = 2"

lemma lock_file_pos [simp]: "0 < lock_file"
  by (simp add: lock_file_def)

definition thread_init :: "kernel \<Rightarrow> ptr \<Rightarrow> kernel option" where
  "thread_init k main = do {
     ASSERT (\<not> intr_get_level k);
     k \<leftarrow> lock_init k tid_lock;
     k \<leftarrow> lock_init k lock_file;
     let k = k\<lparr>ready_list := [], all_threads := [], sleepList := [], initial_thread := main, running := main\<rparr>;
     k \<leftarrow> init_thread k main ''main'' PRI_DEFAULT [];
     k \<leftarrow> set_status k main THREAD_RUNNING;
     set_frames k main [Lock_acquire tid_lock, Next_tid main, Lock_release tid_lock]
   }"

definition idle_init :: "kernel \<Rightarrow> sema_ref \<Rightarrow> kernel option" where
  "idle_init k s = do {
     curr \<leftarrow> thread_current k;
     set_frames (k\<lparr>idle_thread := curr\<rparr>) curr [Sema_up s, Idle_loop]
   }"

text \<open>\<open>thread_start\<close>, after \<open>sema_init\<close>: create the idle thread, enable
  interrupts, wait for it.\<close>

definition thread_start :: "bool \<Rightarrow> sema_ref \<Rightarrow> frame list" where
  "thread_start ok s =
     [Thread_create ''idle'' PRI_MIN ok (Some [Idle_init s]), Intr_set_level True, Sema_down s]"

text \<open>The loop of the idle thread: \<open>intr_disable (); thread_block ();\<close> and, when it runs again, \<open>sti; hlt\<close>.\<close>

definition idle_block :: "kernel \<Rightarrow> frame list \<Rightarrow> kernel option" where
  "idle_block k fs = thread_block (intr_disable k) (Idle_hlt # fs)"

definition idle_hlt :: "kernel \<Rightarrow> frame list \<Rightarrow> kernel option" where
  "idle_hlt k fs = set_frames (k\<lparr>intr_on := True\<rparr>) (running k) (Idle_loop # fs)"

text \<open>\<open>page\<close> is the page that \<open>palloc_get_page\<close> returns if the frame calls it.\<close>

definition exec :: "kernel \<Rightarrow> ptr \<Rightarrow> frame \<Rightarrow> frame list \<Rightarrow> kernel option" where
  "exec k page f fs =
     (let curr = running k
      in case f of
        Sema_down s \<Rightarrow> sema_down k s fs
      | Sema_loop s \<Rightarrow> sema_down_loop k s fs
      | Sema_try_down s \<Rightarrow> do {
          (success, k) \<leftarrow> sema_try_down k s;
          k \<leftarrow> set_result k curr (if success then 1 else 0);
          set_frames k curr fs
        }
      | Sema_up s \<Rightarrow> do { k \<leftarrow> sema_up k s; set_frames k curr fs }
      | Lock_acquire l \<Rightarrow> lock_acquire k l fs
      | Set_holder l \<Rightarrow> set_holder k l fs
      | Lock_try_acquire l \<Rightarrow> lock_try_acquire k l fs
      | Lock_release l \<Rightarrow> lock_release k l fs
      | Cond_wait c l \<Rightarrow> cond_wait k c l fs
      | Cond_signal c l \<Rightarrow> cond_signal k c l fs
      | Cond_broadcast c l \<Rightarrow> cond_broadcast k c l fs
      | Intr_set_level b \<Rightarrow> do { k \<leftarrow> intr_set_level k b; set_frames k curr fs }
      | Iret \<Rightarrow> set_frames (k\<lparr>intr_on := True\<rparr>) curr fs
      | Thread_yield \<Rightarrow> thread_yield k fs
      | Thread_exit \<Rightarrow> thread_exit k
      | Thread_create nm prio ok func \<Rightarrow> thread_create k page nm prio ok func fs
      | Next_tid t \<Rightarrow> allocate_tid_step k t fs
      | Create_tail t ok \<Rightarrow> thread_create_tail k t ok fs
      | Timer_sleep n \<Rightarrow> timer_sleep k n fs
      | Kernel_thread \<Rightarrow> kernel_thread k fs
      | Idle_init s \<Rightarrow> idle_init k s
      | Idle_loop \<Rightarrow> idle_block k fs
      | Idle_hlt \<Rightarrow> idle_hlt k fs)"

definition run_frame :: "kernel \<Rightarrow> ptr \<Rightarrow> kernel option" where
  "run_frame k page = do {
     th \<leftarrow> threads k (running k);
     (case frames th of [] \<Rightarrow> Some k | f # fs \<Rightarrow> exec k page f fs)
   }"

text \<open>The calls the code of a thread may make: pointers are not null, a lock is acquired only by a thread that does
  not hold it and released only by its holder, the condition variable operations need the
  lock, the lock of \<open>allocate_tid\<close> and the semaphores inside locks are private, a thread
  that exits holds no lock.\<close>

fun client_call :: "kernel \<Rightarrow> frame \<Rightarrow> bool" where
  "client_call k (Sema_down (Plain s)) = (s \<noteq> NULL)"
| "client_call k (Sema_try_down (Plain s)) = (s \<noteq> NULL)"
| "client_call k (Sema_up (Plain s)) = (s \<noteq> NULL)"
| "client_call k (Lock_acquire l) = (l \<noteq> NULL \<and> l \<noteq> tid_lock \<and> holder k l \<noteq> running k)"
| "client_call k (Lock_try_acquire l) = (l \<noteq> NULL \<and> l \<noteq> tid_lock \<and> holder k l \<noteq> running k)"
| "client_call k (Lock_release l) = (l \<noteq> NULL \<and> l \<noteq> tid_lock \<and> holder k l = running k)"
| "client_call k (Cond_wait c l) = (c \<noteq> NULL \<and> l \<noteq> NULL \<and> l \<noteq> tid_lock \<and> holder k l = running k)"
| "client_call k (Cond_signal c l) = (c \<noteq> NULL \<and> l \<noteq> NULL \<and> l \<noteq> tid_lock \<and> holder k l = running k)"
| "client_call k (Cond_broadcast c l) = (c \<noteq> NULL \<and> l \<noteq> NULL \<and> l \<noteq> tid_lock \<and> holder k l = running k)"
| "client_call k (Intr_set_level b) = True"
| "client_call k Thread_yield = True"
| "client_call k Thread_exit = (\<forall>l. holder k l \<noteq> running k)"
| "client_call k (Thread_create nm prio ok func) = (PRI_MIN \<le> prio \<and> prio \<le> PRI_MAX \<and> func = Some [])"
| "client_call k (Timer_sleep n) = intr_on k"
| "client_call k _ = False"

inductive kstep :: "kernel \<Rightarrow> kernel \<Rightarrow> bool" where
  exec: "threads k (running k) = Some th \<Longrightarrow> frames th = f # fs \<Longrightarrow>
    page = NULL \<or> threads k page = None \<Longrightarrow> exec k page f fs = Some k' \<Longrightarrow> kstep k k'"
| call: "threads k (running k) = Some th \<Longrightarrow> frames th = [] \<Longrightarrow> client_call k c \<Longrightarrow>
    set_frames k (running k) [c] = Some k' \<Longrightarrow> kstep k k'"
| tick: "intr_on k \<Longrightarrow> intr_handler_timer k = Some k' \<Longrightarrow> kstep k k'"

end
