(* ===== verification/Threads_Inv.thy ===== *)
theory Threads_Inv
  imports Synch
begin

text \<open>
  The invariant of the scheduler and of the locks, and that every step keeps it.

  \<open>sched_ok\<close> relates the status of every thread to the lists: the ready list holds exactly the
  ready threads except the idle thread, only blocked threads wait for a semaphore or sleep, and each
  of them waits where its kernel stack says. \<open>stack_ok\<close> says that the pending frames of a thread
  will find the locks and the interrupt level as they expect. \<open>lock_tokens\<close> is the conservation law
  of a lock: its semaphore's value, its holder and the threads between the two add up to one.
\<close>

section \<open>Views of the state\<close>

definition st :: "kernel \<Rightarrow> ptr \<Rightarrow> thread_status option" where
  "st k t = map_option status (threads k t)"

definition fr :: "kernel \<Rightarrow> ptr \<Rightarrow> frame list" where
  "fr k t = (case threads k t of None \<Rightarrow> [] | Some th \<Rightarrow> frames th)"

definition slp :: "kernel \<Rightarrow> ptr \<Rightarrow> int" where
  "slp k t = (case threads k t of None \<Rightarrow> 0 | Some th \<Rightarrow> sleepTick th)"

definition wait_lists :: "kernel \<Rightarrow> sema_ref \<Rightarrow> ptr list" where
  "wait_lists k s = waiters (semas k s)"

text \<open>Threads under construction by the frames of a thread.\<close>

fun newborn :: "frame list \<Rightarrow> ptr list" where
  "newborn [] = []"
| "newborn (Next_tid t # fs) = newborn fs"
| "newborn (Create_tail t ok # fs) = t # newborn fs"
| "newborn (f # fs) = newborn fs"

text \<open>A thread that is given its number is still under construction.\<close>

fun num_ok :: "frame list \<Rightarrow> bool" where
  "num_ok [] = True"
| "num_ok (Next_tid t # fs) = (t \<in> set (newborn fs) \<and> num_ok fs)"
| "num_ok (f # fs) = num_ok fs"

fun idle_shape :: "frame list \<Rightarrow> bool" where
  "idle_shape [Idle_loop] = True"
| "idle_shape [Idle_hlt] = True"
| "idle_shape (Iret # fs) = idle_shape fs"
| "idle_shape (Intr_set_level b # fs) = idle_shape fs"
| "idle_shape _ = False"

section \<open>The scheduler\<close>

record sched =
  ST :: "ptr \<Rightarrow> thread_status option"
  FR :: "ptr \<Rightarrow> frame list"
  SLP :: "ptr \<Rightarrow> int"
  RL :: "ptr list"
  WL :: "sema_ref \<Rightarrow> ptr list"
  SL :: "ptr list"
  AL :: "ptr list"
  IDLE :: ptr
  INIT :: ptr

definition view :: "kernel \<Rightarrow> sched" where
  "view k = \<lparr>ST = st k, FR = fr k, SLP = slp k, RL = ready_list k, WL = wait_lists k,
             SL = sleepList k, AL = all_threads k, IDLE = idle_thread k, INIT = initial_thread k\<rparr>"

definition ready_ok :: "sched \<Rightarrow> bool" where
  "ready_ok v \<longleftrightarrow> distinct (RL v) \<and> (\<forall>t. t \<in> set (RL v) \<longleftrightarrow> ST v t = Some THREAD_READY \<and> t \<noteq> IDLE v)"

definition wait_ok :: "sched \<Rightarrow> bool" where
  "wait_ok v \<longleftrightarrow> (\<forall>s. distinct (WL v s)) \<and>
     (\<forall>s t. t \<in> set (WL v s) \<longrightarrow> ST v t = Some THREAD_BLOCKED \<and> (\<exists>fs. FR v t = Sema_loop s # fs))"

definition sleep_ok :: "sched \<Rightarrow> bool" where
  "sleep_ok v \<longleftrightarrow> distinct (SL v) \<and>
     (\<forall>t. t \<in> set (SL v) \<longrightarrow> ST v t = Some THREAD_BLOCKED \<and> 0 < SLP v t \<and> t \<noteq> IDLE v \<and>
        (\<exists>b fs. FR v t = Intr_set_level b # fs))"

definition all_ok :: "sched \<Rightarrow> bool" where
  "all_ok v \<longleftrightarrow> distinct (AL v) \<and>
     (\<forall>t. t \<in> set (AL v) \<longleftrightarrow> ST v t \<noteq> None \<and> ST v t \<noteq> Some THREAD_DYING) \<and>
     (\<forall>t. ST v t = Some THREAD_DYING \<longrightarrow> t = INIT v) \<and>
     (\<forall>t. ST v t = None \<longrightarrow> FR v t = [])"

definition newborn_ok :: "sched \<Rightarrow> bool" where
  "newborn_ok v \<longleftrightarrow>
     (\<forall>u t. t \<in> set (newborn (FR v u)) \<longrightarrow>
        ST v t = Some THREAD_BLOCKED \<and> (\<exists>fs. FR v t = Kernel_thread # fs)) \<and>
     (\<forall>u. distinct (newborn (FR v u)) \<and> num_ok (FR v u)) \<and>
     (\<forall>u u' t. t \<in> set (newborn (FR v u)) \<and> t \<in> set (newborn (FR v u')) \<longrightarrow> u = u')"

definition idle_ok :: "sched \<Rightarrow> bool" where
  "idle_ok v \<longleftrightarrow>
     ST v (IDLE v) \<noteq> None \<and> ST v (IDLE v) \<noteq> Some THREAD_DYING \<and> idle_shape (FR v (IDLE v))"

definition sched_ok :: "sched \<Rightarrow> bool" where
  "sched_ok v \<longleftrightarrow> ready_ok v \<and> wait_ok v \<and> sleep_ok v \<and> all_ok v \<and> newborn_ok v \<and> idle_ok v"

lemma view_frames [simp, frame_simps]:
  "wait_ok (v\<lparr>RL := x\<rparr>) = wait_ok v" "sleep_ok (v\<lparr>RL := x\<rparr>) = sleep_ok v"
  "all_ok (v\<lparr>RL := x\<rparr>) = all_ok v" "newborn_ok (v\<lparr>RL := x\<rparr>) = newborn_ok v"
  "idle_ok (v\<lparr>RL := x\<rparr>) = idle_ok v"
  "ready_ok (v\<lparr>WL := w\<rparr>) = ready_ok v" "sleep_ok (v\<lparr>WL := w\<rparr>) = sleep_ok v"
  "all_ok (v\<lparr>WL := w\<rparr>) = all_ok v" "newborn_ok (v\<lparr>WL := w\<rparr>) = newborn_ok v"
  "idle_ok (v\<lparr>WL := w\<rparr>) = idle_ok v"
  "ready_ok (v\<lparr>SL := x\<rparr>) = ready_ok v" "wait_ok (v\<lparr>SL := x\<rparr>) = wait_ok v"
  "all_ok (v\<lparr>SL := x\<rparr>) = all_ok v" "newborn_ok (v\<lparr>SL := x\<rparr>) = newborn_ok v"
  "idle_ok (v\<lparr>SL := x\<rparr>) = idle_ok v"
  "ready_ok (v\<lparr>SLP := n\<rparr>) = ready_ok v" "wait_ok (v\<lparr>SLP := n\<rparr>) = wait_ok v"
  "all_ok (v\<lparr>SLP := n\<rparr>) = all_ok v" "newborn_ok (v\<lparr>SLP := n\<rparr>) = newborn_ok v"
  "idle_ok (v\<lparr>SLP := n\<rparr>) = idle_ok v"
  "ready_ok (v\<lparr>AL := x\<rparr>) = ready_ok v" "wait_ok (v\<lparr>AL := x\<rparr>) = wait_ok v"
  "sleep_ok (v\<lparr>AL := x\<rparr>) = sleep_ok v" "newborn_ok (v\<lparr>AL := x\<rparr>) = newborn_ok v"
  "idle_ok (v\<lparr>AL := x\<rparr>) = idle_ok v"
  "ready_ok (v\<lparr>FR := g\<rparr>) = ready_ok v"
  by (simp_all add: ready_ok_def wait_ok_def sleep_ok_def all_ok_def newborn_ok_def idle_ok_def)

text \<open>No thread runs: the state inside \<open>schedule\<close>.\<close>

definition none_runs :: "sched \<Rightarrow> bool" where
  "none_runs v \<longleftrightarrow> (\<forall>t. ST v t \<noteq> Some THREAD_RUNNING)"

definition one_runs :: "sched \<Rightarrow> ptr \<Rightarrow> bool" where
  "one_runs v r \<longleftrightarrow> (\<forall>t. ST v t = Some THREAD_RUNNING \<longleftrightarrow> t = r)"

definition pick :: "sched \<Rightarrow> ptr" where
  "pick v = (case RL v of [] \<Rightarrow> IDLE v | t # ts \<Rightarrow> t)"

lemma idle_shape_facts:
  "idle_shape fs \<Longrightarrow> newborn fs = [] \<and> num_ok fs \<and> (\<forall>s fs'. fs \<noteq> Sema_loop s # fs') \<and>
     (\<forall>fs'. fs \<noteq> Kernel_thread # fs') \<and> fs \<noteq> []"
  by (induction fs rule: idle_shape.induct) auto

text \<open>The events of the scheduler, on the view.\<close>

definition switched :: "sched \<Rightarrow> sched" where
  "switched v = v\<lparr>ST := (ST v)(pick v \<mapsto> THREAD_RUNNING), RL := tl (RL v)\<rparr>"

lemma pick_cases:
  assumes "ready_ok v"
  obtains (ready) "ST v (pick v) = Some THREAD_READY" "pick v \<noteq> IDLE v" "RL v = pick v # tl (RL v)"
  | (idle) "RL v = []" "pick v = IDLE v"
proof (cases "RL v")
  case Nil
  then show ?thesis using idle by (simp add: pick_def)
next
  case (Cons t ts)
  then have "t \<in> set (RL v)" by simp
  with assms have "ST v t = Some THREAD_READY" "t \<noteq> IDLE v" unfolding ready_ok_def by blast+
  with Cons show ?thesis using ready by (simp add: pick_def)
qed

lemma pick_facts:
  assumes "sched_ok v"
  shows "\<exists>s. ST v (pick v) = Some s \<and> s \<noteq> THREAD_DYING" "pick v \<notin> set (WL v s)" "pick v \<notin> set (SL v)"
    "pick v \<notin> set (newborn (FR v u))"
proof -
  have i: "newborn (FR v (IDLE v)) = []" "FR v (IDLE v) \<noteq> Sema_loop s # fs" "FR v (IDLE v) \<noteq> Kernel_thread # fs" for s fs
    using assms idle_shape_facts unfolding sched_ok_def idle_ok_def by blast+
  note ok = assms [unfolded sched_ok_def]
  have r: "ready_ok v" using ok by blast
  show "\<exists>s. ST v (pick v) = Some s \<and> s \<noteq> THREAD_DYING"
    by (rule pick_cases [OF r]) (use ok in \<open>auto simp: idle_ok_def\<close>)
  show "pick v \<notin> set (WL v s)"
  proof (rule pick_cases [OF r])
    assume "ST v (pick v) = Some THREAD_READY"
    then show ?thesis using ok unfolding wait_ok_def by force
  next
    assume "pick v = IDLE v"
    then show ?thesis using ok i(2) unfolding wait_ok_def by metis
  qed
  show "pick v \<notin> set (SL v)"
  proof (rule pick_cases [OF r])
    assume "ST v (pick v) = Some THREAD_READY"
    then show ?thesis using ok unfolding sleep_ok_def by force
  next
    assume "pick v = IDLE v"
    then show ?thesis using ok unfolding sleep_ok_def by metis
  qed
  show "pick v \<notin> set (newborn (FR v u))"
  proof (rule pick_cases [OF r])
    assume "ST v (pick v) = Some THREAD_READY"
    then show ?thesis using ok unfolding newborn_ok_def by force
  next
    assume "pick v = IDLE v"
    then show ?thesis using ok i(3) unfolding newborn_ok_def by metis
  qed
qed

lemma switched_ok:
  assumes ok: "sched_ok v" and none: "none_runs v"
  shows "sched_ok (switched v)" "one_runs (switched v) (pick v)"
proof -
  note o = ok [unfolded sched_ok_def]
  note p = pick_facts [OF ok]
  have r: "ready_ok v" using o by blast
  have "ready_ok (switched v)"
  proof (rule pick_cases [OF r])
    assume *: "ST v (pick v) = Some THREAD_READY" "pick v \<noteq> IDLE v" "RL v = pick v # tl (RL v)"
    then have "distinct (tl (RL v))" "pick v \<notin> set (tl (RL v))" "\<And>t. t \<in> set (RL v) \<longleftrightarrow> t = pick v \<or> t \<in> set (tl (RL v))"
      using r unfolding ready_ok_def by (metis distinct.simps(2) set_ConsD list.set_intros)+
    then show ?thesis using r unfolding ready_ok_def switched_def by auto
  next
    assume *: "RL v = []" "pick v = IDLE v"
    then show ?thesis using r unfolding ready_ok_def switched_def by auto
  qed
  moreover have "wait_ok (switched v)" using o p(2) unfolding wait_ok_def switched_def by fastforce
  moreover have "sleep_ok (switched v)" using o p(3) unfolding sleep_ok_def switched_def by fastforce
  moreover have "all_ok (switched v)" using o p(1) unfolding all_ok_def switched_def by auto
  moreover have "newborn_ok (switched v)" using o p(4) unfolding newborn_ok_def switched_def by fastforce
  moreover have "idle_ok (switched v)" using o unfolding idle_ok_def switched_def by auto
  ultimately show "sched_ok (switched v)" by (simp add: sched_ok_def)
  show "one_runs (switched v) (pick v)" using none by (auto simp: one_runs_def none_runs_def switched_def)
qed

text \<open>The running thread goes on with other frames.\<close>

definition frames_fit :: "sched \<Rightarrow> ptr \<Rightarrow> frame list \<Rightarrow> bool" where
  "frames_fit v r fs \<longleftrightarrow>
     set (newborn fs) \<subseteq> set (newborn (FR v r)) \<and> distinct (newborn fs) \<and>
     num_ok fs \<and> (r = IDLE v \<longrightarrow> idle_shape fs)"

lemma running_facts:
  assumes "sched_ok v" "ST v r = Some THREAD_RUNNING"
  shows "r \<notin> set (RL v)" "r \<notin> set (WL v s)" "r \<notin> set (SL v)" "r \<notin> set (newborn (FR v u))"
    "r \<in> set (AL v)"
proof -
  note o = assms(1) [unfolded sched_ok_def]
  show "r \<notin> set (RL v)" using o assms(2) by (simp add: ready_ok_def)
  show "r \<notin> set (WL v s)" using o assms(2) unfolding wait_ok_def by (metis option.inject thread_status.distinct(3))
  show "r \<notin> set (SL v)" using o assms(2) unfolding sleep_ok_def by (metis option.inject thread_status.distinct(3))
  show "r \<notin> set (newborn (FR v u))" using o assms(2) unfolding newborn_ok_def by (metis option.inject thread_status.distinct(3))
  show "r \<in> set (AL v)" using o assms(2) by (simp add: all_ok_def)
qed

lemma newborn_okI:
  assumes "\<And>u t. t \<in> set (newborn (FR v u)) \<Longrightarrow>
      ST v t = Some THREAD_BLOCKED \<and> (\<exists>fs. FR v t = Kernel_thread # fs)"
    and "\<And>u. distinct (newborn (FR v u)) \<and> num_ok (FR v u)"
    and "\<And>u u' t. t \<in> set (newborn (FR v u)) \<Longrightarrow> t \<in> set (newborn (FR v u')) \<Longrightarrow> u = u'"
  shows "newborn_ok v"
  using assms unfolding newborn_ok_def by blast

lemma ST_upd: "ST (v\<lparr>ST := f, FR := g\<rparr>) = f" and FR_upd: "FR (v\<lparr>ST := f, FR := g\<rparr>) = g"
  by simp_all

lemma newborn_ok_upd:
  assumes n: "newborn_ok v" and r: "\<And>u. r \<notin> set (newborn (FR v u))" and fit: "frames_fit v r fs"
  shows "newborn_ok (v\<lparr>ST := (ST v)(r := x), FR := (FR v)(r := fs)\<rparr>)"
proof -
  let ?F = "(FR v)(r := fs)"
  have sub: "set (newborn (?F u)) \<subseteq> set (newborn (FR v u))" for u
    using fit by (simp add: frames_fit_def)
  show ?thesis
  proof (rule newborn_okI; simp only: ST_upd FR_upd)
    fix u t assume t: "t \<in> set (newborn (?F u))"
    then have "t \<in> set (newborn (FR v u))" using sub by blast
    moreover from this have "t \<noteq> r" using r by blast
    ultimately show "((ST v)(r := x)) t = Some THREAD_BLOCKED \<and> (\<exists>fs'. ?F t = Kernel_thread # fs')"
      using n unfolding newborn_ok_def by simp
  next
    fix u
    show "distinct (newborn (?F u)) \<and> num_ok (?F u)"
      using n fit by (simp add: newborn_ok_def frames_fit_def)
  next
    fix u u' t assume "t \<in> set (newborn (?F u))" "t \<in> set (newborn (?F u'))"
    then have "t \<in> set (newborn (FR v u))" "t \<in> set (newborn (FR v u'))" using sub by blast+
    then show "u = u'" using n unfolding newborn_ok_def by blast
  qed
qed

lemma newborn_ok_reframed:
  assumes "newborn_ok v" "\<And>u. r \<notin> set (newborn (FR v u))" "frames_fit v r fs"
  shows "newborn_ok (v\<lparr>FR := (FR v)(r := fs)\<rparr>)"
  using newborn_ok_upd [OF assms, of "ST v r"] by simp

lemma reframed_ok:
  assumes ok: "sched_ok v" and r: "ST v r = Some THREAD_RUNNING" and fit: "frames_fit v r fs"
  shows "sched_ok (v\<lparr>FR := (FR v)(r := fs)\<rparr>)"
proof -
  note o = ok [unfolded sched_ok_def]
  note f = running_facts [OF ok r]
  have "wait_ok (v\<lparr>FR := (FR v)(r := fs)\<rparr>)" using o f(2) unfolding wait_ok_def by auto
  moreover have "sleep_ok (v\<lparr>FR := (FR v)(r := fs)\<rparr>)" using o f(3) unfolding sleep_ok_def by auto
  moreover have "newborn_ok (v\<lparr>FR := (FR v)(r := fs)\<rparr>)"
    using o f(4) fit by (intro newborn_ok_reframed) auto
  moreover have "all_ok (v\<lparr>FR := (FR v)(r := fs)\<rparr>)" using o r unfolding all_ok_def by auto
  moreover have "idle_ok (v\<lparr>FR := (FR v)(r := fs)\<rparr>)" using o fit unfolding idle_ok_def frames_fit_def by auto
  ultimately show ?thesis using o by (simp add: sched_ok_def ready_ok_def)
qed

text \<open>The running thread stops: it goes to the end of the ready list, waits for a semaphore,
  sleeps, or is the idle thread.\<close>

definition stopped :: "sched \<Rightarrow> ptr \<Rightarrow> thread_status \<Rightarrow> frame list \<Rightarrow> sched" where
  "stopped v r s fs = v\<lparr>ST := (ST v)(r \<mapsto> s), FR := (FR v)(r := fs)\<rparr>"

lemma stopped_parts:
  assumes ok: "sched_ok v" and r: "ST v r = Some THREAD_RUNNING" and fit: "frames_fit v r fs"
    and s: "s \<noteq> THREAD_DYING"
  shows "all_ok (stopped v r s fs)" "newborn_ok (stopped v r s fs)" "idle_ok (stopped v r s fs)"
    "wait_ok (stopped v r s fs)" "sleep_ok (stopped v r s fs)"
proof -
  note o = ok [unfolded sched_ok_def]
  note f = running_facts [OF ok r]
  show "all_ok (stopped v r s fs)" using o r s unfolding all_ok_def stopped_def by auto
  show "newborn_ok (stopped v r s fs)" unfolding stopped_def using o f(4) fit by (intro newborn_ok_upd) auto
  show "idle_ok (stopped v r s fs)" using o fit s unfolding idle_ok_def frames_fit_def stopped_def by auto
  show "wait_ok (stopped v r s fs)" using o f(2) unfolding wait_ok_def stopped_def by auto
  show "sleep_ok (stopped v r s fs)" using o f(3) unfolding sleep_ok_def stopped_def by auto
qed

lemma stopped_none_runs:
  "one_runs v r \<Longrightarrow> s \<noteq> THREAD_RUNNING \<Longrightarrow> none_runs (stopped v r s fs)"
  unfolding one_runs_def none_runs_def stopped_def by auto

lemma yielded_ok:
  assumes ok: "sched_ok v" and r: "ST v r = Some THREAD_RUNNING" and fit: "frames_fit v r fs"
  shows "sched_ok ((stopped v r THREAD_READY fs)\<lparr>RL := (if r = IDLE v then RL v else RL v @ [r])\<rparr>)"
proof -
  let ?v = "stopped v r THREAD_READY fs"
  note p = stopped_parts [OF ok r fit, of THREAD_READY]
  have "ready_ok (?v\<lparr>RL := (if r = IDLE v then RL v else RL v @ [r])\<rparr>)"
    using ok running_facts(1) [OF ok r] unfolding sched_ok_def ready_ok_def stopped_def by auto
  with p show ?thesis by (simp add: sched_ok_def)
qed

lemma waiting_ok:
  assumes ok: "sched_ok v" and r: "ST v r = Some THREAD_RUNNING" and fit: "frames_fit v r (Sema_loop s # fs)"
  shows "sched_ok ((stopped v r THREAD_BLOCKED (Sema_loop s # fs))\<lparr>WL := (WL v)(s := WL v s @ [r])\<rparr>)"
proof -
  let ?v = "stopped v r THREAD_BLOCKED (Sema_loop s # fs)"
  note p = stopped_parts [OF ok r fit, of THREAD_BLOCKED]
  note f = running_facts [OF ok r]
  have "ready_ok ?v" using ok f(1) unfolding sched_ok_def ready_ok_def stopped_def by auto
  moreover have "wait_ok (?v\<lparr>WL := (WL v)(s := WL v s @ [r])\<rparr>)"
    using ok f(2) unfolding sched_ok_def wait_ok_def stopped_def by auto
  ultimately show ?thesis using p by (simp add: sched_ok_def)
qed

lemma sleeping_ok:
  assumes ok: "sched_ok v" and r: "ST v r = Some THREAD_RUNNING" "r \<noteq> IDLE v"
    and fit: "frames_fit v r (Intr_set_level b # fs)" and n: "0 < n"
  shows "sched_ok ((stopped v r THREAD_BLOCKED (Intr_set_level b # fs))\<lparr>SLP := (SLP v)(r := n), SL := SL v @ [r]\<rparr>)"
proof -
  let ?v = "stopped v r THREAD_BLOCKED (Intr_set_level b # fs)"
  note p = stopped_parts [OF ok r(1) fit, of THREAD_BLOCKED]
  note f = running_facts [OF ok r(1)]
  have "ready_ok ?v" using ok f(1) unfolding sched_ok_def ready_ok_def stopped_def by auto
  moreover have "sleep_ok (?v\<lparr>SLP := (SLP v)(r := n), SL := SL v @ [r]\<rparr>)"
    using ok f(3) r n unfolding sched_ok_def sleep_ok_def stopped_def by auto
  ultimately show ?thesis using p by (simp add: sched_ok_def)
qed

lemma idling_ok:
  assumes ok: "sched_ok v" and r: "ST v r = Some THREAD_RUNNING" and fit: "frames_fit v r fs"
  shows "sched_ok (stopped v r THREAD_BLOCKED fs)"
proof -
  note p = stopped_parts [OF ok r fit, of THREAD_BLOCKED]
  have "ready_ok (stopped v r THREAD_BLOCKED fs)"
    using ok running_facts(1) [OF ok r] unfolding sched_ok_def ready_ok_def stopped_def by auto
  with p show ?thesis by (simp add: sched_ok_def)
qed

text \<open>A thread exits; its page is freed unless it is the initial thread.\<close>

lemma exited_ok:
  assumes ok: "sched_ok v" and r: "ST v r = Some THREAD_RUNNING" "r \<noteq> IDLE v"
    and s: "s = None \<or> s = Some THREAD_DYING \<and> r = INIT v"
  shows "sched_ok (v\<lparr>ST := (ST v)(r := s), FR := (FR v)(r := []), AL := remove1 r (AL v)\<rparr>)"
proof -
  let ?v = "v\<lparr>ST := (ST v)(r := s), FR := (FR v)(r := []), AL := remove1 r (AL v)\<rparr>"
  note o = ok [unfolded sched_ok_def]
  note f = running_facts [OF ok r(1)]
  have "ready_ok ?v" using o f(1) s unfolding ready_ok_def by auto
  moreover have "wait_ok ?v" using o f(2) unfolding wait_ok_def by auto
  moreover have "sleep_ok ?v" using o f(3) unfolding sleep_ok_def by auto
  moreover have "all_ok ?v" using o s unfolding all_ok_def by auto
  moreover have "newborn_ok (v\<lparr>ST := (ST v)(r := s), FR := (FR v)(r := [])\<rparr>)"
    using o f(4) r by (intro newborn_ok_upd) (auto simp: frames_fit_def)
  then have "newborn_ok ?v" by (metis view_frames(24))
  moreover have "idle_ok ?v" using o r unfolding idle_ok_def by auto
  ultimately show ?thesis by (simp add: sched_ok_def)
qed

text \<open>A blocked thread that is in no list any more becomes ready.\<close>

lemma unblocked_ok:
  assumes ok: "sched_ok v" and t: "ST v t = Some THREAD_BLOCKED" "t \<noteq> IDLE v"
    and no: "\<And>s. t \<notin> set (WL v s)" "t \<notin> set (SL v)" "\<And>u. t \<notin> set (newborn (FR v u))"
  shows "sched_ok (v\<lparr>ST := (ST v)(t \<mapsto> THREAD_READY), RL := RL v @ [t]\<rparr>)" (is "sched_ok ?v")
proof -
  note o = ok [unfolded sched_ok_def]
  have tr: "t \<notin> set (RL v)" using o t by (simp add: ready_ok_def)
  have "ready_ok ?v" using o t tr unfolding ready_ok_def by auto
  moreover have "wait_ok ?v" using o no(1) unfolding wait_ok_def by auto
  moreover have "sleep_ok ?v" using o no(2) unfolding sleep_ok_def by auto
  moreover have "all_ok ?v" using o t unfolding all_ok_def by auto
  moreover have "newborn_ok ?v"
  proof (rule newborn_okI)
    fix u x assume "x \<in> set (newborn (FR ?v u))"
    then have x: "x \<in> set (newborn (FR v u))" by simp
    moreover from this no(3) have "x \<noteq> t" by blast
    ultimately show "ST ?v x = Some THREAD_BLOCKED \<and> (\<exists>fs. FR ?v x = Kernel_thread # fs)"
      using o unfolding newborn_ok_def by simp
  next
    fix u u' x assume "x \<in> set (newborn (FR ?v u))" "x \<in> set (newborn (FR ?v u'))"
    then show "u = u'" using o unfolding newborn_ok_def by simp blast
  qed (use o in \<open>simp add: newborn_ok_def\<close>)
  moreover have "idle_ok ?v" using o t unfolding idle_ok_def by auto
  ultimately show ?thesis by (simp add: sched_ok_def)
qed

lemma waiter_facts:
  assumes ok: "sched_ok v" and t: "t \<in> set (WL v s)"
  shows "ST v t = Some THREAD_BLOCKED" "t \<noteq> IDLE v" "t \<in> set (WL v s') \<Longrightarrow> s' = s"
    "t \<notin> set (SL v)" "t \<notin> set (newborn (FR v u))"
proof -
  note o = ok [unfolded sched_ok_def]
  obtain fs where f: "FR v t = Sema_loop s # fs" "ST v t = Some THREAD_BLOCKED"
    using o t unfolding wait_ok_def by blast
  then show "ST v t = Some THREAD_BLOCKED" by simp
  show "t \<noteq> IDLE v" using o f idle_shape_facts unfolding idle_ok_def by metis
  show "t \<in> set (WL v s') \<Longrightarrow> s' = s" using o f unfolding wait_ok_def by (metis frame.inject(2) list.inject)
  show "t \<notin> set (SL v)" using o f unfolding sleep_ok_def by (metis frame.distinct list.inject)
  show "t \<notin> set (newborn (FR v u))" using o f unfolding newborn_ok_def by (metis frame.distinct list.inject)
qed

lemma sleeper_facts:
  assumes ok: "sched_ok v" and t: "t \<in> set (SL v)"
  shows "ST v t = Some THREAD_BLOCKED" "t \<noteq> IDLE v" "t \<notin> set (WL v s)" "t \<notin> set (newborn (FR v u))" "0 < SLP v t"
proof -
  note o = ok [unfolded sched_ok_def]
  obtain b fs where f: "FR v t = Intr_set_level b # fs" "ST v t = Some THREAD_BLOCKED" "t \<noteq> IDLE v" "0 < SLP v t"
    using o t unfolding sleep_ok_def by blast
  then show "ST v t = Some THREAD_BLOCKED" "t \<noteq> IDLE v" "0 < SLP v t" by simp_all
  show "t \<notin> set (WL v s)" using o f unfolding wait_ok_def by (metis frame.distinct list.inject)
  show "t \<notin> set (newborn (FR v u))" using o f unfolding newborn_ok_def by (metis frame.distinct list.inject)
qed

lemma newborn_facts:
  assumes ok: "sched_ok v" and t: "t \<in> set (newborn (FR v u))"
  shows "ST v t = Some THREAD_BLOCKED" "t \<noteq> IDLE v" "t \<notin> set (WL v s)" "t \<notin> set (SL v)"
    "t \<in> set (newborn (FR v u')) \<Longrightarrow> u' = u"
proof -
  note o = ok [unfolded sched_ok_def]
  obtain fs where f: "FR v t = Kernel_thread # fs" "ST v t = Some THREAD_BLOCKED"
    using o t unfolding newborn_ok_def by blast
  then show "ST v t = Some THREAD_BLOCKED" by simp
  show "t \<noteq> IDLE v" using o f idle_shape_facts unfolding idle_ok_def by metis
  show "t \<notin> set (WL v s)" using o f unfolding wait_ok_def by (metis frame.distinct list.inject)
  show "t \<notin> set (SL v)" using o f unfolding sleep_ok_def by (metis frame.distinct list.inject)
  show "t \<in> set (newborn (FR v u')) \<Longrightarrow> u' = u" using o t unfolding newborn_ok_def by blast
qed

lemma awaited_ok:
  assumes ok: "sched_ok v" and t: "WL v s = t # ts"
  shows "sched_ok (v\<lparr>WL := (WL v)(s := ts), ST := (ST v)(t \<mapsto> THREAD_READY), RL := RL v @ [t]\<rparr>)"
proof -
  let ?v = "v\<lparr>WL := (WL v)(s := ts)\<rparr>"
  have mem: "t \<in> set (WL v s)" using t by simp
  note f = waiter_facts [OF ok mem]
  have d: "distinct (WL v s)" using ok unfolding sched_ok_def wait_ok_def by blast
  have sub: "x \<in> set (WL ?v s') \<Longrightarrow> x \<in> set (WL v s')" for x s' using t by (auto split: if_splits)
  have w: "distinct (WL v s')" "x \<in> set (WL v s') \<Longrightarrow> ST v x = Some THREAD_BLOCKED \<and> (\<exists>fs. FR v x = Sema_loop s' # fs)" for s' x
    using ok unfolding sched_ok_def wait_ok_def by blast+
  have "wait_ok ?v" unfolding wait_ok_def
  proof (intro conjI allI impI)
    fix s' show "distinct (WL ?v s')" using w(1) [of s'] d t by auto
  next
    fix s' x assume "x \<in> set (WL ?v s')"
    from w(2) [OF sub [OF this]] show "ST ?v x = Some THREAD_BLOCKED" "\<exists>fs. FR ?v x = Sema_loop s' # fs" by simp_all
  qed
  then have "sched_ok ?v" using ok by (simp add: sched_ok_def)
  moreover have "t \<notin> set (WL ?v s')" for s' using f(3) [of s'] t d by auto
  ultimately have "sched_ok (?v\<lparr>ST := (ST ?v)(t \<mapsto> THREAD_READY), RL := RL ?v @ [t]\<rparr>)"
    using f by (intro unblocked_ok) auto
  then show ?thesis by simp
qed

lemma woken_ok:
  assumes ok: "sched_ok v" and t: "t \<in> set (SL v)"
  shows "sched_ok (v\<lparr>SL := remove1 t (SL v), ST := (ST v)(t \<mapsto> THREAD_READY), RL := RL v @ [t]\<rparr>)"
proof -
  let ?v = "v\<lparr>SL := remove1 t (SL v)\<rparr>"
  note f = sleeper_facts [OF ok t]
  have d: "distinct (SL v)" using ok unfolding sched_ok_def sleep_ok_def by blast
  have "sleep_ok ?v" using ok unfolding sched_ok_def sleep_ok_def by auto
  then have "sched_ok ?v" using ok by (simp add: sched_ok_def)
  then have "sched_ok (?v\<lparr>ST := (ST ?v)(t \<mapsto> THREAD_READY), RL := RL ?v @ [t]\<rparr>)"
    using f d by (intro unblocked_ok) auto
  then show ?thesis by simp
qed

lemma born_ok:
  assumes ok: "sched_ok v" and r: "ST v r = Some THREAD_RUNNING" and fs: "newborn (FR v r) = t # newborn fs"
    "num_ok fs" "r = IDLE v \<longrightarrow> idle_shape fs"
  shows "sched_ok (v\<lparr>FR := (FR v)(r := fs), ST := (ST v)(t \<mapsto> THREAD_READY), RL := RL v @ [t]\<rparr>)"
proof -
  let ?v = "v\<lparr>FR := (FR v)(r := fs)\<rparr>"
  have mem: "t \<in> set (newborn (FR v r))" using fs by simp
  note f = newborn_facts [OF ok mem]
  have "distinct (newborn (FR v r))" using ok unfolding sched_ok_def newborn_ok_def by blast
  then have d: "distinct (newborn fs)" "t \<notin> set (newborn fs)" using fs by auto
  have "sched_ok ?v"
    using fs d by (intro reframed_ok [OF ok r]) (auto simp: frames_fit_def)
  moreover have "t \<notin> set (newborn (FR ?v u))" for u using f(5) [of u] d by auto
  ultimately have "sched_ok (?v\<lparr>ST := (ST ?v)(t \<mapsto> THREAD_READY), RL := RL ?v @ [t]\<rparr>)"
    using f by (intro unblocked_ok) auto
  then show ?thesis by simp
qed

lemma created_ok:
  assumes ok: "sched_ok v" and r: "ST v r = Some THREAD_RUNNING" "r \<noteq> IDLE v" and t: "ST v t = None"
    and fs: "newborn fs = t # newborn (FR v r)" "num_ok fs"
  shows "sched_ok (v\<lparr>ST := (ST v)(t \<mapsto> THREAD_BLOCKED), FR := (FR v)(t := [Kernel_thread], r := fs), AL := AL v @ [t]\<rparr>)"
    (is "sched_ok ?v")
proof -
  note o = ok [unfolded sched_ok_def]
  note f = running_facts [OF ok r(1)]
  have tr: "t \<noteq> r" "t \<noteq> IDLE v" using r t o by (auto simp: idle_ok_def)
  have nt: "t \<notin> set (newborn (FR v u))" for u using o t unfolding newborn_ok_def by (metis option.distinct(1))
  have nw: "t \<notin> set (WL v s)" for s using o t unfolding wait_ok_def by (metis option.distinct(1))
  have "ready_ok ?v" using o t unfolding ready_ok_def by auto
  moreover have "wait_ok ?v" using o f(2) nw unfolding wait_ok_def by auto
  moreover have "t \<notin> set (SL v)" using o t unfolding sleep_ok_def by (metis option.distinct(1))
  then have "sleep_ok ?v" using o f(3) unfolding sleep_ok_def by auto
  moreover have "all_ok ?v" using o t r unfolding all_ok_def by auto
  moreover have "newborn_ok ?v"
  proof (rule newborn_okI)
    fix u x assume x: "x \<in> set (newborn (FR ?v u))"
    then have "x = t \<or> (\<exists>u. x \<in> set (newborn (FR v u)))" using fs by (auto split: if_splits)
    then show "ST ?v x = Some THREAD_BLOCKED \<and> (\<exists>fs. FR ?v x = Kernel_thread # fs)"
      using o f(4) nt tr unfolding newborn_ok_def by auto
  next
    fix u
    show "distinct (newborn (FR ?v u)) \<and> num_ok (FR ?v u)"
      using o fs nt tr unfolding newborn_ok_def by auto
  next
    fix u u' x assume "x \<in> set (newborn (FR ?v u))" "x \<in> set (newborn (FR ?v u'))"
    then have "(u = r \<and> x = t) \<or> x \<in> set (newborn (FR v u))" "(u' = r \<and> x = t) \<or> x \<in> set (newborn (FR v u'))"
      using fs by (auto split: if_splits)
    then show "u = u'" using o nt unfolding newborn_ok_def by blast
  qed
  moreover have "idle_ok ?v" using o r tr unfolding idle_ok_def by auto
  ultimately show ?thesis by (simp add: sched_ok_def)
qed

end
