(* ===== verification/Threads_Safe.thy ===== *)
theory Threads_Safe
  imports Threads_Inv
begin

text \<open>
  The invariant of the whole machine and its preservation: every frame the running thread
  executes and every timer interrupt returns (no assertion fails) and keeps the invariant.
\<close>

section \<open>The kernel stacks\<close>

text \<open>\<open>stack_ok fs H lev\<close>: with the locks \<open>H\<close> held and the interrupts on or off
  as \<open>lev\<close> says, the frames \<open>fs\<close> find what they need.\<close>

primrec stack_ok :: "frame list \<Rightarrow> ptr set \<Rightarrow> bool \<Rightarrow> bool" where
  "stack_ok [] H lev \<longleftrightarrow> tid_lock \<notin> H"
| "stack_ok (f # fs) H lev \<longleftrightarrow>
     (case f of
        Sema_loop s \<Rightarrow> \<not> lev \<and> stack_ok fs H False
      | Sema_down s \<Rightarrow> \<not> sema_null s \<and> stack_ok fs H lev
      | Sema_up s \<Rightarrow> \<not> sema_null s \<and> stack_ok fs H lev
      | Sema_try_down s \<Rightarrow> \<not> sema_null s \<and> (\<forall>l. s \<noteq> OfLock l) \<and> stack_ok fs H lev
      | Lock_acquire l \<Rightarrow> l \<noteq> NULL \<and> l \<notin> H \<and> stack_ok fs (insert l H) lev
      | Set_holder l \<Rightarrow> l \<notin> H \<and> stack_ok fs (insert l H) lev
      | Lock_try_acquire l \<Rightarrow> l \<noteq> NULL \<and> l \<notin> H \<and> stack_ok fs H lev \<and> stack_ok fs (insert l H) lev
      | Lock_release l \<Rightarrow> l \<noteq> NULL \<and> l \<in> H \<and> stack_ok fs (H - {l}) lev
      | Cond_wait c l \<Rightarrow> c \<noteq> NULL \<and> l \<noteq> NULL \<and> l \<in> H \<and> stack_ok fs H lev
      | Cond_signal c l \<Rightarrow> c \<noteq> NULL \<and> l \<noteq> NULL \<and> l \<in> H \<and> stack_ok fs H lev
      | Cond_broadcast c l \<Rightarrow> c \<noteq> NULL \<and> l \<noteq> NULL \<and> l \<in> H \<and> stack_ok fs H lev
      | Intr_set_level b \<Rightarrow> stack_ok fs H b
      | Iret \<Rightarrow> stack_ok fs H True
      | Thread_exit \<Rightarrow> H = {} \<and> fs = []
      | Thread_create nm prio ok func \<Rightarrow>
          PRI_MIN \<le> prio \<and> prio \<le> PRI_MAX \<and> func = Some [] \<and> tid_lock \<notin> H \<and> stack_ok fs H lev
      | Timer_sleep n \<Rightarrow> lev \<and> stack_ok fs H lev
      | Kernel_thread \<Rightarrow> stack_ok fs H True
      | Idle_init s \<Rightarrow> False
      | Idle_loop \<Rightarrow> fs = [] \<and> H = {}
      | Idle_hlt \<Rightarrow> fs = [] \<and> H = {}
      | _ \<Rightarrow> stack_ok fs H lev)"

text \<open>The tokens of a lock that the frames of a thread hold: between \<open>sema_down\<close> and the
  assignment of the holder, and between the end of holding and \<open>sema_up\<close>.\<close>

fun tokf :: "ptr \<Rightarrow> frame \<Rightarrow> int" where
  "tokf l (Set_holder l') = (if l = l' then 1 else 0)"
| "tokf l (Sema_up (OfLock l')) = (if l = l' then 1 else 0)"
| "tokf l (Sema_down (OfLock l')) = (if l = l' then - 1 else 0)"
| "tokf l (Sema_loop (OfLock l')) = (if l = l' then - 1 else 0)"
| "tokf l _ = 0"

primrec tok :: "ptr \<Rightarrow> frame list \<Rightarrow> int" where
  "tok l [] = 0"
| "tok l (f # fs) = tokf l f + tok l fs"

primrec tok_ok :: "frame list \<Rightarrow> bool" where
  "tok_ok [] \<longleftrightarrow> True"
| "tok_ok (f # fs) \<longleftrightarrow> (\<forall>l. 0 \<le> tok l (f # fs)) \<and> tok_ok fs"

lemma tok_ok_nonneg: "tok_ok fs \<Longrightarrow> 0 \<le> tok l fs"
  by (cases fs) auto

text \<open>A thread waits for no other thread's \<open>semaphore_elem\<close>.\<close>

definition own_waiter :: "ptr \<Rightarrow> frame list \<Rightarrow> bool" where
  "own_waiter t fs \<longleftrightarrow> (\<forall>w. Sema_down (OfWaiter w) \<in> set fs \<or> Sema_loop (OfWaiter w) \<in> set fs \<longrightarrow> w = t)"

definition held :: "kernel \<Rightarrow> ptr \<Rightarrow> ptr set" where
  "held k t = {l. holder k l = t}"

definition lock_tokens :: "kernel \<Rightarrow> ptr \<Rightarrow> int" where
  "lock_tokens k l =
     uint (val (semas k (OfLock l))) + (if holder k l = NULL then 0 else 1) +
     (\<Sum>t\<in>dom (threads k). tok l (fr k t))"

definition alive :: "kernel \<Rightarrow> ptr \<Rightarrow> bool" where
  "alive k t \<longleftrightarrow> st k t \<noteq> None \<and> st k t \<noteq> Some THREAD_DYING"

definition threads_wf :: "kernel \<Rightarrow> bool" where
  "threads_wf k \<longleftrightarrow> finite (dom (threads k)) \<and> \<not> in_external_intr k \<and>
     (\<forall>t th. threads k t = Some th \<longrightarrow> t \<noteq> NULL \<and> magic th = THREAD_MAGIC)"

definition stacks_wf :: "kernel \<Rightarrow> bool" where
  "stacks_wf k \<longleftrightarrow>
     (\<forall>t. alive k t \<longrightarrow> stack_ok (fr k t) (held k t) (t = running k \<and> intr_on k)) \<and>
     (\<forall>t. tok_ok (fr k t)) \<and> (\<forall>t. own_waiter t (fr k t)) \<and> (\<forall>t. st k t = Some THREAD_DYING \<longrightarrow> fr k t = []) \<and>
     (\<forall>l. holder k l \<noteq> NULL \<longrightarrow> alive k (holder k l)) \<and> (\<forall>l. lock_tokens k l = 1)"

definition kinv :: "kernel \<Rightarrow> bool" where
  "kinv k \<longleftrightarrow> sched_ok (view k) \<and> one_runs (view k) (running k) \<and> threads_wf k \<and> stacks_wf k"

lemma view_sel [simp]:
  "ST (view k) = st k" "FR (view k) = fr k" "SLP (view k) = slp k" "RL (view k) = ready_list k"
  "WL (view k) = wait_lists k" "SL (view k) = sleepList k" "AL (view k) = all_threads k"
  "IDLE (view k) = idle_thread k" "INIT (view k) = initial_thread k"
  by (simp_all add: view_def)

lemma view_eqI:
  "st k = ST v \<Longrightarrow> fr k = FR v \<Longrightarrow> slp k = SLP v \<Longrightarrow> ready_list k = RL v \<Longrightarrow> wait_lists k = WL v \<Longrightarrow>
   sleepList k = SL v \<Longrightarrow> all_threads k = AL v \<Longrightarrow> idle_thread k = IDLE v \<Longrightarrow> initial_thread k = INIT v \<Longrightarrow>
   view k = v"
  by (cases v) (simp add: view_def)

text \<open>How the views change when a thread does.\<close>

lemma st_upd: "threads k' = (threads k)(t \<mapsto> th) \<Longrightarrow> st k' = (st k)(t \<mapsto> status th)"
  by (auto simp: st_def)

lemma fr_upd: "threads k' = (threads k)(t \<mapsto> th) \<Longrightarrow> fr k' = (fr k)(t := frames th)"
  by (auto simp: fr_def)

lemma slp_upd: "threads k' = (threads k)(t \<mapsto> th) \<Longrightarrow> slp k' = (slp k)(t := sleepTick th)"
  by (auto simp: slp_def)

lemma views_cong:
  "threads k' = threads k \<Longrightarrow> st k' = st k" "threads k' = threads k \<Longrightarrow> fr k' = fr k"
  "threads k' = threads k \<Longrightarrow> slp k' = slp k"
  by (simp_all add: st_def [abs_def] fr_def [abs_def] slp_def [abs_def])

lemma dom_of_st:
  assumes "st k' = st k"
  shows "dom (threads k') = dom (threads k)"
proof -
  have "threads k' t = None \<longleftrightarrow> threads k t = None" for t
    using fun_cong [OF assms, of t] unfolding st_def by (metis map_option_is_None)
  then show ?thesis by (simp add: dom_def)
qed

lemma threads_of_st: "st k t = Some s \<Longrightarrow> \<exists>th. threads k t = Some th \<and> status th = s \<and> frames th = fr k t \<and> sleepTick th = slp k t"
  by (auto simp: st_def fr_def slp_def)

text \<open>The sum of tokens when the frames of one thread change.\<close>

lemma sum_tok_upd:
  assumes "finite D" "r \<in> D"
  shows "(\<Sum>t\<in>D. tok l ((F(r := g)) t)) = (\<Sum>t\<in>D. tok l (F t)) - tok l (F r) + tok l g"
proof -
  have "(\<Sum>t\<in>D. tok l ((F(r := g)) t)) = tok l g + (\<Sum>t\<in>D - {r}. tok l (F t))"
    using assms by (simp add: sum.remove)
  moreover have "(\<Sum>t\<in>D. tok l (F t)) = tok l (F r) + (\<Sum>t\<in>D - {r}. tok l (F t))"
    using assms by (simp add: sum.remove)
  ultimately show ?thesis by simp
qed

lemma lock_tokens_upd:
  assumes "finite (dom (threads k))" "r \<in> dom (threads k)" "dom (threads k') = dom (threads k)"
    "fr k' = (fr k)(r := g)"
  shows "lock_tokens k' l = lock_tokens k l
     + (uint (val (semas k' (OfLock l))) - uint (val (semas k (OfLock l))))
     + ((if holder k' l = NULL then 0 else 1) - (if holder k l = NULL then 0 else 1))
     + (tok l g - tok l (fr k r))"
  using sum_tok_upd [OF assms(1,2), of l "fr k" g] assms(3,4) by (simp add: lock_tokens_def)

section \<open>Steps inside one thread\<close>

lemma kinv_running:
  assumes "kinv k"
  obtains th where "threads k (running k) = Some th" "status th = THREAD_RUNNING" "frames th = fr k (running k)"
    "magic th = THREAD_MAGIC" "running k \<noteq> NULL" "st k (running k) = Some THREAD_RUNNING" "alive k (running k)"
proof -
  have "st k (running k) = Some THREAD_RUNNING" using assms by (simp add: kinv_def one_runs_def)
  from this threads_of_st [OF this] that assms show ?thesis
    unfolding kinv_def threads_wf_def alive_def by auto
qed

lemma thread_current_eq: "kinv k \<Longrightarrow> thread_current k = Some (running k)"
  by (elim kinv_running) (simp add: thread_current_def is_thread_def)

lemma alive_nonnull: "threads_wf k \<Longrightarrow> alive k t \<Longrightarrow> t \<noteq> NULL"
  unfolding threads_wf_def alive_def st_def by (metis map_option_is_None not_Some_eq)

definition same_lists :: "kernel \<Rightarrow> kernel \<Rightarrow> bool" where
  "same_lists k k' \<longleftrightarrow> ready_list k' = ready_list k \<and> wait_lists k' = wait_lists k \<and>
     sleepList k' = sleepList k \<and> all_threads k' = all_threads k \<and> idle_thread k' = idle_thread k \<and>
     initial_thread k' = initial_thread k \<and> running k' = running k \<and> in_external_intr k' = in_external_intr k"

definition token_change :: "kernel \<Rightarrow> kernel \<Rightarrow> ptr \<Rightarrow> int" where
  "token_change k k' l =
     (uint (val (semas k' (OfLock l))) - uint (val (semas k (OfLock l)))) +
     ((if holder k' l = NULL then 0 else 1) - (if holder k l = NULL then 0 else 1))"

text \<open>A step in which the running thread \<open>r\<close> goes on with the frames \<open>g\<close> and other
  threads may become ready.\<close>

lemma run_step:
  assumes K: "kinv k" and r: "r = running k" "running k' = r" and al: "\<And>t. alive k' t = alive k t"
    and dy: "\<And>t. st k' t = Some THREAD_DYING \<Longrightarrow> st k t = Some THREAD_DYING" and d: "dom (threads k') = dom (threads k)"
    and ok: "sched_ok (view k')" "one_runs (view k') r" and ic: "\<not> in_external_intr k'"
    and F: "fr k' = (fr k)(r := g)" and M: "\<And>t th. threads k' t = Some th \<Longrightarrow> magic th = THREAD_MAGIC"
    and H: "\<And>l. holder k' l = holder k l \<or> (holder k l \<in> {NULL, r} \<and> holder k' l \<in> {NULL, r})"
    and S: "stack_ok g (held k' r) (intr_on k')" and tg: "tok_ok g" and ow: "own_waiter r g"
    and tc: "\<And>l. token_change k k' l + (tok l g - tok l (fr k r)) = 0"
  shows "kinv k'"
proof -
  note k = K [unfolded kinv_def]
  have run: "st k r = Some THREAD_RUNNING" using k r by (simp add: one_runs_def)
  have dm: "finite (dom (threads k))" "r \<in> dom (threads k)" using k run by (auto simp: threads_wf_def st_def)
  have "threads_wf k'"
    unfolding threads_wf_def
  proof (intro conjI allI impI)
    show "finite (dom (threads k'))" using dm d by simp
    show "\<not> in_external_intr k'" by (rule ic)
    fix t th assume t: "threads k' t = Some th"
    then show "magic th = THREAD_MAGIC" by (rule M)
    have "t \<in> dom (threads k)" using t d by blast
    then show "t \<noteq> NULL" using k unfolding threads_wf_def by blast
  qed
  moreover have "stacks_wf k'"
    unfolding stacks_wf_def
  proof (intro conjI allI impI)
    fix t assume t: "alive k' t"
    show "stack_ok (fr k' t) (held k' t) (t = running k' \<and> intr_on k')"
    proof (cases "t = r")
      case True
      then show ?thesis using S r F by simp
    next
      case False
      have "t \<noteq> NULL" using t k al alive_nonnull by blast
      then have "held k' t = held k t" using H False unfolding held_def by (metis empty_iff insert_iff)
      moreover have "stack_ok (fr k t) (held k t) (t = running k \<and> intr_on k)"
        using k t al unfolding stacks_wf_def by blast
      ultimately show ?thesis using False F r by simp
    qed
  next
    fix t show "tok_ok (fr k' t)" "own_waiter t (fr k' t)" using k F tg ow by (simp_all add: stacks_wf_def)
  next
    fix t assume "st k' t = Some THREAD_DYING"
    then have "t \<noteq> r" "fr k t = []" using k run dy by (force simp: stacks_wf_def)+
    then show "fr k' t = []" by (simp add: F)
  next
    fix l assume "holder k' l \<noteq> NULL"
    then have "holder k' l = r \<or> holder k' l = holder k l" using H [of l] by auto
    moreover have "alive k r" using run by (simp add: alive_def)
    ultimately show "alive k' (holder k' l)"
      using \<open>holder k' l \<noteq> NULL\<close> k al unfolding stacks_wf_def by metis
  next
    fix l
    have "lock_tokens k' l = lock_tokens k l + token_change k k' l + (tok l g - tok l (fr k r))"
      using lock_tokens_upd [OF dm d F, of l] by (simp add: token_change_def)
    moreover have "lock_tokens k l = 1" using k by (simp add: stacks_wf_def)
    ultimately show "lock_tokens k' l = 1" using tc [of l] by simp
  qed
  ultimately show ?thesis using ok r by (simp add: kinv_def)
qed

lemma local_step:
  assumes K: "kinv k" and r: "r = running k"
    and s: "st k' = st k" "slp k' = slp k" "fr k' = (fr k)(r := g)"
    and M: "\<And>t th. threads k' t = Some th \<Longrightarrow> magic th = THREAD_MAGIC"
    and L: "same_lists k k'" and fit: "frames_fit (view k) r g"
    and H: "\<And>l. holder k' l = holder k l \<or> (holder k l \<in> {NULL, r} \<and> holder k' l \<in> {NULL, r})"
    and S: "stack_ok g (held k' r) (intr_on k')" and tg: "tok_ok g" and ow: "own_waiter r g"
    and tc: "\<And>l. token_change k k' l + (tok l g - tok l (fr k r)) = 0"
  shows "kinv k'"
proof -
  note k = K [unfolded kinv_def]
  have run: "st k r = Some THREAD_RUNNING" using k r by (simp add: one_runs_def)
  have v: "view k' = (view k)\<lparr>FR := (FR (view k))(r := g)\<rparr>"
    using s L by (intro view_eqI) (auto simp: same_lists_def)
  have ok: "sched_ok (view k')" unfolding v using k run fit by (intro reframed_ok) auto
  have one: "one_runs (view k') r" using k s r by (simp add: one_runs_def)
  show ?thesis
    by (rule run_step [OF K r _ _ _ dom_of_st [OF s(1)] ok one _ s(3) M H S tg ow tc])
      (use L k r s(1) in \<open>simp_all add: same_lists_def threads_wf_def alive_def\<close>)
qed

lemma frames_fit_Cons:
  assumes "kinv k" "fr k r = f # fs" "set (newborn fs) \<subseteq> set (newborn (f # fs))" "distinct (newborn fs)"
    "num_ok fs"
  shows "r \<noteq> idle_thread k \<Longrightarrow> frames_fit (view k) r fs"
  using assms by (auto simp: frames_fit_def)

text \<open>What the invariant says of the top of the running thread's stack.\<close>

lemma top_facts:
  assumes K: "kinv k" and f: "fr k (running k) = f # fs"
  shows "stack_ok (f # fs) (held k (running k)) (intr_on k)" "tok_ok (f # fs)" "tok_ok fs"
    "distinct (newborn (f # fs))" "num_ok (f # fs)"
    "running k = idle_thread k \<Longrightarrow> idle_shape (f # fs)"
    "\<not> intr_context k" "own_waiter (running k) (f # fs)"
proof -
  note k = K [unfolded kinv_def stacks_wf_def]
  show "own_waiter (running k) (f # fs)" using k f by metis
  have "alive k (running k)" using K by (elim kinv_running)
  then show "stack_ok (f # fs) (held k (running k)) (intr_on k)" using k f by fastforce
  show t: "tok_ok (f # fs)" using k f by metis
  then show "tok_ok fs" by simp
  have n: "newborn_ok (view k)" "idle_ok (view k)" using k by (auto simp: sched_ok_def)
  show "distinct (newborn (f # fs))" "num_ok (f # fs)"
    using n(1) f unfolding newborn_ok_def by (metis view_sel(2))+
  show "running k = idle_thread k \<Longrightarrow> idle_shape (f # fs)" using n(2) f unfolding idle_ok_def by (metis view_sel(2,8))
  show "\<not> intr_context k" using k by (simp add: threads_wf_def intr_context_def)
qed

end
