(* ===== verification/Threads_Steps.thy ===== *)
theory Threads_Steps
  imports Threads_Safe
begin

text \<open>
  Preservation of the machine's invariant, frame by frame. \<open>returns\<close> says that an operation
  returns (no assertion fails, no bad access) and that the invariant holds afterwards.
\<close>

definition returns :: "kernel option \<Rightarrow> bool" where
  "returns r \<longleftrightarrow> (\<exists>k'. r = Some k' \<and> kinv k')"

lemma returnsI: "r = Some k' \<Longrightarrow> kinv k' \<Longrightarrow> returns r"
  by (simp add: returns_def)

section \<open>Frames that only change the running thread\<close>

definition same_threads :: "kernel \<Rightarrow> kernel \<Rightarrow> bool" where
  "same_threads k k' \<longleftrightarrow> st k' = st k \<and> fr k' = fr k \<and> slp k' = slp k \<and>
     (\<forall>t th. threads k' t = Some th \<longrightarrow> magic th = THREAD_MAGIC)"

lemma same_threads_eq: "kinv k \<Longrightarrow> threads k' = threads k \<Longrightarrow> same_threads k k'"
  using views_cong [of k' k] by (simp add: same_threads_def kinv_def threads_wf_def)

lemma set_frames_views:
  assumes "same_threads k K" "st k r = Some s"
  shows "\<exists>k'. set_frames K r g = Some k' \<and> st k' = st k \<and> slp k' = slp k \<and> fr k' = (fr k)(r := g) \<and>
     (\<forall>t th. threads k' t = Some th \<longrightarrow> magic th = THREAD_MAGIC) \<and>
     k' = K\<lparr>threads := threads k'\<rparr>"
proof -
  have "st K r = Some s" using assms by (simp add: same_threads_def)
  then obtain th where th: "threads K r = Some th" "status th = s" "sleepTick th = slp K r" using threads_of_st by blast
  let ?k = "upd_thread K r (th\<lparr>frames := g\<rparr>)"
  have e: "threads ?k = (threads K)(r \<mapsto> th\<lparr>frames := g\<rparr>)" by simp
  have "st ?k = st k" "slp ?k = slp k" "fr ?k = (fr k)(r := g)"
    using st_upd [OF e] slp_upd [OF e] fr_upd [OF e] assms th
    by (auto simp: same_threads_def)
  moreover have "\<forall>t th. threads ?k t = Some th \<longrightarrow> magic th = THREAD_MAGIC"
    using assms th by (auto simp: same_threads_def)
  ultimately show ?thesis using th by (intro exI [of _ ?k]) (simp add: set_frames_def)
qed

lemma set_result_views:
  assumes "same_threads k K" "st k r = Some s"
  shows "\<exists>K'. set_result K r v = Some K' \<and> same_threads k K' \<and> K' = K\<lparr>threads := threads K'\<rparr>"
proof -
  have "st K r = Some s" using assms by (simp add: same_threads_def)
  then obtain th where th: "threads K r = Some th" "status th = s" "frames th = fr K r" "sleepTick th = slp K r"
    using threads_of_st by blast
  let ?k = "upd_thread K r (th\<lparr>result := v\<rparr>)"
  have e: "threads ?k = (threads K)(r \<mapsto> th\<lparr>result := v\<rparr>)" by simp
  have "same_threads k ?k"
    using st_upd [OF e] slp_upd [OF e] fr_upd [OF e] assms th by (auto simp: same_threads_def)
  then show ?thesis using th by (intro exI [of _ ?k]) (simp add: set_result_def)
qed

lemma same_lists_threads: "same_lists k K \<Longrightarrow> k' = K\<lparr>threads := T\<rparr> \<Longrightarrow> same_lists k k'"
  by (simp add: same_lists_def wait_lists_def [abs_def])

lemma fit_same:
  assumes K: "kinv k" and f: "fr k (running k) = f # fs"
    and g: "newborn g = newborn (f # fs)" "num_ok (f # fs) \<Longrightarrow> num_ok g"
      "running k = idle_thread k \<Longrightarrow> idle_shape g"
  shows "frames_fit (view k) (running k) g"
  using top_facts(4,5) [OF K f] f g by (auto simp: frames_fit_def)

lemma local_exec:
  assumes K: "kinv k" and f: "fr k (running k) = f # fs"
    and T: "same_threads k K" and L: "same_lists k K"
    and g: "newborn g = newborn (f # fs)" "num_ok (f # fs) \<Longrightarrow> num_ok g"
      "running k = idle_thread k \<Longrightarrow> idle_shape g"
    and H: "\<And>l. holder K l = holder k l \<or> (holder k l \<in> {NULL, running k} \<and> holder K l \<in> {NULL, running k})"
    and S: "stack_ok g (held K (running k)) (intr_on K)" and tg: "tok_ok g" and ow: "own_waiter (running k) g"
    and tc: "\<And>l. token_change k K l + (tok l g - tok l (f # fs)) = 0"
  shows "returns (set_frames K (running k) g)"
proof -
  have "st k (running k) = Some THREAD_RUNNING" using K by (simp add: kinv_def one_runs_def)
  from set_frames_views [OF T this, of g] obtain k' where k': "set_frames K (running k) g = Some k'"
      "st k' = st k" "slp k' = slp k" "fr k' = (fr k)(running k := g)"
      "\<And>t th. threads k' t = Some th \<Longrightarrow> magic th = THREAD_MAGIC" "k' = K\<lparr>threads := threads k'\<rparr>"
    by blast
  have p: "holder k' = holder K" "intr_on k' = intr_on K" "semas k' = semas K"
    by (subst k'(6), simp)+
  have "kinv k'"
  proof (rule local_step [OF K refl k'(2-5)])
    show "same_lists k k'" using same_lists_threads [OF L k'(6)] .
    show "frames_fit (view k) (running k) g" using fit_same [OF K f g] .
    show "holder k' l = holder k l \<or> (holder k l \<in> {NULL, running k} \<and> holder k' l \<in> {NULL, running k})" for l
      using H [of l] p by simp
    show "stack_ok g (held k' (running k)) (intr_on k')" using S p by (simp add: held_def)
    show "token_change k k' l + (tok l g - tok l (fr k (running k))) = 0" for l
      using tc [of l] p f by (simp add: token_change_def)
  qed (use tg ow in auto)
  with k'(1) show ?thesis by (rule returnsI)
qed

lemma tok_ok_Cons0: "tok_ok fs \<Longrightarrow> (\<And>l. tokf l f = 0) \<Longrightarrow> tok_ok (f # fs)"
  using tok_ok_nonneg by simp

lemma own_waiter_Cons:
  "own_waiter t (f # fs) \<longleftrightarrow> own_waiter t fs \<and> (\<forall>w. f = Sema_down (OfWaiter w) \<or> f = Sema_loop (OfWaiter w) \<longrightarrow> w = t)"
  by (auto simp: own_waiter_def)

lemma token_change_refl: "holder K = holder k \<Longrightarrow> semas K = semas k \<Longrightarrow> token_change k K l = 0"
  by (simp add: token_change_def)

text \<open>Frames that leave the locks alone.\<close>

lemma plain_exec:
  assumes K: "kinv k" and f: "fr k (running k) = f # fs"
    and T: "same_threads k K" and L: "same_lists k K" and H: "holder K = holder k"
    and V: "\<And>l. val (semas K (OfLock l)) = val (semas k (OfLock l))"
    and g: "newborn g = newborn (f # fs)" "num_ok (f # fs) \<Longrightarrow> num_ok g"
      "running k = idle_thread k \<Longrightarrow> idle_shape g"
    and S: "stack_ok g (held k (running k)) (intr_on K)" and tg: "tok_ok g" and ow: "own_waiter (running k) g"
    and tc: "\<And>l. tok l g = tok l (f # fs)"
  shows "returns (set_frames K (running k) g)"
  using H V S tc by (intro local_exec [OF K f T L g _ _ tg ow]) (simp_all add: held_def token_change_def)

lemma same_lists_upd [simp]:
  "same_lists k k" "same_lists k (k\<lparr>intr_on := b\<rparr>)" "same_lists k (k\<lparr>holder := h\<rparr>)"
  "same_lists k (k\<lparr>cond_waiters := c\<rparr>)" "same_lists k (k\<lparr>ticks := n\<rparr>)"
  "(\<And>s. waiters (sm s) = waiters (semas k s)) \<Longrightarrow> same_lists k (k\<lparr>semas := sm\<rparr>)"
  by (simp_all add: same_lists_def wait_lists_def [abs_def])

lemma exec_Sema_down:
  assumes K: "kinv k" and f: "fr k (running k) = Sema_down s # fs"
  shows "returns (sema_down k s fs)"
proof -
  note t = top_facts [OF K f]
  have "returns (set_frames (intr_disable k) (running k) (Sema_loop s # Intr_set_level (intr_on k) # fs))"
  proof (rule plain_exec [OF K f])
    show "same_threads k (intr_disable k)" using K by (simp add: same_threads_eq intr_disable_def)
    show "running k = idle_thread k \<Longrightarrow> idle_shape (Sema_loop s # Intr_set_level (intr_on k) # fs)"
      using t(6) by simp
    show "stack_ok (Sema_loop s # Intr_set_level (intr_on k) # fs) (held k (running k)) (intr_on (intr_disable k))"
      using t(1) by (simp add: intr_disable_def)
    have e: "tokf l (Sema_loop s) = tokf l (Sema_down s)" for l by (cases s) auto
    show "tok_ok (Sema_loop s # Intr_set_level (intr_on k) # fs)"
      using t(2,3) tok_ok_nonneg [OF t(3)] e by simp
    show "own_waiter (running k) (Sema_loop s # Intr_set_level (intr_on k) # fs)"
      using t(8) by (auto simp: own_waiter_Cons)
    show "tok l (Sema_loop s # Intr_set_level (intr_on k) # fs) = tok l (Sema_down s # fs)" for l
      using e by simp
  qed (simp_all add: intr_disable_def)
  then show ?thesis using t(1,7) by (simp add: sema_down_def intr_get_level_def intr_disable_def)
qed

lemma exec_Sema_try_down:
  assumes K: "kinv k" and f: "fr k (running k) = Sema_try_down s # fs"
  shows "returns (exec k page (Sema_try_down s) fs)"
proof -
  note t = top_facts [OF K f]
  have run: "st k (running k) = Some THREAD_RUNNING" using K by (simp add: kinv_def one_runs_def)
  have s: "s \<noteq> OfLock l" "\<not> sema_null s" for l using t(1) by simp_all
  have "\<not> in_external_intr k" using K by (simp add: kinv_def threads_wf_def)
  note e = sema_try_down_eq [OF this s(2)]
  obtain b K1 where b: "sema_try_down k s = Some (b, K1)" by (metis e surj_pair)
  have K1: "threads K1 = threads k" "same_lists k K1" "holder K1 = holder k" "intr_on K1 = intr_on k"
      "val (semas K1 (OfLock l)) = val (semas k (OfLock l))" for l
    using b s(1) [of l] unfolding e by (auto simp: same_lists_def wait_lists_def [abs_def] split: if_splits)
  obtain K2 where K2: "set_result K1 (running k) (if b then 1 else 0) = Some K2" "same_threads k K2"
      "K2 = K1\<lparr>threads := threads K2\<rparr>"
    using set_result_views [OF same_threads_eq [OF K K1(1)] run] by blast
  have p: "holder K2 = holder K1" "intr_on K2 = intr_on K1" "semas K2 = semas K1" by (subst K2(3), simp)+
  have "returns (set_frames K2 (running k) fs)"
  proof (rule plain_exec [OF K f K2(2) same_lists_threads [OF K1(2) K2(3)]])
    show "running k = idle_thread k \<Longrightarrow> idle_shape fs" using t(6) by simp
    show "stack_ok fs (held k (running k)) (intr_on K2)" using t(1) p K1 by simp
    show "own_waiter (running k) fs" using t(8) by (simp add: own_waiter_Cons)
  qed (use p K1 t(3) in simp_all)
  then show ?thesis by (simp add: exec_def idle_block_def idle_hlt_def b K2(1))
qed

lemma exec_Lock_acquire:
  assumes K: "kinv k" and f: "fr k (running k) = Lock_acquire l # fs"
  shows "returns (lock_acquire k l fs)"
proof -
  note t = top_facts [OF K f]
  have nh: "holder k l \<noteq> running k" using t(1) by (simp add: held_def)
  have "returns (set_frames k (running k) (Sema_down (OfLock l) # Set_holder l # fs))"
  proof (rule plain_exec [OF K f same_threads_eq [OF K refl]])
    show "running k = idle_thread k \<Longrightarrow> idle_shape (Sema_down (OfLock l) # Set_holder l # fs)" using t(6) by simp
    show "tok_ok (Sema_down (OfLock l) # Set_holder l # fs)"
      using t(3) tok_ok_nonneg [OF t(3)] by simp
  qed (use t(1,8) in \<open>simp_all add: own_waiter_Cons\<close>)
  then show ?thesis using t(1,7) nh thread_current_eq [OF K]
    by (simp add: lock_acquire_def lock_held_by_current_thread_def)
qed

text \<open>A thread with a token of a lock is the only one: the lock has no holder, its semaphore is
  down, and no other thread has a token.\<close>

lemma token_excl:
  assumes K: "kinv k" and t: "1 \<le> tok l (fr k t)"
  shows "holder k l = NULL" "val (semas k (OfLock l)) = 0" "tok l (fr k t) = 1" "u \<noteq> t \<Longrightarrow> tok l (fr k u) = 0"
proof -
  let ?D = "dom (threads k)"
  have one: "lock_tokens k l = 1" and nn: "0 \<le> tok l (fr k u)" for u
    using K tok_ok_nonneg by (auto simp: kinv_def stacks_wf_def)
  have fin: "finite ?D" using K by (simp add: kinv_def threads_wf_def)
  have td: "t \<in> ?D" using t by (auto simp: fr_def split: option.splits)
  have sum: "(\<Sum>u\<in>?D. tok l (fr k u)) = tok l (fr k t) + (\<Sum>u\<in>?D - {t}. tok l (fr k u))"
    using fin td by (simp add: sum.remove)
  have rest: "0 \<le> (\<Sum>u\<in>?D - {t}. tok l (fr k u))" using nn by (simp add: sum_nonneg)
  have arith: "v + h + (s + r) = 1 \<Longrightarrow> 0 \<le> v \<Longrightarrow> 0 \<le> h \<Longrightarrow> 1 \<le> s \<Longrightarrow> 0 \<le> r \<Longrightarrow> v = 0 \<and> h = 0 \<and> s = 1 \<and> r = 0"
    for v h s r :: int by linarith
  have "uint (val (semas k (OfLock l))) + (if holder k l = NULL then 0 else 1) +
      (tok l (fr k t) + (\<Sum>u\<in>?D - {t}. tok l (fr k u))) = 1"
    using one sum unfolding lock_tokens_def by metis
  from arith [OF this uint_ge_0 _ t rest]
  have eq: "uint (val (semas k (OfLock l))) = 0" "(if holder k l = NULL then 0 else 1 :: int) = 0"
      "tok l (fr k t) = 1" "(\<Sum>u\<in>?D - {t}. tok l (fr k u)) = 0"
    by (simp_all split: if_splits)
  show "holder k l = NULL" using eq(2) by (simp split: if_splits)
  show "val (semas k (OfLock l)) = 0" using eq(1) by (simp add: uint_0_iff)
  show "tok l (fr k t) = 1" by (rule eq(3))
  show "u \<noteq> t \<Longrightarrow> tok l (fr k u) = 0"
  proof (cases "u \<in> ?D")
    case True
    assume "u \<noteq> t"
    with True fin nn eq(4) show ?thesis by (auto simp: sum_nonneg_eq_0_iff)
  qed (simp add: fr_def domIff)
qed

lemma lock_val_le:
  assumes "kinv k"
  shows "uint (val (semas k (OfLock l))) + (if holder k l = NULL then 0 else 1) \<le> 1"
proof -
  have "0 \<le> (\<Sum>t\<in>dom (threads k). tok l (fr k t))"
    using assms tok_ok_nonneg by (intro sum_nonneg) (auto simp: kinv_def stacks_wf_def)
  moreover have "lock_tokens k l = 1" using assms by (simp add: kinv_def stacks_wf_def)
  ultimately show ?thesis by (simp add: lock_tokens_def)
qed

lemma exec_Set_holder:
  assumes K: "kinv k" and f: "fr k (running k) = Set_holder l # fs"
  shows "returns (set_holder k l fs)"
proof -
  let ?K = "k\<lparr>holder := (holder k)(l := running k)\<rparr>"
  note t = top_facts [OF K f]
  have "1 \<le> tok l (fr k (running k))" using tok_ok_nonneg [OF t(3)] f by simp
  note ex = token_excl [OF K this]
  have rn: "running k \<noteq> NULL" using K by (elim kinv_running)
  have hd: "held ?K (running k) = insert l (held k (running k))" using ex(1) by (auto simp: held_def)
  have "returns (set_frames ?K (running k) fs)"
  proof (rule local_exec [OF K f])
    show "same_threads k ?K" using K by (simp add: same_threads_eq)
    show "running k = idle_thread k \<Longrightarrow> idle_shape fs" using t(6) by simp
    show "holder ?K l' = holder k l' \<or> holder k l' \<in> {NULL, running k} \<and> holder ?K l' \<in> {NULL, running k}" for l'
      using ex(1) by simp
    show "stack_ok fs (held ?K (running k)) (intr_on ?K)" unfolding hd using t(1) by simp
    show "own_waiter (running k) fs" using t(8) by (simp add: own_waiter_Cons)
    show "token_change k ?K l' + (tok l' fs - tok l' (Set_holder l # fs)) = 0" for l'
      using ex(1) rn by (simp add: token_change_def)
  qed (use t(3) in simp_all)
  then show ?thesis by (simp add: set_holder_def thread_current_eq [OF K])
qed

lemma exec_Lock_release:
  assumes K: "kinv k" and f: "fr k (running k) = Lock_release l # fs"
  shows "returns (lock_release k l fs)"
proof -
  let ?K = "k\<lparr>holder := (holder k)(l := NULL)\<rparr>" and ?g = "Sema_up (OfLock l) # fs"
  note t = top_facts [OF K f]
  have hl: "holder k l = running k" using t(1) by (simp add: held_def)
  have rn: "running k \<noteq> NULL" using K by (elim kinv_running)
  have hd: "held ?K (running k) = held k (running k) - {l}" using rn by (auto simp: held_def)
  have "returns (set_frames ?K (running k) ?g)"
  proof (rule local_exec [OF K f])
    show "same_threads k ?K" using K by (simp add: same_threads_eq)
    show "running k = idle_thread k \<Longrightarrow> idle_shape ?g" using t(6) by simp
    show "holder ?K l' = holder k l' \<or> holder k l' \<in> {NULL, running k} \<and> holder ?K l' \<in> {NULL, running k}" for l'
      using hl by simp
    show "stack_ok ?g (held ?K (running k)) (intr_on ?K)" unfolding hd using t(1) by simp
    show "tok_ok ?g" using t(3) tok_ok_nonneg [OF t(3)] by simp
    show "own_waiter (running k) ?g" using t(8) by (simp add: own_waiter_Cons)
    show "token_change k ?K l' + (tok l' ?g - tok l' (Lock_release l # fs)) = 0" for l'
      using hl rn by (simp add: token_change_def)
  qed simp_all
  then show ?thesis using hl t(1) by (simp add: lock_release_def lock_held_by_current_thread_def thread_current_eq [OF K])
qed

lemma val_down: "(w :: u32) \<noteq> 0 \<Longrightarrow> uint (w - 1) = uint w - 1"
  by (metis uint_sub_lem unsigned_1 word_le_def word_less_1 le_less linorder_not_le)

lemma exec_Lock_try_acquire:
  assumes K: "kinv k" and f: "fr k (running k) = Lock_try_acquire l # fs"
  shows "returns (lock_try_acquire k l fs)"
proof -
  note t = top_facts [OF K f]
  have nh: "holder k l \<noteq> running k" using t(1) by (simp add: held_def)
  have run: "st k (running k) = Some THREAD_RUNNING" using K by (simp add: kinv_def one_runs_def)
  have "\<not> in_external_intr k" using K by (simp add: kinv_def threads_wf_def)
  note e = sema_try_down_eq [OF this sema_null_simps(2)]
  obtain b K1 where b: "sema_try_down k (OfLock l) = Some (b, K1)" by (metis e surj_pair)
  have K1: "threads K1 = threads k" "same_lists k K1" "holder K1 = holder k" "intr_on K1 = intr_on k"
      "running K1 = running k"
      "token_change k K1 l' = (if b \<and> l' = l then - 1 else 0)" for l'
    using b val_down [of "val (semas k (OfLock l))"] unfolding e
    by (auto simp: same_lists_def wait_lists_def [abs_def] token_change_def
        word_gt_0 split: if_splits)
  obtain K2 where K2: "set_result K1 (running k) (if b then 1 else 0) = Some K2" "same_threads k K2"
      "K2 = K1\<lparr>threads := threads K2\<rparr>"
    using set_result_views [OF same_threads_eq [OF K K1(1)] run] by blast
  have p: "holder K2 = holder K1" "intr_on K2 = intr_on K1" "semas K2 = semas K1" "running K2 = running K1"
    by (subst K2(3), simp)+
  let ?g = "if b then Set_holder l # fs else fs"
  have "returns (set_frames K2 (running k) ?g)"
  proof (rule local_exec [OF K f K2(2) same_lists_threads [OF K1(2) K2(3)]])
    show "running k = idle_thread k \<Longrightarrow> idle_shape ?g" using t(6) by simp
    show "stack_ok ?g (held K2 (running k)) (intr_on K2)" using t(1) p K1 by (simp add: held_def)
    show "tok_ok ?g" using t(3) tok_ok_nonneg [OF t(3)] by simp
    show "own_waiter (running k) ?g" using t(8) by (simp add: own_waiter_Cons)
    have "token_change k K2 l' = token_change k K1 l'" for l' using p by (simp add: token_change_def)
    then show "token_change k K2 l' + (tok l' ?g - tok l' (Lock_try_acquire l # fs)) = 0" for l'
      using K1(6) [of l'] by simp
  qed (use p K1 in simp_all)
  then show ?thesis using nh K2 p K1(5) t(1)
    by (simp add: lock_try_acquire_def lock_held_by_current_thread_def thread_current_eq [OF K] b)
qed

text \<open>A semaphore that is up is taken.\<close>

lemma exec_Sema_loop_taken:
  assumes K: "kinv k" and f: "fr k (running k) = Sema_loop s # fs" and v: "val (semas k s) \<noteq> 0"
  shows "returns (sema_down_loop k s fs)"
proof -
  let ?K = "upd_sema k s ((semas k s)\<lparr>val := val (semas k s) - 1\<rparr>)"
  note t = top_facts [OF K f]
  have "returns (set_frames ?K (running k) fs)"
  proof (rule local_exec [OF K f])
    show "same_threads k ?K" using K by (simp add: same_threads_eq)
    show "running k = idle_thread k \<Longrightarrow> idle_shape fs" using t(6) by simp
    show "stack_ok fs (held ?K (running k)) (intr_on ?K)" using t(1) by (simp add: held_def)
    show "own_waiter (running k) fs" using t(8) by (simp add: own_waiter_Cons)
    show "token_change k ?K l + (tok l fs - tok l (Sema_loop s # fs)) = 0" for l
      using val_down [OF v] by (cases s) (auto simp: token_change_def)
  qed (use t(3) in simp_all)
  then show ?thesis using v by (simp add: sema_down_loop_def Let_def thread_current_eq [OF K])
qed

section \<open>Condition variables and the interrupt level\<close>

text \<open>Nobody waits for the \<open>semaphore_elem\<close> of a running thread.\<close>

lemma own_waiter_free:
  assumes K: "kinv k"
  shows "waiters (semas k (OfWaiter (running k))) = []"
proof (rule ccontr)
  assume "waiters (semas k (OfWaiter (running k))) \<noteq> []"
  then obtain u where u: "u \<in> set (wait_lists k (OfWaiter (running k)))"
    by (metis wait_lists_def list.set_sel(1))
  have ok: "sched_ok (view k)" using K by (simp add: kinv_def)
  then obtain fs where "fr k u = Sema_loop (OfWaiter (running k)) # fs"
    using u unfolding sched_ok_def wait_ok_def by (metis view_sel(2,5))
  moreover have "own_waiter u (fr k u)" using K by (simp add: kinv_def stacks_wf_def)
  ultimately have "u = running k" by (simp add: own_waiter_Cons)
  moreover have "st k (running k) = Some THREAD_RUNNING" using K by (simp add: kinv_def one_runs_def)
  ultimately show False using running_facts(2) [OF ok, of "running k"] u by simp
qed

lemma exec_Cond_wait:
  assumes K: "kinv k" and f: "fr k (running k) = Cond_wait c l # fs"
  shows "returns (cond_wait k c l fs)"
proof -
  let ?r = "running k"
  let ?K = "(upd_sema k (OfWaiter ?r) \<lparr>val = 0, waiters = []\<rparr>)\<lparr>cond_waiters := (cond_waiters k)(c := cond_waiters k c @ [?r])\<rparr>"
  let ?g = "Lock_release l # Sema_down (OfWaiter ?r) # Lock_acquire l # fs"
  note t = top_facts [OF K f]
  have hl: "holder k l = ?r" using t(1) by (simp add: held_def)
  have ins: "insert l (held k ?r - {l}) = held k ?r" using t(1) by auto
  have "returns (set_frames ?K ?r ?g)"
  proof (rule plain_exec [OF K f])
    show "same_threads k ?K" using K by (simp add: same_threads_eq)
    show "same_lists k ?K" using own_waiter_free [OF K]
      by (auto simp: same_lists_def wait_lists_def fun_eq_iff)
    show "?r = idle_thread k \<Longrightarrow> idle_shape ?g" using t(6) by simp
    show "stack_ok ?g (held k ?r) (intr_on ?K)" using t(1) ins by simp
    show "tok_ok ?g" using t(3) tok_ok_nonneg [OF t(3)] by simp
    show "own_waiter ?r ?g" using t(8) by (auto simp: own_waiter_Cons)
  qed simp_all
  then show ?thesis using t(1,7) hl
    by (simp add: cond_wait_def lock_held_by_current_thread_def thread_current_eq [OF K] sema_init_def)
qed

lemma exec_Cond_signal:
  assumes K: "kinv k" and f: "fr k (running k) = Cond_signal c l # fs"
  shows "returns (cond_signal k c l fs)"
proof -
  note t = top_facts [OF K f]
  have hl: "holder k l = running k" using t(1) by (simp add: held_def)
  have "returns (set_frames k (running k) fs)"
    using t by (intro plain_exec [OF K f same_threads_eq [OF K refl]]) (simp_all add: own_waiter_Cons)
  moreover have "returns (set_frames (k\<lparr>cond_waiters := cw\<rparr>) (running k) (Sema_up (OfWaiter w) # fs))" for cw w
    using t tok_ok_nonneg [OF t(3)] K
    by (intro plain_exec [OF K f]) (simp_all add: own_waiter_Cons same_threads_eq)
  ultimately show ?thesis using t(1,7) hl
    by (simp add: cond_signal_def lock_held_by_current_thread_def thread_current_eq [OF K] split: list.split)
qed

lemma exec_Cond_broadcast:
  assumes K: "kinv k" and f: "fr k (running k) = Cond_broadcast c l # fs"
  shows "returns (cond_broadcast k c l fs)"
proof -
  note t = top_facts [OF K f]
  have "returns (set_frames k (running k) fs)"
    using t by (intro plain_exec [OF K f same_threads_eq [OF K refl]]) (simp_all add: own_waiter_Cons)
  moreover have "returns (set_frames k (running k) (Cond_signal c l # Cond_broadcast c l # fs))"
    using t tok_ok_nonneg [OF t(3)]
    by (intro plain_exec [OF K f same_threads_eq [OF K refl]]) (simp_all add: own_waiter_Cons)
  ultimately show ?thesis using t(1) by (simp add: cond_broadcast_def)
qed

lemma exec_Intr_set_level:
  assumes K: "kinv k" and f: "fr k (running k) = Intr_set_level b # fs"
  shows "returns (exec k page (Intr_set_level b) fs)"
proof -
  note t = top_facts [OF K f]
  have "returns (set_frames (k\<lparr>intr_on := b\<rparr>) (running k) fs)"
    using t K by (intro plain_exec [OF K f]) (simp_all add: own_waiter_Cons same_threads_eq)
  then show ?thesis using t(7)
    by (cases b) (simp_all add: exec_def idle_block_def idle_hlt_def intr_set_level_def intr_enable_def intr_disable_def)
qed

lemma exec_Iret:
  assumes K: "kinv k" and f: "fr k (running k) = Iret # fs"
  shows "returns (exec k page Iret fs)"
proof -
  note t = top_facts [OF K f]
  have "returns (set_frames (k\<lparr>intr_on := True\<rparr>) (running k) fs)"
    using t K by (intro plain_exec [OF K f]) (simp_all add: own_waiter_Cons same_threads_eq)
  then show ?thesis by (simp add: exec_def idle_block_def idle_hlt_def)
qed

lemma exec_Kernel_thread:
  assumes K: "kinv k" and f: "fr k (running k) = Kernel_thread # fs"
  shows "returns (kernel_thread k fs)"
proof -
  note t = top_facts [OF K f]
  have "returns (set_frames (k\<lparr>intr_on := True\<rparr>) (running k) fs)"
    using t K by (intro plain_exec [OF K f]) (simp_all add: own_waiter_Cons same_threads_eq)
  then show ?thesis using t(7) by (simp add: kernel_thread_def intr_enable_def)
qed

lemma exec_Idle_hlt:
  assumes K: "kinv k" and f: "fr k (running k) = Idle_hlt # fs"
  shows "returns (exec k page Idle_hlt fs)"
proof -
  note t = top_facts [OF K f]
  have "returns (set_frames (k\<lparr>intr_on := True\<rparr>) (running k) (Idle_loop # fs))"
    using t K tok_ok_nonneg [OF t(3)]
    by (intro plain_exec [OF K f]) (simp_all add: own_waiter_Cons same_threads_eq)
  then show ?thesis by (simp add: exec_def idle_block_def idle_hlt_def)
qed

lemma exec_Next_tid:
  assumes K: "kinv k" and f: "fr k (running k) = Next_tid t # fs"
  shows "returns (allocate_tid_step k t fs)"
proof -
  note tf = top_facts [OF K f]
  have "t \<in> set (newborn (FR (view k) (running k)))" using tf(5) f by auto
  then have "st k t = Some THREAD_BLOCKED"
    using newborn_facts(1) [of "view k" t "running k"] K by (simp add: kinv_def)
  then obtain th where th: "threads k t = Some th" "status th = THREAD_BLOCKED" "frames th = fr k t" "sleepTick th = slp k t"
    using threads_of_st by blast
  let ?K = "(upd_thread k t (th\<lparr>tid := next_tid k\<rparr>))\<lparr>next_tid := next_tid k + 1\<rparr>"
  have e: "threads ?K = (threads k)(t \<mapsto> th\<lparr>tid := next_tid k\<rparr>)" by simp
  have "magic th = THREAD_MAGIC" using K th by (auto simp: kinv_def threads_wf_def)
  then have "same_threads k ?K"
    using st_upd [OF e] fr_upd [OF e] slp_upd [OF e] th K
    by (auto simp: same_threads_def kinv_def threads_wf_def st_def)
  then have "returns (set_frames ?K (running k) fs)"
    using tf by (intro plain_exec [OF K f])
      (auto simp: own_waiter_Cons same_lists_def wait_lists_def [abs_def])
  then show ?thesis by (simp add: allocate_tid_step_def thread_current_eq [OF K] th Let_def)
qed

end
