(* ===== verification/Threads_Switch.thy ===== *)
theory Threads_Switch
  imports Threads_Steps
begin

text \<open>
  Preservation of the machine's invariant by the frames that switch threads or make a thread ready:
  \<open>thread_yield\<close>, waiting for a semaphore, sleeping, \<open>thread_exit\<close>, \<open>sema_up\<close>,
  the creation of a thread and the timer interrupt.
\<close>

section \<open>The switch\<close>

definition same_rest :: "kernel \<Rightarrow> kernel \<Rightarrow> bool" where
  "same_rest K k' \<longleftrightarrow> semas k' = semas K \<and> holder k' = holder K \<and> cond_waiters k' = cond_waiters K \<and>
     sleepList k' = sleepList K \<and> all_threads k' = all_threads K \<and> idle_thread k' = idle_thread K \<and>
     initial_thread k' = initial_thread K \<and> intr_on k' = intr_on K \<and> in_external_intr k' = in_external_intr K \<and>
     ticks k' = ticks K"

lemma next_thread_to_run_eq:
  "next_thread_to_run k = (pick (view k), k\<lparr>ready_list := tl (ready_list k)\<rparr>)"
  by (cases "ready_list k") (auto simp: next_thread_to_run_def pick_def)

lemma schedule_threads:
  assumes r: "r = running K" "threads K r = Some c" "status c \<noteq> THREAD_RUNNING" "r \<noteq> NULL"
    and off: "\<not> intr_on K" and n: "threads K (pick (view K)) = Some n" "magic n = THREAD_MAGIC" "pick (view K) \<noteq> NULL"
    and dy: "status c = THREAD_DYING \<Longrightarrow> pick (view K) \<noteq> r"
  shows "\<exists>k'. schedule K g = Some k' \<and> running k' = pick (view K) \<and> ready_list k' = tl (ready_list K) \<and>
     same_rest K k' \<and>
     threads k' = (\<lambda>t. if t = r \<and> status c = THREAD_DYING \<and> r \<noteq> initial_thread K then None
        else if t = pick (view K)
             then Some (if t = r then c\<lparr>frames := g, status := THREAD_RUNNING\<rparr> else n\<lparr>status := THREAD_RUNNING\<rparr>)
        else if t = r then Some (c\<lparr>frames := g\<rparr>) else threads K t)"
proof (cases "pick (view K) = r")
  case True
  then have "n = c" "status c \<noteq> THREAD_DYING" using n r dy by auto
  with True show ?thesis using assms
    by (simp add: schedule_def schedule_tail_def next_thread_to_run_eq intr_get_level_def is_thread_def
        set_frames_def set_status_def same_rest_def fun_eq_iff)
next
  case False
  then show ?thesis using assms
    by (simp add: schedule_def schedule_tail_def next_thread_to_run_eq intr_get_level_def is_thread_def
        set_frames_def set_status_def same_rest_def fun_eq_iff Let_def)
qed

text \<open>From a state \<open>K\<close> in which the thread that ran (in \<open>k\<close>) has stopped, the switch gives
  a state that satisfies the invariant.\<close>

definition stopped_in :: "kernel \<Rightarrow> kernel \<Rightarrow> thread_status \<Rightarrow> bool" where
  "stopped_in k K s \<longleftrightarrow> running K = running k \<and> st K = (st k)(running k \<mapsto> s) \<and> fr K = fr k \<and>
     (\<forall>t th. threads K t = Some th \<longrightarrow> magic th = THREAD_MAGIC) \<and> \<not> intr_on K \<and> \<not> in_external_intr K \<and>
     holder K = holder k \<and> (\<forall>l. val (semas K (OfLock l)) = val (semas k (OfLock l)))"

lemma dom_st: "dom (threads k) = {t. st k t \<noteq> None}"
  by (auto simp: st_def)

lemma schedule_returns:
  assumes K: "kinv k" and S: "stopped_in k K s" and s: "s = THREAD_READY \<or> s = THREAD_BLOCKED"
    and ok: "sched_ok ((view K)\<lparr>FR := (fr k)(running k := g)\<rparr>)"
    and stk: "stack_ok g (held k (running k)) False" and tg: "tok_ok g" and ow: "own_waiter (running k) g"
    and tc: "\<And>l. tok l g = tok l (fr k (running k))"
  shows "returns (schedule K g)"
proof -
  let ?r = "running k" and ?v = "(view K)\<lparr>FR := (fr k)(running k := g)\<rparr>"
  note kk = K [unfolded kinv_def]
  note SS = S [unfolded stopped_in_def]
  have run: "st k ?r = Some THREAD_RUNNING" "?r \<noteq> NULL" using K by (auto elim: kinv_running)
  have one: "st k t = Some THREAD_RUNNING \<longleftrightarrow> t = ?r" for t using kk by (simp add: one_runs_def)
  have dom: "dom (threads K) = dom (threads k)" using SS run by (auto simp: dom_st split: if_splits)
  obtain c where c: "threads K ?r = Some c" "status c = s" using SS by (auto simp: st_def fun_eq_iff split: if_splits)
  define p where "p = pick (view K)"
  have pv: "pick ?v = p" by (simp add: p_def pick_def split: list.split)
  obtain n where n: "threads K p = Some n" "status n \<noteq> THREAD_DYING"
    using pick_facts(1) [OF ok] unfolding pv by (auto simp: st_def)
  have pn: "p \<noteq> NULL" "magic n = THREAD_MAGIC"
    using n SS kk dom unfolding threads_wf_def by (metis domI domD, blast)
  obtain k' where k': "schedule K g = Some k'" "running k' = p" "ready_list k' = tl (ready_list K)" "same_rest K k'"
    and T: "threads k' = (\<lambda>t. if t = ?r \<and> status c = THREAD_DYING \<and> ?r \<noteq> initial_thread K then None
        else if t = p then Some (if t = ?r then c\<lparr>frames := g, status := THREAD_RUNNING\<rparr> else n\<lparr>status := THREAD_RUNNING\<rparr>)
        else if t = ?r then Some (c\<lparr>frames := g\<rparr>) else threads K t)"
    using schedule_threads [of ?r K c n g] SS c n pn s run unfolding p_def by auto
  have nd: "status c \<noteq> THREAD_DYING" using c s by auto
  have st': "st k' = (st K)(p \<mapsto> THREAD_RUNNING)"
    using nd c by (auto simp: st_def T fun_eq_iff)
  have fr': "fr k' = (fr k)(?r := g)"
  proof -
    have "fr k p = frames n" if "p \<noteq> ?r" using n SS by (metis fr_def option.simps(5))
    then show ?thesis using nd SS by (auto simp: fr_def T fun_eq_iff)
  qed
  have slp': "slp k' = slp K"
    using nd c n by (auto simp: slp_def T fun_eq_iff)
  have v': "view k' = switched ?v"
    unfolding switched_def pv
    by (rule view_eqI) (use st' fr' slp' k'(3,4) in \<open>simp_all add: same_rest_def wait_lists_def [abs_def]\<close>)
  have none: "none_runs ?v" using SS one s by (auto simp: none_runs_def)
  have R: "same_rest K k'" by (rule k'(4))
  have stp: "st K p = Some (status n)" using n by (simp add: st_def)
  have stK: "st K = (st k)(?r \<mapsto> s)" using SS by blast
  have al: "alive k' t = alive k t" for t
    using stp n(2) run s by (cases "t = p"; cases "t = ?r") (auto simp: alive_def st' stK)
  have dom': "dom (threads k') = dom (threads k)"
    using stp run by (auto simp: dom_st st' stK split: if_splits)
  have "sched_ok (view k')" "one_runs (view k') (running k')"
    using switched_ok [OF ok none] unfolding v' pv k'(2) by auto
  moreover have "threads_wf k'"
    unfolding threads_wf_def
  proof (intro conjI allI impI)
    show "finite (dom (threads k'))" using dom' kk by (simp add: threads_wf_def)
    show "\<not> in_external_intr k'" using SS R by (simp add: same_rest_def)
    fix t th assume t: "threads k' t = Some th"
    have "magic c = THREAD_MAGIC" using c SS by blast
    with t pn nd SS show "magic th = THREAD_MAGIC" by (auto simp: T split: if_splits)
    have "t \<in> dom (threads k)" using t dom' by blast
    then show "t \<noteq> NULL" using kk unfolding threads_wf_def by blast
  qed
  moreover have "stacks_wf k'"
    unfolding stacks_wf_def
  proof (intro conjI allI impI)
    fix t assume "alive k' t"
    then have "stack_ok (fr k t) (held k t) (t = running k \<and> intr_on k)" using kk al unfolding stacks_wf_def by blast
    moreover have "held k' t = held k t" using R SS by (simp add: held_def same_rest_def)
    moreover have "\<not> intr_on k'" using R SS by (simp add: same_rest_def)
    ultimately show "stack_ok (fr k' t) (held k' t) (t = running k' \<and> intr_on k')"
      using stk by (cases "t = ?r") (auto simp: fr')
  next
    fix t show "tok_ok (fr k' t)" "own_waiter t (fr k' t)" using kk tg ow by (simp_all add: fr' stacks_wf_def)
  next
    fix t assume "st k' t = Some THREAD_DYING"
    then have "t \<noteq> ?r" "st k t = Some THREAD_DYING" using s by (auto simp: st' stK split: if_splits)
    then show "fr k' t = []" using kk by (simp add: fr' stacks_wf_def)
  next
    fix l assume "holder k' l \<noteq> NULL"
    moreover have "holder k' = holder k" using R SS by (simp add: same_rest_def)
    ultimately show "alive k' (holder k' l)" using kk al unfolding stacks_wf_def by metis
  next
    fix l
    have "finite (dom (threads k))" "?r \<in> dom (threads k)" using kk run by (auto simp: threads_wf_def dom_st)
    from lock_tokens_upd [OF this dom' fr', of l] have "lock_tokens k' l = lock_tokens k l"
      using R SS tc [of l] by (simp add: same_rest_def)
    then show "lock_tokens k' l = 1" using kk by (simp add: stacks_wf_def)
  qed
  ultimately have "kinv k'" by (simp add: kinv_def)
  with k'(1) show ?thesis by (rule returnsI)
qed

section \<open>Giving up the processor\<close>

text \<open>\<open>fs\<close> can follow what the running thread has on its stack.\<close>

definition follows :: "kernel \<Rightarrow> frame list \<Rightarrow> bool" where
  "follows k fs \<longleftrightarrow> newborn fs = newborn (fr k (running k)) \<and> (num_ok (fr k (running k)) \<longrightarrow> num_ok fs) \<and>
     (running k = idle_thread k \<longrightarrow> idle_shape fs) \<and> stack_ok fs (held k (running k)) (intr_on k) \<and>
     tok_ok fs \<and> own_waiter (running k) fs \<and> (\<forall>l. tok l fs = tok l (fr k (running k)))"

lemma follows_fit:
  assumes K: "kinv k" and f: "follows k fs" and g: "newborn g = newborn fs" "num_ok g = num_ok fs"
    "running k = idle_thread k \<Longrightarrow> idle_shape fs \<Longrightarrow> idle_shape g"
  shows "frames_fit (view k) (running k) g"
proof -
  have "newborn_ok (view k)" using K by (simp add: kinv_def sched_ok_def)
  then have "distinct (newborn (fr k (running k)))" "num_ok (fr k (running k))"
    unfolding newborn_ok_def by (metis view_sel(2))+
  with f g show ?thesis by (auto simp: frames_fit_def follows_def)
qed

lemma set_status_views:
  assumes r: "st K r = Some s0" and M: "\<And>t th. threads K t = Some th \<Longrightarrow> magic th = THREAD_MAGIC"
  shows "\<exists>k2. set_status K r s = Some k2 \<and> k2 = K\<lparr>threads := threads k2\<rparr> \<and>
     st k2 = (st K)(r \<mapsto> s) \<and> fr k2 = fr K \<and> slp k2 = slp K \<and>
     (\<forall>t th. threads k2 t = Some th \<longrightarrow> magic th = THREAD_MAGIC)"
proof -
  obtain th where th: "threads K r = Some th" using threads_of_st [OF r] by blast
  let ?k = "upd_thread K r (th\<lparr>status := s\<rparr>)"
  have e: "threads ?k = (threads K)(r \<mapsto> th\<lparr>status := s\<rparr>)" by simp
  have "\<forall>t th. threads ?k t = Some th \<longrightarrow> magic th = THREAD_MAGIC" using M th by auto
  with st_upd [OF e] fr_upd [OF e] slp_upd [OF e] th show ?thesis
    by (intro exI [of _ ?k]) (auto simp: set_status_def fr_def slp_def)
qed

lemma kinv_magic: "kinv k \<Longrightarrow> threads k t = Some th \<Longrightarrow> magic th = THREAD_MAGIC"
  by (auto simp: kinv_def threads_wf_def)

lemma yield_returns:
  assumes K: "kinv k" and f: "follows k fs"
  shows "returns (thread_yield k fs)"
proof -
  let ?r = "running k" and ?g = "Intr_set_level (intr_on k) # fs"
  let ?k0 = "intr_disable k"
  let ?k1 = "if ?r \<noteq> idle_thread ?k0 then ?k0\<lparr>ready_list := ready_list ?k0 @ [?r]\<rparr> else ?k0"
  have run: "st k ?r = Some THREAD_RUNNING" and ok: "sched_ok (view k)" and ic: "\<not> in_external_intr k"
    using K by (simp_all add: kinv_def one_runs_def threads_wf_def)
  have T: "threads ?k1 = threads k" by (simp add: intr_disable_def)
  note v = views_cong [OF T]
  obtain k2 where k2: "set_status ?k1 ?r THREAD_READY = Some k2" "k2 = ?k1\<lparr>threads := threads k2\<rparr>"
      "st k2 = (st k)(?r \<mapsto> THREAD_READY)" "fr k2 = fr k" "slp k2 = slp k"
      "\<forall>t th. threads k2 t = Some th \<longrightarrow> magic th = THREAD_MAGIC"
    using set_status_views [of ?k1 ?r THREAD_RUNNING THREAD_READY] run v kinv_magic [OF K] T by metis
  have p: "running k2 = ?r" "\<not> intr_on k2" "\<not> in_external_intr k2" "holder k2 = holder k" "semas k2 = semas k"
      "ready_list k2 = (if ?r = idle_thread k then ready_list k else ready_list k @ [?r])"
      "sleepList k2 = sleepList k" "all_threads k2 = all_threads k" "idle_thread k2 = idle_thread k"
      "initial_thread k2 = initial_thread k"
    using ic by (subst k2(2), simp add: intr_disable_def)+
  have fit: "frames_fit (view k) ?r ?g" by (rule follows_fit [OF K f]) simp_all
  have "(view k2)\<lparr>FR := (fr k)(?r := ?g)\<rparr> =
      (stopped (view k) ?r THREAD_READY ?g)\<lparr>RL := (if ?r = IDLE (view k) then RL (view k) else RL (view k) @ [?r])\<rparr>"
    using k2 p by (simp add: view_def stopped_def wait_lists_def [abs_def])
  then have ok2: "sched_ok ((view k2)\<lparr>FR := (fr k)(?r := ?g)\<rparr>)"
    using yielded_ok [OF ok _ fit] run by simp
  have "tok_ok ?g" using f by (intro tok_ok_Cons0) (simp_all add: follows_def)
  then have "returns (schedule k2 ?g)"
    using k2 p f by (intro schedule_returns [OF K _ _ ok2]) (auto simp: stopped_in_def follows_def own_waiter_Cons)
  then show ?thesis
    using ic k2(1) by (simp add: thread_yield_def thread_current_eq [OF K] intr_context_def intr_get_level_def Let_def)
qed

text \<open>\<open>thread_block\<close>, called in a state \<open>K\<close> that differs from \<open>k\<close> in the lists and
  the time to sleep only.\<close>

definition about_to_block :: "kernel \<Rightarrow> kernel \<Rightarrow> bool" where
  "about_to_block k K \<longleftrightarrow> running K = running k \<and> st K = st k \<and> fr K = fr k \<and>
     (\<forall>t th. threads K t = Some th \<longrightarrow> magic th = THREAD_MAGIC) \<and> \<not> intr_on K \<and> \<not> in_external_intr K \<and>
     holder K = holder k \<and> (\<forall>l. val (semas K (OfLock l)) = val (semas k (OfLock l)))"

lemma block_returns:
  assumes K: "kinv k" and B: "about_to_block k K"
    and ok: "sched_ok ((view K)\<lparr>ST := (st k)(running k \<mapsto> THREAD_BLOCKED), FR := (fr k)(running k := g)\<rparr>)"
    and g: "stack_ok g (held k (running k)) False" "tok_ok g" "own_waiter (running k) g"
      "\<And>l. tok l g = tok l (fr k (running k))"
  shows "returns (thread_block K g)"
proof -
  let ?r = "running k"
  note BB = B [unfolded about_to_block_def]
  have run: "st K ?r = Some THREAD_RUNNING" using K BB by (simp add: kinv_def one_runs_def)
  have rn: "?r \<noteq> NULL" using K by (elim kinv_running)
  obtain k2 where k2: "set_status K ?r THREAD_BLOCKED = Some k2" "k2 = K\<lparr>threads := threads k2\<rparr>"
      "st k2 = (st k)(?r \<mapsto> THREAD_BLOCKED)" "fr k2 = fr k" "slp k2 = slp K"
      "\<forall>t th. threads k2 t = Some th \<longrightarrow> magic th = THREAD_MAGIC"
    using set_status_views [OF run, of THREAD_BLOCKED] BB by metis
  have p: "running k2 = ?r" "\<not> intr_on k2" "\<not> in_external_intr k2" "holder k2 = holder k" "semas k2 = semas K"
      "ready_list k2 = ready_list K" "sleepList k2 = sleepList K" "all_threads k2 = all_threads K"
      "idle_thread k2 = idle_thread K" "initial_thread k2 = initial_thread K"
    using BB by (subst k2(2), simp)+
  have "(view k2)\<lparr>FR := (fr k)(?r := g)\<rparr> = (view K)\<lparr>ST := (st k)(?r \<mapsto> THREAD_BLOCKED), FR := (fr k)(?r := g)\<rparr>"
    using k2 p by (simp add: view_def wait_lists_def [abs_def])
  with ok have ok2: "sched_ok ((view k2)\<lparr>FR := (fr k)(?r := g)\<rparr>)" by simp
  have "returns (schedule k2 g)"
    using k2 p g BB by (intro schedule_returns [OF K _ _ ok2]) (auto simp: stopped_in_def)
  moreover have "thread_current K = Some ?r"
    using threads_of_st [OF run] BB rn by (auto simp: thread_current_def is_thread_def)
  ultimately show ?thesis
    using k2(1) BB by (simp add: thread_block_def intr_context_def intr_get_level_def)
qed

lemma exec_Sema_loop_waits:
  assumes K: "kinv k" and f: "fr k (running k) = Sema_loop s # fs" and v: "val (semas k s) = 0"
  shows "returns (sema_down_loop k s fs)"
proof -
  let ?r = "running k" and ?g = "Sema_loop s # fs"
  let ?K = "upd_sema k s ((semas k s)\<lparr>waiters := waiters (semas k s) @ [?r]\<rparr>)"
  note t = top_facts [OF K f]
  have T: "threads ?K = threads k" by simp
  note w = views_cong [OF T]
  have run: "st k ?r = Some THREAD_RUNNING" and ok: "sched_ok (view k)"
    using K by (simp_all add: kinv_def one_runs_def)
  have "frames_fit (view k) ?r ?g" using t(6) f by (intro fit_same [OF K f]) auto
  from waiting_ok [OF ok _ this] run
  have "sched_ok ((view ?K)\<lparr>ST := (st k)(?r \<mapsto> THREAD_BLOCKED), FR := (fr k)(?r := ?g)\<rparr>)"
    using w by (simp add: view_def stopped_def wait_lists_def [abs_def] fun_upd_def if_distrib cong: if_cong)
  moreover have "about_to_block k ?K"
    using w t(1,7) kinv_magic [OF K] by (auto simp: about_to_block_def intr_context_def)
  ultimately have "returns (thread_block ?K ?g)"
    using t f by (intro block_returns [OF K]) auto
  then show ?thesis using v by (simp add: sema_down_loop_def Let_def thread_current_eq [OF K])
qed

lemma follows_top:
  assumes K: "kinv k" and f: "fr k (running k) = f # fs"
    and g: "newborn (f # fs) = newborn fs" "running k = idle_thread k \<Longrightarrow> idle_shape fs"
      "stack_ok fs (held k (running k)) (intr_on k)" "\<And>l. tokf l f = 0"
      "num_ok (f # fs) \<Longrightarrow> num_ok fs"
  shows "follows k fs"
  using top_facts [OF K f] f g by (auto simp: follows_def own_waiter_Cons)

lemma exec_Thread_yield:
  assumes K: "kinv k" and f: "fr k (running k) = Thread_yield # fs"
  shows "returns (thread_yield k fs)"
  using top_facts(1,6) [OF K f] by (intro yield_returns [OF K] follows_top [OF K f]) auto

lemma exec_Timer_sleep:
  assumes K: "kinv k" and f: "fr k (running k) = Timer_sleep n # fs"
  shows "returns (timer_sleep k n fs)"
proof -
  let ?r = "running k" and ?g = "Intr_set_level True # fs"
  note t = top_facts [OF K f]
  have lev: "intr_on k" and ni: "?r \<noteq> idle_thread k" using t(1,6) by auto
  obtain th where th: "threads k ?r = Some th" "status th = THREAD_RUNNING" "frames th = fr k ?r"
    using K by (elim kinv_running)
  have run: "st k ?r = Some THREAD_RUNNING" and ok: "sched_ok (view k)"
    using K by (simp_all add: kinv_def one_runs_def)
  have tg: "tok_ok ?g" using t(3) by (intro tok_ok_Cons0) simp_all
  have 1: "returns (set_frames k ?r fs)"
    using t lev by (intro plain_exec [OF K f same_threads_eq [OF K refl]]) (simp_all add: own_waiter_Cons)
  let ?K = "(upd_thread (intr_disable k) ?r (th\<lparr>sleepTick := n\<rparr>))\<lparr>sleepList := sleepList k @ [?r]\<rparr>"
  have "returns (thread_block ?K ?g)" if n: "0 < n"
  proof -
    have e: "threads ?K = (threads k)(?r \<mapsto> th\<lparr>sleepTick := n\<rparr>)" by (simp add: intr_disable_def)
    have w: "st ?K = st k" "fr ?K = fr k" "slp ?K = (slp k)(?r := n)"
      using st_upd [OF e] fr_upd [OF e] slp_upd [OF e] th run by auto
    have "frames_fit (view k) ?r ?g" using t(6) f by (intro fit_same [OF K f]) auto
    from sleeping_ok [OF ok _ _ this n] run ni
    have "sched_ok ((view ?K)\<lparr>ST := (st k)(?r \<mapsto> THREAD_BLOCKED), FR := (fr k)(?r := ?g)\<rparr>)"
      using w by (simp add: view_def stopped_def wait_lists_def [abs_def] intr_disable_def)
    moreover have "about_to_block k ?K"
      using w t(7) kinv_magic [OF K] th by (auto simp: about_to_block_def intr_context_def intr_disable_def)
    ultimately show ?thesis
      using t f tg by (intro block_returns [OF K]) (auto simp: own_waiter_Cons)
  qed
  with 1 show ?thesis using lev ni th t(7)
    by (simp add: timer_sleep_eq intr_context_def ThreadSleep_def thread_current_eq [OF K] intr_get_level_def Let_def intr_disable_def)
qed

lemma exec_Idle_loop:
  assumes K: "kinv k" and f: "fr k (running k) = Idle_loop # fs"
  shows "returns (exec k page Idle_loop fs)"
proof -
  let ?r = "running k" and ?g = "Idle_hlt # fs" and ?K = "intr_disable k"
  note t = top_facts [OF K f]
  have T: "threads ?K = threads k" by (simp add: intr_disable_def)
  note w = views_cong [OF T]
  have run: "st k ?r = Some THREAD_RUNNING" and ok: "sched_ok (view k)"
    using K by (simp_all add: kinv_def one_runs_def)
  have "frames_fit (view k) ?r ?g" using t(1,6) f by (intro fit_same [OF K f]) auto
  from idling_ok [OF ok _ this] run
  have "sched_ok ((view ?K)\<lparr>ST := (st k)(?r \<mapsto> THREAD_BLOCKED), FR := (fr k)(?r := ?g)\<rparr>)"
    using w by (simp add: view_def stopped_def wait_lists_def [abs_def] intr_disable_def)
  moreover have "about_to_block k ?K"
    using w t(7) kinv_magic [OF K] T by (auto simp: about_to_block_def intr_context_def intr_disable_def)
  ultimately have "returns (thread_block ?K ?g)"
    using t f by (intro block_returns [OF K]) (auto simp: own_waiter_Cons)
  then show ?thesis by (simp add: exec_def idle_block_def idle_hlt_def)
qed

section \<open>Exit\<close>

lemma sched_ok_slp:
  "sched_ok v \<Longrightarrow> (\<And>t. t \<in> set (SL v) \<Longrightarrow> n t = SLP v t) \<Longrightarrow> sched_ok (v\<lparr>SLP := n\<rparr>)"
  by (auto simp: sched_ok_def sleep_ok_def)

lemma lock_tokens_others:
  assumes fin: "finite (dom (threads k))" "finite (dom (threads k'))"
    and same: "holder k' l = holder k l" "semas k' (OfLock l) = semas k (OfLock l)" "\<And>u. tok l (fr k' u) = tok l (fr k u)"
  shows "lock_tokens k' l = lock_tokens k l"
proof -
  have ext: "(\<Sum>t\<in>dom (threads x). tok l (fr x t)) = (\<Sum>t\<in>D. tok l (fr x t))"
    if "finite D" "dom (threads x) \<subseteq> D" for x D
    using that by (intro sum.mono_neutral_left) (auto simp: fr_def domIff)
  let ?D = "dom (threads k) \<union> dom (threads k')"
  show ?thesis using ext [of ?D k] ext [of ?D k'] fin same by (simp add: lock_tokens_def)
qed

lemma exec_Thread_exit:
  assumes K: "kinv k" and f: "fr k (running k) = Thread_exit # fs"
  shows "returns (thread_exit k)"
proof -
  let ?r = "running k" and ?s = "if running k = initial_thread k then Some THREAD_DYING else None"
  note kk = K [unfolded kinv_def]
  note t = top_facts [OF K f]
  have fs: "fs = []" and nh: "held k ?r = {}" and ni: "?r \<noteq> idle_thread k" using t(1,6) by auto
  have run: "st k ?r = Some THREAD_RUNNING" and ok: "sched_ok (view k)"
    using K by (simp_all add: kinv_def one_runs_def)
  have rn: "?r \<noteq> NULL" using K by (elim kinv_running)
  note rf = running_facts [OF ok, simplified, OF run]
  let ?k1 = "(intr_disable k)\<lparr>all_threads := remove1 ?r (all_threads k)\<rparr>"
  have T: "threads ?k1 = threads k" by (simp add: intr_disable_def)
  note w = views_cong [OF T]
  obtain K2 where K2: "set_status ?k1 ?r THREAD_DYING = Some K2" "K2 = ?k1\<lparr>threads := threads K2\<rparr>"
      "st K2 = (st k)(?r \<mapsto> THREAD_DYING)" "fr K2 = fr k" "slp K2 = slp k"
      "\<forall>t th. threads K2 t = Some th \<longrightarrow> magic th = THREAD_MAGIC"
    using set_status_views [of ?k1 ?r THREAD_RUNNING THREAD_DYING] run w kinv_magic [OF K] T by metis
  have p: "running K2 = ?r" "\<not> intr_on K2" "in_external_intr K2 = in_external_intr k" "holder K2 = holder k"
      "semas K2 = semas k" "ready_list K2 = ready_list k" "sleepList K2 = sleepList k"
      "all_threads K2 = remove1 ?r (all_threads k)" "idle_thread K2 = idle_thread k" "initial_thread K2 = initial_thread k"
    by (subst K2(2), simp add: intr_disable_def)+
  let ?v = "(view k)\<lparr>ST := (st k)(?r := ?s), FR := (fr k)(?r := []), AL := remove1 ?r (all_threads k)\<rparr>"
  have okv: "sched_ok ?v" using exited_ok [OF ok, of ?r ?s] run ni by simp
  have none: "none_runs ?v" using kk by (auto simp: none_runs_def one_runs_def)
  define p' where "p' = pick ?v"
  have pv: "pick (view K2) = p'" using p by (simp add: p'_def pick_def split: list.split)
  have pr: "p' \<noteq> ?r" using rf(1) ni by (auto simp: p'_def pick_def split: list.split)
  obtain c where c: "threads K2 ?r = Some c" "status c = THREAD_DYING" "sleepTick c = slp k ?r"
    using threads_of_st [of K2 ?r THREAD_DYING] K2 by auto
  have "st K2 p' = st k p'" "\<exists>s. st k p' = Some s" using pick_facts(1) [OF okv] pr K2 by (auto simp: p'_def [symmetric])
  then obtain n where n: "threads K2 p' = Some n" using threads_of_st by fastforce
  have pn: "p' \<noteq> NULL"
    using n kk K2(3) run unfolding threads_wf_def by (metis dom_st domI domD fun_upd_triv pr st_def option.simps(9) map_option_eq_Some fun_upd_apply)
  obtain k' where k': "schedule K2 [] = Some k'" "running k' = p'" "ready_list k' = tl (ready_list K2)" "same_rest K2 k'"
    and T': "threads k' = (\<lambda>t. if t = ?r \<and> status c = THREAD_DYING \<and> ?r \<noteq> initial_thread K2 then None
        else if t = p' then Some (if t = ?r then c\<lparr>frames := [], status := THREAD_RUNNING\<rparr> else n\<lparr>status := THREAD_RUNNING\<rparr>)
        else if t = ?r then Some (c\<lparr>frames := []\<rparr>) else threads K2 t)"
    using schedule_threads [of ?r K2 c n "[]"] K2 p c n pn pr rn pv by auto
  have st': "st k' = (st k)(?r := ?s, p' \<mapsto> THREAD_RUNNING)"
    using K2(3) c p pr by (auto simp: st_def T' fun_eq_iff)
  have "fr k p' = frames n" using n K2(4) by (metis fr_def option.simps(5))
  then have fr': "fr k' = (fr k)(?r := [])"
    using K2(4) pr c p by (auto simp: fr_def T' fun_eq_iff)
  have "slp k p' = sleepTick n" using n K2(5) by (metis slp_def option.simps(5))
  then have slp': "slp k' t = slp k t" if "t \<noteq> ?r" for t
    using K2(5) that by (auto simp: slp_def T' fun_eq_iff)
  have v': "view k' = (switched ?v)\<lparr>SLP := slp k'\<rparr>"
    unfolding switched_def p'_def [symmetric]
    by (rule view_eqI) (use st' fr' k'(3,4) p in \<open>simp_all add: same_rest_def wait_lists_def [abs_def]\<close>)
  have "SL (switched ?v) = sleepList k" "SLP (switched ?v) = slp k" by (simp_all add: switched_def)
  then have "sched_ok (view k')"
    unfolding v' using slp' rf(3) by (intro sched_ok_slp [OF switched_ok(1) [OF okv none]]) metis
  moreover have "one_runs (view k') (running k')"
    using switched_ok(2) [OF okv none] unfolding v' p'_def [symmetric] k'(2) by (simp add: one_runs_def)
  moreover have al: "alive k' t \<longleftrightarrow> alive k t \<and> t \<noteq> ?r" for t
    using pick_facts(1) [OF okv] pr unfolding p'_def [symmetric] by (auto simp: alive_def st')
  have dom: "dom (threads k') \<subseteq> dom (threads k)"
    using pick_facts(1) [OF okv] pr run unfolding p'_def [symmetric] by (auto simp: dom_st st' split: if_splits)
  have "threads_wf k'"
    unfolding threads_wf_def
  proof (intro conjI allI impI)
    show "finite (dom (threads k'))" using dom kk finite_subset unfolding threads_wf_def by blast
    show "\<not> in_external_intr k'" using kk p k'(4) by (simp add: same_rest_def threads_wf_def)
    fix t th assume t: "threads k' t = Some th"
    have "magic c = THREAD_MAGIC" "magic n = THREAD_MAGIC" using c n K2(6) by blast+
    with t K2(6) show "magic th = THREAD_MAGIC" by (auto simp: T' split: if_splits)
    have "t \<in> dom (threads k)" using t dom by blast
    then show "t \<noteq> NULL" using kk unfolding threads_wf_def by blast
  qed
  moreover have "stacks_wf k'"
    unfolding stacks_wf_def
  proof (intro conjI allI impI)
    fix t assume "alive k' t"
    then have "stack_ok (fr k t) (held k t) (t = running k \<and> intr_on k)" "t \<noteq> ?r" using kk al unfolding stacks_wf_def by blast+
    moreover have "held k' t = held k t" using k'(4) p by (simp add: held_def same_rest_def)
    moreover have "\<not> intr_on k'" using k'(4) p by (simp add: same_rest_def)
    ultimately show "stack_ok (fr k' t) (held k' t) (t = running k' \<and> intr_on k')" by (simp add: fr')
  next
    fix t show "tok_ok (fr k' t)" "own_waiter t (fr k' t)" using kk by (simp_all add: fr' stacks_wf_def own_waiter_def)
  next
    fix t assume "st k' t = Some THREAD_DYING"
    then have "t = ?r \<or> st k t = Some THREAD_DYING" by (auto simp: st' split: if_splits)
    then show "fr k' t = []" using kk by (auto simp: fr' stacks_wf_def)
  next
    fix l assume h: "holder k' l \<noteq> NULL"
    have e: "holder k' = holder k" using k'(4) p by (simp add: same_rest_def)
    moreover have "holder k l \<noteq> ?r" using nh by (auto simp: held_def)
    ultimately show "alive k' (holder k' l)" using h kk al unfolding stacks_wf_def by metis
  next
    fix l
    have "finite (dom (threads k))" "finite (dom (threads k'))" using kk dom finite_subset unfolding threads_wf_def by blast+
    then have "lock_tokens k' l = lock_tokens k l"
      using k'(4) p f fs by (intro lock_tokens_others) (auto simp: same_rest_def fr')
    then show "lock_tokens k' l = 1" using kk by (simp add: stacks_wf_def)
  qed
  ultimately have "kinv k'" by (simp add: kinv_def)
  then have "returns (schedule K2 [])" using k'(1) by (auto intro: returnsI)
  moreover have "?r \<in> set (all_threads k)" using rf(5) by simp
  moreover have "thread_current (intr_disable k) = Some ?r"
    using thread_current_eq [OF K] by (simp add: thread_current_def is_thread_def intr_disable_def)
  ultimately show ?thesis using K2(1) t(7) by (simp add: thread_exit_def intr_disable_def)
qed

end
