(* ===== verification/Threads_Wake.thy ===== *)
theory Threads_Wake
  imports Threads_Switch
begin

text \<open>
  Preservation of the machine's invariant by the frames that make another thread ready
  (\<open>sema_up\<close>, the two halves of \<open>thread_create\<close>) and by the timer interrupt, which ends the
  sleep of threads; and the theorem that no step of the machine fails and every step keeps the
  invariant.
\<close>

section \<open>Making a thread ready\<close>

text \<open>\<open>k'\<close> is \<open>K\<close> after the blocked thread \<open>t\<close> was made ready.\<close>

definition readied :: "kernel \<Rightarrow> ptr \<Rightarrow> kernel \<Rightarrow> bool" where
  "readied K t k' \<longleftrightarrow> k' = K\<lparr>threads := threads k', ready_list := ready_list K @ [t]\<rparr> \<and>
     st k' = (st K)(t \<mapsto> THREAD_READY) \<and> fr k' = fr K \<and> slp k' = slp K \<and>
     (\<forall>u th. threads k' u = Some th \<longrightarrow> magic th = THREAD_MAGIC)"

lemma readied_same:
  assumes "readied K t k'"
  shows "running k' = running K" "ready_list k' = ready_list K @ [t]" "semas k' = semas K" "holder k' = holder K"
    "sleepList k' = sleepList K" "all_threads k' = all_threads K" "idle_thread k' = idle_thread K"
    "initial_thread k' = initial_thread K" "intr_on k' = intr_on K" "in_external_intr k' = in_external_intr K"
    "yield_on_return k' = yield_on_return K" "ticks k' = ticks K" "cond_waiters k' = cond_waiters K"
  by (subst conjunct1 [OF assms [unfolded readied_def]], simp)+

lemma unblock_readies:
  assumes t: "st K t = Some THREAD_BLOCKED" "t \<noteq> NULL" and M: "\<And>t th. threads K t = Some th \<Longrightarrow> magic th = THREAD_MAGIC"
    and ic: "intr_on K \<Longrightarrow> \<not> in_external_intr K"
  shows "\<exists>k'. thread_unblock K t = Some k' \<and> readied K t k'"
proof -
  obtain th where th: "threads K t = Some th" "status th = THREAD_BLOCKED" using threads_of_st [OF t(1)] by blast
  have m: "magic th = THREAD_MAGIC" using M th by blast
  let ?k = "(upd_thread K t (th\<lparr>status := THREAD_READY\<rparr>))\<lparr>ready_list := ready_list K @ [t]\<rparr>"
  have e: "threads ?k = (threads K)(t \<mapsto> th\<lparr>status := THREAD_READY\<rparr>)" by simp
  have "readied K t ?k"
    using st_upd [OF e] fr_upd [OF e] slp_upd [OF e] th M m by (auto simp: readied_def fr_def slp_def)
  moreover have "thread_unblock K t = Some ?k"
    using th m t ic by (auto simp: thread_unblock_def is_thread_def set_status_def intr_set_level_def intr_enable_def
        intr_disable_def intr_get_level_def intr_context_def Let_def)
  ultimately show ?thesis by blast
qed

lemma readied_step:
  assumes K: "kinv k" and t: "st k t = Some THREAD_BLOCKED"
    and k': "st k' = (st k)(t \<mapsto> THREAD_READY)" "fr k' = (fr k)(running k := g)" "running k' = running k"
      "\<And>t th. threads k' t = Some th \<Longrightarrow> magic th = THREAD_MAGIC" "holder k' = holder k" "\<not> in_external_intr k'"
    and ok: "sched_ok (view k')" and S: "stack_ok g (held k (running k)) (intr_on k')" "tok_ok g" "own_waiter (running k) g"
    and tc: "\<And>l. token_change k k' l + (tok l g - tok l (fr k (running k))) = 0"
  shows "kinv k'"
proof (rule run_step [OF K refl k'(3)])
  have run: "st k u = Some THREAD_RUNNING \<longleftrightarrow> u = running k" for u using K by (simp add: kinv_def one_runs_def)
  show "one_runs (view k') (running k)" using run [of t] run t k'(1) by (auto simp: one_runs_def split: if_splits)
  show "alive k' u = alive k u" for u using t by (auto simp: alive_def k'(1))
  show "dom (threads k') = dom (threads k)" using t by (auto simp: dom_st k'(1) split: if_splits)
  show "stack_ok g (held k' (running k)) (intr_on k')" using S(1) k'(5) by (simp add: held_def)
qed (use assms in \<open>auto split: if_splits\<close>)

lemma view_readied:
  "readied K t k' \<Longrightarrow> view k' = (view K)\<lparr>ST := (st K)(t \<mapsto> THREAD_READY), RL := ready_list K @ [t]\<rparr>"
  using readied_same [of K t k'] by (simp add: readied_def view_def wait_lists_def [abs_def])

section \<open>Semaphores\<close>

lemma val_up0: "(w :: u32) = 0 \<Longrightarrow> uint (w + 1) = uint w + 1"
  by simp

lemma sema_up_tokens:
  assumes K: "kinv k" and f: "fr k (running k) = Sema_up s # fs"
    and H: "holder k' = holder k" and v: "semas k' = (semas k)(s := sm)" "val sm = val (semas k s) + 1"
  shows "token_change k k' l + (tok l fs - tok l (fr k (running k))) = 0"
proof (cases "s = OfLock l")
  case True
  have "1 \<le> tok l (fr k (running k))" using tok_ok_nonneg [OF top_facts(3) [OF K f]] True f by simp
  from token_excl(2) [OF K this] show ?thesis using True f H v by (simp add: token_change_def)
next
  case False
  then have "tokf l (Sema_up s) = 0" by (cases s) auto
  with False f H v show ?thesis by (simp add: token_change_def)
qed

lemma exec_Sema_up:
  assumes K: "kinv k" and f: "fr k (running k) = Sema_up s # fs"
  shows "returns (exec k page (Sema_up s) fs)"
proof (cases "waiters (semas k s)")
  case Nil
  let ?K = "(upd_sema k s ((semas k s)\<lparr>val := val (semas k s) + 1\<rparr>))\<lparr>intr_on := intr_on k\<rparr>"
  note t = top_facts [OF K f]
  have "returns (set_frames ?K (running k) fs)"
  proof (rule local_exec [OF K f])
    show "same_threads k ?K" using K by (simp add: same_threads_eq)
    show "same_lists k ?K" by (auto simp: same_lists_def wait_lists_def)
    show "running k = idle_thread k \<Longrightarrow> idle_shape fs" using t(6) by simp
    show "stack_ok fs (held ?K (running k)) (intr_on ?K)" using t(1) by (simp add: held_def)
    show "own_waiter (running k) fs" using t(8) by (simp add: own_waiter_Cons)
    show "token_change k ?K l + (tok l fs - tok l (Sema_up s # fs)) = 0" for l
      using sema_up_tokens [OF K f, of ?K _ l] f by simp
  qed (use t(3) in simp_all)
  moreover have "sema_up k s = Some ?K" using Nil t(1,7)
    by (simp add: sema_up_def Let_def intr_disable_def intr_get_level_def intr_set_level_def intr_enable_def intr_context_def)
  ultimately show ?thesis by (simp add: exec_def)
next
  case (Cons t ts)
  note tf = top_facts [OF K f]
  let ?r = "running k" and ?sm = "semas k s"
  have ok: "sched_ok (view k)" and run: "st k ?r = Some THREAD_RUNNING" using K by (simp_all add: kinv_def one_runs_def)
  have tw: "t \<in> set (WL (view k) s)" using Cons by (simp add: wait_lists_def)
  have tb: "st k t = Some THREAD_BLOCKED" using waiter_facts(1) [OF ok tw] by simp
  have tn: "t \<noteq> NULL" using alive_nonnull [of k t] tb K by (simp add: alive_def kinv_def)
  let ?K1 = "upd_sema (intr_disable k) s (?sm\<lparr>waiters := ts\<rparr>)"
  have T: "threads ?K1 = threads k" by (simp add: intr_disable_def)
  note w = views_cong [OF T]
  obtain K2 where K2: "thread_unblock ?K1 t = Some K2" "readied ?K1 t K2"
    using unblock_readies [of ?K1 t] w tb tn kinv_magic [OF K] T by (auto simp: intr_disable_def)
  note p = readied_same [OF K2(2)] and q = K2(2) [unfolded readied_def w]
  let ?K3 = "(upd_sema K2 s ((semas K2 s)\<lparr>val := val ?sm + 1\<rparr>))\<lparr>intr_on := intr_on k\<rparr>"
  have T3: "threads ?K3 = threads K2" by simp
  note w3 = views_cong [OF T3]
  have "same_threads ?K3 ?K3" using q T3 unfolding same_threads_def by metis
  moreover have "st ?K3 ?r = Some THREAD_RUNNING" using q w3 run tb by auto
  ultimately obtain k' where k': "set_frames ?K3 ?r fs = Some k'"
      "st k' = st K2" "slp k' = slp K2" "fr k' = (fr K2)(?r := fs)"
      "\<And>t th. threads k' t = Some th \<Longrightarrow> magic th = THREAD_MAGIC" "k' = ?K3\<lparr>threads := threads k'\<rparr>"
    using set_frames_views [of ?K3 ?K3 ?r THREAD_RUNNING fs] unfolding w3 by blast
  have p': "running k' = ?r" "ready_list k' = ready_list k @ [t]" "sleepList k' = sleepList k"
      "semas k' = (semas k)(s := ?sm\<lparr>waiters := ts, val := val ?sm + 1\<rparr>)" "holder k' = holder k"
      "all_threads k' = all_threads k" "idle_thread k' = idle_thread k" "initial_thread k' = initial_thread k"
      "intr_on k' = intr_on k" "in_external_intr k' = in_external_intr k"
    by (subst k'(6), simp add: p intr_disable_def)+
  have s': "st k' = (st k)(t \<mapsto> THREAD_READY)" "fr k' = (fr k)(?r := fs)" "slp k' = slp k"
    using k' q by simp_all
  have fit: "frames_fit (view k) ?r fs" using tf(6) by (intro fit_same [OF K f]) auto
  have "view k' = (view k)\<lparr>FR := (fr k)(?r := fs), WL := (wait_lists k)(s := ts), ST := (st k)(t \<mapsto> THREAD_READY),
      RL := ready_list k @ [t]\<rparr>"
    by (rule view_eqI) (use s' p' in \<open>simp_all add: wait_lists_def fun_eq_iff\<close>)
  then have ok': "sched_ok (view k')"
    using awaited_ok [OF reframed_ok [OF ok _ fit], of s t ts] run Cons by (simp add: wait_lists_def)
  have "kinv k'"
  proof (rule readied_step [OF K tb s'(1,2) p'(1) k'(5) p'(5) _ ok' _ tf(3)])
    show "token_change k k' l + (tok l fs - tok l (fr k (running k))) = 0" for l
      by (rule sema_up_tokens [OF K f p'(5,4)]) simp
    show "own_waiter ?r fs" using tf(8) by (simp add: own_waiter_Cons)
  qed (use p' tf(1,7) in \<open>simp_all add: intr_context_def\<close>)
  moreover have "sema_up k s = Some ?K3"
    using K2(1) Cons p tf(1,7)
    by (simp add: sema_up_def Let_def intr_disable_def intr_get_level_def intr_set_level_def intr_enable_def intr_context_def)
  ultimately show ?thesis using k'(1) by (auto simp: exec_def intro: returnsI)
qed

section \<open>Creation\<close>

lemma exec_Thread_create_fails:
  assumes K: "kinv k" and f: "fr k (running k) = Thread_create nm prio ok func # fs"
  shows "returns (thread_create k NULL nm prio ok func fs)"
proof -
  note t = top_facts [OF K f]
  have run: "st k (running k) = Some THREAD_RUNNING" using K by (simp add: kinv_def one_runs_def)
  obtain K2 where K2: "set_result k (running k) TID_ERROR = Some K2" "same_threads k K2" "K2 = k\<lparr>threads := threads K2\<rparr>"
    using set_result_views [OF same_threads_eq [OF K refl] run] by blast
  have p: "holder K2 = holder k" "intr_on K2 = intr_on k" "semas K2 = semas k" by (subst K2(3), simp)+
  have "returns (set_frames K2 (running k) fs)"
    using t p by (intro plain_exec [OF K f K2(2) same_lists_threads [OF same_lists_upd(1) K2(3)]])
      (simp_all add: own_waiter_Cons)
  then show ?thesis using t(1) by (simp add: thread_create_def thread_current_eq [OF K] K2(1))
qed

lemma exec_Thread_create:
  assumes K: "kinv k" and f: "fr k (running k) = Thread_create nm prio ok func # fs"
    and pg: "page \<noteq> NULL" "threads k page = None"
  shows "returns (thread_create k page nm prio ok func fs)"
proof -
  let ?r = "running k"
  let ?g = "Lock_acquire tid_lock # Next_tid page # Lock_release tid_lock # Create_tail page ok # fs"
  note kk = K [unfolded kinv_def] and t = top_facts [OF K f]
  have ni: "?r \<noteq> idle_thread k" and body: "func = Some []" and prio: "PRI_MIN \<le> prio" "prio \<le> PRI_MAX"
    and tl: "tid_lock \<notin> held k ?r" using t(1,6) by auto
  have run: "st k ?r = Some THREAD_RUNNING" and ok: "sched_ok (view k)" using kk by (simp_all add: one_runs_def)
  have rp: "?r \<noteq> page" using run pg by (auto simp: st_def)
  obtain K1 th where K1: "init_thread k page nm prio [Kernel_thread] = Some K1" "threads K1 = (threads k)(page \<mapsto> th)"
      "K1 = k\<lparr>threads := threads K1, all_threads := all_threads k @ [page]\<rparr>"
      "status th = THREAD_BLOCKED" "frames th = [Kernel_thread]" "sleepTick th = 0" "magic th = THREAD_MAGIC"
    using pg prio by (simp add: init_thread_def Let_def)
  have v1: "st K1 = (st k)(page \<mapsto> THREAD_BLOCKED)" "fr K1 = (fr k)(page := [Kernel_thread])" "slp K1 = slp k"
    using st_upd [OF K1(2)] fr_upd [OF K1(2)] slp_upd [OF K1(2)] K1 pg by (auto simp: slp_def)
  have "same_threads K1 K1" using kinv_magic [OF K] K1(2,7) by (auto simp: same_threads_def)
  then obtain k' where k': "set_frames K1 ?r ?g = Some k'" "st k' = st K1" "slp k' = slp K1" "fr k' = (fr K1)(?r := ?g)"
      "\<And>t th. threads k' t = Some th \<Longrightarrow> magic th = THREAD_MAGIC" "k' = K1\<lparr>threads := threads k'\<rparr>"
    using set_frames_views [of K1 K1 ?r THREAD_RUNNING ?g] run v1 rp by auto
  have p: "running k' = ?r" "ready_list k' = ready_list k" "sleepList k' = sleepList k" "semas k' = semas k"
      "holder k' = holder k" "all_threads k' = all_threads k @ [page]" "idle_thread k' = idle_thread k"
      "initial_thread k' = initial_thread k" "intr_on k' = intr_on k" "in_external_intr k' = in_external_intr k"
    by (subst k'(6), subst K1(3), simp)+
  have "view k' = (view k)\<lparr>ST := (st k)(page \<mapsto> THREAD_BLOCKED), FR := (fr k)(page := [Kernel_thread], ?r := ?g),
      AL := all_threads k @ [page]\<rparr>"
    by (rule view_eqI) (use k'(2-4) v1 p in \<open>simp_all add: wait_lists_def fun_eq_iff\<close>)
  moreover have "st k page = None" using pg by (simp add: st_def)
  ultimately have ok': "sched_ok (view k')"
    using created_ok [OF ok, of ?r page ?g] run ni t(5) f by simp
  have one: "one_runs (view k') ?r" using kk k'(2) v1 rp by (auto simp: one_runs_def)
  have dom: "dom (threads k') = insert page (dom (threads k))"
    using k'(2) v1 by (auto simp: dom_st split: if_splits)
  have al: "alive k' t \<longleftrightarrow> alive k t \<or> t = page" for t using k'(2) v1 by (auto simp: alive_def)
  have np: "\<not> alive k page" using pg by (simp add: alive_def st_def)
  have "threads_wf k'"
    using kk dom p pg k'(5) unfolding threads_wf_def by (metis domI finite_insert insertE domD)
  moreover have "stacks_wf k'"
    unfolding stacks_wf_def
  proof (intro conjI allI impI)
    fix u assume u: "alive k' u"
    have h: "held k' u = held k u" using p by (simp add: held_def)
    have hp: "held k page = {}" using kk np pg(1) by (auto simp: held_def stacks_wf_def)
    have hr: "insert tid_lock (held k ?r) - {tid_lock} = held k ?r" using tl by auto
    consider "u = page" | "u = ?r" | "alive k u" "u \<noteq> page" "u \<noteq> ?r" using al u by blast
    then show "stack_ok (fr k' u) (held k' u) (u = running k' \<and> intr_on k')"
    proof cases
      case 3
      then show ?thesis using kk p k'(4) v1 h by (auto simp: stacks_wf_def)
    qed (use k'(4) v1 h hp hr rp p tl t(1) in simp_all)
  next
    have "tok_ok ?g" using t(3) tok_ok_nonneg [OF t(3)] by simp
    then show "tok_ok (fr k' u)" for u using kk k'(4) v1 by (auto simp: stacks_wf_def)
    have "own_waiter ?r ?g" "own_waiter page [Kernel_thread]" using t(8) by (auto simp: own_waiter_def)
    then show "own_waiter u (fr k' u)" for u using kk k'(4) v1 by (auto simp: stacks_wf_def)
  next
    fix u assume "st k' u = Some THREAD_DYING"
    then have "u \<noteq> page" "u \<noteq> ?r" "st k u = Some THREAD_DYING" using k'(2) v1 run by (auto split: if_splits)
    then show "fr k' u = []" using kk k'(4) v1 by (simp add: stacks_wf_def)
  next
    fix l assume "holder k' l \<noteq> NULL"
    then show "alive k' (holder k' l)" using kk p al unfolding stacks_wf_def by metis
  next
    fix l
    have "tok l (fr k page) = 0" using pg by (simp add: fr_def)
    then have "lock_tokens k' l = lock_tokens k l"
      using kk dom p f k'(4) v1 by (intro lock_tokens_others) (auto simp: threads_wf_def)
    then show "lock_tokens k' l = 1" using kk by (simp add: stacks_wf_def)
  qed
  ultimately have "kinv k'" using ok' one p by (simp add: kinv_def)
  moreover have "thread_create k page nm prio ok func fs = Some k'"
    using K1(1) k'(1) pg body by (simp add: thread_create_def thread_current_eq [OF K])
  ultimately show ?thesis by (auto intro: returnsI)
qed

text \<open>The frames set up on the stack of the new thread.\<close>

lemma alloc_frames:
  assumes K: "kinv k" and t: "st k t = Some s"
  shows "\<exists>K1 K2 K3 th. alloc_frame k t 12 = Some K1 \<and> alloc_frame K1 t 4 = Some K2 \<and> alloc_frame K2 t 28 = Some K3 \<and>
     threads K3 t = Some th \<and> same_threads k K3 \<and> K3 = k\<lparr>threads := threads K3\<rparr>"
proof -
  obtain th where th: "threads k t = Some th" "status th = s" using threads_of_st [OF t] by blast
  have m: "magic th = THREAD_MAGIC" using kinv_magic [OF K th(1)] .
  have tn: "t \<noteq> NULL" using K th by (auto simp: kinv_def threads_wf_def)
  let ?th = "th\<lparr>stack := stack th - 12 - 4 - 28\<rparr>"
  let ?K = "upd_thread k t ?th"
  have e: "threads ?K = (threads k)(t \<mapsto> ?th)" by simp
  have "same_threads k ?K"
    using st_upd [OF e] fr_upd [OF e] slp_upd [OF e] th m kinv_magic [OF K]
    by (auto simp: same_threads_def st_def fr_def slp_def fun_eq_iff)
  then show ?thesis using th m tn by (simp add: alloc_frame_def is_thread_def)
qed

lemma exec_Create_tail:
  assumes K: "kinv k" and f: "fr k (running k) = Create_tail t ok # fs"
  shows "returns (thread_create_tail k t ok fs)"
proof -
  let ?r = "running k"
  note tf = top_facts [OF K f]
  have so: "sched_ok (view k)" and run: "st k ?r = Some THREAD_RUNNING" using K by (simp_all add: kinv_def one_runs_def)
  have nb: "t \<in> set (newborn (FR (view k) ?r))" using f by simp
  have tb: "st k t = Some THREAD_BLOCKED" using newborn_facts(1) [OF so nb] by simp
  have tn: "t \<noteq> NULL" using alive_nonnull [of k t] tb K by (simp add: alive_def kinv_def)
  obtain K1 K2 K3 th where A: "alloc_frame k t 12 = Some K1" "alloc_frame K1 t 4 = Some K2" "alloc_frame K2 t 28 = Some K3"
      "threads K3 t = Some th" "same_threads k K3" "K3 = k\<lparr>threads := threads K3\<rparr>"
    using alloc_frames [OF K tb] by blast
  note q3 = A(5) [unfolded same_threads_def]
  have S: "stack_ok fs (held k ?r) (intr_on k)" "tok_ok fs" "own_waiter ?r fs" "\<And>l. tok l fs = tok l (fr k ?r)"
    "distinct (newborn fs)" "num_ok fs" "?r = idle_thread k \<Longrightarrow> idle_shape fs" "newborn (fr k ?r) = t # newborn fs"
    using tf f by (simp_all add: own_waiter_Cons)
  show ?thesis
  proof (cases ok)
    case False
    obtain K4 where K4: "set_result K3 ?r TID_ERROR = Some K4" "same_threads k K4" "K4 = K3\<lparr>threads := threads K4\<rparr>"
      using set_result_views [OF A(5) run] by blast
    obtain k' where k': "set_frames K4 ?r fs = Some k'" "st k' = st k" "slp k' = slp k" "fr k' = (fr k)(?r := fs)"
        "\<And>t th. threads k' t = Some th \<Longrightarrow> magic th = THREAD_MAGIC" "k' = K4\<lparr>threads := threads k'\<rparr>"
      using set_frames_views [OF K4(2) run] by blast
    have e: "k' = k\<lparr>threads := threads k'\<rparr>" by (subst k'(6), subst K4(3), subst A(6), simp)
    have p: "holder k' = holder k" "semas k' = semas k" "intr_on k' = intr_on k" by (subst e, simp)+
    have "kinv k'"
    proof (rule local_step [OF K refl k'(2-5)])
      show "same_lists k k'" using same_lists_threads [OF same_lists_upd(1) e] .
      show "frames_fit (view k) ?r fs" using S f by (auto simp: frames_fit_def)
    qed (use S p in \<open>simp_all add: held_def token_change_def\<close>)
    then show ?thesis using A K4 k' False
      by (auto simp: thread_create_tail_def thread_current_eq [OF K] intro: returnsI)
  next
    case True
    have ic: "in_external_intr K3 = in_external_intr k" by (subst A(6), simp)
    obtain K4 where K4: "thread_unblock K3 t = Some K4" "readied K3 t K4"
      using unblock_readies [of K3 t] q3 tb tn ic tf(7) by (auto simp: intr_context_def)
    note q4 = K4(2) [unfolded readied_def] and p4 = readied_same [OF K4(2)]
    have r4: "st K4 ?r = Some THREAD_RUNNING" and s4: "same_threads K4 K4"
      using q4 q3 run tb by (auto simp: same_threads_def)
    obtain K5 where K5: "set_result K4 ?r (tid th) = Some K5" "same_threads K4 K5" "K5 = K4\<lparr>threads := threads K5\<rparr>"
      using set_result_views [OF s4 r4] by blast
    obtain k' where k': "set_frames K5 ?r fs = Some k'" "st k' = st K4" "slp k' = slp K4" "fr k' = (fr K4)(?r := fs)"
        "\<And>t th. threads k' t = Some th \<Longrightarrow> magic th = THREAD_MAGIC" "k' = K5\<lparr>threads := threads k'\<rparr>"
      using set_frames_views [OF K5(2) r4] by blast
    have v': "st k' = (st k)(t \<mapsto> THREAD_READY)" "fr k' = (fr k)(?r := fs)" "slp k' = slp k" using k' q4 q3 by simp_all
    have p3: "running K3 = ?r" "ready_list K3 = ready_list k" "sleepList K3 = sleepList k" "semas K3 = semas k"
        "holder K3 = holder k" "all_threads K3 = all_threads k" "idle_thread K3 = idle_thread k"
        "initial_thread K3 = initial_thread k" "intr_on K3 = intr_on k"
      by (subst A(6), simp)+
    have p: "running k' = ?r" "ready_list k' = ready_list k @ [t]" "sleepList k' = sleepList k" "semas k' = semas k"
        "holder k' = holder k" "all_threads k' = all_threads k" "idle_thread k' = idle_thread k"
        "initial_thread k' = initial_thread k" "intr_on k' = intr_on k" "in_external_intr k' = in_external_intr k"
      by (subst k'(6), subst K5(3), simp add: p4 p3 ic)+
    have "view k' = (view k)\<lparr>FR := (fr k)(?r := fs), ST := (st k)(t \<mapsto> THREAD_READY), RL := ready_list k @ [t]\<rparr>"
      by (rule view_eqI) (use v' p in \<open>simp_all add: wait_lists_def fun_eq_iff\<close>)
    then have ok': "sched_ok (view k')" using born_ok [OF so, of ?r t fs] run S by simp
    have "kinv k'"
      by (rule readied_step [OF K tb v'(1,2) p(1) k'(5) p(5) _ ok' _ S(2,3)])
        (use S p tf(7) in \<open>simp_all add: token_change_def intr_context_def\<close>)
    then show ?thesis using A K4 K5 k' True
      by (auto simp: thread_create_tail_def thread_current_eq [OF K] intro: returnsI)
  qed
qed

section \<open>The timer interrupt\<close>

lemma ticked_ok:
  assumes ok: "sched_ok v" and t: "t \<in> set (SL v)" and n: "n = SLP v t - 1"
  shows "n \<noteq> 0 \<Longrightarrow> sched_ok (v\<lparr>SLP := (SLP v)(t := n)\<rparr>)"
    "n = 0 \<Longrightarrow> sched_ok (v\<lparr>SL := remove1 t (SL v), ST := (ST v)(t \<mapsto> THREAD_READY), RL := RL v @ [t], SLP := (SLP v)(t := n)\<rparr>)"
proof -
  have d: "distinct (SL v)" and sl: "sleep_ok v" using ok unfolding sched_ok_def sleep_ok_def by blast+
  have pos: "0 < SLP v t" using sleeper_facts(5) [OF ok t] .
  show "sched_ok (v\<lparr>SLP := (SLP v)(t := n)\<rparr>)" if "n \<noteq> 0"
  proof -
    have "0 < n" using that pos n by simp
    then have "sleep_ok (v\<lparr>SLP := (SLP v)(t := n)\<rparr>)" using sl unfolding sleep_ok_def by simp
    then show ?thesis using ok by (simp add: sched_ok_def)
  qed
  show "sched_ok (v\<lparr>SL := remove1 t (SL v), ST := (ST v)(t \<mapsto> THREAD_READY), RL := RL v @ [t], SLP := (SLP v)(t := n)\<rparr>)"
    using sched_ok_slp [OF woken_ok [OF ok t], of "(SLP v)(t := n)"] d by simp
qed

text \<open>What a round of the loop over the sleeping threads does to the state.\<close>

definition ticked :: "kernel \<Rightarrow> ptr list \<Rightarrow> kernel \<Rightarrow> bool" where
  "ticked K ts k' \<longleftrightarrow>
     st k' = (\<lambda>t. if t \<in> set ts \<and> slp K t = 1 then Some THREAD_READY else st K t) \<and> fr k' = fr K \<and>
     slp k' = (\<lambda>t. if t \<in> set ts then slp K t - 1 else slp K t) \<and>
     sleepList k' = filter (\<lambda>t. \<not> (t \<in> set ts \<and> slp K t = 1)) (sleepList K) \<and>
     ready_list k' = ready_list K @ filter (\<lambda>t. slp K t = 1) ts \<and>
     k' = K\<lparr>threads := threads k', sleepList := sleepList k', ready_list := ready_list k'\<rparr>"

lemma ticked_same:
  assumes "ticked K ts k'"
  shows "running k' = running K" "semas k' = semas K" "holder k' = holder K" "all_threads k' = all_threads K"
    "idle_thread k' = idle_thread K" "initial_thread k' = initial_thread K" "intr_on k' = intr_on K"
    "in_external_intr k' = in_external_intr K" "yield_on_return k' = yield_on_return K" "ticks k' = ticks K"
proof -
  have e: "k' = K\<lparr>threads := threads k', sleepList := sleepList k', ready_list := ready_list k'\<rparr>"
    using assms unfolding ticked_def by blast
  show "running k' = running K" "semas k' = semas K" "holder k' = holder K" "all_threads k' = all_threads K"
    "idle_thread k' = idle_thread K" "initial_thread k' = initial_thread K" "intr_on k' = intr_on K"
    "in_external_intr k' = in_external_intr K" "yield_on_return k' = yield_on_return K" "ticks k' = ticks K"
    by (subst e, simp)+
qed

lemma ticked_views:
  assumes "ticked K ts k'"
  shows "st k' = (\<lambda>t. if t \<in> set ts \<and> slp K t = 1 then Some THREAD_READY else st K t)" "fr k' = fr K"
    "slp k' = (\<lambda>t. if t \<in> set ts then slp K t - 1 else slp K t)"
    "sleepList k' = filter (\<lambda>t. \<not> (t \<in> set ts \<and> slp K t = 1)) (sleepList K)"
    "ready_list k' = ready_list K @ filter (\<lambda>t. slp K t = 1) ts"
  using assms unfolding ticked_def by blast+

lemma ticked_trans:
  assumes 1: "ticked K [t] K1" and 2: "ticked K1 ts K2" and t: "t \<notin> set ts"
  shows "ticked K (t # ts) K2"
proof -
  note a = 1 [unfolded ticked_def] and b = 2 [unfolded ticked_def]
  have s: "slp K1 u = (if u = t then slp K u - 1 else slp K u)" for u using a by simp
  have "filter (\<lambda>u. slp K1 u = 1) ts = filter (\<lambda>u. slp K u = 1) ts" using t s by (intro filter_cong) auto
  then have "ready_list K2 = ready_list K @ filter (\<lambda>u. slp K u = 1) (t # ts)" using a b by simp
  moreover have "sleepList K2 = filter (\<lambda>u. \<not> (u \<in> set (t # ts) \<and> slp K u = 1)) (sleepList K)"
    using a b t by (auto simp: s intro!: filter_cong)
  moreover have "st K2 = (\<lambda>u. if u \<in> set (t # ts) \<and> slp K u = 1 then Some THREAD_READY else st K u)"
    using a b t by (auto simp: s fun_eq_iff)
  moreover have "slp K2 = (\<lambda>u. if u \<in> set (t # ts) then slp K u - 1 else slp K u)"
    using b t by (auto simp: s fun_eq_iff)
  moreover have e1: "K1 = K\<lparr>threads := threads K1, sleepList := sleepList K1, ready_list := ready_list K1\<rparr>"
    and e2: "K2 = K1\<lparr>threads := threads K2, sleepList := sleepList K2, ready_list := ready_list K2\<rparr>"
    using a b by blast+
  have "K2 = K\<lparr>threads := threads K2, sleepList := sleepList K2, ready_list := ready_list K2\<rparr>"
    by (subst e2, subst e1, simp)
  ultimately show ?thesis using a b unfolding ticked_def by metis
qed

lemma tick_one:
  assumes t: "st K t = Some THREAD_BLOCKED" "t \<noteq> NULL" "t \<in> set (sleepList K)" "distinct (sleepList K)" "0 < slp K t"
    and M: "\<And>t th. threads K t = Some th \<Longrightarrow> magic th = THREAD_MAGIC" and off: "\<not> intr_on K"
  obtains b K1 k' where "ThreadTick K t = Some (b, K1)" "(if b then ThreadAwake K1 t else Some K1) = Some k'"
    "ticked K [t] k'" "\<And>t th. threads k' t = Some th \<Longrightarrow> magic th = THREAD_MAGIC"
proof -
  obtain th where th: "threads K t = Some th" "status th = THREAD_BLOCKED" "sleepTick th = slp K t" "frames th = fr K t"
    using threads_of_st [OF t(1)] by blast
  let ?K1 = "upd_thread K t (th\<lparr>sleepTick := slp K t - 1\<rparr>)"
  have e: "threads ?K1 = (threads K)(t \<mapsto> th\<lparr>sleepTick := slp K t - 1\<rparr>)" by simp
  have T: "ThreadTick K t = Some (slp K t = 1, ?K1)" using th t(5) by (simp add: ThreadTick_def Let_def)
  have m: "magic th = THREAD_MAGIC" using M th by blast
  have v: "st ?K1 = st K" "fr ?K1 = fr K" "slp ?K1 = (slp K)(t := slp K t - 1)"
    using st_upd [OF e] fr_upd [OF e] slp_upd [OF e] th t(1) by (auto simp: fun_eq_iff)
  have M1: "threads ?K1 u = Some x \<Longrightarrow> magic x = THREAD_MAGIC" for u x using M m by (auto split: if_splits)
  show thesis
  proof (cases "slp K t = 1")
    case False
    have "ticked K [t] ?K1" unfolding ticked_def using v False by auto
    then show thesis using that [OF T _ _ M1, of ?K1] False by simp
  next
    case True
    let ?K2 = "?K1\<lparr>sleepList := remove1 t (sleepList K)\<rparr>"
    have T2: "threads ?K2 = threads ?K1" by simp
    note v2 = views_cong [OF T2]
    obtain k' where k': "thread_unblock ?K2 t = Some k'" "readied ?K2 t k'"
      using unblock_readies [of ?K2 t] v2 v t M1 off T2 by auto
    note q = k'(2) [unfolded readied_def] and p = readied_same [OF k'(2)]
    have "k' = K\<lparr>threads := threads k', sleepList := sleepList k', ready_list := ready_list k'\<rparr>"
      by (subst conjunct1 [OF q]) (simp add: p)
    moreover have "filter (\<lambda>u. \<not> (u \<in> set [t] \<and> slp K u = 1)) (sleepList K) = filter (\<lambda>u. t \<noteq> u) (sleepList K)"
      using True by (intro filter_cong) auto
    then have "sleepList k' = filter (\<lambda>u. \<not> (u \<in> set [t] \<and> slp K u = 1)) (sleepList K)"
      using p(5) t(4) by (simp add: distinct_remove1_removeAll removeAll_filter_not_eq)
    moreover have "st k' = (\<lambda>u. if u \<in> set [t] \<and> slp K u = 1 then Some THREAD_READY else st K u)"
      "slp k' = (\<lambda>u. if u \<in> set [t] then slp K u - 1 else slp K u)" "fr k' = fr K"
      using q v2 v True by (simp_all add: fun_eq_iff)
    ultimately have "ticked K [t] k'"
      unfolding ticked_def using p(2) True by simp
    then show thesis using that [OF T, of k'] True k'(1) q t(3) by (simp add: ThreadAwake_def)
  qed
qed

abbreviation quiet :: "kernel \<Rightarrow> kernel" where
  "quiet k \<equiv> k\<lparr>in_external_intr := False\<rparr>"

lemma quiet_views [simp]: "st (quiet k) = st k" "fr (quiet k) = fr k" "slp (quiet k) = slp k"
  by (simp_all add: views_cong [of "quiet k" k])

lemma tick_one_kinv:
  assumes K: "kinv (quiet K)" and t: "t \<in> set (sleepList K)" and T: "ticked K [t] k'"
    and M: "\<And>t th. threads k' t = Some th \<Longrightarrow> magic th = THREAD_MAGIC"
  shows "kinv (quiet k')"
proof (rule run_step [OF K refl, of "quiet k'" "fr K (running K)"])
  let ?r = "running K"
  note q = ticked_views [OF T] and p = ticked_same [OF T]
  have ok: "sched_ok (view (quiet K))" and one: "st K u = Some THREAD_RUNNING \<longleftrightarrow> u = ?r" for u
    using K by (simp_all add: kinv_def one_runs_def)
  have d: "distinct (sleepList K)" using ok by (simp add: sched_ok_def sleep_ok_def)
  have tb: "st K t = Some THREAD_BLOCKED" using sleeper_facts(1) [OF ok, of t] t by simp
  have s: "st k' u = (if u = t \<and> slp K t = 1 then Some THREAD_READY else st K u)" for u using q by auto
  show "alive (quiet k') u = alive (quiet K) u" for u using tb by (auto simp: alive_def s)
  show "dom (threads (quiet k')) = dom (threads (quiet K))" using tb by (auto simp: dom_st s split: if_splits)
  show "one_runs (view (quiet k')) (running (quiet K))" using one [of t] one tb by (auto simp: one_runs_def s split: if_splits)
  show "sched_ok (view (quiet k'))"
  proof (cases "slp K t = 1")
    case True
    have "filter (\<lambda>u. \<not> (u \<in> set [t] \<and> slp K u = 1)) (sleepList K) = filter (\<lambda>u. t \<noteq> u) (sleepList K)"
      using True by (intro filter_cong) auto
    then have "sleepList k' = remove1 t (sleepList K)"
      using q d by (simp add: distinct_remove1_removeAll removeAll_filter_not_eq)
    then have "view (quiet k') = (view (quiet K))\<lparr>SL := remove1 t (sleepList K), ST := (st K)(t \<mapsto> THREAD_READY),
        RL := ready_list K @ [t], SLP := (slp K)(t := slp K t - 1)\<rparr>"
      using q p True by (intro view_eqI) (auto simp: wait_lists_def fun_eq_iff)
    then show ?thesis using ticked_ok(2) [OF ok, of t "slp K t - 1"] t True by simp
  next
    case False
    then have "view (quiet k') = (view (quiet K))\<lparr>SLP := (slp K)(t := slp K t - 1)\<rparr>"
      using q p by (intro view_eqI) (auto simp: wait_lists_def fun_eq_iff intro: filter_True)
    then show ?thesis using ticked_ok(1) [OF ok, of t "slp K t - 1"] t False by simp
  qed
  have k: "alive (quiet K) ?r" "stacks_wf (quiet K)" using K one [of ?r] by (simp_all add: alive_def kinv_def)
  show "stack_ok (fr K ?r) (held (quiet k') (running (quiet K))) (intr_on (quiet k'))"
    using k p by (fastforce simp: stacks_wf_def held_def)
  show "tok_ok (fr K ?r)" "own_waiter (running (quiet K)) (fr K ?r)" using k by (simp_all add: stacks_wf_def)
  show "st (quiet k') u = Some THREAD_DYING \<Longrightarrow> st (quiet K) u = Some THREAD_DYING" for u by (simp add: s split: if_splits)
  show "threads (quiet k') u = Some th \<Longrightarrow> magic th = THREAD_MAGIC" for u th using M by simp
  show "token_change (quiet K) (quiet k') l + (tok l (fr K ?r) - tok l (fr (quiet K) (running (quiet K)))) = 0" for l
    using p(2,3) by (simp add: token_change_def)
  show "fr (quiet k') = (fr (quiet K))(running (quiet K) := fr K ?r)" using q(2) by simp
  show "running (quiet k') = running (quiet K)" using p(1) by simp
  show "\<not> in_external_intr (quiet k')" by simp
  show "holder (quiet k') l = holder (quiet K) l \<or> (holder (quiet K) l \<in> {NULL, running (quiet K)} \<and>
      holder (quiet k') l \<in> {NULL, running (quiet K)})" for l using p(3) by simp
qed

lemma tick_sleepers_returns:
  assumes "kinv (quiet K)" "\<not> intr_on K" "set ts \<subseteq> set (sleepList K)" "distinct ts"
  shows "\<exists>k'. tick_sleepers K ts = Some k' \<and> ticked K ts k' \<and> kinv (quiet k')"
  using assms
proof (induction ts arbitrary: K)
  case Nil
  then show ?case by (simp add: ticked_def)
next
  case (Cons t ts)
  have ok: "sched_ok (view (quiet K))" using Cons.prems by (simp add: kinv_def)
  have d: "distinct (sleepList K)" using ok by (simp add: sched_ok_def sleep_ok_def)
  have t: "t \<in> set (sleepList K)" using Cons.prems by simp
  have tb: "st K t = Some THREAD_BLOCKED" "0 < slp K t"
    using sleeper_facts(1,5) [OF ok, of t] t by simp_all
  have tn: "t \<noteq> NULL" using alive_nonnull [of "quiet K" t] tb Cons.prems by (simp add: alive_def kinv_def)
  have M: "threads K u = Some th \<Longrightarrow> magic th = THREAD_MAGIC" for u th using kinv_magic [OF Cons.prems(1)] by simp
  obtain b K1 K2 where K2: "ThreadTick K t = Some (b, K1)" "(if b then ThreadAwake K1 t else Some K1) = Some K2"
      "ticked K [t] K2" "\<And>t th. threads K2 t = Some th \<Longrightarrow> magic th = THREAD_MAGIC"
    using tick_one [OF tb(1) tn t d tb(2) _ Cons.prems(2)] M by metis
  have "kinv (quiet K2)" using tick_one_kinv [OF Cons.prems(1) t K2(3,4)] .
  moreover have "\<not> intr_on K2" using ticked_same [OF K2(3)] Cons.prems by simp
  moreover have "set ts \<subseteq> set (sleepList K2)" using ticked_views(4) [OF K2(3)] Cons.prems by auto
  ultimately obtain k' where "tick_sleepers K2 ts = Some k'" "ticked K2 ts k'" "kinv (quiet k')"
    using Cons.IH Cons.prems by fastforce
  moreover have "tick_sleepers K (t # ts) = tick_sleepers K2 ts" using K2(1,2) by simp
  ultimately show ?case using ticked_trans [OF K2(3)] Cons.prems by auto
qed

lemma kinv_cong:
  assumes "threads k' = threads k" "running k' = running k" "ready_list k' = ready_list k" "semas k' = semas k"
    "sleepList k' = sleepList k" "all_threads k' = all_threads k" "idle_thread k' = idle_thread k"
    "initial_thread k' = initial_thread k" "intr_on k' = intr_on k" "holder k' = holder k"
    "in_external_intr k' = in_external_intr k"
  shows "kinv k' \<longleftrightarrow> kinv k"
proof -
  note v = views_cong [OF assms(1)]
  have "view k' = view k" by (rule view_eqI) (use v assms in \<open>simp_all add: wait_lists_def fun_eq_iff\<close>)
  moreover have "lock_tokens k' l = lock_tokens k l" for l using v assms by (simp add: lock_tokens_def)
  ultimately show ?thesis using v assms
    by (simp add: kinv_def threads_wf_def stacks_wf_def alive_def held_def)
qed

text \<open>\<open>k'\<close> differs from \<open>k\<close> in counters and in the request to yield only.\<close>

definition counted :: "kernel \<Rightarrow> kernel \<Rightarrow> bool" where
  "counted k k' \<longleftrightarrow> k' = k\<lparr>ticks := ticks k', thread_ticks := thread_ticks k', idle_ticks := idle_ticks k',
     kernel_ticks := kernel_ticks k', user_ticks := user_ticks k', yield_on_return := yield_on_return k'\<rparr>"

lemma counted_same:
  assumes "counted k k'"
  shows "threads k' = threads k" "running k' = running k" "ready_list k' = ready_list k" "semas k' = semas k"
    "sleepList k' = sleepList k" "all_threads k' = all_threads k" "idle_thread k' = idle_thread k"
    "initial_thread k' = initial_thread k" "intr_on k' = intr_on k" "holder k' = holder k"
    "in_external_intr k' = in_external_intr k"
  by (subst assms [unfolded counted_def], simp)+

lemma thread_tick_counts:
  assumes "thread_current k = Some r" "threads k r = Some th" "in_external_intr k"
  shows "\<exists>k'. thread_tick k = Some k' \<and> counted k k' \<and> ticks k' = ticks k \<and> thread_ticks k' = thread_ticks k + 1 \<and>
     (yield_on_return k' \<longleftrightarrow> yield_on_return k \<or> TIME_SLICE \<le> thread_ticks k + 1)"
  using assms by (auto simp: thread_tick_def Let_def intr_yield_on_return_def intr_context_def counted_def)

lemma timer_interrupt_returns:
  assumes K: "kinv (quiet k)" and off: "\<not> intr_on k" and ic: "in_external_intr k"
  shows "\<exists>k1 k'. counted k k1 \<and> ticks k1 = ticks k + 1 \<and> thread_ticks k1 = thread_ticks k + 1 \<and>
     (yield_on_return k1 \<longleftrightarrow> yield_on_return k \<or> TIME_SLICE \<le> thread_ticks k + 1) \<and>
     timer_interrupt k = Some k' \<and> ticked k1 (sleepList k) k' \<and> kinv (quiet k')"
proof -
  let ?k = "k\<lparr>ticks := ticks k + 1\<rparr>"
  obtain th where th: "threads k (running k) = Some th" "status th = THREAD_RUNNING" "magic th = THREAD_MAGIC" "running k \<noteq> NULL"
    using K by (elim kinv_running) simp
  then have cur: "thread_current ?k = Some (running k)" by (simp add: thread_current_def is_thread_def)
  obtain k1 where k1: "thread_tick ?k = Some k1" "counted ?k k1" "ticks k1 = ticks k + 1" "thread_ticks k1 = thread_ticks k + 1"
      "yield_on_return k1 \<longleftrightarrow> yield_on_return k \<or> TIME_SLICE \<le> thread_ticks k + 1"
    using thread_tick_counts [OF cur] th ic by auto
  have c: "counted k k1" unfolding counted_def by (subst k1(2) [unfolded counted_def]) simp
  note p = counted_same [OF c]
  have K1: "kinv (quiet k1)" using K by (subst kinv_cong [of _ "quiet k"]) (simp_all add: p)
  have "distinct (sleepList k)" using K by (simp add: kinv_def sched_ok_def sleep_ok_def)
  then obtain k' where "tick_sleepers k1 (sleepList k1) = Some k'" "ticked k1 (sleepList k1) k'" "kinv (quiet k')"
    using tick_sleepers_returns [OF K1, of "sleepList k1"] off p by auto
  then show ?thesis using k1 c p by (auto simp: timer_interrupt_def)
qed

lemma kinv_follows:
  assumes "kinv k"
  shows "follows k (fr k (running k))"
proof -
  note k = assms [unfolded kinv_def]
  have "alive k (running k)" using assms by (elim kinv_running)
  then have "stack_ok (fr k (running k)) (held k (running k)) (intr_on k)" using k by (fastforce simp: stacks_wf_def)
  with k show ?thesis by (auto simp: follows_def stacks_wf_def sched_ok_def idle_ok_def)
qed

lemma interrupted_kinv:
  assumes K: "kinv k" and on: "intr_on k" and th: "threads k (running k) = Some th"
  shows "\<exists>k'. set_frames (k\<lparr>intr_on := False\<rparr>) (running k) (Iret # frames th) = Some k' \<and> kinv k' \<and>
     k' = k\<lparr>intr_on := False, threads := threads k'\<rparr> \<and> st k' = st k \<and> slp k' = slp k \<and>
     fr k' = (fr k)(running k := Iret # frames th)"
proof -
  let ?K = "k\<lparr>intr_on := False\<rparr>" and ?g = "Iret # frames th"
  have run: "st k (running k) = Some THREAD_RUNNING" using K by (simp add: kinv_def one_runs_def)
  have th': "frames th = fr k (running k)" using th by (simp add: fr_def)
  have F: "follows k (frames th)" using kinv_follows [OF K] th' by simp
  have T: "same_threads k ?K" using K by (simp add: same_threads_eq)
  obtain k' where k': "set_frames ?K (running k) ?g = Some k'" "st k' = st k" "slp k' = slp k" "fr k' = (fr k)(running k := ?g)"
      "\<And>t th. threads k' t = Some th \<Longrightarrow> magic th = THREAD_MAGIC" "k' = ?K\<lparr>threads := threads k'\<rparr>"
    using set_frames_views [OF T run, of ?g] by blast
  have p: "holder k' = holder k" "intr_on k' = False" "semas k' = semas k" by (subst k'(6), simp)+
  have "kinv k'"
  proof (rule local_step [OF K refl k'(2-5)])
    show "same_lists k k'" using same_lists_threads [OF same_lists_upd(2) k'(6)] .
    show "frames_fit (view k) (running k) ?g" by (rule follows_fit [OF K F]) simp_all
    show "stack_ok ?g (held k' (running k)) (intr_on k')" using F on p by (simp add: follows_def held_def)
    show "tok_ok ?g" using F by (intro tok_ok_Cons0) (simp_all add: follows_def)
    show "own_waiter (running k) ?g" using F by (simp add: follows_def own_waiter_Cons)
  qed (use F p th' in \<open>simp_all add: token_change_def\<close>)
  with k' show ?thesis by auto
qed

text \<open>The timer interrupt: the state \<open>k2\<close> when the handler has returned, then the switch if the time
  slice is over.\<close>

definition tick_done :: "kernel \<Rightarrow> kernel \<Rightarrow> bool" where
  "tick_done k k2 \<longleftrightarrow> running k2 = running k \<and> idle_thread k2 = idle_thread k \<and> ticks k2 = ticks k + 1 \<and>
     (yield_on_return k2 \<longleftrightarrow> TIME_SLICE \<le> thread_ticks k + 1) \<and>
     sleepList k2 = filter (\<lambda>t. slp k t \<noteq> 1) (sleepList k) \<and>
     (\<forall>t\<in>set (sleepList k). slp k2 t = slp k t - 1) \<and>
     ready_list k2 = ready_list k @ filter (\<lambda>t. slp k t = 1) (sleepList k)"

lemma tick_anatomy:
  assumes K: "kinv k" and on: "intr_on k"
  shows "\<exists>k2 fs. intr_handler_timer k = (if yield_on_return k2 then thread_yield k2 fs else Some k2) \<and>
     kinv k2 \<and> follows k2 fs \<and> tick_done k k2"
proof -
  obtain th where th: "threads k (running k) = Some th" using K by (elim kinv_running)
  let ?fs = "Iret # frames th"
  obtain k0 where k0: "set_frames (k\<lparr>intr_on := False\<rparr>) (running k) ?fs = Some k0" "kinv k0" "slp k0 = slp k"
      "k0 = k\<lparr>intr_on := False, threads := threads k0\<rparr>" "fr k0 = (fr k)(running k := ?fs)"
    using interrupted_kinv [OF K on th] by blast
  have p: "running k0 = running k" "ready_list k0 = ready_list k" "idle_thread k0 = idle_thread k" "ticks k0 = ticks k"
      "sleepList k0 = sleepList k" "thread_ticks k0 = thread_ticks k" "\<not> intr_on k0"
    by (subst k0(4), simp)+
  have ic: "\<not> in_external_intr k0" using k0(2) by (simp add: kinv_def threads_wf_def)
  let ?k1 = "k0\<lparr>in_external_intr := True, yield_on_return := False\<rparr>"
  have "kinv (quiet ?k1)" using k0(2) ic by (subst kinv_cong [of _ k0]) simp_all
  then obtain k1 k2 where k2: "counted ?k1 k1" "ticks k1 = ticks k0 + 1" "yield_on_return k1 \<longleftrightarrow> TIME_SLICE \<le> thread_ticks k0 + 1"
      "timer_interrupt ?k1 = Some k2" "ticked k1 (sleepList ?k1) k2" "kinv (quiet k2)"
    using timer_interrupt_returns [of ?k1] p(7) by auto
  note c = counted_same [OF k2(1)] and q = ticked_same [OF k2(5)] and w = ticked_views [OF k2(5)]
  have "fr (quiet k2) = fr k0" using w(2) views_cong(2) [of k1 k0] c by simp
  then have "fr (quiet k2) (running (quiet k2)) = ?fs" using k0(5) q c p by simp
  then have "follows (quiet k2) ?fs" using kinv_follows [OF k2(6)] by simp
  moreover have s1: "slp k1 = slp k" using views_cong(3) [of k1 k0] c k0(3) by simp
  have "filter (\<lambda>t. \<not> (t \<in> set (sleepList k) \<and> slp k t = 1)) (sleepList k) = filter (\<lambda>t. slp k t \<noteq> 1) (sleepList k)"
    by (rule filter_cong) auto
  then have "tick_done k (quiet k2)" using w(3-5) c q p s1 k2(2,3) by (simp add: tick_done_def)
  moreover have "intr_handler_timer k = (if yield_on_return (quiet k2) then thread_yield (quiet k2) ?fs else Some (quiet k2))"
    using th k0(1) k2(4) p(7) ic q(7,8) c(9,11)
    by (simp add: intr_handler_timer_def intr_context_def intr_get_level_def Let_def)
  ultimately show ?thesis using k2(6) by blast
qed

lemma tick_returns:
  assumes K: "kinv k" and on: "intr_on k"
  shows "returns (intr_handler_timer k)"
proof -
  obtain k2 fs where "intr_handler_timer k = (if yield_on_return k2 then thread_yield k2 fs else Some k2)" "kinv k2" "follows k2 fs"
    using tick_anatomy [OF assms] by blast
  then show ?thesis using yield_returns [of k2 fs] by (simp add: returns_def)
qed

section \<open>Every step\<close>

lemma frame_returns:
  assumes K: "kinv k" and f: "fr k (running k) = f # fs" and pg: "page = NULL \<or> threads k page = None"
  shows "returns (exec k page f fs)"
proof (cases f)
  case (Sema_down s)
  then show ?thesis using exec_Sema_down [OF K] f by (simp add: exec_def)
next
  case (Sema_loop s)
  then show ?thesis using exec_Sema_loop_taken [OF K] exec_Sema_loop_waits [OF K] f by (cases "val (semas k s) = 0") (simp_all add: exec_def)
next
  case (Sema_try_down s)
  then show ?thesis using exec_Sema_try_down [OF K] f by simp
next
  case (Sema_up s)
  then show ?thesis using exec_Sema_up [OF K] f by simp
next
  case (Lock_acquire l)
  then show ?thesis using exec_Lock_acquire [OF K] f by (simp add: exec_def)
next
  case (Set_holder l)
  then show ?thesis using exec_Set_holder [OF K] f by (simp add: exec_def)
next
  case (Lock_try_acquire l)
  then show ?thesis using exec_Lock_try_acquire [OF K] f by (simp add: exec_def)
next
  case (Lock_release l)
  then show ?thesis using exec_Lock_release [OF K] f by (simp add: exec_def)
next
  case (Cond_wait c l)
  then show ?thesis using exec_Cond_wait [OF K] f by (simp add: exec_def)
next
  case (Cond_signal c l)
  then show ?thesis using exec_Cond_signal [OF K] f by (simp add: exec_def)
next
  case (Cond_broadcast c l)
  then show ?thesis using exec_Cond_broadcast [OF K] f by (simp add: exec_def)
next
  case (Intr_set_level b)
  then show ?thesis using exec_Intr_set_level [OF K] f by simp
next
  case Iret
  then show ?thesis using exec_Iret [OF K] f by simp
next
  case Thread_yield
  then show ?thesis using exec_Thread_yield [OF K] f by (simp add: exec_def)
next
  case Thread_exit
  then show ?thesis using exec_Thread_exit [OF K] f by (simp add: exec_def)
next
  case (Thread_create nm prio ok func)
  then show ?thesis using exec_Thread_create_fails [OF K] exec_Thread_create [OF K] f pg by (cases "page = NULL") (simp_all add: exec_def)
next
  case (Next_tid t)
  then show ?thesis using exec_Next_tid [OF K] f by (simp add: exec_def)
next
  case (Create_tail t ok)
  then show ?thesis using exec_Create_tail [OF K] f by (simp add: exec_def)
next
  case (Timer_sleep n)
  then show ?thesis using exec_Timer_sleep [OF K] f by (simp add: exec_def)
next
  case Kernel_thread
  then show ?thesis using exec_Kernel_thread [OF K] f by (simp add: exec_def)
next
  case (Idle_init s)
  then show ?thesis using top_facts(1) [OF K f] by simp
next
  case Idle_loop
  then show ?thesis using exec_Idle_loop [OF K] f by simp
next
  case Idle_hlt
  then show ?thesis using exec_Idle_hlt [OF K] f by simp
qed

end
