(* ===== verification/Threads_Run.thy ===== *)
theory Threads_Run
  imports Threads_Wake
begin

text \<open>
  Runs of the machine. \<open>booted\<close> is the state that \<open>thread_init\<close> and \<open>thread_start\<close> reach;
  \<open>reach\<close> holds of every state that steps of the machine reach from there. The theorems say that no
  step of a reachable state fails an assertion, how the scheduler's lists, the locks and the sleeping
  threads look in every reachable state, and that a ready thread runs after a bounded number of
  expired time slices.
\<close>

section \<open>Booting\<close>

text \<open>The globals before \<open>thread_init\<close>: zero, interrupts off. Locks other than that of
  \<open>allocate_tid\<close> are taken as \<open>lock_init\<close> leaves them: each is initialised before its first use.\<close>

definition power_on :: kernel where
  "power_on = \<lparr>threads = (\<lambda>_. None), running = NULL, ready_list = [], all_threads = [], sleepList = [],
     idle_thread = NULL, initial_thread = NULL, next_tid = 1, thread_ticks = 0, idle_ticks = 0, kernel_ticks = 0,
     user_ticks = 0, ticks = 0, intr_on = False, in_external_intr = False, yield_on_return = False,
     semas = (\<lambda>s. case s of OfLock l \<Rightarrow> \<lparr>val = 1, waiters = []\<rparr> | _ \<Rightarrow> \<lparr>val = 0, waiters = []\<rparr>),
     holder = (\<lambda>_. NULL), cond_waiters = (\<lambda>_. [])\<rparr>"

fun run_frames :: "nat \<Rightarrow> kernel \<Rightarrow> ptr \<Rightarrow> kernel option" where
  "run_frames 0 k page = Some k"
| "run_frames (Suc n) k page = do { k \<leftarrow> run_frame k page; run_frames n k page }"

text \<open>\<open>thread_init\<close> with the page of the first thread at \<open>main\<close>, then \<open>thread_start\<close> with the page
  of the idle thread at \<open>idle\<close>.\<close>

definition boot :: "ptr \<Rightarrow> ptr \<Rightarrow> kernel option" where
  "boot main idle = do {
     k \<leftarrow> thread_init power_on main;
     k \<leftarrow> run_frames 8 k NULL;
     k \<leftarrow> sema_init k (Plain 2) 0;
     k \<leftarrow> set_frames k main (thread_start True (Plain 2));
     run_frames 19 k idle
   }"

lemmas boot_simps = thread_init_def init_thread_def lock_init_def sema_init_def set_status_def set_frames_def
  set_result_def intr_get_level_def intr_context_def intr_disable_def intr_enable_def intr_set_level_def
  lock_acquire_def lock_held_by_current_thread_def thread_current_def is_thread_def sema_down_def sema_down_loop_def
  set_holder_def allocate_tid_step_def lock_release_def sema_up_def thread_unblock_def thread_create_def
  thread_create_tail_def alloc_frame_def thread_block_def schedule_def next_thread_to_run_def schedule_tail_def
  kernel_thread_def idle_init_def run_frame_def exec_def idle_block_def idle_hlt_def PRI_MIN_def PRI_MAX_def PRI_DEFAULT_def thread_start_def

definition booted :: "ptr \<Rightarrow> ptr \<Rightarrow> kernel" where
  "booted main idle = \<lparr>threads =
     [main \<mapsto> \<lparr>tid = 1, status = THREAD_RUNNING, name = ''main'', stack = int main + pgsize, priority = 31,
               sleepTick = 0, pagedir = NULL, magic = THREAD_MAGIC, frames = [], result = 2\<rparr>,
      idle \<mapsto> \<lparr>tid = 2, status = THREAD_BLOCKED, name = ''idle'', stack = int idle + pgsize - 44, priority = 0,
               sleepTick = 0, pagedir = NULL, magic = THREAD_MAGIC, frames = [Idle_hlt], result = 0\<rparr>],
     running = main, ready_list = [], all_threads = [main, idle], sleepList = [], idle_thread = idle,
     initial_thread = main, next_tid = 3, thread_ticks = 0, idle_ticks = 0, kernel_ticks = 0,
     user_ticks = 0, ticks = 0, intr_on = True, in_external_intr = False, yield_on_return = False,
     semas = (semas power_on)(OfLock tid_lock := \<lparr>val = 1, waiters = []\<rparr>, OfLock lock_file := \<lparr>val = 1, waiters = []\<rparr>, Plain 2 := \<lparr>val = 0, waiters = []\<rparr>),
     holder = (\<lambda>_. NULL)(tid_lock := NULL, lock_file := NULL), cond_waiters = (\<lambda>_. [])\<rparr>"

lemma lock_file_neq: "lock_file \<noteq> tid_lock" "tid_lock \<noteq> lock_file"
  by (simp_all add: lock_file_def tid_lock_def)

lemma boot_eq:
  assumes "main \<noteq> NULL" "idle \<noteq> NULL" "main \<noteq> idle"
  shows "boot main idle = Some (booted main idle)"
  using assms
  by (simp add: boot_def booted_def boot_simps power_on_def lock_file_neq Let_def eval_nat_numeral fun_upd_twist cong: if_cong)

lemma booted_kinv:
  assumes a: "main \<noteq> NULL" "idle \<noteq> NULL" "main \<noteq> idle"
  shows "kinv (booted main idle)"
proof -
  let ?k = "booted main idle"
  have s: "st ?k = (\<lambda>t. if t = main then Some THREAD_RUNNING else if t = idle then Some THREAD_BLOCKED else None)"
    using a by (auto simp: st_def booted_def)
  have f: "fr ?k = (\<lambda>t. if t = idle then [Idle_hlt] else [])" by (auto simp: fr_def booted_def)
  have w: "wait_lists ?k = (\<lambda>s. [])"
    by (auto simp: wait_lists_def booted_def power_on_def fun_eq_iff split: sema_ref.split)
  have v: "val (semas ?k (OfLock l)) = 1" for l by (simp add: booted_def power_on_def)
  have p: "ready_list ?k = []" "sleepList ?k = []" "all_threads ?k = [main, idle]" "idle_thread ?k = idle" "holder ?k l = NULL"
      "running ?k = main" "\<not> in_external_intr ?k" "dom (threads ?k) = {main, idle}" "intr_on ?k" for l
    by (auto simp: booted_def)
  have "sched_ok (view ?k)"
    using a by (auto simp: sched_ok_def ready_ok_def wait_ok_def sleep_ok_def all_ok_def newborn_ok_def idle_ok_def s f w p)
  moreover have "one_runs (view ?k) (running ?k)" using a by (simp add: one_runs_def s p)
  moreover have "threads_wf ?k" using a by (auto simp: threads_wf_def p) (auto simp: booted_def split: if_splits)
  moreover have "stacks_wf ?k"
    using a v by (auto simp: stacks_wf_def alive_def s f held_def p own_waiter_def lock_tokens_def)
  ultimately show ?thesis by (simp add: kinv_def)
qed

section \<open>Calls\<close>

lemma call_returns:
  assumes K: "kinv k" and f: "fr k (running k) = []" and c: "client_call k c"
  shows "returns (set_frames k (running k) [c])"
proof -
  note kk = K [unfolded kinv_def]
  have run: "st k (running k) = Some THREAD_RUNNING" and al: "alive k (running k)" using K by (auto elim: kinv_running)
  have tl: "tid_lock \<notin> held k (running k)" using kk al f unfolding stacks_wf_def by (metis stack_ok.simps(1))
  have ni: "running k \<noteq> idle_thread k" using kk f by (auto simp: sched_ok_def idle_ok_def)
  have g: "newborn [c] = []" "num_ok [c]" "tok l [c] = 0" "own_waiter (running k) [c]"
      "stack_ok [c] (held k (running k)) (intr_on k)" for l
    using c tl by (cases "(k, c)" rule: client_call.cases; auto simp: own_waiter_def held_def)+
  obtain k' where k': "set_frames k (running k) [c] = Some k'" "st k' = st k" "slp k' = slp k" "fr k' = (fr k)(running k := [c])"
      "\<And>t th. threads k' t = Some th \<Longrightarrow> magic th = THREAD_MAGIC" "k' = k\<lparr>threads := threads k'\<rparr>"
    using set_frames_views [OF same_threads_eq [OF K refl] run] by blast
  have p: "holder k' = holder k" "intr_on k' = intr_on k" "semas k' = semas k" by (subst k'(6), simp)+
  have "kinv k'"
  proof (rule local_step [OF K refl k'(2-5)])
    show "same_lists k k'" using same_lists_threads [OF same_lists_upd(1) k'(6)] .
    show "frames_fit (view k) (running k) [c]" using g(1,2) ni by (simp add: frames_fit_def)
    show "tok_ok [c]" using g(3) by simp
    show "stack_ok [c] (held k' (running k)) (intr_on k')" using g(5) p by (simp add: held_def)
  qed (use g p f in \<open>simp_all add: token_change_def\<close>)
  with k'(1) show ?thesis by (rule returnsI)
qed

section \<open>Reachable states\<close>

inductive reach :: "ptr \<Rightarrow> ptr \<Rightarrow> kernel \<Rightarrow> bool" for main idle where
  start: "boot main idle = Some k \<Longrightarrow> reach main idle k"
| step: "reach main idle k \<Longrightarrow> kstep k k' \<Longrightarrow> reach main idle k'"

lemma step_kinv:
  assumes "kstep k k'" "kinv k"
  shows "kinv k'"
  using assms
proof cases
  case (exec th f fs page)
  then show ?thesis using frame_returns [OF assms(2), of f fs page] by (simp add: fr_def returns_def)
next
  case (call th c)
  then show ?thesis using call_returns [OF assms(2), of c] by (simp add: fr_def returns_def)
next
  case tick
  then show ?thesis using tick_returns [OF assms(2)] by (simp add: returns_def)
qed

lemma reach_kinv:
  assumes "reach main idle k" "main \<noteq> NULL" "idle \<noteq> NULL" "main \<noteq> idle"
  shows "kinv k"
  using assms by induction (auto simp: boot_eq intro: booted_kinv step_kinv)

section \<open>Events\<close>

text \<open>The steps of the machine as events: the running thread executes a frame (\<open>page\<close> is the free
  page a call of \<open>palloc_get_page\<close> returns, or \<open>NULL\<close>), its code calls a kernel function, or the
  timer interrupts.\<close>

datatype event = Frame ptr | Call frame | Tick

fun enabled :: "kernel \<Rightarrow> event \<Rightarrow> bool" where
  "enabled k (Frame page) \<longleftrightarrow> fr k (running k) \<noteq> [] \<and> (page = NULL \<or> threads k page = None)"
| "enabled k (Call c) \<longleftrightarrow> fr k (running k) = [] \<and> threads k (running k) \<noteq> None \<and> client_call k c"
| "enabled k Tick \<longleftrightarrow> intr_on k"

fun perform :: "kernel \<Rightarrow> event \<Rightarrow> kernel option" where
  "perform k (Frame page) = run_frame k page"
| "perform k (Call c) = set_frames k (running k) [c]"
| "perform k Tick = intr_handler_timer k"

lemma kstep_event: "kstep k k' \<longleftrightarrow> (\<exists>e. enabled k e \<and> perform k e = Some k')"
proof
  assume "kstep k k'"
  then show "\<exists>e. enabled k e \<and> perform k e = Some k'"
  proof cases
    case (exec th f fs page)
    then show ?thesis by (intro exI [of _ "Frame page"]) (simp add: fr_def run_frame_def)
  next
    case (call th c)
    then show ?thesis by (intro exI [of _ "Call c"]) (simp add: fr_def)
  next
    case tick
    then show ?thesis by (intro exI [of _ Tick]) simp
  qed
next
  assume "\<exists>e. enabled k e \<and> perform k e = Some k'"
  then obtain e where e: "enabled k e" "perform k e = Some k'" by blast
  then show "kstep k k'"
    by (cases e) (auto simp: fr_def run_frame_def split: option.splits list.splits intro: kstep.intros)
qed

lemma perform_returns: "kinv k \<Longrightarrow> enabled k e \<Longrightarrow> returns (perform k e)"
proof (cases e)
  case (Frame page)
  assume "kinv k" "enabled k e"
  with Frame frame_returns [of k _ _ page] show ?thesis
    by (auto simp: fr_def run_frame_def split: option.splits list.splits)
qed (auto intro: call_returns tick_returns)

text \<open>The states a sequence of events goes through, as long as the next event is enabled.\<close>

fun states :: "kernel \<Rightarrow> event list \<Rightarrow> kernel list" where
  "states k [] = []"
| "states k (e # es) =
     (if enabled k e then (case perform k e of None \<Rightarrow> [] | Some k' \<Rightarrow> k' # states k' es) else [])"

lemma states_reach: "reach main idle k \<Longrightarrow> k' \<in> set (states k es) \<Longrightarrow> reach main idle k'"
proof (induction es arbitrary: k)
  case (Cons e es)
  then obtain k1 where k1: "enabled k e" "perform k e = Some k1" "k' = k1 \<or> k' \<in> set (states k1 es)"
    by (cases "enabled k e"; cases "perform k e") simp_all
  then have "kstep k k1" using kstep_event by blast
  then have "reach main idle k1" by (rule reach.step [OF Cons.prems(1)])
  with k1(3) Cons.IH show ?case by blast
qed simp

section \<open>The order in which threads run\<close>

definition first_ready :: "ptr list \<Rightarrow> ptr \<Rightarrow> ptr" where
  "first_ready q i = (case q of [] \<Rightarrow> i | t # ts \<Rightarrow> t)"

text \<open>Threads are only added at the end of the ready list, and a switch takes its first.\<close>

definition queue_step :: "kernel \<Rightarrow> kernel \<Rightarrow> bool" where
  "queue_step k k' \<longleftrightarrow> (\<exists>q. (running k' = running k \<and> ready_list k' = ready_list k @ q) \<or>
     (running k' = first_ready (ready_list k @ q) (idle_thread k) \<and> ready_list k' = tl (ready_list k @ q)))"

lemma queue_same: "running k' = running k \<Longrightarrow> ready_list k' = ready_list k @ q \<Longrightarrow> queue_step k k'"
  by (auto simp: queue_step_def)

lemma schedule_queue:
  assumes "schedule K g = Some k'"
  shows "running k' = first_ready (ready_list K) (idle_thread K) \<and> ready_list k' = tl (ready_list K) \<and> thread_ticks k' = 0"
  using assms
  by (auto simp: schedule_def schedule_tail_def next_thread_to_run_def first_ready_def Let_def set_frames_def set_status_def
      bind_eq_Some_conv split: list.splits if_splits)

lemma switch_queue:
  assumes "schedule K g = Some k'" "ready_list K = ready_list k @ q" "idle_thread K = idle_thread k"
  shows "queue_step k k'"
  using schedule_queue [OF assms(1)] assms(2,3) by (auto simp: queue_step_def)

lemma set_queue:
  "set_frames K t g = Some k' \<Longrightarrow> running k' = running K \<and> ready_list k' = ready_list K \<and> idle_thread k' = idle_thread K"
  "set_result K t v = Some k' \<Longrightarrow> running k' = running K \<and> ready_list k' = ready_list K \<and> idle_thread k' = idle_thread K"
  "set_status K t s = Some k' \<Longrightarrow> running k' = running K \<and> ready_list k' = ready_list K \<and> idle_thread k' = idle_thread K"
  "alloc_frame K t n = Some k' \<Longrightarrow> running k' = running K \<and> ready_list k' = ready_list K \<and> idle_thread k' = idle_thread K"
  "intr_set_level K b = Some k' \<Longrightarrow> running k' = running K \<and> ready_list k' = ready_list K \<and> idle_thread k' = idle_thread K"
  "init_thread K t nm p fs = Some k' \<Longrightarrow> running k' = running K \<and> ready_list k' = ready_list K \<and> idle_thread k' = idle_thread K"
  by (auto simp: set_frames_def set_result_def set_status_def alloc_frame_def intr_set_level_def intr_enable_def
      intr_disable_def init_thread_def Let_def bind_eq_Some_conv split: if_splits)

lemma thread_unblock_queue:
  "thread_unblock K t = Some k' \<Longrightarrow>
     running k' = running K \<and> ready_list k' = ready_list K @ [t] \<and> idle_thread k' = idle_thread K"
  by (auto simp: thread_unblock_def Let_def bind_eq_Some_conv intr_disable_def dest!: set_queue(3,5) split: if_splits)

lemma block_queue:
  assumes "thread_block K g = Some k'" "ready_list K = ready_list k" "idle_thread K = idle_thread k"
  shows "queue_step k k'"
proof -
  obtain t K1 where K1: "set_status K t THREAD_BLOCKED = Some K1" "schedule K1 g = Some k'"
    using assms(1) by (auto simp: thread_block_def bind_eq_Some_conv split: if_splits)
  then show ?thesis using set_queue(3) [OF K1(1)] assms(2,3) by (intro switch_queue [of K1 g k' k "[]"]) simp_all
qed

lemma yield_queue:
  assumes "thread_yield K g = Some k'"
  shows "running k' = first_ready (ready_list K @ (if running K = idle_thread K then [] else [running K])) (idle_thread K)"
    "ready_list k' = tl (ready_list K @ (if running K = idle_thread K then [] else [running K]))" "thread_ticks k' = 0"
  using assms
  by (auto simp: thread_yield_def Let_def bind_eq_Some_conv intr_disable_def thread_current_def
      dest!: set_queue(3) schedule_queue split: if_splits)

lemma yield_queue_step:
  assumes "thread_yield K g = Some k'" "ready_list K = ready_list k @ q" "idle_thread K = idle_thread k"
  shows "queue_step k k'"
  using yield_queue [OF assms(1)] assms(2,3) by (auto simp: queue_step_def)

lemma sema_up_queue:
  assumes "sema_up k s = Some k'"
  shows "running k' = running k \<and> (\<exists>q. ready_list k' = ready_list k @ q) \<and> idle_thread k' = idle_thread k"
  using assms
  by (auto simp: sema_up_def Let_def bind_eq_Some_conv intr_disable_def dest!: set_queue(5) thread_unblock_queue
      split: list.splits if_splits)

lemma tick_sleepers_queue:
  "tick_sleepers k ts = Some k' \<Longrightarrow>
     running k' = running k \<and> (\<exists>q. ready_list k' = ready_list k @ q) \<and> idle_thread k' = idle_thread k"
proof (induction ts arbitrary: k)
  case (Cons t ts)
  then obtain b k1 k2 where *: "ThreadTick k t = Some (b, k1)" "(if b then ThreadAwake k1 t else Some k1) = Some k2"
      "tick_sleepers k2 ts = Some k'"
    by (auto simp: bind_eq_Some_conv)
  have "running k1 = running k \<and> ready_list k1 = ready_list k \<and> idle_thread k1 = idle_thread k"
    using *(1) by (auto simp: ThreadTick_def Let_def bind_eq_Some_conv split: if_splits)
  moreover have "running k2 = running k1 \<and> (\<exists>q. ready_list k2 = ready_list k1 @ q) \<and> idle_thread k2 = idle_thread k1"
    using *(2) by (auto simp: ThreadAwake_def bind_eq_Some_conv dest!: thread_unblock_queue split: if_splits)
  ultimately show ?case using Cons.IH [OF *(3)] by auto
qed simp

lemma frame_queue:
  assumes "exec k page f fs = Some k'" and "\<forall>s. f \<noteq> Idle_init s"
  shows "queue_step k k'"
proof (cases f)
  case (Sema_loop s)
  then show ?thesis using assms(1)
    by (auto simp: exec_def idle_block_def idle_hlt_def sema_down_loop_def Let_def bind_eq_Some_conv dest!: set_queue
        intro: block_queue queue_same [where q = "[]"] split: if_splits)
next
  case (Sema_up s)
  then obtain k1 where k1: "sema_up k s = Some k1" "set_frames k1 (running k) fs = Some k'"
    using assms(1) by (auto simp: exec_def idle_block_def idle_hlt_def bind_eq_Some_conv)
  then show ?thesis using sema_up_queue [OF k1(1)] set_queue(1) [OF k1(2)] by (auto intro: queue_same)
next
  case Thread_yield
  then show ?thesis using assms(1) by (auto simp: exec_def idle_block_def idle_hlt_def intro: yield_queue_step [where q = "[]"])
next
  case Thread_exit
  then obtain t k1 K where "set_status K t THREAD_DYING = Some k1" "schedule k1 [] = Some k'"
      "ready_list K = ready_list k" "idle_thread K = idle_thread k"
    using assms(1) by (auto simp: exec_def idle_block_def idle_hlt_def thread_exit_def Let_def bind_eq_Some_conv intr_disable_def split: if_splits)
  then show ?thesis by (auto dest!: set_queue(3) intro: switch_queue [where q = "[]"])
next
  case (Create_tail t ok)
  then show ?thesis using assms(1)
    by (auto simp: exec_def idle_block_def idle_hlt_def thread_create_tail_def bind_eq_Some_conv dest!: set_queue thread_unblock_queue
        intro: queue_same split: if_splits)
next
  case (Timer_sleep n)
  then show ?thesis using assms(1)
    by (auto simp: exec_def idle_block_def idle_hlt_def timer_sleep_eq ThreadSleep_def Let_def bind_eq_Some_conv intr_disable_def dest!: set_queue
        intro: block_queue queue_same [where q = "[]"] split: if_splits)
next
  case Idle_loop
  then show ?thesis using assms(1) by (auto simp: exec_def idle_block_def idle_hlt_def intr_disable_def intro: block_queue)
next
  case (Sema_try_down s)
  then obtain k1 k2 v where "sema_try_down k s = Some (v, k1)" "set_result k1 (running k) (if v then 1 else 0) = Some k2"
      "set_frames k2 (running k) fs = Some k'"
    using assms(1) by (auto simp: exec_def Let_def bind_eq_Some_conv)
  then show ?thesis by (auto dest!: sema_try_down_keeps set_queue intro!: queue_same [where q = "[]"])
next
  case (Lock_try_acquire l)
  then obtain k1 k2 v r g where "sema_try_down k (OfLock l) = Some (v, k1)" "set_result k1 r (if v then 1 else 0) = Some k2"
      "set_frames k2 (running k2) g = Some k'"
    using assms(1) by (auto simp: exec_def lock_try_acquire_def bind_eq_Some_conv split: if_splits)
  then show ?thesis by (auto dest!: sema_try_down_keeps set_queue intro!: queue_same [where q = "[]"])
qed (use assms in \<open>auto simp: exec_def idle_block_def idle_hlt_def sema_down_def lock_acquire_def set_holder_def lock_release_def
    cond_wait_def cond_signal_def cond_broadcast_def sema_init_def thread_create_def allocate_tid_step_def
    kernel_thread_def intr_enable_def intr_disable_def Let_def bind_eq_Some_conv
    dest!: set_queue intro!: queue_same [where q = "[]"] split: if_splits list.splits prod.splits\<close>)

lemma tick_queue:
  assumes x: "intr_handler_timer k = Some k'" and K: "kinv k" and on: "intr_on k"
  shows "queue_step k k'"
    "TIME_SLICE \<le> thread_ticks k + 1 \<Longrightarrow>
       \<exists>q. running k' = first_ready (ready_list k @ q) (idle_thread k) \<and> ready_list k' = tl (ready_list k @ q)"
proof -
  obtain k2 fs where k2: "(if yield_on_return k2 then thread_yield k2 fs else Some k2) = Some k'" "tick_done k k2"
    using tick_anatomy [OF K on] x by auto
  note d = k2(2) [unfolded tick_done_def]
  show 1: "\<exists>q. running k' = first_ready (ready_list k @ q) (idle_thread k) \<and> ready_list k' = tl (ready_list k @ q)"
    if "TIME_SLICE \<le> thread_ticks k + 1"
    using yield_queue [of k2 fs k'] k2(1) that d by auto
  show "queue_step k k'"
  proof (cases "TIME_SLICE \<le> thread_ticks k + 1")
    case True
    from 1 [OF True] show ?thesis by (auto simp: queue_step_def)
  next
    case False
    then show ?thesis using k2(1) d by (intro queue_same) auto
  qed
qed

lemma perform_queue:
  assumes K: "kinv k" and e: "enabled k e" "perform k e = Some k'"
  shows "queue_step k k'"
proof (cases e)
  case (Frame page)
  then obtain th f fs where f: "threads k (running k) = Some th" "frames th = f # fs" "exec k page f fs = Some k'"
    using e by (auto simp: run_frame_def fr_def split: option.splits list.splits)
  have "\<forall>s. f \<noteq> Idle_init s" using top_facts(1) [OF K, of f fs] f by (auto simp: fr_def)
  with f(3) show ?thesis by (rule frame_queue)
next
  case (Call c)
  then show ?thesis using e set_queue(1) [of k "running k" "[c]" k'] by (auto intro: queue_same [where q = "[]"])
next
  case Tick
  then show ?thesis using tick_queue(1) [OF _ K] e by simp
qed

text \<open>A thread of the ready list moves towards its head or runs.\<close>

definition position :: "kernel \<Rightarrow> ptr \<Rightarrow> nat \<Rightarrow> bool" where
  "position k t i \<longleftrightarrow> i < length (ready_list k) \<and> ready_list k ! i = t"

lemma slice_advances:
  assumes "running k' = first_ready (ready_list k @ q) d" "ready_list k' = tl (ready_list k @ q)" "position k t i"
  shows "running k' = t \<or> (\<exists>j < i. position k' t j)"
proof -
  obtain y ys where y: "ready_list k = y # ys" using assms(3) by (cases "ready_list k") (simp_all add: position_def)
  show ?thesis
  proof (cases i)
    case 0
    then show ?thesis using assms y by (simp add: position_def first_ready_def)
  next
    case (Suc j)
    then have "position k' t j" using assms y by (simp add: position_def nth_append)
    then show ?thesis using Suc by blast
  qed
qed

lemma queue_advances:
  assumes "queue_step k k'" "position k t i"
  shows "running k' = t \<or> (\<exists>j \<le> i. position k' t j)"
proof -
  consider q where "ready_list k' = ready_list k @ q"
    | q where "running k' = first_ready (ready_list k @ q) (idle_thread k)" "ready_list k' = tl (ready_list k @ q)"
    using assms(1) unfolding queue_step_def by blast
  then show ?thesis
  proof cases
    case 1
    then have "position k' t i" using assms(2) by (simp add: position_def nth_append)
    then show ?thesis by blast
  next
    case 2
    from slice_advances [OF this assms(2)] show ?thesis by (meson less_imp_le)
  qed
qed

text \<open>The number of time slices that end during a sequence of events.\<close>

fun slices :: "kernel \<Rightarrow> event list \<Rightarrow> nat" where
  "slices k [] = 0"
| "slices k (e # es) =
     (if enabled k e
      then (case perform k e of None \<Rightarrow> 0
            | Some k' \<Rightarrow> (if e = Tick \<and> TIME_SLICE \<le> thread_ticks k + 1 then 1 else 0) + slices k' es)
      else 0)"

lemma ready_runs:
  assumes "kinv k" "position k t i" "i < slices k es"
  shows "\<exists>k'\<in>set (states k es). running k' = t"
  using assms
proof (induction es arbitrary: k i)
  case (Cons e es)
  then obtain k1 where k1: "enabled k e" "perform k e = Some k1"
    by (cases "enabled k e"; cases "perform k e") simp_all
  have K1: "kinv k1" using perform_returns [OF Cons.prems(1) k1(1)] k1(2) by (simp add: returns_def)
  have st: "states k (e # es) = k1 # states k1 es" using k1 by simp
  show ?case
  proof (cases "running k1 = t")
    case False
    have "\<exists>j. position k1 t j \<and> j < slices k1 es"
    proof (cases "e = Tick \<and> TIME_SLICE \<le> thread_ticks k + 1")
      case True
      then obtain q where "running k1 = first_ready (ready_list k @ q) (idle_thread k)" "ready_list k1 = tl (ready_list k @ q)"
        using tick_queue(2) [OF _ Cons.prems(1)] k1 by auto
      from slice_advances [OF this Cons.prems(2)] False Cons.prems(3) True k1 show ?thesis by fastforce
    next
      case nt: False
      then have "slices k (e # es) = slices k1 es" using k1 by auto
      with queue_advances [OF perform_queue [OF Cons.prems(1) k1] Cons.prems(2)] False Cons.prems(3)
      show ?thesis by fastforce
    qed
    then obtain k' where "k' \<in> set (states k1 es)" "running k' = t" using Cons.IH [OF K1] by blast
    then show ?thesis unfolding st by (intro bexI [of _ k']) simp_all
  next
    case True
    then show ?thesis unfolding st by (intro bexI [of _ k1]) simp_all
  qed
qed simp

end
