(* ===== verification/Threads_Sleep.thy ===== *)
theory Threads_Sleep
  imports Threads_Run
begin

text \<open>
  The alarm clock over runs of the machine: only the timer interrupt counts the sleep of a thread
  down, and a thread that sleeps \<open>n\<close> ticks is made ready by the \<open>n\<close>-th of them.
\<close>

section \<open>Steps that do not tick\<close>

definition sleep_kept :: "kernel \<Rightarrow> kernel \<Rightarrow> bool" where
  "sleep_kept k k' \<longleftrightarrow> ticks k' = ticks k \<and> (\<exists>q. sleepList k' = sleepList k @ q) \<and>
     (\<forall>t. t \<noteq> running k \<longrightarrow> threads k t \<noteq> None \<longrightarrow> slp k' t = slp k t)"

lemma slp_map: "threads k' t = Some th' \<Longrightarrow> threads k t = Some th \<Longrightarrow> sleepTick th' = sleepTick th \<Longrightarrow> slp k' t = slp k t"
  by (simp add: slp_def)

lemma slp_threads: "threads k' = threads k \<Longrightarrow> slp k' t = slp k t"
  by (simp add: slp_def)

definition quiet_step :: "kernel \<Rightarrow> kernel \<Rightarrow> bool" where
  "quiet_step k k' \<longleftrightarrow> ticks k' = ticks k \<and> sleepList k' = sleepList k \<and> running k' = running k \<and>
     dom (threads k) \<subseteq> dom (threads k') \<and> (\<forall>t\<in>dom (threads k). slp k' t = slp k t)"

lemma quiet_refl: "threads k' = threads k \<Longrightarrow> ticks k' = ticks k \<Longrightarrow> sleepList k' = sleepList k \<Longrightarrow> running k' = running k \<Longrightarrow> quiet_step k k'"
  by (simp add: quiet_step_def slp_def)

lemma quiet_trans: "quiet_step k k1 \<Longrightarrow> quiet_step k1 k' \<Longrightarrow> quiet_step k k'"
  unfolding quiet_step_def by (metis subset_trans subsetD)

lemma quiet_sets:
  "set_frames K t g = Some k' \<Longrightarrow> quiet_step K k'"
  "set_result K t v = Some k' \<Longrightarrow> quiet_step K k'"
  "set_status K t s = Some k' \<Longrightarrow> quiet_step K k'"
  "alloc_frame K t n = Some k' \<Longrightarrow> quiet_step K k'"
  "intr_set_level K b = Some k' \<Longrightarrow> quiet_step K k'"
  by (auto simp: set_frames_def set_result_def set_status_def alloc_frame_def intr_set_level_def intr_enable_def
      intr_disable_def bind_eq_Some_conv quiet_step_def slp_def split: if_splits)

lemma quiet_init: "init_thread K t nm p fs = Some k' \<Longrightarrow> threads K t = None \<Longrightarrow> quiet_step K k'"
  by (auto simp: init_thread_def Let_def quiet_step_def slp_def split: if_splits)

lemma quiet_from:
  "quiet_step K k' \<Longrightarrow> threads K = threads k \<Longrightarrow> ticks K = ticks k \<Longrightarrow> sleepList K = sleepList k \<Longrightarrow> running K = running k \<Longrightarrow>
   quiet_step k k'"
  by (simp add: quiet_step_def slp_def)

lemma quiet_unblock:
  assumes "thread_unblock K t = Some k'"
  shows "quiet_step K k'"
proof -
  obtain k1 where k1: "set_status (intr_disable K) t THREAD_READY = Some k1"
      "intr_set_level (k1\<lparr>ready_list := ready_list k1 @ [t]\<rparr>) (intr_get_level K) = Some k'"
    using assms by (auto simp: thread_unblock_def Let_def bind_eq_Some_conv split: if_splits)
  have "quiet_step K k1" using quiet_sets(3) [OF k1(1)] by (rule quiet_from) (simp_all add: intr_disable_def)
  moreover have "quiet_step k1 k'" using quiet_sets(5) [OF k1(2)] by (rule quiet_from) simp_all
  ultimately show ?thesis by (rule quiet_trans)
qed

lemma quiet_kept: "quiet_step k k' \<Longrightarrow> sleep_kept k k'"
  by (auto simp: quiet_step_def sleep_kept_def)

lemma schedule_tail_kept:
  assumes "schedule_tail K prev = Some k'"
  shows "ticks k' = ticks K \<and> sleepList k' = sleepList K \<and> (\<forall>t. t \<noteq> prev \<or> prev = NULL \<longrightarrow> threads K t \<noteq> None \<longrightarrow> slp k' t = slp K t)"
proof -
  obtain k1 where k1: "set_status K (running K) THREAD_RUNNING = Some k1"
      "k' = k1\<lparr>thread_ticks := 0\<rparr> \<or> prev \<noteq> NULL \<and> k' = (k1\<lparr>thread_ticks := 0\<rparr>)\<lparr>threads := (threads k1)(prev := None)\<rparr>"
    using assms by (auto simp: schedule_tail_def Let_def bind_eq_Some_conv split: if_splits)
  note q = quiet_sets(3) [OF k1(1), unfolded quiet_step_def]
  have "ticks k' = ticks k1" "sleepList k' = sleepList k1" "t \<noteq> prev \<or> prev = NULL \<Longrightarrow> slp k' t = slp k1 t" for t
    using k1(2) by (auto simp: slp_def)
  with q show ?thesis by (auto simp: domIff)
qed

lemma schedule_kept:
  assumes "schedule K g = Some k'"
  shows "ticks k' = ticks K" "sleepList k' = sleepList K" "t \<noteq> running K \<Longrightarrow> threads K t \<noteq> None \<Longrightarrow> slp k' t = slp K t"
proof -
  let ?K = "snd (next_thread_to_run K)"
  have n: "threads ?K = threads K" "ticks ?K = ticks K" "sleepList ?K = sleepList K" "running ?K = running K"
    by (auto simp: next_thread_to_run_def split: list.split)
  obtain k1 where k1: "set_frames ?K (running K) g = Some k1"
    and c: "(if running K \<noteq> fst (next_thread_to_run K) then schedule_tail (k1\<lparr>running := fst (next_thread_to_run K)\<rparr>) (running K)
         else schedule_tail k1 NULL) = Some k'"
    using assms by (auto simp: schedule_def Let_def bind_eq_Some_conv split: if_splits prod.splits)
  have T: "ticks k' = ticks k1 \<and> sleepList k' = sleepList k1 \<and>
      (\<forall>t. t \<noteq> running K \<longrightarrow> threads k1 t \<noteq> None \<longrightarrow> slp k' t = slp k1 t)"
  proof (cases "running K = fst (next_thread_to_run K)")
    case True
    then show ?thesis using schedule_tail_kept [of k1 NULL k'] c by simp
  next
    case False
    let ?k = "k1\<lparr>running := fst (next_thread_to_run K)\<rparr>"
    have "slp ?k t = slp k1 t" for t by (rule slp_threads) simp
    then show ?thesis using schedule_tail_kept [of ?k "running K" k'] c False by simp
  qed
  have "quiet_step K k1" using quiet_sets(1) [OF k1] by (rule quiet_from) (simp_all add: n)
  note q = this [unfolded quiet_step_def]
  show "ticks k' = ticks K" "sleepList k' = sleepList K" "t \<noteq> running K \<Longrightarrow> threads K t \<noteq> None \<Longrightarrow> slp k' t = slp K t"
    using q T by (auto simp: domIff)
qed

lemma kept_switch:
  assumes "schedule K g = Some k'" "ticks K = ticks k" "sleepList K = sleepList k @ q" "running K = running k"
    "\<And>t. t \<noteq> running k \<Longrightarrow> threads k t \<noteq> None \<Longrightarrow> threads K t \<noteq> None \<and> slp K t = slp k t"
  shows "sleep_kept k k'"
  using schedule_kept [OF assms(1)] assms(2-5) by (auto simp: sleep_kept_def)

lemma quiet_switch:
  assumes "quiet_step k K" "schedule K g = Some k'"
  shows "sleep_kept k k'"
  using assms(1) by (intro kept_switch [OF assms(2), where q = "[]"]) (auto simp: quiet_step_def)

lemma kept_block:
  assumes "thread_block K g = Some k'" "ticks K = ticks k" "sleepList K = sleepList k @ q" "running K = running k"
    "\<And>t. t \<noteq> running k \<Longrightarrow> threads k t \<noteq> None \<Longrightarrow> threads K t \<noteq> None \<and> slp K t = slp k t"
  shows "sleep_kept k k'"
proof -
  obtain t k1 where k1: "set_status K t THREAD_BLOCKED = Some k1" "schedule k1 g = Some k'"
    using assms(1) by (auto simp: thread_block_def bind_eq_Some_conv split: if_splits)
  note q = quiet_sets(3) [OF k1(1), unfolded quiet_step_def]
  show ?thesis
  proof (rule kept_switch [OF k1(2)])
    show "sleepList k1 = sleepList k @ q" using q assms(3) by simp
    fix t assume "t \<noteq> running k" "threads k t \<noteq> None"
    from assms(5) [OF this] q show "threads k1 t \<noteq> None \<and> slp k1 t = slp k t" by (metis domD domI option.distinct(1) subsetD domIff)
  qed (use q assms(2,4) in auto)
qed

lemma yield_kept:
  assumes "thread_yield k g = Some k'"
  shows "sleep_kept k k'"
proof -
  obtain t k1 where k1: "set_status (if t \<noteq> idle_thread k then (intr_disable k)\<lparr>ready_list := ready_list k @ [t]\<rparr> else intr_disable k)
        t THREAD_READY = Some k1" "schedule k1 (Intr_set_level (intr_on k) # g) = Some k'"
    using assms by (fastforce simp: thread_yield_def Let_def bind_eq_Some_conv intr_get_level_def intr_disable_def split: if_splits)
  have "quiet_step k k1"
    using quiet_sets(3) [OF k1(1)] by (rule quiet_from) (simp_all add: intr_disable_def)
  then show ?thesis by (rule quiet_switch [OF _ k1(2)])
qed

lemma semas_intr_disable: "semas (intr_disable k) = semas k"
  by (simp add: intr_disable_def)

lemma frame_kept:
  assumes x: "exec k page f fs = Some k'" and pg: "page = NULL \<or> threads k page = None"
  shows "sleep_kept k k'"
proof (cases f)
  case (Sema_loop s)
  then obtain t where "thread_block (upd_sema k s ((semas k s)\<lparr>waiters := waiters (semas k s) @ [t]\<rparr>)) (Sema_loop s # fs) = Some k' \<or>
      set_frames (upd_sema k s ((semas k s)\<lparr>val := val (semas k s) - 1\<rparr>)) t fs = Some k'"
    using x by (auto simp: exec_def idle_block_def idle_hlt_def sema_down_loop_def Let_def bind_eq_Some_conv split: if_splits)
  then show ?thesis
  proof
    assume "thread_block (upd_sema k s ((semas k s)\<lparr>waiters := waiters (semas k s) @ [t]\<rparr>)) (Sema_loop s # fs) = Some k'"
    then show ?thesis by (rule kept_block [where q = "[]"]) (auto simp: slp_def)
  next
    assume "set_frames (upd_sema k s ((semas k s)\<lparr>val := val (semas k s) - 1\<rparr>)) t fs = Some k'"
    from quiet_from [OF quiet_sets(1) [OF this]] show ?thesis by (intro quiet_kept) simp
  qed
next
  case (Sema_up s)
  then obtain k1 where k1: "sema_up k s = Some k1" "set_frames k1 (running k) fs = Some k'"
    using x by (auto simp: exec_def idle_block_def idle_hlt_def bind_eq_Some_conv)
  obtain k2 where k2: "(case waiters (semas k s) of [] \<Rightarrow> Some (intr_disable k)
        | t # ts \<Rightarrow> thread_unblock (upd_sema (intr_disable k) s ((semas (intr_disable k) s)\<lparr>waiters := ts\<rparr>)) t) = Some k2"
      "intr_set_level (upd_sema k2 s ((semas k2 s)\<lparr>val := val (semas k2 s) + 1\<rparr>)) (intr_on k) = Some k1"
    using k1(1) by (auto simp: sema_up_def Let_def bind_eq_Some_conv intr_get_level_def semas_intr_disable split: if_splits)
  have "quiet_step k k2"
    using k2(1) by (auto simp: intr_disable_def split: list.splits
        dest!: quiet_unblock intro: quiet_refl quiet_from)
  moreover have "quiet_step k2 k1" using quiet_sets(5) [OF k2(2)] by (rule quiet_from) simp_all
  ultimately show ?thesis using quiet_sets(1) [OF k1(2)] by (blast intro: quiet_trans quiet_kept)
next
  case Thread_yield
  then show ?thesis using x by (auto simp: exec_def idle_block_def idle_hlt_def intro: yield_kept)
next
  case Thread_exit
  then obtain t K k1 where k1: "set_status K t THREAD_DYING = Some k1" "schedule k1 [] = Some k'"
      "threads K = threads k" "ticks K = ticks k" "sleepList K = sleepList k" "running K = running k"
    using x by (auto simp: exec_def idle_block_def idle_hlt_def thread_exit_def Let_def bind_eq_Some_conv intr_disable_def split: if_splits)
  have "quiet_step k k1" using quiet_sets(3) [OF k1(1)] k1(3-6) by (rule quiet_from)
  then show ?thesis by (rule quiet_switch [OF _ k1(2)])
next
  case (Create_tail t ok)
  then show ?thesis using x
    by (auto simp: exec_def idle_block_def idle_hlt_def thread_create_tail_def bind_eq_Some_conv split: if_splits)
      (blast intro: quiet_trans quiet_kept quiet_sets quiet_unblock)+
next
  case (Timer_sleep n)
  then obtain t where t: "thread_current k = Some t" "t = running k"
    using x by (auto simp: exec_def idle_block_def idle_hlt_def timer_sleep_eq ThreadSleep_def thread_current_def bind_eq_Some_conv split: if_splits)
  then consider "set_frames k t fs = Some k'"
    | th where "thread_block ((upd_thread (intr_disable k) t (th\<lparr>sleepTick := n\<rparr>))\<lparr>sleepList := sleepList k @ [t]\<rparr>)
        (Intr_set_level (intr_on k) # fs) = Some k'"
    using x Timer_sleep by (auto simp: exec_def idle_block_def idle_hlt_def timer_sleep_eq ThreadSleep_def Let_def bind_eq_Some_conv intr_get_level_def
        intr_disable_def split: if_splits)
  then show ?thesis
  proof cases
    case 1
    then show ?thesis by (intro quiet_kept quiet_sets)
  next
    case 2
    then show ?thesis by (rule kept_block) (auto simp: intr_disable_def t(2) slp_def)
  qed
next
  case Idle_loop
  then show ?thesis using x by (auto simp: exec_def idle_block_def idle_hlt_def intr_disable_def slp_def intro: kept_block [where q = "[]"])
next
  case (Thread_create nm prio ok func)
  then consider k1 where "set_result k (running k) TID_ERROR = Some k1" "set_frames k1 (running k) fs = Some k'"
    | k1 g body where "init_thread k page nm prio (Kernel_thread # body) = Some k1" "set_frames k1 (running k) g = Some k'" "page \<noteq> NULL"
    using x by (auto simp: exec_def idle_block_def idle_hlt_def thread_create_def thread_current_def bind_eq_Some_conv split: if_splits)
  then show ?thesis
    using pg by cases (blast intro: quiet_trans quiet_kept quiet_sets quiet_init)+
next
  case (Next_tid t)
  then obtain r th where "threads k t = Some th"
      "set_frames ((upd_thread k t (th\<lparr>tid := next_tid k\<rparr>))\<lparr>next_tid := next_tid k + 1\<rparr>) r fs = Some k'"
    using x by (auto simp: exec_def idle_block_def idle_hlt_def allocate_tid_step_def Let_def bind_eq_Some_conv)
  moreover from this(1) have "quiet_step k ((upd_thread k t (th\<lparr>tid := next_tid k\<rparr>))\<lparr>next_tid := next_tid k + 1\<rparr>)"
    by (auto simp: quiet_step_def slp_def)
  ultimately show ?thesis by (blast intro: quiet_trans quiet_kept quiet_sets)
next
  case (Sema_try_down s)
  then obtain k1 k2 v where "sema_try_down k s = Some (v, k1)" "set_result k1 (running k) (if v then 1 else 0) = Some k2"
      "set_frames k2 (running k) fs = Some k'"
    using x by (auto simp: exec_def idle_block_def idle_hlt_def Let_def bind_eq_Some_conv split: prod.splits)
  moreover from this(1) have "quiet_step k k1" by (auto dest!: sema_try_down_keeps intro: quiet_from [OF quiet_refl])
  ultimately show ?thesis by (blast intro: quiet_trans quiet_kept quiet_sets)
next
  case (Lock_try_acquire l)
  then obtain k1 k2 v r g where "sema_try_down k (OfLock l) = Some (v, k1)" "set_result k1 r (if v then 1 else 0) = Some k2"
      "set_frames k2 (running k2) g = Some k'"
    using x by (auto simp: exec_def idle_block_def idle_hlt_def lock_try_acquire_def Let_def bind_eq_Some_conv split: prod.splits if_splits)
  moreover from this(1) have "quiet_step k k1" by (auto dest!: sema_try_down_keeps intro: quiet_from [OF quiet_refl])
  ultimately show ?thesis by (blast intro: quiet_trans quiet_kept quiet_sets)
qed (use x in \<open>auto simp: exec_def idle_block_def idle_hlt_def sema_down_def lock_acquire_def set_holder_def lock_release_def
    cond_wait_def cond_signal_def cond_broadcast_def sema_init_def
    kernel_thread_def intr_enable_def intr_disable_def intr_set_level_def idle_init_def Let_def bind_eq_Some_conv
    dest!: quiet_sets intro!: quiet_kept elim!: quiet_from split: if_splits list.splits prod.splits\<close>)

section \<open>The tick\<close>

lemma yield_lists:
  assumes "thread_yield k g = Some k'"
  shows "ticks k' = ticks k" "sleepList k' = sleepList k" "t \<in> set (ready_list k) \<Longrightarrow> t = running k' \<or> t \<in> set (ready_list k')"
proof -
  obtain t k1 where k1: "set_status (if t \<noteq> idle_thread k then (intr_disable k)\<lparr>ready_list := ready_list k @ [t]\<rparr> else intr_disable k)
        t THREAD_READY = Some k1" "schedule k1 (Intr_set_level (intr_on k) # g) = Some k'"
    using assms by (fastforce simp: thread_yield_def Let_def bind_eq_Some_conv intr_get_level_def intr_disable_def split: if_splits)
  have "quiet_step k k1" using quiet_sets(3) [OF k1(1)] by (rule quiet_from) (simp_all add: intr_disable_def)
  then show "ticks k' = ticks k" "sleepList k' = sleepList k"
    using schedule_kept(1,2) [OF k1(2)] by (simp_all add: quiet_step_def)
  have "t \<in> set xs \<Longrightarrow> t = first_ready xs d \<or> t \<in> set (tl xs)" for t :: ptr and xs d
    by (cases xs) (auto simp: first_ready_def)
  then show "t \<in> set (ready_list k) \<Longrightarrow> t = running k' \<or> t \<in> set (ready_list k')" for t
    unfolding yield_queue(1,2) [OF assms] by (metis UnI1 set_append)
qed

lemma tick_sleep:
  assumes x: "intr_handler_timer k = Some k'" and K: "kinv k" and on: "intr_on k"
  shows "ticks k' = ticks k + 1" "sleepList k' = filter (\<lambda>t. slp k t \<noteq> 1) (sleepList k)"
    "t \<in> set (sleepList k') \<Longrightarrow> slp k' t = slp k t - 1"
    "t \<in> set (sleepList k) \<Longrightarrow> slp k t = 1 \<Longrightarrow> t = running k' \<or> t \<in> set (ready_list k')"
proof -
  obtain k2 fs where k2: "(if yield_on_return k2 then thread_yield k2 fs else Some k2) = Some k'" "tick_done k k2" "kinv k2"
    using tick_anatomy [OF K on] x by auto
  note d = k2(2) [unfolded tick_done_def]
  have "ticks k' = ticks k2 \<and> sleepList k' = sleepList k2 \<and> (t \<in> set (sleepList k2) \<longrightarrow> slp k' t = slp k2 t) \<and>
      (t \<in> set (ready_list k2) \<longrightarrow> t = running k' \<or> t \<in> set (ready_list k'))"
  proof (cases "yield_on_return k2")
    case True
    then have y: "thread_yield k2 fs = Some k'" using k2(1) by simp
    have "slp k' t = slp k2 t" if "t \<in> set (sleepList k2)"
    proof -
      have "st k2 t = Some THREAD_BLOCKED" using sleeper_facts(1) [of "view k2" t] k2(3) that by (simp add: kinv_def)
      moreover from this have "t \<noteq> running k2" using k2(3) unfolding kinv_def one_runs_def by force
      ultimately show ?thesis using yield_kept [OF y] by (auto simp: sleep_kept_def st_def)
    qed
    then show ?thesis using yield_lists [OF y] by blast
  qed (use k2(1) in simp)
  then show "ticks k' = ticks k + 1" "sleepList k' = filter (\<lambda>t. slp k t \<noteq> 1) (sleepList k)"
    "t \<in> set (sleepList k') \<Longrightarrow> slp k' t = slp k t - 1"
    "t \<in> set (sleepList k) \<Longrightarrow> slp k t = 1 \<Longrightarrow> t = running k' \<or> t \<in> set (ready_list k')"
    using d by auto
qed

lemma perform_kept:
  assumes "enabled k e" "perform k e = Some k'" "e \<noteq> Tick"
  shows "sleep_kept k k'"
proof (cases e)
  case (Frame page)
  then obtain th f fs where "threads k (running k) = Some th" "frames th = f # fs" "exec k page f fs = Some k'"
    using assms by (auto simp: run_frame_def fr_def split: option.splits list.splits)
  then show ?thesis using assms(1) Frame by (intro frame_kept) auto
next
  case (Call c)
  then show ?thesis using assms(2) by (intro quiet_kept quiet_sets) auto
qed (use assms in simp)

section \<open>Runs\<close>

text \<open>The state after a sequence of events, all of them enabled.\<close>

fun after :: "kernel \<Rightarrow> event list \<Rightarrow> kernel option" where
  "after k [] = Some k"
| "after k (e # es) = (if enabled k e then do { k' \<leftarrow> perform k e; after k' es } else None)"

lemma after_append: "after k (es @ fs) = do { k' \<leftarrow> after k es; after k' fs }"
  by (induction es arbitrary: k) (auto split: bind_splits)

lemma after_kinv: "kinv k \<Longrightarrow> after k es = Some k' \<Longrightarrow> kinv k'"
proof (induction es arbitrary: k)
  case (Cons e es)
  then obtain k1 where "enabled k e" "perform k e = Some k1" "after k1 es = Some k'"
    by (auto simp: bind_eq_Some_conv split: if_splits)
  with Cons show ?case using perform_returns [of k e] by (auto simp: returns_def)
qed simp

lemma ticks_mono: "kinv k \<Longrightarrow> after k es = Some k' \<Longrightarrow> ticks k \<le> ticks k'"
proof (induction es arbitrary: k)
  case (Cons e es)
  then obtain k1 where k1: "enabled k e" "perform k e = Some k1" "after k1 es = Some k'"
    by (auto simp: bind_eq_Some_conv split: if_splits)
  have "ticks k \<le> ticks k1"
    using tick_sleep(1) [of k k1] perform_kept [OF k1(1,2)] Cons.prems(1) k1 by (cases "e = Tick") (auto simp: sleep_kept_def)
  moreover have "kinv k1" using perform_returns [OF Cons.prems(1) k1(1)] k1(2) by (simp add: returns_def)
  ultimately show ?case using Cons.IH [OF _ k1(3)] by simp
qed simp

lemma still_asleep:
  assumes "kinv k" "t \<in> set (sleepList k)" "after k es = Some k'" "ticks k' - ticks k < slp k t"
  shows "t \<in> set (sleepList k') \<and> slp k' t = slp k t - (ticks k' - ticks k)"
  using assms
proof (induction es arbitrary: k)
  case (Cons e es)
  then obtain k1 where k1: "enabled k e" "perform k e = Some k1" "after k1 es = Some k'"
    by (auto simp: bind_eq_Some_conv split: if_splits)
  have K1: "kinv k1" using perform_returns [OF Cons.prems(1) k1(1)] k1(2) by (simp add: returns_def)
  have "t \<in> set (sleepList k1) \<and> slp k1 t = slp k t - (ticks k1 - ticks k)"
  proof (cases "e = Tick")
    case True
    then have x: "intr_handler_timer k = Some k1" "intr_on k" using k1 by auto
    note s = tick_sleep [OF x(1) Cons.prems(1) x(2)]
    have "slp k t \<noteq> 1" using s(1) ticks_mono [OF K1 k1(3)] Cons.prems(4) by auto
    then have "t \<in> set (sleepList k1)" using s(2) Cons.prems(2) by simp
    then show ?thesis using s(1,3) by simp
  next
    case False
    have "st k t = Some THREAD_BLOCKED" using sleeper_facts(1) [of "view k" t] Cons.prems(1,2) by (simp add: kinv_def)
    moreover from this have "t \<noteq> running k" using Cons.prems(1) unfolding kinv_def one_runs_def by force
    ultimately show ?thesis using perform_kept [OF k1(1,2) False] Cons.prems(2) by (auto simp: sleep_kept_def st_def)
  qed
  with Cons.IH [OF K1 _ k1(3)] Cons.prems(4) show ?case by simp
qed simp

lemma woken_by_last_tick:
  assumes K: "kinv k" and t: "t \<in> set (sleepList k)" and a: "after k (es @ [Tick]) = Some k'" and n: "ticks k' - ticks k = slp k t"
  shows "t \<notin> set (sleepList k') \<and> (t = running k' \<or> t \<in> set (ready_list k'))"
proof -
  obtain k1 where k1: "after k es = Some k1" "intr_on k1" "intr_handler_timer k1 = Some k'"
    using a by (auto simp: after_append bind_eq_Some_conv split: if_splits)
  have K1: "kinv k1" using after_kinv [OF K k1(1)] .
  note s = tick_sleep [OF k1(3) K1 k1(2)]
  have "t \<in> set (sleepList k1) \<and> slp k1 t = slp k t - (ticks k1 - ticks k)"
    using s(1) n by (intro still_asleep [OF K t k1(1)]) simp
  then have "t \<in> set (sleepList k1)" "slp k1 t = 1" using s(1) n by auto
  then show ?thesis using s(2,4) by auto
qed

end
