(* ===== verification/Threads_Props.thy ===== *)
theory Threads_Props
  imports Threads_Sleep
begin

text \<open>
  The properties of the thread system in every state it can reach.
\<close>

section \<open>Facts shared by the properties\<close>

lemma reach_after: "reach main idle k \<Longrightarrow> after k es = Some k' \<Longrightarrow> reach main idle k'"
proof (induction es arbitrary: k)
  case (Cons e es)
  then obtain k1 where "enabled k e" "perform k e = Some k1" "after k1 es = Some k'"
    by (auto simp: bind_eq_Some_conv split: if_splits)
  with Cons show ?case using kstep_event reach.step by blast
qed simp

lemma reach_booted: "reach 4096 8192 (booted 4096 8192)"
  by (rule reach.start) (simp add: boot_eq)

text \<open>The lists a thread can be in: its \<open>elem\<close> member links it in the ready list or in the
  waiters of a semaphore, its \<open>sleepElem\<close> in the sleeping threads.\<close>

datatype elem_list = Ready | Waiting sema_ref | Sleeping

fun in_list :: "kernel \<Rightarrow> ptr \<Rightarrow> elem_list \<Rightarrow> bool" where
  "in_list k t Ready \<longleftrightarrow> t \<in> set (ready_list k)"
| "in_list k t (Waiting s) \<longleftrightarrow> t \<in> set (waiters (semas k s))"
| "in_list k t Sleeping \<longleftrightarrow> t \<in> set (sleepList k)"

lemma in_list_status:
  assumes "kinv k" "in_list k t L"
  shows "st k t = Some (if L = Ready then THREAD_READY else THREAD_BLOCKED)"
proof -
  have ok: "sched_ok (view k)" using assms(1) by (simp add: kinv_def)
  show ?thesis
  proof (cases L)
    case Ready
    then show ?thesis using ok assms(2) by (simp add: sched_ok_def ready_ok_def)
  next
    case (Waiting s)
    then show ?thesis using waiter_facts(1) [OF ok, of t s] assms(2) by (simp add: wait_lists_def)
  next
    case Sleeping
    then show ?thesis using sleeper_facts(1) [OF ok, of t] assms(2) by simp
  qed
qed

lemma in_one_list:
  assumes "kinv k" "in_list k t L" "in_list k t L'"
  shows "L = L'"
proof -
  have ok: "sched_ok (view k)" using assms(1) by (simp add: kinv_def)
  have r: "(L = Ready) = (L' = Ready)"
    using in_list_status [OF assms(1,2)] in_list_status [OF assms(1,3)] by (simp split: if_splits)
  show ?thesis
  proof (cases L)
    case Ready
    then show ?thesis using r by simp
  next
    case (Waiting s)
    then have s: "t \<in> set (WL (view k) s)" using assms(2) by (simp add: wait_lists_def)
    show ?thesis
    proof (cases L')
      case (Waiting s')
      then show ?thesis using waiter_facts(3) [OF ok s, of s'] \<open>L = Waiting s\<close> assms(3) by (simp add: wait_lists_def)
    qed (use waiter_facts(4) [OF ok s] r Waiting assms(3) in simp_all)
  next
    case Sleeping
    then show ?thesis
      using waiter_facts(4) [OF ok, of t] r assms(2,3) by (cases L') (auto simp: wait_lists_def)
  qed
qed

text \<open>A thread has a lock from the moment it has taken the lock's semaphore down to the moment it
  puts it up again: it is the holder, or about to become it, or about to put the semaphore up.\<close>

definition has_lock :: "kernel \<Rightarrow> ptr \<Rightarrow> ptr \<Rightarrow> bool" where
  "has_lock k l t \<longleftrightarrow> t \<noteq> NULL \<and> holder k l = t \<or> 0 < tok l (fr k t)"

lemma token_only:
  assumes K: "kinv k" and t: "0 < tok l (fr k t)" and u: "has_lock k l u"
  shows "u = t"
proof (rule ccontr)
  assume "u \<noteq> t"
  have "1 \<le> tok l (fr k t)" using t by simp
  note e = token_excl [OF K this]
  have "tok l (fr k u) = 0" using e(4) \<open>u \<noteq> t\<close> by blast
  then show False using u e(1) unfolding has_lock_def by (elim disjE conjE) simp_all
qed

lemma lock_excl:
  assumes K: "kinv k" and t: "has_lock k l t" and u: "has_lock k l u"
  shows "t = u"
proof (cases "0 < tok l (fr k t)")
  case True
  then show ?thesis using token_only [OF K _ u] by simp
next
  case False
  show ?thesis
  proof (cases "0 < tok l (fr k u)")
    case True
    then show ?thesis using token_only [OF K _ t] by simp
  next
    case nu: False
    then show ?thesis using False t u by (simp add: has_lock_def)
  qed
qed

lemma lock_val:
  assumes K: "kinv k"
  shows "val (semas k (OfLock l)) = (if \<exists>t. has_lock k l t then 0 else 1)"
proof (cases "\<exists>t. has_lock k l t")
  case True
  then obtain t where t: "t \<noteq> NULL \<and> holder k l = t \<or> 0 < tok l (fr k t)" by (auto simp: has_lock_def)
  then have "val (semas k (OfLock l)) = 0"
  proof
    assume "t \<noteq> NULL \<and> holder k l = t"
    then have "uint (val (semas k (OfLock l))) \<le> 0" using lock_val_le [OF K, of l] by (simp split: if_splits)
    then show ?thesis using uint_ge_0 [of "val (semas k (OfLock l))"] by (simp add: uint_0_iff)
  next
    assume "0 < tok l (fr k t)"
    then show ?thesis using token_excl(2) [OF K, of l t] by simp
  qed
  with True show ?thesis by simp
next
  case False
  then have "\<not> 0 < tok l (fr k t)" "holder k l = NULL" for t by (auto simp: has_lock_def)
  moreover have "0 \<le> tok l (fr k t)" for t using K tok_ok_nonneg by (simp add: kinv_def stacks_wf_def)
  ultimately have "tok l (fr k t) = 0" "holder k l = NULL" for t by (force simp: le_less)+
  moreover have "lock_tokens k l = 1" using K by (simp add: kinv_def stacks_wf_def)
  ultimately have "uint (val (semas k (OfLock l))) = 1" by (simp add: lock_tokens_def)
  then have "val (semas k (OfLock l)) = 1" by (metis unsigned_1 word_uint_eqI)
  with False show ?thesis by simp
qed

section \<open>The properties\<close>



text \<open>C12. The scheduler's lists: in every reachable state exactly one thread runs, the ready list
  holds exactly the ready threads other than the idle thread, each once, and a thread is in at most one
  list (the ready list, the waiters of one semaphore, or the sleeping threads), in the latter two only
  if it is blocked. So the shared \<open>elem\<close> member is never linked twice, which is what the intrusive
  lists need.\<close>

theorem scheduler_lists:
  assumes "main \<noteq> NULL" "idle \<noteq> NULL" "main \<noteq> idle" and "reach main idle k"
  shows "(\<forall>t. st k t = Some THREAD_RUNNING \<longleftrightarrow> t = running k) \<and>
    (\<forall>t. t \<in> set (ready_list k) \<longleftrightarrow> st k t = Some THREAD_READY \<and> t \<noteq> idle_thread k) \<and>
    distinct (ready_list k) \<and> (\<forall>s. distinct (waiters (semas k s))) \<and> distinct (sleepList k) \<and>
    (\<forall>t L L'. in_list k t L \<and> in_list k t L' \<longrightarrow> L = L') \<and>
    (\<forall>t L. in_list k t L \<and> L \<noteq> Ready \<longrightarrow> st k t = Some THREAD_BLOCKED)"
proof (intro conjI allI impI)
  note K = reach_kinv [OF assms(4,1-3)]
  then have ok: "ready_ok (view k)" "wait_ok (view k)" "sleep_ok (view k)" "one_runs (view k) (running k)"
    by (simp_all add: kinv_def sched_ok_def)
  show "st k t = Some THREAD_RUNNING \<longleftrightarrow> t = running k" for t using ok(4) by (simp add: one_runs_def)
  show "t \<in> set (ready_list k) \<longleftrightarrow> st k t = Some THREAD_READY \<and> t \<noteq> idle_thread k" for t
    using ok(1) by (simp add: ready_ok_def)
  show "distinct (ready_list k)" "distinct (waiters (semas k s))" "distinct (sleepList k)" for s
    using ok(1-3) by (simp_all add: ready_ok_def wait_ok_def sleep_ok_def wait_lists_def)
  show "L = L'" if "in_list k t L \<and> in_list k t L'" for t L L' using in_one_list [OF K] that by blast
  show "st k t = Some THREAD_BLOCKED" if "in_list k t L \<and> L \<noteq> Ready" for t L using in_list_status [OF K, of t L] that by simp
qed

lemmas run_simps = boot_simps fr_def perform.simps booted_def power_on_def

lemmas tick_simps = timer_sleep_eq ThreadSleep_def intr_handler_timer_def timer_interrupt_def thread_tick_def
  ThreadTick_def ThreadAwake_def TIME_SLICE_def intr_yield_on_return_def thread_yield_def

text \<open>Runs for the examples: \<open>main\<close> creates a thread; four ticks pass; it acquires a lock; it goes
  to sleep for two ticks.\<close>

definition run_create :: "event list" where
  "run_create = [Call (Thread_create ''t'' 31 True (Some [])), Frame 12288, Frame NULL, Frame NULL, Frame NULL, Frame NULL, Frame NULL,
     Frame NULL, Frame NULL, Frame NULL, Frame NULL]"

definition run_slice :: "event list" where
  "run_slice = [Tick, Frame NULL, Tick, Frame NULL, Tick, Frame NULL, Tick]"

definition run_lock :: "event list" where
  "run_lock = [Call (Lock_acquire 7), Frame NULL, Frame NULL, Frame NULL, Frame NULL, Frame NULL]"

definition run_sleep :: "event list" where
  "run_sleep = [Call (Timer_sleep 2), Frame NULL]"

lemma run_create_ends:
  "\<exists>k. after (booted 4096 8192) run_create = Some k \<and> ready_list k = [12288] \<and> running k = 4096 \<and>
     slices k run_slice = 1"
  by (simp add: run_create_def run_slice_def run_simps tick_simps Let_def cong: if_cong)

lemma run_lock_ends:
  "\<exists>k. after (booted 4096 8192) run_lock = Some k \<and> running k = 4096 \<and> holder k 7 = 4096"
  by (simp add: run_lock_def run_simps tid_lock_def Let_def cong: if_cong)

lemma run_sleep_ends:
  "\<exists>k. after (booted 4096 8192) run_sleep = Some k \<and> running k = 8192 \<and> sleepList k = [4096] \<and> slp k 4096 = 2 \<and>
     \<not> intr_on k \<and> fr k 8192 = [Idle_hlt] \<and> ticks k = 0 \<and>
     (\<exists>k'. after k [Frame NULL, Tick, Frame NULL, Tick] = Some k' \<and> ticks k' = 2)"
  by (simp add: run_sleep_def run_simps tick_simps slp_def Let_def cong: if_cong)

theorem scheduler_lists_witness:
  "\<exists>k. reach 4096 8192 k \<and> (\<forall>t. st k t = Some THREAD_RUNNING \<longleftrightarrow> t = 4096) \<and> in_list k 12288 Ready \<and>
     (\<forall>L. in_list k 12288 L \<longrightarrow> L = Ready)"
proof -
  obtain k where k: "after (booted 4096 8192) run_create = Some k" "ready_list k = [12288]" "running k = 4096"
    using run_create_ends by blast
  have r: "reach 4096 8192 k" using reach_after [OF reach_booted k(1)] .
  have "in_list k 12288 Ready" using k(2) by simp
  moreover note scheduler_lists [OF _ _ _ r]
  ultimately show ?thesis using k(3) r by (intro exI [of _ k]) auto
qed

text \<open>C11. Mutual exclusion: in every reachable state at most one thread has a lock, the value of the
  lock's semaphore is 0 when some thread has it and 1 when none has, and a recorded holder is a thread
  that exists and is not dying.\<close>

theorem lock_mutual_exclusion:
  assumes "main \<noteq> NULL" "idle \<noteq> NULL" "main \<noteq> idle" and "reach main idle k"
  shows "(\<forall>t u. has_lock k l t \<and> has_lock k l u \<longrightarrow> t = u) \<and>
    val (semas k (OfLock l)) = (if \<exists>t. has_lock k l t then 0 else 1) \<and>
    (holder k l \<noteq> NULL \<longrightarrow> alive k (holder k l))"
proof -
  note K = reach_kinv [OF assms(4,1-3)]
  then have "holder k l \<noteq> NULL \<longrightarrow> alive k (holder k l)" by (simp add: kinv_def stacks_wf_def)
  with lock_excl [OF K] lock_val [OF K, of l] show ?thesis by blast
qed

theorem lock_mutual_exclusion_witness:
  "\<exists>k. reach 4096 8192 k \<and> has_lock k 7 4096 \<and> (\<forall>t. has_lock k 7 t \<longrightarrow> t = 4096) \<and> val (semas k (OfLock 7)) = 0"
proof -
  obtain k where k: "after (booted 4096 8192) run_lock = Some k" "holder k 7 = 4096" using run_lock_ends by blast
  have r: "reach 4096 8192 k" using reach_after [OF reach_booted k(1)] .
  have h: "has_lock k 7 4096" using k(2) by (simp add: has_lock_def)
  note m = lock_mutual_exclusion [OF _ _ _ r, of 7]
  have "\<forall>t. has_lock k 7 t \<longrightarrow> t = 4096" "val (semas k (OfLock 7)) = 0" using m h by auto
  with r h show ?thesis by blast
qed

text \<open>C14. The alarm clock: a thread that is asleep with \<open>n\<close> ticks to go stays asleep as long as
  fewer than \<open>n\<close> ticks happen, whatever else the machine does, and the tick that makes the number \<open>n\<close>
  takes it out of the list of sleeping threads and makes it ready (it may then run at once).\<close>

theorem alarm_exact:
  assumes "main \<noteq> NULL" "idle \<noteq> NULL" "main \<noteq> idle" and "reach main idle k"
    and "t \<in> set (sleepList k)" and "after k es = Some k'"
  shows "(ticks k' - ticks k < slp k t \<longrightarrow> t \<in> set (sleepList k') \<and> st k' t = Some THREAD_BLOCKED) \<and>
    (ticks k' - ticks k = slp k t \<and> (\<exists>fs. es = fs @ [Tick]) \<longrightarrow>
       t \<notin> set (sleepList k') \<and> (st k' t = Some THREAD_READY \<or> st k' t = Some THREAD_RUNNING))"
proof -
  note K = reach_kinv [OF assms(4,1-3)]
  note K' = after_kinv [OF K assms(6)]
  have "st k' t = Some THREAD_BLOCKED" if "t \<in> set (sleepList k')"
    using in_list_status [OF K', of t Sleeping] that by simp
  moreover have "st k' t = Some THREAD_READY \<or> st k' t = Some THREAD_RUNNING"
    if "t = running k' \<or> t \<in> set (ready_list k')"
    using that in_list_status [OF K', of t Ready] K' by (auto simp: kinv_def one_runs_def)
  ultimately show ?thesis
    using still_asleep [OF K assms(5,6)] woken_by_last_tick [OF K assms(5)] assms(6) by blast
qed

theorem alarm_exact_witness:
  "\<exists>k k'. reach 4096 8192 k \<and> sleepList k = [4096] \<and> slp k 4096 = 2 \<and>
     after k ([Frame NULL, Tick, Frame NULL] @ [Tick]) = Some k' \<and>
     4096 \<notin> set (sleepList k') \<and> (st k' 4096 = Some THREAD_READY \<or> st k' 4096 = Some THREAD_RUNNING)"
proof -
  obtain k k' where k: "after (booted 4096 8192) run_sleep = Some k" "sleepList k = [4096]" "slp k 4096 = 2" "ticks k = 0"
      "after k ([Frame NULL, Tick, Frame NULL] @ [Tick]) = Some k'" "ticks k' = 2"
    using run_sleep_ends by auto
  have r: "reach 4096 8192 k" using reach_after [OF reach_booted k(1)] .
  have "4096 \<notin> set (sleepList k') \<and> (st k' 4096 = Some THREAD_READY \<or> st k' 4096 = Some THREAD_RUNNING)"
    using alarm_exact [OF _ _ _ r _ k(5), of 4096] k by simp
  with r k show ?thesis by blast
qed

text \<open>C13. Bounded waiting: a thread at position \<open>i\<close> of the ready list runs before \<open>i + 1\<close> time
  slices have expired, whatever else happens meanwhile (round robin).\<close>

theorem ready_thread_runs:
  assumes "main \<noteq> NULL" "idle \<noteq> NULL" "main \<noteq> idle" and "reach main idle k"
    and "i < length (ready_list k)" and "i < slices k es"
  shows "\<exists>k'\<in>set (states k es). running k' = ready_list k ! i"
  using ready_runs [OF reach_kinv [OF assms(4,1-3)] _ assms(6)] assms(5) by (simp add: position_def)

theorem ready_thread_runs_witness:
  "\<exists>k. reach 4096 8192 k \<and> ready_list k = [12288] \<and> (\<exists>k'\<in>set (states k run_slice). running k' = 12288)"
proof -
  obtain k where k: "after (booted 4096 8192) run_create = Some k" "ready_list k = [12288]" "slices k run_slice = 1"
    using run_create_ends by blast
  have r: "reach 4096 8192 k" using reach_after [OF reach_booted k(1)] .
  then show ?thesis using ready_thread_runs [OF _ _ _ r, of 0 run_slice] k by auto
qed

end
