(* ===== verification/Stdlib.thy ===== *)
theory Stdlib
  imports Cstring "HOL-Library.Multiset"
begin

text \<open>
  Number parsing, sorting and searching, \<open>src/lib/stdlib.c\<close>, over the byte memory. An array is a base
  address with elements of \<open>sz\<close> bytes; the comparison function is a parameter that reads the memory at
  two addresses, with its auxiliary data fixed. Indexes are natural numbers: an array of the C program
  has fewer than \<open>2\<^sup>31\<close> bytes, so \<open>2 * i + 1\<close> does not wrap. \<open>int\<close> values wrap at 32 bits, as they do in
  the instructions of the i386: for a numeral outside the range of \<open>int\<close> the multiplication in \<open>atoi\<close> overflows, which
  the C standard leaves undefined and the build does not define with \<open>-fwrapv\<close>. On numerals in the range nothing overflows.
\<close>

section \<open>Number parsing\<close>

function atoi_space :: "memory \<Rightarrow> ptr \<Rightarrow> ptr option" where
  "atoi_space m s = do { c \<leftarrow> rd m s; if isspace (uint c) then atoi_space m (s + 1) else Some s }"
  by pat_completeness auto
termination
  by (relation "measure (\<lambda>(m, s). length m - s)") (auto simp: rd_def split: if_splits)

function atoi_digits :: "memory \<Rightarrow> ptr \<Rightarrow> u32 \<Rightarrow> u32 option" where
  "atoi_digits m s v = do {
     c \<leftarrow> rd m s;
     if isdigit (sint c) then atoi_digits m (s + 1) (v * 10 - word_of_int (sint c - 48)) else Some v
   }"
  by pat_completeness auto
termination
  by (relation "measure (\<lambda>(m, s, v). length m - s)") (auto simp: rd_def split: if_splits)

definition atoi :: "memory \<Rightarrow> ptr \<Rightarrow> u32 option" where
  "atoi m s = do {
     ASSERT (s \<noteq> NULL);
     s \<leftarrow> atoi_space m s;
     c \<leftarrow> rd m s;
     let (negative, s) = (if c = 43 then (False, s + 1) else if c = 45 then (True, s + 1) else (False, s));
     v \<leftarrow> atoi_digits m s 0;
     Some (if \<not> negative then - v else v)
   }"

section \<open>Sorting\<close>

type_synonym compare = "memory \<Rightarrow> ptr \<Rightarrow> ptr \<Rightarrow> int"

fun swap_loop :: "memory \<Rightarrow> ptr \<Rightarrow> ptr \<Rightarrow> nat \<Rightarrow> nat \<Rightarrow> memory option" where
  "swap_loop m a b i 0 = Some m"
| "swap_loop m a b i (Suc k) = do {
     t \<leftarrow> rd m (a + i);
     u \<leftarrow> rd m (b + i);
     m \<leftarrow> wr m (a + i) u;
     m \<leftarrow> wr m (b + i) t;
     swap_loop m a b (i + 1) k
   }"

definition do_swap :: "memory \<Rightarrow> ptr \<Rightarrow> nat \<Rightarrow> nat \<Rightarrow> nat \<Rightarrow> memory option" where
  "do_swap m array a_idx b_idx sz =
     swap_loop m (array + (a_idx - 1) * sz) (array + (b_idx - 1) * sz) 0 sz"

definition do_compare :: "memory \<Rightarrow> ptr \<Rightarrow> nat \<Rightarrow> nat \<Rightarrow> nat \<Rightarrow> compare \<Rightarrow> int" where
  "do_compare m array a_idx b_idx sz cmp =
     cmp m (array + (a_idx - 1) * sz) (array + (b_idx - 1) * sz)"

partial_function (option) heapify :: "memory \<Rightarrow> ptr \<Rightarrow> nat \<Rightarrow> nat \<Rightarrow> nat \<Rightarrow> compare \<Rightarrow> memory option" where
  "heapify m array i cnt sz cmp =
     (let left = 2 * i;
          right = 2 * i + 1;
          mx = i;
          mx = (if left \<le> cnt \<and> do_compare m array left mx sz cmp > 0 then left else mx);
          mx = (if right \<le> cnt \<and> do_compare m array right mx sz cmp > 0 then right else mx)
      in if mx = i then Some m
         else do {
           m \<leftarrow> do_swap m array i mx sz;
           heapify m array mx cnt sz cmp
         })"

fun build_heap :: "memory \<Rightarrow> ptr \<Rightarrow> nat \<Rightarrow> nat \<Rightarrow> nat \<Rightarrow> compare \<Rightarrow> memory option" where
  "build_heap m array 0 cnt sz cmp = Some m"
| "build_heap m array (Suc i) cnt sz cmp = do {
     m \<leftarrow> heapify m array (Suc i) cnt sz cmp;
     build_heap m array i cnt sz cmp
   }"

fun sort_heap :: "memory \<Rightarrow> ptr \<Rightarrow> nat \<Rightarrow> nat \<Rightarrow> compare \<Rightarrow> memory option" where
  "sort_heap m array 0 sz cmp = Some m"
| "sort_heap m array (Suc i) sz cmp =
     (if Suc i > 1 then do {
        m \<leftarrow> do_swap m array 1 (Suc i) sz;
        m \<leftarrow> heapify m array 1 i sz cmp;
        sort_heap m array i sz cmp
      } else Some m)"

definition sort_array :: "memory \<Rightarrow> ptr \<Rightarrow> nat \<Rightarrow> nat \<Rightarrow> compare \<Rightarrow> memory option" where
  "sort_array m array cnt sz cmp = do {
     ASSERT (array \<noteq> NULL \<or> cnt = 0);
     ASSERT (sz > 0);
     m \<leftarrow> build_heap m array (cnt div 2) cnt sz cmp;
     sort_heap m array cnt sz cmp
   }"

text \<open>\<open>compare_thunk\<close> calls the function it gets as auxiliary data.\<close>

definition compare_thunk :: "compare \<Rightarrow> compare" where
  "compare_thunk aux m a b = aux m a b"

definition qsort_array :: "memory \<Rightarrow> ptr \<Rightarrow> nat \<Rightarrow> nat \<Rightarrow> compare \<Rightarrow> memory option" where
  "qsort_array m array cnt sz cmp = sort_array m array cnt sz (compare_thunk cmp)"

section \<open>Searching\<close>

partial_function (option) search_loop :: "memory \<Rightarrow> ptr \<Rightarrow> ptr \<Rightarrow> ptr \<Rightarrow> nat \<Rightarrow> compare \<Rightarrow> ptr option" where
  "search_loop m key first final sz cmp =
     (if first < final then do {
        ASSERT (sz \<noteq> 0);
        let range = (final - first) div sz;
        let middle = first + (range div 2) * sz;
        let c = cmp m key middle;
        if c < 0 then search_loop m key first middle sz cmp
        else if c > 0 then search_loop m key (middle + sz) final sz cmp
        else Some middle
      } else Some NULL)"

definition binary_search :: "memory \<Rightarrow> ptr \<Rightarrow> ptr \<Rightarrow> nat \<Rightarrow> nat \<Rightarrow> compare \<Rightarrow> ptr option" where
  "binary_search m key array cnt sz cmp = search_loop m key array (array + sz * cnt) sz cmp"

definition bsearch :: "memory \<Rightarrow> ptr \<Rightarrow> ptr \<Rightarrow> nat \<Rightarrow> nat \<Rightarrow> compare \<Rightarrow> ptr option" where
  "bsearch m key array cnt sz cmp = binary_search m key array cnt sz (compare_thunk cmp)"

lemmas [simp del] = atoi_space.simps atoi_digits.simps

section \<open>Elements of an array\<close>

definition elem_at :: "memory \<Rightarrow> ptr \<Rightarrow> nat \<Rightarrow> nat \<Rightarrow> u8 list" where
  "elem_at m array sz i = peek m (array + (i - 1) * sz) sz"

definition elems :: "memory \<Rightarrow> ptr \<Rightarrow> nat \<Rightarrow> nat \<Rightarrow> u8 list list" where
  "elems m array sz n = map (elem_at m array sz) [1..<Suc n]"

lemma elem_bound: "1 \<le> i \<Longrightarrow> i \<le> n \<Longrightarrow> (i - 1) * sz + sz \<le> n * (sz :: nat)"
proof -
  assume "1 \<le> i" "i \<le> n"
  then have "Suc (i - 1) * sz \<le> n * sz" by (intro mult_le_mono1) simp
  then show ?thesis by simp
qed

lemma elem_apart: "i < j \<Longrightarrow> 1 \<le> i \<Longrightarrow> (i - 1) * sz + sz \<le> (j - 1) * (sz :: nat)"
  using elem_bound [of i "j - 1" sz] by simp

text \<open>\<open>same_outside\<close>: only the bytes of the array change.\<close>

definition same_outside :: "memory \<Rightarrow> memory \<Rightarrow> ptr \<Rightarrow> nat \<Rightarrow> bool" where
  "same_outside m m' p n \<longleftrightarrow> length m' = length m \<and> (\<forall>a < length m. a < p \<or> p + n \<le> a \<longrightarrow> m' ! a = m ! a)"

lemma same_outside_refl: "same_outside m m p n"
  by (simp add: same_outside_def)

lemma same_outside_trans: "same_outside m m1 p n \<Longrightarrow> same_outside m1 m2 p n \<Longrightarrow> same_outside m m2 p n"
  by (simp add: same_outside_def)

definition swap_index :: "ptr \<Rightarrow> ptr \<Rightarrow> nat \<Rightarrow> nat \<Rightarrow> ptr \<Rightarrow> ptr" where
  "swap_index a b i k p = (if a + i \<le> p \<and> p < a + i + k then b + (p - a)
     else if b + i \<le> p \<and> p < b + i + k then a + (p - b) else p)"

lemma swap_index_Suc:
  assumes "a + i + Suc k \<le> b + i \<or> b + i + Suc k \<le> a + i"
  shows "swap_index a b i (Suc k) p =
    (let q = swap_index a b (i + 1) k p in if q = b + i then a + i else if q = a + i then b + i else q)"
proof (cases "a + i \<le> p \<and> p < a + i + Suc k")
  case True
  then obtain r where "p = a + i + r" "r < Suc k" using le_Suc_ex by auto
  then show ?thesis using assms by (cases r) (auto simp: swap_index_def Let_def)
next
  case a: False
  show ?thesis
  proof (cases "b + i \<le> p \<and> p < b + i + Suc k")
    case True
    then obtain r where "p = b + i + r" "r < Suc k" using le_Suc_ex by auto
    then show ?thesis using assms by (cases r) (auto simp: swap_index_def Let_def)
  next
    case False
    then show ?thesis using a by (auto simp: swap_index_def Let_def)
  qed
qed

lemma swap_loop_spec:
  assumes "a + i + k \<le> length m" "b + i + k \<le> length m" "a + i + k \<le> b + i \<or> b + i + k \<le> a + i"
  shows "\<exists>m'. swap_loop m a b i k = Some m' \<and> length m' = length m \<and>
    (\<forall>p < length m. m' ! p = m ! swap_index a b i k p)"
  using assms
proof (induction k arbitrary: m i)
  case (Suc k)
  let ?m = "m[a + i := m ! (b + i), b + i := m ! (a + i)]"
  have "\<exists>m'. swap_loop ?m a b (i + 1) k = Some m' \<and> length m' = length ?m \<and>
    (\<forall>p < length ?m. m' ! p = ?m ! swap_index a b (i + 1) k p)"
    using Suc.prems by (intro Suc.IH) auto
  then obtain m' where m': "swap_loop ?m a b (i + 1) k = Some m'" "length m' = length m"
    "\<And>p. p < length m \<Longrightarrow> m' ! p = ?m ! swap_index a b (i + 1) k p" by auto
  have "swap_loop m a b i (Suc k) = Some m'" using m'(1) Suc.prems by (simp add: rd_Some wr_Some)
  moreover have "m' ! p = m ! swap_index a b i (Suc k) p" if "p < length m" for p
    unfolding m'(3) [OF that] swap_index_Suc [OF Suc.prems(3)] Let_def using Suc.prems(1,2)
    by (simp add: nth_list_update)
  ultimately show ?case using m'(2) by auto
qed (auto simp: swap_index_def)

lemma do_swap_spec:
  assumes "1 \<le> i" "i \<le> n" "1 \<le> j" "j \<le> n" "i \<noteq> j" "array + n * sz \<le> length m"
  shows "\<exists>m'. do_swap m array i j sz = Some m' \<and> same_outside m m' array (n * sz) \<and>
    (\<forall>k. 1 \<le> k \<and> k \<le> n \<longrightarrow> elem_at m' array sz k = ((elem_at m array sz)(i := elem_at m array sz j, j := elem_at m array sz i)) k)"
proof -
  define a b where "a = array + (i - 1) * sz" and "b = array + (j - 1) * sz"
  have ab: "a + sz \<le> array + n * sz" "b + sz \<le> array + n * sz" "a + sz \<le> b \<or> b + sz \<le> a"
    using elem_bound [OF assms(1,2), of sz] elem_bound [OF assms(3,4), of sz]
      elem_apart [of i j sz] elem_apart [of j i sz] assms(1,3,5) unfolding a_def b_def by (auto simp: neq_iff)
  then obtain m' where m': "swap_loop m a b 0 sz = Some m'" "length m' = length m"
    and nth: "\<And>p. p < length m \<Longrightarrow> m' ! p = m ! swap_index a b 0 sz p"
    using swap_loop_spec [of a 0 sz m b] assms(6) by auto
  have "do_swap m array i j sz = Some m'" using m'(1) by (simp add: do_swap_def a_def b_def)
  moreover have "same_outside m m' array (n * sz)"
    using m'(2) nth ab by (auto simp: same_outside_def swap_index_def a_def b_def)
  moreover have "elem_at m' array sz k = ((elem_at m array sz)(i := elem_at m array sz j, j := elem_at m array sz i)) k"
    if "1 \<le> k" "k \<le> n" for k
  proof -
    let ?c = "array + (k - 1) * sz"
    have c: "?c + sz \<le> length m" using elem_bound [OF that, of sz] assms(6) by simp
    have d: "k \<noteq> i \<Longrightarrow> ?c + sz \<le> a \<or> a + sz \<le> ?c" "k \<noteq> j \<Longrightarrow> ?c + sz \<le> b \<or> b + sz \<le> ?c"
      using elem_apart [of i k sz] elem_apart [of k i sz] elem_apart [of j k sz] elem_apart [of k j sz] that(1) assms(1,3)
      unfolding a_def b_def by (auto simp: neq_iff)
    have p: "peek m' ?c sz = peek m c' sz"
      if "\<And>x. x < sz \<Longrightarrow> m' ! (?c + x) = m ! (c' + x)" "c' + sz \<le> length m" for c'
      using that c m'(2) by (intro peek_eqI) (simp_all add: length_peek nth_peek)
    consider "k = i" | "k = j" | "k \<noteq> i" "k \<noteq> j" by blast
    then show ?thesis
    proof cases
      case 1
      then have "peek m' ?c sz = peek m b sz" using c ab assms(6) by (intro p) (auto simp: nth swap_index_def a_def)
      then show ?thesis using 1 assms(5) by (simp add: elem_at_def b_def)
    next
      case 2
      then have "peek m' ?c sz = peek m a sz" using c ab assms(6) by (intro p) (auto simp: nth swap_index_def b_def)
      then show ?thesis using 2 by (simp add: elem_at_def a_def)
    next
      case 3
      then have "peek m' ?c sz = peek m ?c sz" using c d by (intro p) (auto simp: nth swap_index_def)
      then show ?thesis using 3 by (simp add: elem_at_def)
    qed
  qed
  ultimately show ?thesis by blast
qed

section \<open>Heaps\<close>

text \<open>\<open>gt\<close> is the order; the children of node \<open>i\<close> are \<open>2 * i\<close> and \<open>2 * i + 1\<close>, its parent is
\<open>i div 2\<close>. In a heap with a hole only the node \<open>j\<close> may have larger children.\<close>

definition heap_from :: "('e \<Rightarrow> 'e \<Rightarrow> bool) \<Rightarrow> (nat \<Rightarrow> 'e) \<Rightarrow> nat \<Rightarrow> nat \<Rightarrow> bool" where
  "heap_from gt f l n \<longleftrightarrow> (\<forall>c \<le> n. l \<le> c div 2 \<longrightarrow> \<not> gt (f c) (f (c div 2)))"

definition heap_hole :: "('e \<Rightarrow> 'e \<Rightarrow> bool) \<Rightarrow> (nat \<Rightarrow> 'e) \<Rightarrow> nat \<Rightarrow> nat \<Rightarrow> nat \<Rightarrow> bool" where
  "heap_hole gt f l n j \<longleftrightarrow>
     (\<forall>c \<le> n. l \<le> c div 2 \<longrightarrow> c div 2 \<noteq> j \<longrightarrow> \<not> gt (f c) (f (c div 2))) \<and>
     (l \<le> j div 2 \<longrightarrow> (\<forall>c \<le> n. c div 2 = j \<longrightarrow> \<not> gt (f c) (f (j div 2))))"

lemma heap_hole_top: "heap_from gt f (Suc j) n \<Longrightarrow> 1 \<le> j \<Longrightarrow> heap_hole gt f j n j"
  by (auto simp: heap_from_def heap_hole_def)

lemma heap_hole_done:
  assumes "heap_hole gt f l n j" "\<And>c. c \<le> n \<Longrightarrow> c div 2 = j \<Longrightarrow> \<not> gt (f c) (f j)"
  shows "heap_from gt f l n"
  using assms by (auto simp: heap_from_def heap_hole_def)

lemma heap_hole_step:
  assumes "strict_weak gt" and h: "heap_hole gt f l n j" and "1 \<le> j" "1 \<le> l" "l \<le> j" "c \<le> n" "c div 2 = j"
    and "gt (f c) (f j)" "\<And>d. d \<le> n \<Longrightarrow> d div 2 = j \<Longrightarrow> \<not> gt (f d) (f c)"
  shows "heap_hole gt (f(j := f c, c := f j)) l n c"
proof -
  let ?f = "f(j := f c, c := f j)"
  have ne: "j < c" "j div 2 < j" using assms(3,7) by auto
  have h1: "\<not> gt (f d) (f (d div 2))" if "d \<le> n" "l \<le> d div 2" "d div 2 \<noteq> j" for d
    using h that unfolding heap_hole_def by blast
  have h2: "\<not> gt (f d) (f (j div 2))" if "l \<le> j div 2" "d \<le> n" "d div 2 = j" for d
    using h that unfolding heap_hole_def by blast
  have "\<not> gt (?f d) (?f (d div 2))" if d: "d \<le> n" "l \<le> d div 2" "d div 2 \<noteq> c" for d
  proof -
    have "d div 2 < d" using d(2) assms(4) by simp
    consider "d = c" | "d = j" | "d \<noteq> c" "d \<noteq> j" "d div 2 = j" | "d \<noteq> c" "d \<noteq> j" "d div 2 \<noteq> j" by blast
    then show ?thesis
    proof cases
      case 1
      moreover have "\<not> gt (f j) (f c)" using assms(1,8) unfolding strict_weak_def by blast
      ultimately show ?thesis using assms(7) ne by simp
    next
      case 2
      then have "\<not> gt (f c) (f (j div 2))" using d(2) assms(6,7) by (intro h2) simp_all
      then show ?thesis using 2 ne by simp
    next
      case 3
      then show ?thesis using assms(9) d(1) ne by simp
    next
      case 4
      then show ?thesis using h1 [OF d(1,2)] d(3) by simp
    qed
  qed
  moreover have "\<not> gt (?f d) (?f (c div 2))" if d: "d \<le> n" "d div 2 = c" for d
  proof -
    have "d \<noteq> c" "d \<noteq> j" "c \<noteq> j" using d(2) ne by auto
    moreover have "\<not> gt (f d) (f (d div 2))" using d assms(5) ne by (intro h1) simp_all
    ultimately show ?thesis using d(2) assms(7) by simp
  qed
  ultimately show ?thesis unfolding heap_hole_def by blast
qed

lemma heap_root:
  assumes "strict_weak gt" "heap_from gt f 1 n"
  shows "1 \<le> c \<Longrightarrow> c \<le> n \<Longrightarrow> \<not> gt (f c) (f 1)"
proof (induction c rule: less_induct)
  case (less c)
  show ?case
  proof (cases "c = 1")
    case True
    then show ?thesis using assms(1) unfolding strict_weak_def by blast
  next
    case False
    then have d: "c div 2 < c" "1 \<le> c div 2" "c div 2 \<le> n" using less.prems by linarith+
    then have "\<not> gt (f (c div 2)) (f 1)" by (intro less.IH)
    moreover have "\<not> gt (f c) (f (c div 2))" using assms(2) less.prems(2) d(2) unfolding heap_from_def by blast
    ultimately show ?thesis using assms(1) unfolding strict_weak_def by blast
  qed
qed

lemma heap_cong:
  assumes "\<And>k. 1 \<le> k \<Longrightarrow> k \<le> n \<Longrightarrow> g k = f k" "1 \<le> l"
  shows "heap_from gt g l n = heap_from gt f l n" "heap_hole gt g l n j = heap_hole gt f l n j"
proof -
  have c: "g c = f c" "g (c div 2) = f (c div 2)" if "c \<le> n" "l \<le> c div 2" for c
    using that assms by auto
  show "heap_from gt g l n = heap_from gt f l n" using c by (auto simp: heap_from_def)
  have "g c = f c \<and> g (j div 2) = f (j div 2)" if "c \<le> n" "l \<le> j div 2" "c div 2 = j" for c
  proof -
    have "1 \<le> j div 2" "j div 2 \<le> n" "1 \<le> c" using that assms(2) by linarith+
    then show ?thesis using assms(1) that(1) by blast
  qed
  then show "heap_hole gt g l n j = heap_hole gt f l n j" using c by (auto simp: heap_hole_def)
qed

lemma mset_swap:
  assumes "1 \<le> i" "i \<le> n" "1 \<le> j" "j \<le> n" "i \<noteq> j"
  shows "mset (map (f(i := f j, j := f i)) [1..<Suc n]) = mset (map f [1..<Suc n])"
proof -
  have ij: "i \<in> {1..<Suc n}" "j \<in> {1..<Suc n} - {i}" using assms by auto
  have "mset_set {1..<Suc n} = add_mset i (add_mset j (mset_set ({1..<Suc n} - {i} - {j})))"
    using mset_set.remove [OF _ ij(1)] mset_set.remove [OF _ ij(2)] by simp
  then have s: "mset (map g [1..<Suc n]) = add_mset (g i) (add_mset (g j) (image_mset g (mset_set ({1..<Suc n} - {i} - {j}))))"
    for g :: "nat \<Rightarrow> 'a" unfolding mset_map mset_upt by simp
  have "image_mset (f(i := f j, j := f i)) (mset_set ({1..<Suc n} - {i} - {j})) = image_mset f (mset_set ({1..<Suc n} - {i} - {j}))"
    by (intro image_mset_cong) auto
  then show ?thesis using assms(5) unfolding s by (simp add: add_mset_commute)
qed

text \<open>The child that \<open>heapify\<close> picks.\<close>

definition pick :: "('e \<Rightarrow> 'e \<Rightarrow> bool) \<Rightarrow> (nat \<Rightarrow> 'e) \<Rightarrow> nat \<Rightarrow> nat \<Rightarrow> nat" where
  "pick gt f i n =
     (let mx = (if 2 * i \<le> n \<and> gt (f (2 * i)) (f i) then 2 * i else i)
      in if 2 * i + 1 \<le> n \<and> gt (f (2 * i + 1)) (f mx) then 2 * i + 1 else mx)"

lemma child_cases: "d div 2 = i \<longleftrightarrow> d = 2 * i \<or> d = 2 * i + (1 :: nat)"
  by linarith

lemma pick_same:
  assumes "pick gt f i n = i" "1 \<le> i" "d \<le> n" "d div 2 = i"
  shows "\<not> gt (f d) (f i)"
  using assms unfolding child_cases by (auto simp: pick_def Let_def split: if_splits)

lemma pick_child:
  assumes sw: "strict_weak gt" and "pick gt f i n = c" "c \<noteq> i"
  shows "c \<le> n \<and> c div 2 = i \<and> gt (f c) (f i) \<and> (\<forall>d \<le> n. d div 2 = i \<longrightarrow> \<not> gt (f d) (f c))"
proof -
  have asym: "gt x y \<Longrightarrow> \<not> gt y x" and neg: "\<not> gt x y \<Longrightarrow> \<not> gt y z \<Longrightarrow> \<not> gt x z" for x y z
    using sw unfolding strict_weak_def by blast+
  have irr: "\<not> gt x x" for x using asym by blast
  let ?l = "2 * i" and ?r = "2 * i + 1"
  consider (both) "c = ?r" "?r \<le> n" "gt (f ?r) (f ?l)" "gt (f ?l) (f i)"
    | (right) "c = ?r" "?r \<le> n" "\<not> gt (f ?l) (f i)" "gt (f ?r) (f i)"
    | (left) "c = ?l" "?l \<le> n" "gt (f ?l) (f i)" "?r \<le> n \<longrightarrow> \<not> gt (f ?r) (f ?l)"
    using assms(2,3) unfolding pick_def Let_def by (auto split: if_splits)
  then show ?thesis
  proof cases
    case both
    then have "gt (f ?r) (f i)" using neg asym by blast
    then show ?thesis using both irr asym [of "f ?r" "f ?l"] unfolding child_cases by auto
  next
    case right
    then have "\<not> gt (f ?l) (f ?r)" using neg asym by blast
    then show ?thesis using right irr unfolding child_cases by auto
  next
    case left
    then show ?thesis using irr unfolding child_cases by auto
  qed
qed

lemma heapify_unfold:
  assumes "\<And>m a b. cmp m a b = c (peek m a sz) (peek m b sz)"
  shows "heapify m array i n sz cmp =
    (let mx = pick (\<lambda>x y. c x y > 0) (elem_at m array sz) i n
     in if mx = i then Some m else do { m \<leftarrow> do_swap m array i mx sz; heapify m array mx n sz cmp })"
  by (subst heapify.simps) (simp only: pick_def do_compare_def elem_at_def assms Let_def)

lemma heapify_spec:
  assumes cmp: "\<And>m a b. cmp m a b = c (peek m a sz) (peek m b sz)" and sw: "strict_weak (\<lambda>x y. c x y > 0)"
    and "1 \<le> l" "n \<le> N" "l \<le> i" "array + N * sz \<le> length m"
    and "heap_hole (\<lambda>x y. c x y > 0) (elem_at m array sz) l n i"
  shows "\<exists>m'. heapify m array i n sz cmp = Some m' \<and> same_outside m m' array (N * sz) \<and>
    heap_from (\<lambda>x y. c x y > 0) (elem_at m' array sz) l n \<and> mset (elems m' array sz n) = mset (elems m array sz n) \<and>
    (\<forall>k. n < k \<and> k \<le> N \<longrightarrow> elem_at m' array sz k = elem_at m array sz k)"
  using assms(5-7)
proof (induction "n - i" arbitrary: i m rule: less_induct)
  case less
  let ?gt = "\<lambda>x y. c x y > 0" let ?f = "elem_at m array sz"
  define x where "x = pick ?gt ?f i n"
  show ?case
  proof (cases "x = i")
    case True
    have "1 \<le> i" using assms(3) less.prems(1) by simp
    then have "heap_from ?gt ?f l n"
      using less.prems(3) pick_same [of ?gt ?f i n] True unfolding x_def by (intro heap_hole_done) auto
    moreover have "heapify m array i n sz cmp = Some m"
      unfolding heapify_unfold [of cmp c sz, OF cmp, of m] x_def [symmetric] Let_def using True by simp
    ultimately show ?thesis using same_outside_refl by blast
  next
    case False
    have x: "x \<le> n" "x div 2 = i" "?gt (?f x) (?f i)" "\<And>d. d \<le> n \<Longrightarrow> d div 2 = i \<Longrightarrow> \<not> ?gt (?f d) (?f x)"
      using pick_child [OF sw x_def [symmetric] False] by blast+
    have i: "1 \<le> i" "i < x" "i \<le> n" using assms(3) less.prems(1) x(1,2) by linarith+
    obtain m1 where m1: "do_swap m array i x sz = Some m1" "same_outside m m1 array (N * sz)"
      and e: "\<And>k. 1 \<le> k \<Longrightarrow> k \<le> N \<Longrightarrow> elem_at m1 array sz k = (?f(i := ?f x, x := ?f i)) k"
      using do_swap_spec [of i N x array sz m] i x(1) assms(4) less.prems(2) by auto
    have "heap_hole ?gt (?f(i := ?f x, x := ?f i)) l n x"
      by (rule heap_hole_step [OF sw less.prems(3) i(1) assms(3) less.prems(1) x(1-3)]) (rule x(4))
    then have h: "heap_hole ?gt (elem_at m1 array sz) l n x"
      using heap_cong(2) [of n "elem_at m1 array sz" "?f(i := ?f x, x := ?f i)" l ?gt x] e assms(3,4) by simp
    have len: "array + N * sz \<le> length m1" using m1(2) less.prems(2) by (simp add: same_outside_def)
    obtain m' where m': "heapify m1 array x n sz cmp = Some m'" "same_outside m1 m' array (N * sz)"
      "heap_from ?gt (elem_at m' array sz) l n" "mset (elems m' array sz n) = mset (elems m1 array sz n)"
      "\<And>k. n < k \<Longrightarrow> k \<le> N \<Longrightarrow> elem_at m' array sz k = elem_at m1 array sz k"
      using less.hyps [OF _ _ len h] i x(1) less.prems(1) diff_less_mono2 [of i x n] by auto
    have "elems m1 array sz n = map (?f(i := ?f x, x := ?f i)) [1..<Suc n]"
      using e assms(4) unfolding elems_def by (intro map_cong) auto
    then have "mset (elems m1 array sz n) = mset (map (?f(i := ?f x, x := ?f i)) [1..<Suc n])" by (simp only:)
    also have "\<dots> = mset (elems m array sz n)"
      unfolding elems_def using i x(1) by (intro mset_swap) simp_all
    finally have "mset (elems m1 array sz n) = mset (elems m array sz n)" .
    moreover have "heapify m array i n sz cmp = Some m'"
      unfolding heapify_unfold [of cmp c sz, OF cmp, of m] x_def [symmetric] Let_def using False m1(1) m'(1) by simp
    moreover have "elem_at m' array sz k = ?f k" if "n < k" "k \<le> N" for k
      using m'(5) [OF that] e [of k] that x(1) i by simp
    ultimately show ?thesis using m' same_outside_trans [OF m1(2) m'(2)] by auto
  qed
qed

lemma build_heap_spec:
  assumes cmp: "\<And>m a b. cmp m a b = c (peek m a sz) (peek m b sz)" and sw: "strict_weak (\<lambda>x y. c x y > 0)"
    and "array + n * sz \<le> length m" "heap_from (\<lambda>x y. c x y > 0) (elem_at m array sz) (Suc i) n"
  shows "\<exists>m'. build_heap m array i n sz cmp = Some m' \<and> same_outside m m' array (n * sz) \<and>
    heap_from (\<lambda>x y. c x y > 0) (elem_at m' array sz) 1 n \<and> mset (elems m' array sz n) = mset (elems m array sz n)"
  using assms(3,4)
proof (induction i arbitrary: m)
  case 0
  then show ?case by (simp add: same_outside_refl)
next
  case (Suc i)
  obtain m1 where m1: "heapify m array (Suc i) n sz cmp = Some m1" "same_outside m m1 array (n * sz)"
    "heap_from (\<lambda>x y. c x y > 0) (elem_at m1 array sz) (Suc i) n" "mset (elems m1 array sz n) = mset (elems m array sz n)"
    using heapify_spec [of cmp c sz "Suc i" n n "Suc i" array m, OF cmp sw] heap_hole_top [OF Suc.prems(2)] Suc.prems(1)
    by auto
  have "array + n * sz \<le> length m1" using m1(2) Suc.prems(1) by (simp add: same_outside_def)
  from Suc.IH [OF this m1(3)] m1 show ?case using same_outside_trans [OF m1(2)] by auto
qed

text \<open>The invariant of the second loop: a heap in front, and the elements behind it sorted and not
smaller than the heap's.\<close>

definition sorted_tail :: "('e \<Rightarrow> 'e \<Rightarrow> bool) \<Rightarrow> (nat \<Rightarrow> 'e) \<Rightarrow> nat \<Rightarrow> nat \<Rightarrow> bool" where
  "sorted_tail gt f i n \<longleftrightarrow> (\<forall>b \<le> n. i < b \<longrightarrow> (\<forall>a. 1 \<le> a \<and> a < b \<longrightarrow> \<not> gt (f a) (f b)))"

lemma sorted_tail_step:
  assumes sw: "strict_weak gt" and "heap_from gt f 1 (Suc i)" "sorted_tail gt f (Suc i) n" "1 \<le> i" "Suc i \<le> n"
    and g: "\<And>k. Suc i < k \<Longrightarrow> k \<le> n \<Longrightarrow> g k = f k" "g (Suc i) = f 1"
      "g ` {1..i} = (f(1 := f (Suc i))) ` {1..i}"
  shows "sorted_tail gt g i n"
  unfolding sorted_tail_def
proof (intro allI impI, elim conjE)
  fix a b assume ab: "b \<le> n" "i < b" "1 \<le> a" "a < b"
  have r: "\<not> gt (f k) (f 1)" if "1 \<le> k" "k \<le> Suc i" for k using heap_root [OF sw assms(2)] that by blast
  have t: "\<not> gt (f a) (f b)" if "Suc i < b" "1 \<le> a" "a < b" "b \<le> n" for a b
    using assms(3) that unfolding sorted_tail_def by blast
  have front: "\<exists>k. 1 \<le> k \<and> k \<le> Suc i \<and> g a = f k" if "a \<le> Suc i"
  proof (cases "a = Suc i")
    case False
    then have "g a \<in> (f(1 := f (Suc i))) ` {1..i}" using that ab(3) unfolding g(3) [symmetric] by auto
    then show ?thesis by (auto split: if_splits)
  qed (use g(2) in auto)
  show "\<not> gt (g a) (g b)"
  proof (cases "b = Suc i")
    case True
    then show ?thesis using front r g(2) ab(4) by auto
  next
    case False
    then have b: "g b = f b" "Suc i < b" using ab g(1) by simp_all
    show ?thesis
    proof (cases "a \<le> Suc i")
      case True
      then obtain k where "1 \<le> k" "k \<le> Suc i" "g a = f k" using front by blast
      then show ?thesis using t [of b k] b ab(1) by simp
    next
      case False
      then show ?thesis using t [of b a] g(1) [of a] b ab by simp
    qed
  qed
qed

lemma elems_image: "mset (elems m array sz n) = mset (map f [1..<Suc n]) \<Longrightarrow> elem_at m array sz ` {1..n} = f ` {1..n}"
  by (metis atLeastLessThanSuc_atLeastAtMost elems_def mset_eq_setD set_map set_upt)

lemma mset_elems_extend:
  assumes "mset (elems m' array sz i) = mset (elems m array sz i)" "i \<le> n"
    and "\<And>k. i < k \<Longrightarrow> k \<le> n \<Longrightarrow> elem_at m' array sz k = elem_at m array sz k"
  shows "mset (elems m' array sz n) = mset (elems m array sz n)"
proof -
  have u: "elems x array sz n = elems x array sz i @ map (elem_at x array sz) [Suc i..<Suc n]" for x
    unfolding elems_def map_append [symmetric] using upt_add_eq_append [of 1 "Suc i" "n - i"] assms(2) by simp
  have "map (elem_at m' array sz) [Suc i..<Suc n] = map (elem_at m array sz) [Suc i..<Suc n]"
    using assms(3) by (intro map_cong) auto
  then show ?thesis unfolding u [of m'] u [of m] mset_append using assms(1) by (simp only:)
qed

lemma sort_heap_spec:
  assumes cmp: "\<And>m a b. cmp m a b = c (peek m a sz) (peek m b sz)" and sw: "strict_weak (\<lambda>x y. c x y > 0)"
    and "array + n * sz \<le> length m" "heap_from (\<lambda>x y. c x y > 0) (elem_at m array sz) 1 i"
    and "sorted_tail (\<lambda>x y. c x y > 0) (elem_at m array sz) i n" "i \<le> n"
  shows "\<exists>m'. sort_heap m array i sz cmp = Some m' \<and> same_outside m m' array (n * sz) \<and>
    sorted_tail (\<lambda>x y. c x y > 0) (elem_at m' array sz) 1 n \<and> mset (elems m' array sz n) = mset (elems m array sz n)"
  using assms(3-6)
proof (induction i arbitrary: m)
  case 0
  then show ?case by (auto simp: same_outside_refl sorted_tail_def)
next
  case (Suc i)
  let ?gt = "\<lambda>x y. c x y > 0" let ?f = "elem_at m array sz"
  show ?case
  proof (cases "i = 0")
    case True
    then show ?thesis using Suc.prems by (simp add: same_outside_refl)
  next
    case False
    let ?g = "?f(1 := ?f (Suc i), Suc i := ?f 1)"
    obtain m1 where m1: "do_swap m array 1 (Suc i) sz = Some m1" "same_outside m m1 array (n * sz)"
      and e: "\<And>k. 1 \<le> k \<Longrightarrow> k \<le> n \<Longrightarrow> elem_at m1 array sz k = ?g k"
      using do_swap_spec [of 1 n "Suc i" array sz m] Suc.prems(1,4) False by auto
    have len: "array + n * sz \<le> length m1" using m1(2) Suc.prems(1) by (simp add: same_outside_def)
    have "heap_from ?gt ?g 2 i" using Suc.prems(2) unfolding heap_from_def by auto
    then have "heap_hole ?gt (elem_at m1 array sz) 1 i 1"
      using heap_cong(1) [of i "elem_at m1 array sz" ?g 2 ?gt] e Suc.prems(4) by (intro heap_hole_top) (simp_all add: numeral_2_eq_2)
    then obtain m2 where m2: "heapify m1 array 1 i sz cmp = Some m2" "same_outside m1 m2 array (n * sz)"
      "heap_from ?gt (elem_at m2 array sz) 1 i" "mset (elems m2 array sz i) = mset (elems m1 array sz i)"
      and e2: "\<And>k. i < k \<Longrightarrow> k \<le> n \<Longrightarrow> elem_at m2 array sz k = elem_at m1 array sz k"
      using heapify_spec [of cmp c sz 1 i n 1 array m1, OF cmp sw] len Suc.prems(4) by auto
    have "elems m1 array sz i = map (?f(1 := ?f (Suc i))) [1..<Suc i]"
      using e Suc.prems(4) unfolding elems_def by (intro map_cong) auto
    then have im: "elem_at m2 array sz ` {1..i} = (?f(1 := ?f (Suc i))) ` {1..i}" using m2(4) by (intro elems_image) (simp only:)
    have st: "sorted_tail ?gt (elem_at m2 array sz) i n"
      using e e2 False Suc.prems(4) im by (intro sorted_tail_step [OF sw Suc.prems(2,3)]) auto
    have "array + n * sz \<le> length m2" using m2(2) len by (simp add: same_outside_def)
    then obtain m3 where m3: "sort_heap m2 array i sz cmp = Some m3" "same_outside m2 m3 array (n * sz)"
      "sorted_tail ?gt (elem_at m3 array sz) 1 n" "mset (elems m3 array sz n) = mset (elems m2 array sz n)"
      using Suc.IH [OF _ m2(3) st] Suc.prems(4) by auto
    have "elems m1 array sz n = map ?g [1..<Suc n]" using e unfolding elems_def by (intro map_cong) auto
    then have "mset (elems m1 array sz n) = mset (elems m array sz n)"
      using mset_swap [of 1 n "Suc i" ?f] False Suc.prems(4) unfolding elems_def by (simp only:)
    moreover have "mset (elems m2 array sz n) = mset (elems m1 array sz n)"
      using m2(4) Suc_leD [OF Suc.prems(4)] e2 by (rule mset_elems_extend)
    moreover have "sort_heap m array (Suc i) sz cmp = Some m3" using False m1(1) m2(1) m3(1) by simp
    ultimately show ?thesis using m3 same_outside_trans [OF same_outside_trans [OF m1(2) m2(2)] m3(2)] by auto
  qed
qed

lemma sort_array_spec:
  assumes cmp: "\<And>m a b. cmp m a b = c (peek m a sz) (peek m b sz)" and sw: "strict_weak (\<lambda>x y. c x y > 0)"
    and "array \<noteq> NULL" "0 < sz" "array + n * sz \<le> length m"
  shows "\<exists>m'. sort_array m array n sz cmp = Some m' \<and> same_outside m m' array (n * sz) \<and>
    sorted_wrt (\<lambda>x y. \<not> c x y > 0) (elems m' array sz n) \<and> mset (elems m' array sz n) = mset (elems m array sz n)"
proof -
  let ?gt = "\<lambda>x y. c x y > 0"
  have "heap_from ?gt (elem_at m array sz) (Suc (n div 2)) n"
    unfolding heap_from_def by (auto simp: Suc_le_eq dest: div_le_mono [of _ n 2])
  then obtain m1 where m1: "build_heap m array (n div 2) n sz cmp = Some m1" "same_outside m m1 array (n * sz)"
    "heap_from ?gt (elem_at m1 array sz) 1 n" "mset (elems m1 array sz n) = mset (elems m array sz n)"
    using build_heap_spec [of cmp c sz array n m "n div 2", OF cmp sw assms(5)] by auto
  have len: "array + n * sz \<le> length m1" using m1(2) assms(5) by (simp add: same_outside_def)
  have "sorted_tail ?gt (elem_at m1 array sz) n n" by (simp add: sorted_tail_def)
  then obtain m2 where m2: "sort_heap m1 array n sz cmp = Some m2" "same_outside m1 m2 array (n * sz)"
    "sorted_tail ?gt (elem_at m2 array sz) 1 n" "mset (elems m2 array sz n) = mset (elems m1 array sz n)"
    using sort_heap_spec [of cmp c sz array n m1 n, OF cmp sw len m1(3)] by auto
  have "sorted_wrt (\<lambda>x y. \<not> ?gt x y) (elems m2 array sz n)"
    unfolding elems_def sorted_wrt_map
    by (rule sorted_wrt_mono_rel [OF _ sorted_wrt_upt]) (use m2(3) in \<open>auto simp: sorted_tail_def\<close>)
  then show ?thesis
    using assms(3,4) m1 m2 same_outside_trans [OF m1(2) m2(2)] by (auto simp: sort_array_def)
qed

section \<open>Binary search\<close>

text \<open>The elements are ordered for a key: first those below it, then those equal to it, then those above.\<close>

definition ordered_for :: "(u8 list \<Rightarrow> u8 list \<Rightarrow> int) \<Rightarrow> u8 list \<Rightarrow> (nat \<Rightarrow> u8 list) \<Rightarrow> nat \<Rightarrow> bool" where
  "ordered_for c key e n \<longleftrightarrow>
     (\<forall>j \<le> n. \<forall>i \<le> j. 1 \<le> i \<longrightarrow> (c key (e i) < 0 \<longrightarrow> c key (e j) < 0) \<and> (c key (e j) > 0 \<longrightarrow> c key (e i) > 0))"

lemma search_loop_spec:
  assumes cmp: "\<And>m a b. cmp m a b = c (peek m a sz) (peek m b sz)" and "0 < sz" "array \<noteq> NULL"
    and ord: "ordered_for c (peek m key sz) (elem_at m array sz) n"
    and "lo \<le> hi" "hi \<le> n" "\<And>i. 1 \<le> i \<Longrightarrow> i \<le> lo \<Longrightarrow> c (peek m key sz) (elem_at m array sz i) > 0"
      "\<And>i. hi < i \<Longrightarrow> i \<le> n \<Longrightarrow> c (peek m key sz) (elem_at m array sz i) < 0"
  shows "\<exists>p. search_loop m key (array + lo * sz) (array + hi * sz) sz cmp = Some p \<and>
    (if p = NULL then \<forall>i. 1 \<le> i \<and> i \<le> n \<longrightarrow> c (peek m key sz) (elem_at m array sz i) \<noteq> 0
     else \<exists>i < n. p = array + i * sz \<and> c (peek m key sz) (peek m p sz) = 0)"
  using assms(5-8)
proof (induction "hi - lo" arbitrary: lo hi rule: less_induct)
  case less
  let ?k = "peek m key sz" let ?e = "elem_at m array sz"
  show ?case
  proof (cases "lo < hi")
    case False
    then have "search_loop m key (array + lo * sz) (array + hi * sz) sz cmp = Some NULL"
      using less.prems(1) by (subst search_loop.simps) simp
    moreover have "c ?k (?e i) \<noteq> 0" if "1 \<le> i" "i \<le> n" for i
      using less.prems(3) [of i] less.prems(4) [of i] less.prems(1) False that by (cases "i \<le> lo") auto
    ultimately show ?thesis by auto
  next
    case True
    define mid where "mid = lo + (hi - lo) div 2"
    have mid: "lo \<le> mid" "mid < hi" using True unfolding mid_def by linarith+
    have "array + hi * sz - (array + lo * sz) = (hi - lo) * sz" by (simp add: diff_mult_distrib)
    then have r: "array + lo * sz + (array + hi * sz - (array + lo * sz)) div sz div 2 * sz = array + mid * sz"
      using assms(2) by (simp add: mid_def distrib_right)
    have pe: "peek m (array + mid * sz) sz = ?e (Suc mid)" by (simp add: elem_at_def)
    let ?c = "c ?k (?e (Suc mid))"
    have step: "search_loop m key (array + lo * sz) (array + hi * sz) sz cmp =
      (if ?c < 0 then search_loop m key (array + lo * sz) (array + mid * sz) sz cmp
       else if ?c > 0 then search_loop m key (array + Suc mid * sz) (array + hi * sz) sz cmp
       else Some (array + mid * sz))"
      by (subst search_loop.simps, unfold Let_def r cmp pe) (use True assms(2) in \<open>simp add: add.commute add.left_commute\<close>)
    have o: "c ?k (?e i) < 0 \<Longrightarrow> c ?k (?e j) < 0" "c ?k (?e j) > 0 \<Longrightarrow> c ?k (?e i) > 0"
      if "1 \<le> i" "i \<le> j" "j \<le> n" for i j using ord that unfolding ordered_for_def by blast+
    consider "?c < 0" | "?c > 0" | "?c = 0" by linarith
    then show ?thesis
    proof cases
      case 1
      have hyp: "mid - lo < hi - lo" "lo \<le> mid" "mid \<le> n" using mid less.prems(2) by linarith+
      have "c ?k (?e i) < 0" if "mid < i" "i \<le> n" for i using o(1) [of "Suc mid" i] 1 that by simp
      from less.hyps [OF hyp less.prems(3) this] show ?thesis unfolding step using 1 by simp
    next
      case 2
      have hyp: "hi - Suc mid < hi - lo" "Suc mid \<le> hi" using mid by linarith+
      have "c ?k (?e i) > 0" if "1 \<le> i" "i \<le> Suc mid" for i using o(2) [of i "Suc mid"] 2 that mid less.prems(2) by simp
      from less.hyps [OF hyp less.prems(2) this less.prems(4)] show ?thesis unfolding step using 2 by simp
    next
      case 3
      moreover have "mid < n" using mid less.prems(2) by simp
      ultimately show ?thesis unfolding step using assms(3) pe by (auto intro: exI [of _ mid])
    qed
  qed
qed

lemma sorted_ordered_for:
  assumes sw: "strict_weak (\<lambda>x y. c x y > 0)" and anti: "\<And>x y. c x y > 0 \<longleftrightarrow> c y x < (0 :: int)"
    and sorted: "sorted_wrt (\<lambda>x y. \<not> c x y > 0) (elems m array sz n)"
  shows "ordered_for c key (elem_at m array sz) n"
  unfolding ordered_for_def
proof (intro allI impI)
  let ?e = "elem_at m array sz"
  fix i j assume ij: "j \<le> n" "i \<le> j" "1 \<le> i"
  have irr: "\<not> c x x > 0" and neg: "\<not> c x y > 0 \<Longrightarrow> \<not> c y z > 0 \<Longrightarrow> \<not> c x z > 0" for x y z
    using sw unfolding strict_weak_def by blast+
  have "\<not> c (?e i) (?e j) > 0"
  proof (cases "i = j")
    case False
    then show ?thesis
      using sorted_wrt_nth_less [OF sorted, of "i - 1" "j - 1"] ij unfolding elems_def by (simp add: nth_upt del: upt_Suc)
  qed (use irr in simp)
  then show "(c key (?e i) < 0 \<longrightarrow> c key (?e j) < 0) \<and> (c key (?e j) > 0 \<longrightarrow> c key (?e i) > 0)"
    using neg anti by blast
qed

section \<open>Properties of sorting, searching and parsing\<close>

text \<open>C23. \<open>sort\<close> (and so \<open>qsort\<close>) terminates, leaves a sorted permutation of the elements in the array and
changes no byte outside it, for every comparison function that is a strict weak order on the bytes of
the elements, every element size and every number of elements.\<close>

theorem qsort_sorts:
  assumes "\<And>m a b. cmp m a b = c (peek m a sz) (peek m b sz)" "strict_weak (\<lambda>x y. c x y > 0)"
    and "array \<noteq> NULL" "0 < sz" "array + n * sz \<le> length m"
  shows "\<exists>m'. qsort_array m array n sz cmp = Some m' \<and> same_outside m m' array (n * sz) \<and>
    sorted_wrt (\<lambda>x y. \<not> c x y > 0) (elems m' array sz n) \<and> mset (elems m' array sz n) = mset (elems m array sz n)"
  unfolding qsort_array_def
  by (rule sort_array_spec [OF _ assms(2-5)]) (simp only: compare_thunk_def assms(1))

definition byte_order :: "u8 list \<Rightarrow> u8 list \<Rightarrow> int" where
  "byte_order x y = uint (hd x) - uint (hd y)"

lemma byte_order: "strict_weak (\<lambda>x y. byte_order x y > 0)" "byte_order x y > 0 \<longleftrightarrow> byte_order y x < 0"
  by (auto simp: byte_order_def strict_weak_def)

theorem qsort_sorts_witness:
  "\<exists>m'. qsort_array [0, 9, 3, 7, 5] 1 3 1 (\<lambda>m a b. byte_order (peek m a 1) (peek m b 1)) = Some m' \<and>
     sorted_wrt (\<lambda>x y. \<not> byte_order x y > 0) (elems m' 1 1 3) \<and> mset (elems m' 1 1 3) = {#[3], [7], [9]#}"
proof -
  have "elems [0, 9, 3, 7, 5] 1 1 3 = [[9], [3], [7]]" by code_simp
  then show ?thesis
    using qsort_sorts [of "\<lambda>m a b. byte_order (peek m a 1) (peek m b 1)" byte_order 1 1 3 "[0, 9, 3, 7, 5]", OF refl byte_order(1)]
    by (auto simp: add_mset_commute)
qed

text \<open>C24. Searching a sorted array finds what was put in: after \<open>qsort\<close>, \<open>bsearch\<close> with the same comparison
function returns and finds an element equal to the key exactly when the array had one, otherwise null.\<close>

theorem qsort_then_bsearch:
  assumes "\<And>m a b. cmp m a b = c (peek m a sz) (peek m b sz)" "strict_weak (\<lambda>x y. c x y > 0)"
    and "\<And>x y. c x y > 0 \<longleftrightarrow> c y x < 0" "array \<noteq> NULL" "0 < sz" "array + n * sz \<le> length m"
  shows "\<exists>m' p. qsort_array m array n sz cmp = Some m' \<and> bsearch m' key array n sz cmp = Some p \<and>
    (if p = NULL then \<forall>e\<in>set (elems m array sz n). c (peek m' key sz) e \<noteq> 0
     else peek m' p sz \<in> set (elems m array sz n) \<and> c (peek m' key sz) (peek m' p sz) = 0)"
proof -
  have th: "compare_thunk cmp m a b = c (peek m a sz) (peek m b sz)" for m a b
    by (simp only: compare_thunk_def assms(1))
  obtain m' where m': "qsort_array m array n sz cmp = Some m'" "sorted_wrt (\<lambda>x y. \<not> c x y > 0) (elems m' array sz n)"
    "mset (elems m' array sz n) = mset (elems m array sz n)"
    using sort_array_spec [of "compare_thunk cmp" c sz array n m, OF th assms(2,4-6)] unfolding qsort_array_def by auto
  have "set (elems m array sz n) = set (elems m' array sz n)" by (rule mset_eq_setD [OF m'(3) [symmetric]])
  then have set: "set (elems m array sz n) = elem_at m' array sz ` {1..n}"
    unfolding elems_def [of m'] by (simp add: atLeastLessThanSuc_atLeastAtMost del: upt_Suc)
  obtain p where p: "bsearch m' key array n sz cmp = Some p"
    "if p = NULL then \<forall>i. 1 \<le> i \<and> i \<le> n \<longrightarrow> c (peek m' key sz) (elem_at m' array sz i) \<noteq> 0
     else \<exists>i < n. p = array + i * sz \<and> c (peek m' key sz) (peek m' p sz) = 0"
    using search_loop_spec [of "compare_thunk cmp" c sz array m' key n 0 n, OF th assms(5,4) sorted_ordered_for [OF assms(2,3) m'(2)]]
    by (auto simp: bsearch_def binary_search_def mult.commute)
  have "peek m' (array + i * sz) sz \<in> set (elems m array sz n)" if "i < n" for i
    unfolding set using that by (auto simp: elem_at_def intro!: image_eqI [of _ _ "Suc i"])
  then show ?thesis using m'(1) p unfolding set by (intro exI [of _ m'] exI [of _ p]) (auto split: if_splits)
qed

theorem qsort_then_bsearch_witness:
  "\<exists>m' p. qsort_array [0, 9, 3, 7, 5] 1 3 1 (\<lambda>m a b. byte_order (peek m a 1) (peek m b 1)) = Some m' \<and>
     bsearch m' 4 1 3 1 (\<lambda>m a b. byte_order (peek m a 1) (peek m b 1)) = Some p"
  using qsort_then_bsearch [of "\<lambda>m a b. byte_order (peek m a 1) (peek m b 1)" byte_order 1 1 3 "[0, 9, 3, 7, 5]" 4,
    OF refl byte_order] by auto

lemma digit_byte:
  assumes "d < 10"
  shows "isdigit (sint (of_nat (48 + d) :: u8))" "sint (of_nat (48 + d) :: u8) = int d + 48"
    "uint (of_nat (48 + d) :: u8) = int d + 48"
proof -
  have "d \<in> {0, 1, 2, 3, 4, 5, 6, 7, 8, 9}" using assms by auto
  then show "isdigit (sint (of_nat (48 + d) :: u8))" "sint (of_nat (48 + d) :: u8) = int d + 48"
    "uint (of_nat (48 + d) :: u8) = int d + 48" by (auto simp: isdigit_def)
qed

definition digits_value :: "nat list \<Rightarrow> int" where
  "digits_value ds = foldl (\<lambda>v d. 10 * v + int d) 0 ds"

lemma atoi_digits_spec:
  assumes "cstring m s (map (\<lambda>d. of_nat (48 + d)) ds @ rest)" "\<forall>d\<in>set ds. d < 10"
    and "rest = [] \<or> \<not> isdigit (sint (hd rest))"
  shows "atoi_digits m s (word_of_int (- v)) = Some (word_of_int (- foldl (\<lambda>v d. 10 * v + int d) v ds))"
  using assms(1,2)
proof (induction ds arbitrary: s v)
  case Nil
  then show ?case using assms(3) by (subst atoi_digits.simps, cases rest) (auto simp: cstring_Nil cstring_Cons isdigit_def)
next
  case (Cons d ds)
  have "atoi_digits m (s + 1) (word_of_int (- (10 * v + int d))) = Some (word_of_int (- foldl (\<lambda>v d. 10 * v + int d) (10 * v + int d) ds))"
    using Cons.prems by (intro Cons.IH) (simp_all add: cstring_Cons)
  then show ?case
    using Cons.prems digit_byte [of d] by (subst atoi_digits.simps) (simp add: cstring_Cons mult.commute)
qed

lemma atoi_space_spec:
  assumes "cstring m s (ws @ rest)" "\<forall>c\<in>set ws. isspace (uint c)" "rest = [] \<or> \<not> isspace (uint (hd rest))"
  shows "atoi_space m s = Some (s + length ws)"
  using assms(1,2)
proof (induction ws arbitrary: s)
  case Nil
  then show ?case using assms(3) by (subst atoi_space.simps, cases rest) (auto simp: cstring_Nil cstring_Cons isspace_def)
next
  case (Cons c ws)
  then show ?case using Cons.IH [of "s + 1"] by (subst atoi_space.simps) (simp add: cstring_Cons)
qed

lemma atoi_reads:
  assumes "cstring m s (ws @ sign @ map (\<lambda>d. of_nat (48 + d)) ds @ rest)" "s \<noteq> NULL" "\<forall>c\<in>set ws. isspace (uint c)"
    and "sign \<in> {[], [43], [45]}" "ds \<noteq> []" "\<forall>d\<in>set ds. d < 10" "rest = [] \<or> \<not> isdigit (sint (hd rest))"
    and "z = (if sign = [45] then - digits_value ds else digits_value ds)"
  shows "atoi m s = Some (word_of_int z)"
proof -
  let ?d = "map (\<lambda>d. of_nat (48 + d) :: u8) ds" let ?p = "s + length ws" let ?q = "?p + length sign"
  obtain d ds' where d: "ds = d # ds'" "d < 10" using assms(5,6) by (cases ds) auto
  have "\<not> isspace (uint (hd (sign @ ?d @ rest)))"
    using assms(4) d digit_byte(3) [of d] by (auto simp: isspace_def)
  then have sp: "atoi_space m s = Some ?p" using assms(3) by (intro atoi_space_spec [OF assms(1)]) auto
  have c1: "cstring m ?p (sign @ ?d @ rest)" using assms(1) by (rule cstring_append)
  then have c2: "cstring m ?q (?d @ rest)" by (rule cstring_append)
  have dg: "atoi_digits m ?q 0 = Some (word_of_int (- digits_value ds))"
    using atoi_digits_spec [OF c2 assms(6,7), of 0] by (simp add: digits_value_def)
  have d0: "of_nat (48 + d) \<noteq> (43 :: u8)" "of_nat (48 + d) \<noteq> (45 :: u8)" 
  proof -
    have "uint (of_nat (48 + d) :: u8) \<noteq> uint (43 :: u8)" "uint (of_nat (48 + d) :: u8) \<noteq> uint (45 :: u8)"
      unfolding digit_byte(3) [OF d(2)] by simp_all
    then show "of_nat (48 + d) \<noteq> (43 :: u8)" "of_nat (48 + d) \<noteq> (45 :: u8)" by metis+
  qed
  show ?thesis
    using assms(4)
  proof (elim insertE emptyE)
    assume "sign = []"
    then show ?thesis using c1 dg sp assms(2,8) d d0 by (simp add: atoi_def cstring_Cons)
  next
    assume "sign = [43]"
    then show ?thesis using c1 dg sp assms(2,8) by (simp add: atoi_def cstring_Cons)
  next
    assume "sign = [45]"
    then show ?thesis using c1 dg sp assms(2,8) by (simp add: atoi_def cstring_Cons)
  qed
qed

text \<open>C25. \<open>atoi\<close> reads white space, an optional sign and a decimal number, and returns the number modulo
\<open>2\<^sup>32\<close>: exactly the number, for every number an \<open>int\<close> can hold, the smallest one included.\<close>

theorem atoi_value:
  assumes "cstring m s (ws @ sign @ map (\<lambda>d. of_nat (48 + d)) ds @ rest)" "s \<noteq> NULL" "\<forall>c\<in>set ws. isspace (uint c)"
    and "sign \<in> {[], [43], [45]}" "ds \<noteq> []" "\<forall>d\<in>set ds. d < 10" "rest = [] \<or> \<not> isdigit (sint (hd rest))"
    and "z = (if sign = [45] then - digits_value ds else digits_value ds)"
  shows "\<exists>v. atoi m s = Some v \<and> v = word_of_int z \<and> (- (2 ^ 31) \<le> z \<and> z < 2 ^ 31 \<longrightarrow> sint v = z)"
proof -
  have "sint (word_of_int z :: u32) = z" if "- (2 ^ 31) \<le> z" "z < 2 ^ 31"
    using that by (simp add: signed_of_int signed_take_bit_int_eq_self)
  then show ?thesis using atoi_reads [OF assms] by auto
qed

text \<open>The string \<open>" -2147483648"\<close>.\<close>

theorem atoi_value_witness:
  "\<exists>v. atoi [0, 32, 45, 50, 49, 52, 55, 52, 56, 51, 54, 52, 56, 0] 1 = Some v \<and> sint v = - 2147483648"
  using atoi_value [of "[0, 32, 45, 50, 49, 52, 55, 52, 56, 51, 54, 52, 56, 0]" 1 "[32]" "[45]" "[2, 1, 4, 7, 4, 8, 3, 6, 4, 8]" "[]"
    "- 2147483648"]
  by (simp add: cstring_def peek_def isspace_def digits_value_def)

end
