(* ===== verification/Random_Gen.thy ===== *)
theory Random_Gen
  imports Prelude "HOL-Library.Multiset"
begin

text \<open>
  The pseudo-random number generator, \<open>src/lib/random.c\<close>. The state is the table and the two byte
  indices, with the flag that says whether they are initialised. All index arithmetic is on bytes and
  wraps, so an index never leaves the table of 256 entries.
\<close>

record prng =
  s_table :: "u8 list"
  s_i :: u8
  s_j :: u8
  inited :: bool

definition swap_byte :: "u8 list \<Rightarrow> nat \<Rightarrow> nat \<Rightarrow> u8 list option" where
  "swap_byte s a b = do {
     ASSERT (a < length s \<and> b < length s);
     let t = s ! a;
     let s = s[a := s ! b];
     Some (s[b := t])
   }"

text \<open>The bytes of an \<open>unsigned\<close> as the processor stores them, lowest first.\<close>

definition seed_byte :: "u32 \<Rightarrow> nat \<Rightarrow> u8" where
  "seed_byte seed k = ucast (drop_bit (8 * k) seed)"

text \<open>The loop \<open>s[i] = i\<close>.\<close>

definition identity_table :: "u8 list" where
  "identity_table = map of_nat [0..<256]"

fun key_schedule :: "u32 \<Rightarrow> nat \<Rightarrow> nat \<Rightarrow> u8 \<Rightarrow> u8 list \<Rightarrow> u8 list option" where
  "key_schedule seed i 0 j s = Some s"
| "key_schedule seed i (Suc k) j s = do {
     ASSERT (i < length s);
     let j = j + (s ! i + seed_byte seed (i mod 4));
     s \<leftarrow> swap_byte s i (unat j);
     key_schedule seed (i + 1) k j s
   }"

definition random_init :: "u32 \<Rightarrow> prng option" where
  "random_init seed = do {
     let s = identity_table;
     s \<leftarrow> key_schedule seed 0 256 0 s;
     Some \<lparr>s_table = s, s_i = 0, s_j = 0, inited = True\<rparr>
   }"

fun random_loop :: "nat \<Rightarrow> prng \<Rightarrow> (u8 list \<times> prng) option" where
  "random_loop 0 r = Some ([], r)"
| "random_loop (Suc n) r = do {
     let i = s_i r + 1;
     ASSERT (unat i < length (s_table r));
     let j = s_j r + s_table r ! unat i;
     s \<leftarrow> swap_byte (s_table r) (unat i) (unat j);
     let k = s ! unat i + s ! unat j;
     ASSERT (unat k < length s);
     (bs, r) \<leftarrow> random_loop n (r\<lparr>s_table := s, s_i := i, s_j := j\<rparr>);
     Some (s ! unat k # bs, r)
   }"

definition random_bytes :: "nat \<Rightarrow> prng \<Rightarrow> (u8 list \<times> prng) option" where
  "random_bytes n r = do {
     r \<leftarrow> (if \<not> inited r then random_init 0 else Some r);
     random_loop n r
   }"

definition random_ulong :: "prng \<Rightarrow> (u32 \<times> prng) option" where
  "random_ulong r = do {
     (bs, r) \<leftarrow> random_bytes 4 r;
     Some (\<Sum>k<4. push_bit (8 * k) (ucast (bs ! k)), r)
   }"

section \<open>The table is a permutation\<close>

definition prng_ok :: "prng \<Rightarrow> bool" where
  "prng_ok r \<longleftrightarrow> (inited r \<longrightarrow> mset (s_table r) = mset identity_table)"

lemma swap_byte_spec:
  assumes "a < length s" "b < length s"
  shows "\<exists>s'. swap_byte s a b = Some s' \<and> mset s' = mset s \<and> length s' = length s"
  using assms mset_swap [of b s a] by (simp add: swap_byte_def Let_def)

lemma length_identity_table: "length identity_table = 256"
  unfolding identity_table_def length_map length_upt by simp

lemma byte_index: "length s = 256 \<Longrightarrow> unat (b :: u8) < length s"
  using unsigned_less [of b] by simp

lemma key_schedule_spec:
  assumes "length s = 256" "i + k = 256"
  shows "\<exists>s'. key_schedule seed i k j s = Some s' \<and> mset s' = mset s"
  using assms
proof (induction k arbitrary: i j s)
  case (Suc k)
  let ?j = "j + (s ! i + seed_byte seed (i mod 4))"
  obtain s1 where s1: "swap_byte s i (unat ?j) = Some s1" "mset s1 = mset s" "length s1 = length s"
    using swap_byte_spec [of i s "unat ?j"] Suc.prems byte_index [of s] by auto
  then show ?case using Suc.IH [of s1 "i + 1" ?j] Suc.prems by (auto simp: Let_def)
qed simp

lemma random_init_spec: "\<exists>r. random_init seed = Some r \<and> inited r \<and> mset (s_table r) = mset identity_table"
  using key_schedule_spec [of identity_table 0 256 seed 0] length_identity_table by (auto simp: random_init_def)

lemma random_loop_spec:
  assumes "mset (s_table r) = mset identity_table"
  shows "\<exists>bs r'. random_loop n r = Some (bs, r') \<and> length bs = n \<and> inited r' = inited r \<and>
    mset (s_table r') = mset identity_table"
  using assms
proof (induction n arbitrary: r)
  case (Suc n)
  have l: "length (s_table r) = 256" using mset_eq_length [OF Suc.prems] length_identity_table by simp
  let ?i = "s_i r + 1" let ?j = "s_j r + s_table r ! unat (s_i r + 1)"
  obtain s where s: "swap_byte (s_table r) (unat ?i) (unat ?j) = Some s" "mset s = mset (s_table r)" "length s = 256"
    using swap_byte_spec [OF byte_index [OF l] byte_index [OF l], of ?i ?j] l by auto
  obtain bs r' where "random_loop n (r\<lparr>s_table := s, s_i := ?i, s_j := ?j\<rparr>) = Some (bs, r')" "length bs = n"
    "inited r' = inited r" "mset (s_table r') = mset identity_table"
    using Suc.IH [of "r\<lparr>s_table := s, s_i := ?i, s_j := ?j\<rparr>"] s Suc.prems by auto
  then show ?case using s byte_index [OF l, of ?i] byte_index [OF s(3)] by (simp add: Let_def)
qed simp

text \<open>C26. The generator never indexes outside its table and always delivers: in every state reached from
an uninitialised or initialised generator, \<open>random_bytes\<close> returns exactly the number of bytes asked for,
and the table stays a permutation of the 256 byte values.\<close>

theorem random_bytes_ok:
  assumes "prng_ok r"
  shows "\<exists>bs r'. random_bytes n r = Some (bs, r') \<and> length bs = n \<and> inited r' \<and> prng_ok r' \<and>
    (\<exists>r''. random_init seed = Some r'' \<and> inited r'' \<and> prng_ok r'')"
proof -
  obtain r0 where r0: "(if \<not> inited r then random_init 0 else Some r) = Some r0" "inited r0"
    "mset (s_table r0) = mset identity_table"
    using assms random_init_spec [of 0] by (cases "inited r") (auto simp: prng_ok_def)
  obtain bs r' where "random_loop n r0 = Some (bs, r')" "length bs = n" "inited r'" "mset (s_table r') = mset identity_table"
    using random_loop_spec [OF r0(3), of n] r0(2) by auto
  moreover have "random_bytes n r = random_loop n r0" unfolding random_bytes_def r0(1) by simp
  ultimately show ?thesis using random_init_spec [of seed] by (auto simp: prng_ok_def)
qed

theorem random_bytes_ok_witness:
  "\<exists>bs r'. random_bytes 3 \<lparr>s_table = [], s_i = 0, s_j = 0, inited = False\<rparr> = Some (bs, r') \<and> length bs = 3"
  using random_bytes_ok [of "\<lparr>s_table = [], s_i = 0, s_j = 0, inited = False\<rparr>" 3 7] by (auto simp: prng_ok_def)

end
