(* ===== verification/Vaddr.thy ===== *)
theory Vaddr
  imports Prelude
begin

text \<open>
  Virtual addresses and page table entries, \<open>src/threads/vaddr.h\<close>, \<open>src/threads/pte.h\<close> and the base
  address of \<open>src/threads/loader.h\<close>. Addresses and entries are 32-bit words, so that rounding up and
  the physical-to-virtual shift wrap as they do on the machine.
\<close>

unbundle bit_operations_syntax

section \<open>Addresses\<close>

definition BITMASK :: "nat \<Rightarrow> nat \<Rightarrow> u32" where
  "BITMASK s c = push_bit s (push_bit c 1 - 1)"

definition PGBITS :: nat where "PGBITS = 12"
definition PGSIZE :: u32 where "PGSIZE = push_bit PGBITS 1"
definition PGMASK :: u32 where "PGMASK = BITMASK 0 PGBITS"

definition pg_ofs :: "u32 \<Rightarrow> u32" where "pg_ofs va = va AND PGMASK"
definition pg_no :: "u32 \<Rightarrow> u32" where "pg_no va = drop_bit PGBITS va"
definition pg_round_up :: "u32 \<Rightarrow> u32" where "pg_round_up va = (va + PGSIZE - 1) AND NOT PGMASK"
definition pg_round_down :: "u32 \<Rightarrow> u32" where "pg_round_down va = va AND NOT PGMASK"

definition PHYS_BASE :: u32 where "PHYS_BASE = 0xc0000000"
definition is_user_vaddr :: "u32 \<Rightarrow> bool" where "is_user_vaddr va = (va < PHYS_BASE)"
definition is_kernel_vaddr :: "u32 \<Rightarrow> bool" where "is_kernel_vaddr va = (va \<ge> PHYS_BASE)"

definition ptov :: "u32 \<Rightarrow> u32 option" where
  "ptov paddr = do { ASSERT (paddr < PHYS_BASE); Some (paddr + PHYS_BASE) }"

definition vtop :: "u32 \<Rightarrow> u32 option" where
  "vtop va = do { ASSERT (is_kernel_vaddr va); Some (va - PHYS_BASE) }"

section \<open>Page tables\<close>

definition PTBITS :: nat where "PTBITS = 10"
definition PTMASK :: u32 where "PTMASK = BITMASK PGBITS PTBITS"
definition PDSHIFT :: nat where "PDSHIFT = PGBITS + PTBITS"

definition pt_no :: "u32 \<Rightarrow> u32" where "pt_no va = drop_bit PGBITS (va AND PTMASK)"
definition pd_no :: "u32 \<Rightarrow> u32" where "pd_no va = drop_bit PDSHIFT va"

definition PTE_ADDR :: u32 where "PTE_ADDR = 0xfffff000"
definition PTE_P :: u32 where "PTE_P = 0x1"
definition PTE_W :: u32 where "PTE_W = 0x2"
definition PTE_U :: u32 where "PTE_U = 0x4"
definition PTE_A :: u32 where "PTE_A = 0x20"
definition PTE_D :: u32 where "PTE_D = 0x40"

definition pde_create :: "u32 \<Rightarrow> u32 option" where
  "pde_create pt = do {
     ASSERT (pg_ofs pt = 0);
     p \<leftarrow> vtop pt;
     Some (p OR PTE_U OR PTE_P OR PTE_W)
   }"

definition pde_get_pt :: "u32 \<Rightarrow> u32 option" where
  "pde_get_pt pde = do { ASSERT (pde AND PTE_P \<noteq> 0); ptov (pde AND PTE_ADDR) }"

definition pte_create_kernel :: "u32 \<Rightarrow> bool \<Rightarrow> u32 option" where
  "pte_create_kernel page writable = do {
     ASSERT (pg_ofs page = 0);
     p \<leftarrow> vtop page;
     Some (p OR PTE_P OR (if writable then PTE_W else 0))
   }"

definition pte_create_user :: "u32 \<Rightarrow> bool \<Rightarrow> u32 option" where
  "pte_create_user page writable = do { e \<leftarrow> pte_create_kernel page writable; Some (e OR PTE_U) }"

definition pte_get_page :: "u32 \<Rightarrow> u32 option" where
  "pte_get_page pte = ptov (pte AND PTE_ADDR)"

section \<open>Page arithmetic\<close>

lemmas vaddr_consts = PGBITS_def PGSIZE_def PGMASK_def BITMASK_def PHYS_BASE_def PTBITS_def PTMASK_def PDSHIFT_def

lemma PGSIZE_eq: "PGSIZE = 4096"
  by (simp add: vaddr_consts)

lemma PGMASK_eq: "PGMASK = mask 12"
  by (simp add: vaddr_consts mask_eq_exp_minus_1)

lemma pg_ofs_unat: "unat (pg_ofs va) = unat va mod 4096"
  unfolding pg_ofs_def PGMASK_eq by (simp only: flip: take_bit_eq_mask) (simp add: take_bit_eq_mod unat_mod_distrib)

lemma pg_no_unat: "unat (pg_no va) = unat va div 4096"
  unfolding pg_no_def PGBITS_def by (simp add: drop_bit_eq_div unat_div_distrib)

lemma pg_split: "pg_round_down va + pg_ofs va = va"
  unfolding pg_round_down_def pg_ofs_def by (subst disjunctive_add) (auto simp: bit_simps bit_eq_iff)

lemma pg_round_down_unat: "unat (pg_round_down va) = unat va div 4096 * 4096"
proof -
  have "pg_round_down va = va - pg_ofs va" using pg_split [of va] by (metis add_diff_cancel_right')
  moreover have "pg_ofs va \<le> va" using pg_ofs_unat [of va] by (simp add: word_le_nat_alt)
  ultimately show ?thesis using pg_ofs_unat [of va] by (simp add: unat_sub minus_mod_eq_div_mult)
qed

lemma pg_round_up_unat:
  assumes "unat va + 4095 < 2 ^ 32"
  shows "unat (pg_round_up va) = (unat va + 4095) div 4096 * 4096"
proof -
  have "pg_round_up va = pg_round_down (va + 4095)"
    by (simp add: pg_round_up_def pg_round_down_def PGSIZE_eq add.commute)
  moreover have "unat (va + 4095) = unat va + 4095" using assms by (subst unat_add_lem [THEN iffD1]) simp_all
  ultimately show ?thesis by (simp add: pg_round_down_unat)
qed

lemma aligned_bits: "pg_ofs va = 0 \<longleftrightarrow> va AND PTE_ADDR = va"
proof -
  have "NOT PGMASK = PTE_ADDR" by (simp add: PGMASK_eq PTE_ADDR_def mask_eq_exp_minus_1)
  then have "(va AND PTE_ADDR) + pg_ofs va = va" using pg_split [of va] by (simp add: pg_round_down_def)
  then show ?thesis by (metis add_cancel_left_right add_cancel_right_right)
qed

section \<open>Entries\<close>

lemma vtop_Some: "PHYS_BASE \<le> va \<Longrightarrow> vtop va = Some (va - PHYS_BASE)"
  by (simp add: vtop_def is_kernel_vaddr_def)

lemma vtop_bound: "PHYS_BASE \<le> va \<Longrightarrow> va - PHYS_BASE < 0x40000000"
proof -
  assume "PHYS_BASE \<le> va"
  moreover have "unat va < 2 ^ 32" using unsigned_less [of va] by simp
  ultimately show ?thesis by (simp add: word_less_nat_alt word_le_nat_alt unat_sub PHYS_BASE_def)
qed

lemma ptov_vtop: "PHYS_BASE \<le> va \<Longrightarrow> ptov (va - PHYS_BASE) = Some va"
proof -
  assume "PHYS_BASE \<le> va"
  from vtop_bound [OF this] have "va - PHYS_BASE < PHYS_BASE" by (rule less_trans) (simp add: PHYS_BASE_def)
  then show ?thesis by (simp add: ptov_def)
qed

lemma aligned_unat: "pg_ofs va = 0 \<longleftrightarrow> unat va mod 4096 = 0"
  by (simp add: word_unat_eq_iff pg_ofs_unat)

lemma aligned_sub: "pg_ofs va = 0 \<Longrightarrow> PHYS_BASE \<le> va \<Longrightarrow> pg_ofs (va - PHYS_BASE) = 0"
proof -
  assume "pg_ofs va = 0" "PHYS_BASE \<le> va"
  moreover from this have "unat (va - PHYS_BASE) = unat va - 4096 * 786432" by (simp add: unat_sub PHYS_BASE_def)
  ultimately show ?thesis unfolding aligned_unat
    by (simp only:) (simp add: mod_0_imp_dvd dvd_imp_mod_0 dvd_diff_nat del: mult_numeral_1)
qed

lemma entry_addr:
  assumes "pg_ofs p = 0" "f AND PTE_ADDR = 0"
  shows "(p OR f) AND PTE_ADDR = p"
  using assms by (simp add: aligned_bits bit.conj_disj_distrib2)

lemma entry_flag:
  assumes "pg_ofs p = 0" "g AND PTE_ADDR = 0"
  shows "(p OR f) AND g = f AND g"
proof -
  have "p AND g = (p AND PTE_ADDR) AND g" using assms(1) by (simp add: aligned_bits)
  then have "p AND g = 0" using assms(2) by (simp add: and.assoc and.commute [of PTE_ADDR])
  then show ?thesis by (simp add: bit.conj_disj_distrib2)
qed

lemma pte_create_user_spec:
  assumes "pg_ofs page = 0" "PHYS_BASE \<le> page"
  shows "\<exists>e. pte_create_user page w = Some e \<and> e AND PTE_P \<noteq> 0 \<and> pte_get_page e = Some page \<and>
    (e AND PTE_W \<noteq> 0) = w \<and> e AND PTE_U \<noteq> 0 \<and> e AND PTE_D = 0 \<and> e AND PTE_A = 0"
proof -
  let ?p = "page - PHYS_BASE" let ?f = "PTE_P OR (if w then PTE_W else 0) OR PTE_U"
  have p: "pg_ofs ?p = 0" by (rule aligned_sub [OF assms])
  have e: "pte_create_user page w = Some (?p OR ?f)"
    using assms by (simp add: pte_create_user_def pte_create_kernel_def vtop_Some or.assoc)
  have "?f AND PTE_ADDR = 0" by (simp add: PTE_P_def PTE_W_def PTE_U_def PTE_ADDR_def)
  then have "(?p OR ?f) AND PTE_ADDR = ?p" by (rule entry_addr [OF p])
  then have g: "pte_get_page (?p OR ?f) = Some page" by (simp add: pte_get_page_def ptov_vtop [OF assms(2)])
  have fl: "(?p OR ?f) AND x = ?f AND x" if "x \<in> {PTE_P, PTE_W, PTE_U, PTE_D, PTE_A}" for x
    using that by (intro entry_flag [OF p]) (auto simp: PTE_P_def PTE_W_def PTE_U_def PTE_D_def PTE_A_def PTE_ADDR_def)
  show ?thesis
    unfolding e using g fl by (auto simp: PTE_P_def PTE_W_def PTE_U_def PTE_D_def PTE_A_def)
qed

lemma pde_create_spec:
  assumes "pg_ofs pt = 0" "PHYS_BASE \<le> pt"
  shows "\<exists>e. pde_create pt = Some e \<and> e \<noteq> 0 \<and> pde_get_pt e = Some pt"
proof -
  let ?p = "pt - PHYS_BASE" let ?f = "PTE_U OR PTE_P OR PTE_W"
  have p: "pg_ofs ?p = 0" by (rule aligned_sub [OF assms])
  have e: "pde_create pt = Some (?p OR ?f)" using assms by (simp add: pde_create_def vtop_Some or.assoc)
  have "?f AND PTE_ADDR = 0" by (simp add: PTE_P_def PTE_W_def PTE_U_def PTE_ADDR_def)
  then have a: "(?p OR ?f) AND PTE_ADDR = ?p" by (rule entry_addr [OF p])
  have "(?p OR ?f) AND PTE_P = ?f AND PTE_P" by (rule entry_flag [OF p]) (simp add: PTE_P_def PTE_ADDR_def)
  then have P: "(?p OR ?f) AND PTE_P \<noteq> 0" by (simp add: PTE_P_def PTE_W_def PTE_U_def)
  then have "?p OR ?f \<noteq> 0" by auto
  then show ?thesis unfolding e using P a by (simp add: pde_get_pt_def ptov_vtop [OF assms(2)])
qed

text \<open>The indices and the offset determine the address.\<close>

lemma pt_no_eq: "pt_no va = take_bit 10 (drop_bit 12 va)"
proof -
  have "PTMASK = push_bit 12 (mask 10)" by (simp add: vaddr_consts mask_eq_exp_minus_1)
  then show ?thesis
    by (auto simp: pt_no_def PGBITS_def bit_eq_iff bit_simps dest: bit_imp_le_length)
qed

lemma pd_no_eq: "pd_no va = drop_bit 10 (drop_bit 12 va)"
  by (simp add: pd_no_def PDSHIFT_def PGBITS_def PTBITS_def)

lemma page_no_split: "pg_no va = push_bit 10 (pd_no va) + pt_no va"
  unfolding pt_no_eq pd_no_eq pg_no_def PGBITS_def by (rule bits_ident [symmetric])

lemma same_page_indices:
  "pg_round_down a = pg_round_down b \<longleftrightarrow> pd_no a = pd_no b \<and> pt_no a = pt_no b"
proof -
  have "pg_round_down x = push_bit 12 (pg_no x)" for x
    unfolding pg_round_down_def PGMASK_eq pg_no_def PGBITS_def by (auto simp: bit_eq_iff bit_simps dest: bit_imp_le_length)
  moreover have "pg_no x = drop_bit 12 (pg_round_down x)" for x
    unfolding pg_round_down_def PGMASK_eq pg_no_def PGBITS_def by (auto simp: bit_eq_iff bit_simps dest: bit_imp_le_length)
  ultimately have "pg_round_down a = pg_round_down b \<longleftrightarrow> pg_no a = pg_no b" by metis
  also have "\<dots> \<longleftrightarrow> pd_no a = pd_no b \<and> pt_no a = pt_no b"
    using page_no_split by (metis pd_no_eq pt_no_eq pg_no_def PGBITS_def)
  finally show ?thesis .
qed

end
