(* ===== verification/Palloc.thy ===== *)
theory Palloc
  imports Vaddr Bitmap
begin

text \<open>
  The page allocator, \<open>src/threads/palloc.c\<close>. A pool is its bit map and its base address. Besides the
  two pools the state has the contents of the pages, as 32-bit words by page address and index, since
  the allocator zeroes and poisons pages. The pool's lock makes each operation on the bit map one
  step. The end of the kernel image, the number of RAM pages and the limit for user pages are
  parameters of the initialisation, and so is what the memory of a bit map holds before it is cleared.
\<close>

unbundle bit_operations_syntax

definition PAL_ASSERT :: u32 where "PAL_ASSERT = 1"
definition PAL_ZERO :: u32 where "PAL_ZERO = 2"
definition PAL_USER :: u32 where "PAL_USER = 4"

record pool =
  used_map :: bitmap
  base :: u32

record ram =
  kernel_pool :: pool
  user_pool :: pool
  page_words :: "u32 \<Rightarrow> nat \<Rightarrow> u32"

abbreviation page_bytes :: nat where
  "page_bytes \<equiv> 4096"

text \<open>\<open>memset\<close> over \<open>n\<close> pages.\<close>

definition fill_pages :: "(u32 \<Rightarrow> nat \<Rightarrow> u32) \<Rightarrow> u32 \<Rightarrow> nat \<Rightarrow> u32 \<Rightarrow> u32 \<Rightarrow> nat \<Rightarrow> u32" where
  "fill_pages w pages n v = (\<lambda>a. if a \<in> set (map (\<lambda>i. pages + PGSIZE * of_nat i) [0..<n]) then (\<lambda>_. v) else w a)"

definition init_pool :: "(nat \<Rightarrow> u32) \<Rightarrow> u32 \<Rightarrow> nat \<Rightarrow> pool option" where
  "init_pool junk b page_cnt = do {
     let bm_pages = DIV_ROUND_UP (bitmap_buf_size page_cnt) page_bytes;
     ASSERT (\<not> bm_pages > page_cnt);
     let page_cnt = page_cnt - bm_pages;
     m \<leftarrow> bitmap_create_in_buf page_cnt (map junk [0..<elem_cnt page_cnt]) (bm_pages * page_bytes);
     Some \<lparr>used_map = m, base = b + of_nat bm_pages * PGSIZE\<rparr>
   }"

definition palloc_init ::
  "u32 \<Rightarrow> nat \<Rightarrow> nat \<Rightarrow> (u32 \<Rightarrow> nat \<Rightarrow> u32) \<Rightarrow> (u32 \<Rightarrow> nat \<Rightarrow> u32) \<Rightarrow> ram option" where
  "palloc_init kernel_end ram_pages user_page_limit junk w = do {
     let free_start = pg_round_up kernel_end;
     free_end \<leftarrow> ptov (of_nat ram_pages * PGSIZE);
     let free_pages = unat ((free_end - free_start) div PGSIZE);
     let user_pages = free_pages div 2;
     let user_pages = (if user_pages > user_page_limit then user_page_limit else user_pages);
     let kernel_pages = free_pages - user_pages;
     k \<leftarrow> init_pool (junk free_start) free_start kernel_pages;
     u \<leftarrow> init_pool (junk (free_start + of_nat kernel_pages * PGSIZE)) (free_start + of_nat kernel_pages * PGSIZE) user_pages;
     Some \<lparr>kernel_pool = k, user_pool = u, page_words = w\<rparr>
   }"

definition upd_pool :: "ram \<Rightarrow> bool \<Rightarrow> pool \<Rightarrow> ram" where
  "upd_pool r user p = (if user then r\<lparr>user_pool := p\<rparr> else r\<lparr>kernel_pool := p\<rparr>)"

definition get_pool :: "ram \<Rightarrow> bool \<Rightarrow> pool" where
  "get_pool r user = (if user then user_pool r else kernel_pool r)"

definition palloc_get_multiple :: "ram \<Rightarrow> u32 \<Rightarrow> nat \<Rightarrow> (u32 \<times> ram) option" where
  "palloc_get_multiple r flags page_cnt =
     (let user = flags AND PAL_USER \<noteq> 0;
          pool = get_pool r user
      in if page_cnt = 0 then Some (0, r)
         else do {
           (page_idx, m) \<leftarrow> bitmap_scan_and_flip (used_map pool) 0 page_cnt False;
           let r = upd_pool r user (pool\<lparr>used_map := m\<rparr>);
           let pages = (if page_idx \<noteq> BITMAP_ERROR then base pool + PGSIZE * of_nat page_idx else 0);
           if pages \<noteq> 0
           then Some (pages, if flags AND PAL_ZERO \<noteq> 0
                             then r\<lparr>page_words := fill_pages (page_words r) pages page_cnt 0\<rparr> else r)
           else do { ASSERT (flags AND PAL_ASSERT = 0); Some (pages, r) }
         })"

definition palloc_get_page :: "ram \<Rightarrow> u32 \<Rightarrow> (u32 \<times> ram) option" where
  "palloc_get_page r flags = palloc_get_multiple r flags 1"

definition page_from_pool :: "pool \<Rightarrow> u32 \<Rightarrow> bool" where
  "page_from_pool pool page =
     (let page_no = pg_no page;
          start_page = pg_no (base pool);
          end_page = start_page + of_nat (bitmap_size (used_map pool))
      in page_no \<ge> start_page \<and> page_no < end_page)"

definition palloc_free_multiple :: "ram \<Rightarrow> u32 \<Rightarrow> nat \<Rightarrow> ram option" where
  "palloc_free_multiple r pages page_cnt = do {
     ASSERT (pg_ofs pages = 0);
     if pages = 0 \<or> page_cnt = 0 then Some r
     else do {
       user \<leftarrow> (if page_from_pool (kernel_pool r) pages then Some False
               else if page_from_pool (user_pool r) pages then Some True else None);
       let pool = get_pool r user;
       let page_idx = unat (pg_no pages - pg_no (base pool));
       let r = r\<lparr>page_words := fill_pages (page_words r) pages page_cnt 0xcccccccc\<rparr>;
       b \<leftarrow> bitmap_all (used_map pool) page_idx page_cnt;
       ASSERT b;
       m \<leftarrow> bitmap_set_multiple (used_map pool) page_idx page_cnt False;
       Some (upd_pool r user (pool\<lparr>used_map := m\<rparr>))
     }
   }"

definition palloc_free_page :: "ram \<Rightarrow> u32 \<Rightarrow> ram option" where
  "palloc_free_page r page = palloc_free_multiple r page 1"

section \<open>Pages of a pool\<close>

definition page_at :: "pool \<Rightarrow> nat \<Rightarrow> u32" where
  "page_at p i = base p + PGSIZE * of_nat i"

definition pool_ok :: "pool \<Rightarrow> bool" where
  "pool_ok p \<longleftrightarrow> bitmap_wf (used_map p) \<and> pg_ofs (base p) = 0 \<and> PHYS_BASE \<le> base p \<and>
     unat (base p) + page_bytes * bit_cnt (used_map p) \<le> 2 ^ 32"

definition ram_ok :: "ram \<Rightarrow> bool" where
  "ram_ok r \<longleftrightarrow> pool_ok (kernel_pool r) \<and> pool_ok (user_pool r) \<and>
     unat (base (kernel_pool r)) + page_bytes * bit_cnt (used_map (kernel_pool r)) < unat (base (user_pool r))"

definition pool_taken :: "pool \<Rightarrow> u32 set" where
  "pool_taken p = page_at p ` used_bits (used_map p)"

definition taken :: "ram \<Rightarrow> u32 set" where
  "taken r = pool_taken (kernel_pool r) \<union> pool_taken (user_pool r)"

definition run :: "u32 \<Rightarrow> nat \<Rightarrow> u32 set" where
  "run pages n = (\<lambda>i. pages + PGSIZE * of_nat i) ` {..<n}"

lemma page_at_unat:
  assumes "pool_ok p" "i < bit_cnt (used_map p)"
  shows "unat (page_at p i) = unat (base p) + page_bytes * i"
proof -
  have b: "unat (base p) + page_bytes * i < 2 ^ 32" using assms by (simp add: pool_ok_def)
  have "page_at p i = of_nat (unat (base p) + page_bytes * i)" by (simp add: page_at_def PGSIZE_eq)
  then show ?thesis using b by (simp only: unat_of_nat) simp
qed

lemma page_at_props:
  assumes "pool_ok p" "i < bit_cnt (used_map p)"
  shows "PHYS_BASE \<le> page_at p i" "page_at p i \<noteq> 0" "pg_ofs (page_at p i) = 0" "unat (pg_no (page_at p i) - pg_no (base p)) = i"
    "unat (pg_no (page_at p i)) = unat (pg_no (base p)) + i"
proof -
  note u = page_at_unat [OF assms]
  show "PHYS_BASE \<le> page_at p i" using assms(1) u by (simp add: pool_ok_def word_le_nat_alt)
  then show "page_at p i \<noteq> 0" by (auto simp: PHYS_BASE_def)
  have "unat (base p) mod 4096 = 0" using assms(1) by (simp add: pool_ok_def aligned_unat)
  then show "pg_ofs (page_at p i) = 0" unfolding aligned_unat u by simp
  show n: "unat (pg_no (page_at p i)) = unat (pg_no (base p)) + i" unfolding pg_no_unat u by simp
  then show "unat (pg_no (page_at p i) - pg_no (base p)) = i" by (simp add: unat_sub word_le_nat_alt)
qed

lemma page_at_inj: "pool_ok p \<Longrightarrow> inj_on (page_at p) {..<bit_cnt (used_map p)}"
  by (rule inj_onI) (metis add_left_cancel lessThan_iff page_at_props(5))

lemma run_page_at: "run (page_at p i) n = page_at p ` {i..<i + n}"
proof -
  have "page_at p i + PGSIZE * of_nat k = page_at p (i + k)" for k by (simp add: page_at_def algebra_simps)
  then have "run (page_at p i) n = (\<lambda>k. page_at p (i + k)) ` {..<n}" by (simp add: run_def)
  also have "\<dots> = page_at p ` plus i ` {..<n}" by (simp add: image_image)
  also have "plus i ` {..<n} = {i..<i + n}" using image_add_atLeastLessThan [of i 0 n] by (simp add: lessThan_atLeast0 add.commute)
  finally show ?thesis .
qed

lemma page_from_pool_iff:
  assumes "pool_ok p" "pg_ofs a = 0"
  shows "page_from_pool p a \<longleftrightarrow> (\<exists>i < bit_cnt (used_map p). a = page_at p i)"
proof -
  let ?n = "bit_cnt (used_map p)"
  have b: "unat (base p) mod 4096 = 0" "unat (base p) + page_bytes * ?n \<le> 2 ^ 32" using assms(1) by (auto simp: pool_ok_def aligned_unat)
  then have "unat (pg_no (base p)) + ?n < 2 ^ 32" by (simp add: pg_no_unat)
  moreover have "pg_no (base p) + of_nat ?n = of_nat (unat (pg_no (base p)) + ?n)" by simp
  ultimately have e: "unat (pg_no (base p) + of_nat ?n) = unat (pg_no (base p)) + ?n" by (simp only: unat_of_nat) simp
  show ?thesis
  proof
    assume "page_from_pool p a"
    then have r: "unat (pg_no (base p)) \<le> unat (pg_no a)" "unat (pg_no a) < unat (pg_no (base p)) + ?n"
      by (simp_all add: page_from_pool_def Let_def word_le_nat_alt word_less_nat_alt bitmap_size_def e)
    let ?i = "unat (pg_no a) - unat (pg_no (base p))"
    have "unat a mod 4096 = 0" using assms(2) by (simp add: aligned_unat)
    then have "unat a = unat (base p) + page_bytes * ?i"
      using r(1) b(1) unfolding pg_no_unat by (auto elim!: dvdE simp flip: dvd_eq_mod_eq_0 simp: diff_mult_distrib2)
    then have "a = page_at p ?i" using page_at_unat [OF assms(1), of ?i] r by (simp add: word_unat_eq_iff)
    then show "\<exists>i < ?n. a = page_at p i" using r by (intro exI [of _ ?i]) auto
  next
    assume "\<exists>i < ?n. a = page_at p i"
    then obtain i where "i < ?n" "a = page_at p i" by blast
    then show "page_from_pool p a" using page_at_props(5) [OF assms(1)] e
      by (simp add: page_from_pool_def Let_def word_le_nat_alt word_less_nat_alt bitmap_size_def)
  qed
qed

section \<open>The operations\<close>

lemma get_upd_pool: "get_pool (upd_pool r user p) user' = (if user' = user then p else get_pool r user')"
  by (simp add: get_pool_def upd_pool_def)

lemma upd_get_pool: "upd_pool r user (get_pool r user) = r"
  by (simp add: get_pool_def upd_pool_def)

lemma ram_ok_pool: "ram_ok r \<Longrightarrow> pool_ok (get_pool r user)"
  by (simp add: ram_ok_def get_pool_def)

lemma taken_pools: "taken r = pool_taken (get_pool r user) \<union> pool_taken (get_pool r (\<not> user))"
  by (auto simp: taken_def get_pool_def)

lemma pools_apart:
  assumes "ram_ok r" "i < bit_cnt (used_map (get_pool r user))" "j < bit_cnt (used_map (get_pool r (\<not> user)))"
  shows "page_at (get_pool r user) i \<noteq> page_at (get_pool r (\<not> user)) j"
proof
  assume "page_at (get_pool r user) i = page_at (get_pool r (\<not> user)) j"
  then have e: "unat (base (get_pool r user)) + page_bytes * i = unat (base (get_pool r (\<not> user))) + page_bytes * j"
    using page_at_unat [OF ram_ok_pool [OF assms(1)] assms(2)] page_at_unat [OF ram_ok_pool [OF assms(1)] assms(3)] by simp
  have k: "unat (base (kernel_pool r)) + page_bytes * bit_cnt (used_map (kernel_pool r)) < unat (base (user_pool r))"
    using assms(1) by (simp add: ram_ok_def)
  show False
  proof (cases user)
    case True
    have "page_bytes * j < page_bytes * bit_cnt (used_map (kernel_pool r))" using assms(3) True by (simp add: get_pool_def)
    then show False using e k True by (simp add: get_pool_def)
  next
    case False
    have "page_bytes * i < page_bytes * bit_cnt (used_map (kernel_pool r))" using assms(2) False by (simp add: get_pool_def)
    then show False using e k False by (simp add: get_pool_def)
  qed
qed

lemma page_free_iff:
  assumes "ram_ok r" "i < bit_cnt (used_map (get_pool r user))"
  shows "page_at (get_pool r user) i \<in> taken r \<longleftrightarrow> i \<in> used_bits (used_map (get_pool r user))"
proof -
  have "used_bits m \<subseteq> {..<bit_cnt m}" for m by (auto simp: used_bits_def)
  then have "page_at (get_pool r user) i \<in> pool_taken (get_pool r user) \<longleftrightarrow> i \<in> used_bits (used_map (get_pool r user))"
    using page_at_inj [OF ram_ok_pool [OF assms(1), of user]] assms(2) unfolding pool_taken_def
    by (intro inj_on_image_mem_iff) auto
  moreover have "page_at (get_pool r user) i \<notin> pool_taken (get_pool r (\<not> user))"
    using pools_apart [OF assms] by (auto simp: pool_taken_def used_bits_def)
  ultimately show ?thesis unfolding taken_pools [of r user] by blast
qed

lemma ram_ok_upd:
  assumes "ram_ok r" "bitmap_wf m" "bit_cnt m = bit_cnt (used_map (get_pool r user))"
  shows "ram_ok (upd_pool r user ((get_pool r user)\<lparr>used_map := m\<rparr>))"
  using assms by (auto simp: ram_ok_def pool_ok_def upd_pool_def get_pool_def)

lemma ram_ok_words [simp]: "ram_ok (r\<lparr>page_words := w\<rparr>) = ram_ok r"
  by (simp add: ram_ok_def)

lemma taken_words [simp]: "taken (r\<lparr>page_words := w\<rparr>) = taken r"
  by (simp add: taken_def)

lemma page_at_upd: "page_at (p\<lparr>used_map := m\<rparr>) = page_at p"
  by (simp add: page_at_def fun_eq_iff)

lemma taken_upd:
  "taken (upd_pool r user ((get_pool r user)\<lparr>used_map := m\<rparr>)) =
     page_at (get_pool r user) ` used_bits m \<union> pool_taken (get_pool r (\<not> user))"
  by (subst taken_pools [of _ user]) (simp add: get_upd_pool pool_taken_def page_at_upd)

lemma fill_pages_run: "fill_pages w pages n v a = (if a \<in> run pages n then (\<lambda>_. v) else w a)"
  by (auto simp: fill_pages_def run_def)

definition pool_full :: "pool \<Rightarrow> nat \<Rightarrow> bool" where
  "pool_full p n \<longleftrightarrow> (\<forall>i. i + n \<le> bit_cnt (used_map p) \<longrightarrow> {i..<i + n} \<inter> used_bits (used_map p) \<noteq> {})"

lemma palloc_get_multiple_spec:
  assumes ok: "ram_ok r" and n: "0 < n" and user: "user = (flags AND PAL_USER \<noteq> 0)"
  shows "if pool_full (get_pool r user) n
     then palloc_get_multiple r flags n = (if flags AND PAL_ASSERT \<noteq> 0 then None else Some (0, r))
     else \<exists>pages r'. palloc_get_multiple r flags n = Some (pages, r') \<and> ram_ok r' \<and> PHYS_BASE \<le> pages \<and> pg_ofs pages = 0 \<and>
       (\<exists>i. i + n \<le> bit_cnt (used_map (get_pool r user)) \<and> pages = page_at (get_pool r user) i) \<and>
       run pages n \<inter> taken r = {} \<and> taken r' = taken r \<union> run pages n \<and>
       page_words r' = (if flags AND PAL_ZERO \<noteq> 0 then fill_pages (page_words r) pages n 0 else page_words r)"
proof -
  let ?p = "get_pool r user"
  have p: "pool_ok ?p" by (rule ram_ok_pool [OF ok])
  then have "bitmap_wf (used_map ?p)" by (simp add: pool_ok_def)
  then show ?thesis
  proof (cases rule: bitmap_take_cases [where n = n])
    case (taken i m)
    let ?pg = "page_at ?p i" let ?r = "upd_pool r user (?p\<lparr>used_map := m\<rparr>)"
    have i: "i < bit_cnt (used_map ?p)" using taken(5) n by simp
    have nf: "\<not> pool_full ?p n" using taken(5,6) by (auto simp: pool_full_def)
    have "run ?pg n \<inter> Palloc.taken r = {}"
      using taken(5,6) page_free_iff [OF ok, of _ user] by (auto simp: run_page_at)
    moreover have "Palloc.taken ?r = Palloc.taken r \<union> run ?pg n"
      unfolding taken_upd taken(7) run_page_at taken_pools [of r user] by (auto simp: pool_taken_def)
    moreover have "palloc_get_multiple r flags n = Some (?pg, if flags AND PAL_ZERO \<noteq> 0
        then ?r\<lparr>page_words := fill_pages (page_words r) ?pg n 0\<rparr> else ?r)"
      using n taken(1,2) page_at_props(2) [OF p i] user
      by (simp add: palloc_get_multiple_def Let_def page_at_def upd_pool_def)
    moreover have "page_words ?r = page_words r" by (simp add: upd_pool_def)
    ultimately show ?thesis
      using nf ram_ok_upd [OF ok taken(3,4)] page_at_props(1,3) [OF p i] taken(5) by auto
  next
    case full
    then have "pool_full ?p n" by (simp add: pool_full_def)
    moreover have "?p\<lparr>used_map := used_map ?p\<rparr> = ?p" by simp
    then have "palloc_get_multiple r flags n = (if flags AND PAL_ASSERT \<noteq> 0 then None else Some (0, r))"
      using n full(1) user upd_get_pool [of r user] by (simp add: palloc_get_multiple_def Let_def)
    ultimately show ?thesis by simp
  qed
qed

lemma palloc_free_multiple_spec:
  assumes ok: "ram_ok r" and i: "i + n \<le> bit_cnt (used_map (get_pool r user))" and n: "0 < n"
    and u: "run (page_at (get_pool r user) i) n \<subseteq> taken r"
  shows "\<exists>r'. palloc_free_multiple r (page_at (get_pool r user) i) n = Some r' \<and> ram_ok r' \<and>
     taken r' = taken r - run (page_at (get_pool r user) i) n \<and>
     page_words r' = fill_pages (page_words r) (page_at (get_pool r user) i) n 0xcccccccc"
proof -
  let ?p = "get_pool r user" let ?pg = "page_at ?p i"
  have p: "pool_ok ?p" by (rule ram_ok_pool [OF ok])
  have i0: "i < bit_cnt (used_map ?p)" using i n by simp
  note pg = page_at_props [OF p i0]
  have wf: "bitmap_wf (used_map ?p)" using p by (simp add: pool_ok_def)
  have used: "{i..<i + n} \<subseteq> used_bits (used_map ?p)"
    using u i page_free_iff [OF ok, of _ user] by (auto simp: run_page_at)
  obtain m where m: "bitmap_set_multiple (used_map ?p) i n False = Some m" "bitmap_wf m"
    "bit_cnt m = bit_cnt (used_map ?p)" "used_bits m = used_bits (used_map ?p) - {i..<i + n}"
    using bitmap_give_back [OF wf i] by blast
  have sel: "(if page_from_pool (kernel_pool r) ?pg then Some False
      else if page_from_pool (user_pool r) ?pg then Some True else None) = Some user"
  proof -
    have "page_from_pool (get_pool r x) ?pg \<longleftrightarrow> x = user" for x
      unfolding page_from_pool_iff [OF ram_ok_pool [OF ok] pg(3)]
      using i0 pools_apart [OF ok i0] by (cases "x = user") auto
    from this [of False] this [of True] show ?thesis by (simp add: get_pool_def) auto
  qed
  let ?w = "fill_pages (page_words r) ?pg n 0xcccccccc"
  have "palloc_free_multiple r ?pg n = Some (upd_pool (r\<lparr>page_words := ?w\<rparr>) user (?p\<lparr>used_map := m\<rparr>))"
    using pg(2-4) n m(1) sel bitmap_all_used [OF wf i] used by (simp add: palloc_free_multiple_def Let_def)
  moreover have "upd_pool (r\<lparr>page_words := ?w\<rparr>) user (?p\<lparr>used_map := m\<rparr>) =
      (upd_pool r user (?p\<lparr>used_map := m\<rparr>))\<lparr>page_words := ?w\<rparr>" by (simp add: upd_pool_def)
  moreover have "taken (upd_pool r user (?p\<lparr>used_map := m\<rparr>)) = taken r - run ?pg n"
  proof -
    have "page_at ?p ` used_bits m = pool_taken ?p - page_at ?p ` {i..<i + n}"
      unfolding m(4) pool_taken_def using i
      by (intro inj_on_image_set_diff [OF page_at_inj [OF p]]) (auto simp: used_bits_def)
    moreover have "pool_taken (get_pool r (\<not> user)) \<inter> page_at ?p ` {i..<i + n} = {}"
      using pools_apart [OF ok, of _ user] i by (fastforce simp: pool_taken_def used_bits_def)
    ultimately show ?thesis unfolding taken_upd run_page_at taken_pools [of r user] by blast
  qed
  ultimately show ?thesis using ram_ok_upd [OF ok m(2,3)] by simp
qed

section \<open>Page numbers as units of an allocator\<close>

definition pool_no :: "ram \<Rightarrow> bool \<Rightarrow> nat" where
  "pool_no r user = unat (pg_no (base (get_pool r user)))"

definition pool_size :: "ram \<Rightarrow> bool \<Rightarrow> nat" where
  "pool_size r user = bit_cnt (used_map (get_pool r user))"

definition page_numbers :: "ram \<Rightarrow> nat set" where
  "page_numbers r = (\<lambda>a. unat (pg_no a)) ` taken r"

lemma page_numbers_eq:
  assumes "ram_ok r"
  shows "page_numbers r = (\<Union>user. plus (pool_no r user) ` used_bits (used_map (get_pool r user)))"
proof -
  have "(\<lambda>a. unat (pg_no a)) ` pool_taken (get_pool r user) = plus (pool_no r user) ` used_bits (used_map (get_pool r user))" for user
    unfolding pool_taken_def image_image pool_no_def
    using page_at_props(5) [OF ram_ok_pool [OF assms, of user]] by (intro image_cong) (auto simp: used_bits_def)
  then show ?thesis by (auto simp: page_numbers_def taken_pools [of r True] image_Un UNIV_bool)
qed

lemma pool_gap:
  assumes "ram_ok r"
  shows "pool_no r False + pool_size r False < pool_no r True" "pool_no r user + pool_size r user \<le> 2 ^ 20"
    "0 < pool_no r user"
proof -
  have m: "unat (base (get_pool r u)) mod 4096 = 0" "unat (base (get_pool r u)) + page_bytes * pool_size r u \<le> 2 ^ 32" for u
    using ram_ok_pool [OF assms, of u] by (auto simp: pool_ok_def aligned_unat pool_size_def)
  have e: "unat (base (get_pool r u)) = page_bytes * pool_no r u" for u
    using m(1) [of u] unfolding pool_no_def pg_no_unat by (simp add: mult_div_mod_eq [of 4096] minus_mod_eq_mult_div [symmetric])
  have "unat (base (get_pool r False)) + page_bytes * pool_size r False < unat (base (get_pool r True))"
    using assms by (simp add: ram_ok_def get_pool_def pool_size_def)
  then show "pool_no r False + pool_size r False < pool_no r True" unfolding e by simp
  show "pool_no r user + pool_size r user \<le> 2 ^ 20" using m(2) [of user] unfolding e by simp
  have "PHYS_BASE \<le> base (get_pool r user)" using ram_ok_pool [OF assms, of user] by (simp add: pool_ok_def)
  then have "4096 \<le> unat (base (get_pool r user))" by (simp add: word_le_nat_alt PHYS_BASE_def)
  then show "0 < pool_no r user" unfolding e by simp
qed

lemma page_of_number:
  assumes "ram_ok r" "k < pool_size r user"
  shows "of_nat (pool_no r user + k) * PGSIZE = page_at (get_pool r user) k"
proof -
  have "unat (base (get_pool r user)) mod 4096 = 0" using ram_ok_pool [OF assms(1), of user] by (simp add: pool_ok_def aligned_unat)
  then have "base (get_pool r user) = of_nat (pool_no r user * 4096)"
    unfolding pool_no_def pg_no_unat by (simp add: minus_mod_eq_div_mult [symmetric])
  then show ?thesis by (simp add: page_at_def PGSIZE_eq algebra_simps)
qed

lemma run_numbers:
  assumes "ram_ok r" "k + n \<le> pool_size r user"
  shows "(\<lambda>a. unat (pg_no a)) ` run (page_at (get_pool r user) k) n = {pool_no r user + k..<pool_no r user + k + n}"
proof -
  have "(\<lambda>a. unat (pg_no a)) ` page_at (get_pool r user) ` {k..<k + n} = plus (pool_no r user) ` {k..<k + n}"
    unfolding image_image pool_no_def using assms page_at_props(5) [OF ram_ok_pool [OF assms(1), of user]]
    by (intro image_cong) (auto simp: pool_size_def)
  then show ?thesis unfolding run_page_at by (simp add: add.commute add.left_commute) (simp add: add.assoc)
qed

text \<open>A run of allocated page numbers lies in one pool.\<close>

lemma run_in_pool:
  assumes ok: "ram_ok r" and n: "0 < n" and sub: "{i..<i + n} \<subseteq> page_numbers r"
  obtains user k where "i = pool_no r user + k" "k + n \<le> pool_size r user" "{k..<k + n} \<subseteq> used_bits (used_map (get_pool r user))"
proof -
  let ?in = "\<lambda>user x. pool_no r user \<le> x \<and> x < pool_no r user + pool_size r user"
  have mem: "x \<in> page_numbers r \<longleftrightarrow> (\<exists>user. ?in user x \<and> x - pool_no r user \<in> used_bits (used_map (get_pool r user)))" for x
  proof
    assume "x \<in> page_numbers r"
    then obtain user y where "x = pool_no r user + y" "y \<in> used_bits (used_map (get_pool r user))"
      unfolding page_numbers_eq [OF ok] by auto
    then show "\<exists>user. ?in user x \<and> x - pool_no r user \<in> used_bits (used_map (get_pool r user))"
      by (intro exI [of _ user]) (simp add: pool_size_def used_bits_def)
  next
    assume "\<exists>user. ?in user x \<and> x - pool_no r user \<in> used_bits (used_map (get_pool r user))"
    then obtain user where m: "pool_no r user \<le> x" "x - pool_no r user \<in> used_bits (used_map (get_pool r user))" by blast
    have "x = pool_no r user + (x - pool_no r user)" using m(1) by simp
    then show "x \<in> page_numbers r" using m(2) unfolding page_numbers_eq [OF ok] by (intro UN_I [of user] image_eqI [of _ _ "x - pool_no r user"]) auto
  qed
  have g: "pool_no r False + pool_size r False < pool_no r True" by (rule pool_gap [OF ok])
  have ex: "\<exists>user. ?in user x" if "i \<le> x" "x < i + n" for x using sub mem that by (meson atLeastLessThan_iff subsetD)
  obtain user where u: "?in user i" using ex [of i] n by auto
  have all: "?in user x" if x: "i \<le> x" "x < i + n" for x
  proof (rule ccontr)
    assume "\<not> ?in user x"
    moreover obtain u' where "?in u' x" using ex [OF x] by blast
    ultimately have "u' = (\<not> user)" by (cases "u' = user") auto
    with \<open>?in u' x\<close> u x g have "i \<le> pool_no r False + pool_size r False" "pool_no r False + pool_size r False < i + n"
      by (cases user; simp)+
    then obtain v where "?in v (pool_no r False + pool_size r False)" using ex by blast
    then show False using g by (cases v) auto
  qed
  let ?k = "i - pool_no r user"
  have "?k + n \<le> pool_size r user" using all [of "i + n - 1"] n u by linarith
  moreover have "{?k..<?k + n} \<subseteq> used_bits (used_map (get_pool r user))"
  proof
    fix y assume y: "y \<in> {?k..<?k + n}"
    let ?x = "pool_no r user + y"
    have x: "i \<le> ?x" "?x < i + n" using y u by auto
    then obtain v where v: "?in v ?x" "?x - pool_no r v \<in> used_bits (used_map (get_pool r v))" using sub mem by (meson atLeastLessThan_iff subsetD)
    have "v = user" using v(1) all [OF x] g by (cases v; cases user; simp)
    then show "y \<in> used_bits (used_map (get_pool r user))" using v(2) by simp
  qed
  ultimately show ?thesis using that [of user ?k] u by auto
qed

lemma pg_no_inj: "pg_ofs a = 0 \<Longrightarrow> pg_ofs b = 0 \<Longrightarrow> unat (pg_no a) = unat (pg_no b) \<Longrightarrow> a = b"
proof -
  assume "pg_ofs a = 0" "pg_ofs b = 0" "unat (pg_no a) = unat (pg_no b)"
  then have "unat a = unat b" using div_mod_eq [of "unat a" 4096 "unat b"] by (simp only: aligned_unat pg_no_unat)
  then show ?thesis by (simp only: word_unat_eq_iff)
qed

lemma taken_aligned: "ram_ok r \<Longrightarrow> a \<in> taken r \<Longrightarrow> pg_ofs a = 0"
  using page_at_props(3) [OF ram_ok_pool [of r]] by (auto simp: taken_pools [of r True] pool_taken_def used_bits_def)

text \<open>The flags of a request without \<open>PAL_ASSERT\<close>, and requests that name pages by their number.\<close>

definition request_flags :: "bool \<times> bool \<Rightarrow> u32" where
  "request_flags f = (if fst f then PAL_USER else 0) OR (if snd f then PAL_ZERO else 0)"

lemma request_flags_bits:
  "request_flags f AND PAL_USER \<noteq> 0 \<longleftrightarrow> fst f" "request_flags f AND PAL_ZERO \<noteq> 0 \<longleftrightarrow> snd f" "request_flags f AND PAL_ASSERT = 0"
  by (simp_all add: request_flags_def PAL_USER_def PAL_ZERO_def PAL_ASSERT_def)

definition get_pages :: "bool \<times> bool \<Rightarrow> ram \<Rightarrow> nat \<Rightarrow> (nat \<times> ram) option" where
  "get_pages f r n = do { (p, r) \<leftarrow> palloc_get_multiple r (request_flags f) n; Some (unat (pg_no p), r) }"

definition put_pages :: "ram \<Rightarrow> nat \<Rightarrow> nat \<Rightarrow> ram option" where
  "put_pages r i n = palloc_free_multiple r (of_nat i * PGSIZE) n"

lemma pages_allocator: "allocator ram_ok (\<lambda>_. 2 ^ 20) page_numbers (get_pages f) put_pages 0"
proof
  fix r n assume ok: "ram_ok r"
  let ?get = "get_pages f"
  show "\<exists>i r'. ?get r n = Some (i, r') \<and> ram_ok r' \<and> (2 :: nat) ^ 20 = 2 ^ 20 \<and>
      (if i = 0 then page_numbers r' = page_numbers r
       else i + n \<le> 2 ^ 20 \<and> {i..<i + n} \<inter> page_numbers r = {} \<and> page_numbers r' = page_numbers r \<union> {i..<i + n})"
  proof (cases "n = 0")
    case True
    then show ?thesis using ok by (simp add: get_pages_def palloc_get_multiple_def Let_def pg_no_def)
  next
    case False
    let ?u = "fst f"
    note u = request_flags_bits [of f]
    note spec = palloc_get_multiple_spec [OF ok _ refl, of n "request_flags f", unfolded u]
    show ?thesis
    proof (cases "pool_full (get_pool r ?u) n")
      case True
      then have "palloc_get_multiple r (request_flags f) n = Some (0, r)" using spec u False by simp
      then show ?thesis using ok by (simp add: get_pages_def pg_no_def)
    next
      case nf: False
      then obtain k r' where g: "palloc_get_multiple r (request_flags f) n = Some (page_at (get_pool r ?u) k, r')" "ram_ok r'"
        "k + n \<le> pool_size r ?u" "run (page_at (get_pool r ?u) k) n \<inter> taken r = {}"
        "taken r' = taken r \<union> run (page_at (get_pool r ?u) k) n"
        using spec u False by (auto simp: pool_size_def)
      let ?i = "pool_no r ?u + k"
      have kb: "k < bit_cnt (used_map (get_pool r ?u))" using g(3) False by (simp add: pool_size_def)
      have i: "unat (pg_no (page_at (get_pool r ?u) k)) = ?i"
        using page_at_props(5) [OF ram_ok_pool [OF ok] kb] by (simp add: pool_no_def)
      have "page_numbers r' = page_numbers r \<union> {?i..<?i + n}"
        unfolding page_numbers_def g(5) image_Un run_numbers [OF ok g(3)] ..
      moreover have "{?i..<?i + n} \<inter> page_numbers r = {}"
      proof -
        have al: "pg_ofs a = 0" if "a \<in> taken r'" for a using taken_aligned [OF g(2) that] .
        have "inj_on (\<lambda>a. unat (pg_no a)) (taken r')" by (rule inj_onI) (use al pg_no_inj in blast)
        then have "(\<lambda>a. unat (pg_no a)) ` (run (page_at (get_pool r ?u) k) n \<inter> taken r) =
          {?i..<?i + n} \<inter> page_numbers r"
          unfolding page_numbers_def run_numbers [OF ok g(3), symmetric] using g(5) by (intro inj_on_image_Int) auto
        then show ?thesis unfolding g(4) by simp
      qed
      moreover have "?i + n \<le> 2 ^ 20" using pool_gap(2) [OF ok, of ?u] g(3) by simp
      moreover have "?i \<noteq> 0" using pool_gap(3) [OF ok, of ?u] by simp
      ultimately show ?thesis using g(1,2) i by (auto simp: get_pages_def)
    qed
  qed
next
  fix r i n assume ok: "ram_ok r" and "i + n \<le> 2 ^ 20" and sub: "{i..<i + n} \<subseteq> page_numbers r"
  show "\<exists>r'. put_pages r i n = Some r' \<and> ram_ok r' \<and> (2 :: nat) ^ 20 = 2 ^ 20 \<and>
      page_numbers r' = page_numbers r - {i..<i + n}"
  proof (cases "n = 0")
    case True
    have "pg_ofs (of_nat i * PGSIZE) = 0" unfolding aligned_unat by (simp add: PGSIZE_eq unat_word_ariths mod_mod_cancel)
    then show ?thesis using ok True by (simp add: put_pages_def palloc_free_multiple_def)
  next
    case False
    then have n: "0 < n" by simp
    obtain user k where k: "i = pool_no r user + k" "k + n \<le> pool_size r user"
      "{k..<k + n} \<subseteq> used_bits (used_map (get_pool r user))" by (rule run_in_pool [OF ok n sub])
    let ?pg = "page_at (get_pool r user) k"
    have pg: "of_nat i * PGSIZE = ?pg" unfolding k(1) using k(2) n by (intro page_of_number [OF ok]) simp
    have t: "run ?pg n \<subseteq> taken r" unfolding run_page_at taken_pools [of r user] pool_taken_def using k(3) by auto
    obtain r' where r': "palloc_free_multiple r ?pg n = Some r'" "ram_ok r'" "taken r' = taken r - run ?pg n"
      using palloc_free_multiple_spec [OF ok _ n t] k(2) by (auto simp: pool_size_def)
    have "inj_on (\<lambda>a. unat (pg_no a)) (taken r)" by (rule inj_onI) (use taken_aligned [OF ok] pg_no_inj in blast)
    then have "page_numbers r' = page_numbers r - {i..<i + n}"
      unfolding page_numbers_def r'(3) k(1) run_numbers [OF ok k(2), symmetric] using t by (intro inj_on_image_set_diff) auto
    then show ?thesis using r' pg by (simp add: put_pages_def)
  qed
qed

interpretation pages: allocators ram_ok "\<lambda>_. 2 ^ 20" page_numbers get_pages put_pages 0
  by (rule allocators.intro) (rule pages_allocator)

section \<open>Initialisation\<close>

lemma bitmap_create_in_buf_spec:
  assumes "n \<le> size_mod - ELEM_BITS" "length block = elem_cnt n" "bitmap_buf_size n \<le> sz"
  shows "\<exists>b. bitmap_create_in_buf n block sz = Some b \<and> bitmap_wf b \<and> bit_cnt b = n \<and> used_bits b = {}"
proof -
  let ?b = "\<lparr>bit_cnt = n, bits = block\<rparr>"
  have wf: "bitmap_wf ?b" using assms by (simp add: bitmap_wf_def)
  obtain b' where "bitmap_set_multiple ?b 0 n False = Some b'" "bitmap_wf b'" "bit_cnt b' = n" "used_bits b' = used_bits ?b - {0..<0 + n}"
    using bitmap_give_back [OF wf, of 0 n] by auto
  moreover have "used_bits ?b - {0..<0 + n} = {}" by (auto simp: used_bits_def)
  ultimately show ?thesis using assms(3) by (simp add: bitmap_create_in_buf_def bitmap_set_all_def bitmap_size_def)
qed

lemma buf_size_eq: "n \<le> 2 ^ 20 \<Longrightarrow> bitmap_buf_size n = 8 + 4 * ((n + 31) div 32)"
  by (simp add: bitmap_buf_size_def byte_cnt_def elem_cnt_eq)

lemma init_pool_spec:
  assumes n: "2 \<le> n" "n \<le> 2 ^ 20" and b: "pg_ofs b = 0" "PHYS_BASE \<le> b" "unat b + page_bytes * n \<le> 2 ^ 32"
  shows "\<exists>p. init_pool junk b n = Some p \<and> pool_ok p \<and> pool_taken p = {} \<and> unat b < unat (base p) \<and>
    unat (base p) + page_bytes * bit_cnt (used_map p) = unat b + page_bytes * n"
proof -
  define sz where "sz = 8 + 4 * ((n + 31) div 32)"
  define bm where "bm = DIV_ROUND_UP (bitmap_buf_size n) page_bytes"
  have bm: "bm = (sz + 4095) div 4096" using n(2) by (simp add: sz_def bm_def buf_size_eq DIV_ROUND_UP_def)
  have le: "bm < n" unfolding bm sz_def using n(1) by linarith
  have b0: "0 < bm" unfolding bm sz_def by linarith
  have "bitmap_buf_size (n - bm) = 8 + 4 * ((n - bm + 31) div 32)" using n(2) by (intro buf_size_eq) simp
  also have "\<dots> \<le> sz" unfolding sz_def by (intro add_le_mono mult_le_mono div_le_mono) simp_all
  also have "\<dots> \<le> bm * page_bytes" unfolding bm by linarith
  finally have sz: "bitmap_buf_size (n - bm) \<le> bm * page_bytes" .
  have "n - bm \<le> size_mod - ELEM_BITS" using n(2) by simp
  then obtain m where m: "bitmap_create_in_buf (n - bm) (map junk [0..<elem_cnt (n - bm)]) (bm * page_bytes) = Some m"
    "bitmap_wf m" "bit_cnt m = n - bm" "used_bits m = {}"
    using bitmap_create_in_buf_spec [OF _ _ sz, of "map junk [0..<elem_cnt (n - bm)]"] by auto
  let ?p = "\<lparr>used_map = m, base = b + of_nat bm * PGSIZE\<rparr>"
  have i: "init_pool junk b n = Some ?p" using m(1) le by (simp add: init_pool_def Let_def bm_def [symmetric])
  have "unat b + page_bytes * bm < 2 ^ 32" using le b(3) by simp
  moreover have "b + of_nat bm * PGSIZE = of_nat (unat b + page_bytes * bm)" by (simp add: PGSIZE_eq)
  ultimately have u: "unat (base ?p) = unat b + page_bytes * bm" by (simp only: unat_of_nat pool.simps) simp
  have "page_bytes * bm + page_bytes * (n - bm) = page_bytes * n" using le by (simp flip: distrib_left)
  then have e: "unat (base ?p) + page_bytes * bit_cnt (used_map ?p) = unat b + page_bytes * n" unfolding u using m(3) by simp
  have "pool_ok ?p" using m(2) e b u by (simp add: pool_ok_def aligned_unat word_le_nat_alt)
  then show ?thesis using i e u b0 m(4) by (auto simp: pool_taken_def)
qed

text \<open>The parameters that the boot loader hands over make sense: the kernel image ends in kernel memory, and there
are at least four pages left for the pools.\<close>

definition boot_memory_ok :: "u32 \<Rightarrow> nat \<Rightarrow> nat \<Rightarrow> bool" where
  "boot_memory_ok kernel_end ram_pages user_page_limit \<longleftrightarrow>
     PHYS_BASE \<le> kernel_end \<and> ram_pages < 2 ^ 18 \<and> 2 \<le> user_page_limit \<and>
     unat kernel_end + 4095 + 4 * page_bytes \<le> unat PHYS_BASE + page_bytes * ram_pages"

lemma palloc_init_spec:
  assumes "boot_memory_ok kernel_end ram_pages limit"
  shows "\<exists>r. palloc_init kernel_end ram_pages limit junk w = Some r \<and> ram_ok r \<and> taken r = {}"
proof -
  define s where "s = pg_round_up kernel_end"
  define e where "e = unat PHYS_BASE + page_bytes * ram_pages"
  have a: "unat PHYS_BASE \<le> unat kernel_end" "ram_pages < 2 ^ 18" "2 \<le> limit" "unat kernel_end + 4095 + 4 * page_bytes \<le> e"
    using assms by (simp_all add: boot_memory_ok_def e_def word_le_nat_alt)
  have pb: "unat PHYS_BASE = 4096 * 786432" by (simp add: PHYS_BASE_def)
  have e32: "e < 2 ^ 32" using a(2) pb by (simp add: e_def)
  have "unat s = (unat kernel_end + 4095) div 4096 * 4096" unfolding s_def using a(4) e32 by (intro pg_round_up_unat) simp
  then have s: "unat s mod 4096 = 0" "unat PHYS_BASE \<le> unat s" "unat s + 4 * page_bytes \<le> e"
    using a(1,4) pb by (simp, linarith, linarith)
  have "(of_nat ram_pages * PGSIZE :: u32) = of_nat (page_bytes * ram_pages)" by (simp add: PGSIZE_eq)
  then have up: "unat (of_nat ram_pages * PGSIZE :: u32) = page_bytes * ram_pages" using a(2) by (simp only: unat_of_nat) simp
  then have "of_nat ram_pages * PGSIZE < PHYS_BASE" using a(2) pb by (simp add: word_less_nat_alt)
  then have pt: "ptov (of_nat ram_pages * PGSIZE) = Some (of_nat ram_pages * PGSIZE + PHYS_BASE)" by (simp add: ptov_def)
  define fe where "fe = of_nat ram_pages * PGSIZE + PHYS_BASE"
  have "fe = of_nat e" by (simp add: fe_def e_def PGSIZE_eq mult.commute)
  then have fe: "unat fe = e" using e32 by (simp only: unat_of_nat) simp
  define n where "n = unat ((fe - s) div PGSIZE)"
  have n: "n = (e - unat s) div 4096" using s(3) fe by (simp add: n_def unat_div_distrib unat_sub word_le_nat_alt PGSIZE_eq)
  then have n4: "4 \<le> n" "unat s + page_bytes * n \<le> e" using s(3) by (linarith, linarith)
  define u where "u = (if n div 2 > limit then limit else n div 2)"
  have u: "2 \<le> u" "2 \<le> n - u" "u \<le> n" using n4(1) a(3) by (auto simp: u_def)
  have n20: "n \<le> 2 ^ 20" using n4(2) e32 by simp
  have k: "unat s + page_bytes * (n - u) \<le> 2 ^ 32" using n4(2) e32 by (simp add: diff_mult_distrib2)
  obtain kp where kp: "init_pool (junk s) s (n - u) = Some kp" "pool_ok kp" "pool_taken kp = {}"
    "unat (base kp) + page_bytes * bit_cnt (used_map kp) = unat s + page_bytes * (n - u)"
    using init_pool_spec [of "n - u" s "junk s"] u n20 s k by (auto simp: aligned_unat word_le_nat_alt)
  define ub where "ub = s + of_nat (n - u) * PGSIZE"
  have "ub = of_nat (unat s + page_bytes * (n - u))" by (simp add: ub_def PGSIZE_eq)
  moreover have "unat s + page_bytes * (n - u) < 2 ^ 32" using n4(2) e32 by (simp add: diff_mult_distrib2)
  ultimately have ub: "unat ub = unat s + page_bytes * (n - u)" by (simp only: unat_of_nat) simp
  have "page_bytes * (n - u) + page_bytes * u = page_bytes * n" using u(3) by (simp flip: distrib_left)
  then have "unat ub + page_bytes * u \<le> 2 ^ 32" using n4(2) e32 ub by simp
  then obtain upl where upl: "init_pool (junk ub) ub u = Some upl" "pool_ok upl" "pool_taken upl = {}" "unat ub < unat (base upl)"
    using init_pool_spec [of u ub "junk ub"] u n20 s ub by (auto simp: aligned_unat word_le_nat_alt)
  let ?r = "\<lparr>kernel_pool = kp, user_pool = upl, page_words = w\<rparr>"
  have "palloc_init kernel_end ram_pages limit junk w = Some ?r"
    unfolding palloc_init_def Let_def s_def [symmetric] pt bind.bind_lunit fe_def [symmetric] n_def [symmetric] u_def [symmetric]
      ub_def [symmetric] kp(1) upl(1) ..
  moreover have "ram_ok ?r" using kp upl ub by (simp add: ram_ok_def)
  ultimately show ?thesis using kp(3) upl(3) by (auto simp: taken_def)
qed

section \<open>Properties\<close>

text \<open>C27. Clients of the page allocator never get overlapping pages: after the allocator has been
initialised, whatever sequence is made of requests for groups of user or kernel pages, zeroed or not but without
\<open>PAL_ASSERT\<close>, and of releases of groups they hold, no assertion fails, the groups held are pairwise disjoint and
the pages marked as in use in the two pools are exactly those held. (A request with \<open>PAL_ASSERT\<close> stops the kernel when it
finds no pages.)\<close>

theorem palloc_clients_disjoint:
  assumes "boot_memory_ok kernel_end ram_pages limit"
  shows "\<exists>r r' held. palloc_init kernel_end ram_pages limit junk w = Some r \<and>
     serve_each get_pages put_pages 0 r [] rs = Some (r', held) \<and> holds (2 ^ 20) (page_numbers r') held \<and>
     (\<forall>i j. i < j \<and> j < length held \<longrightarrow> range_set (held ! i) \<inter> range_set (held ! j) = {})"
proof -
  obtain r where r: "palloc_init kernel_end ram_pages limit junk w = Some r" "ram_ok r" "taken r = {}"
    using palloc_init_spec [OF assms] by blast
  then have "holds (2 ^ 20) (page_numbers r) []" by (simp add: page_numbers_def)
  from pages.serve_each_holds [OF r(2) this, of rs] obtain r' held where h:
    "serve_each get_pages put_pages 0 r [] rs = Some (r', held)" "holds (2 ^ 20) (page_numbers r') held" by blast
  then show ?thesis using r(1) holds_disjoint [OF h(2)] by blast
qed

text \<open>A machine with 4 MB of RAM whose kernel image ends at 2 MB.\<close>

lemma boot_memory_witness: "boot_memory_ok 0xc0200000 1024 2000"
  by (simp add: boot_memory_ok_def PHYS_BASE_def)

theorem palloc_clients_disjoint_witness:
  "\<exists>r r' held. palloc_init 0xc0200000 1024 2000 (\<lambda>_ _. 7) (\<lambda>_ _. 7) = Some r \<and>
     serve_each get_pages put_pages 0 r [] [((True, False), Alloc 3), ((False, True), Alloc 2), ((True, True), Release 0)] = Some (r', held) \<and>
     holds (2 ^ 20) (page_numbers r') held"
  using palloc_clients_disjoint [OF boot_memory_witness, of "\<lambda>_ _. 7" "\<lambda>_ _. 7"
      "[((True, False), Alloc 3), ((False, True), Alloc 2), ((True, True), Release 0)]"] by blast

text \<open>C28. What a request for pages does on every path: asked for no pages it returns null; when the pool has
no free run of that length it returns null and changes nothing, or stops the kernel when
\<open>PAL_ASSERT\<close> is given; otherwise it returns an aligned address of a run of pages of that pool which
were all free and are now in use, zeroed exactly when \<open>PAL_ZERO\<close> is given.\<close>

theorem palloc_get_outcomes:
  assumes "ram_ok r" "user = (flags AND PAL_USER \<noteq> 0)"
  shows "palloc_get_multiple r flags 0 = Some (0, r) \<and>
    (0 < n \<longrightarrow> (if pool_full (get_pool r user) n
       then palloc_get_multiple r flags n = (if flags AND PAL_ASSERT \<noteq> 0 then None else Some (0, r))
       else \<exists>pages r'. palloc_get_multiple r flags n = Some (pages, r') \<and> ram_ok r' \<and> PHYS_BASE \<le> pages \<and> pg_ofs pages = 0 \<and>
         (\<exists>i. i + n \<le> bit_cnt (used_map (get_pool r user)) \<and> pages = page_at (get_pool r user) i) \<and>
         run pages n \<inter> taken r = {} \<and> taken r' = taken r \<union> run pages n \<and>
         page_words r' = (if flags AND PAL_ZERO \<noteq> 0 then fill_pages (page_words r) pages n 0 else page_words r)))"
proof -
  have "palloc_get_multiple r flags 0 = Some (0, r)" by (simp add: palloc_get_multiple_def)
  then show ?thesis using palloc_get_multiple_spec [OF assms(1) _ assms(2), of n] by blast
qed

theorem palloc_get_outcomes_witness:
  "\<exists>r. palloc_init 0xc0200000 1024 2000 (\<lambda>_ _. 7) (\<lambda>_ _. 7) = Some r \<and> palloc_get_multiple r 0 0 = Some (0, r) \<and>
     (pool_full (get_pool r False) 1 \<or> (\<exists>pages r'. palloc_get_multiple r 0 1 = Some (pages, r') \<and> pg_ofs pages = 0))"
proof -
  obtain r where r: "palloc_init 0xc0200000 1024 2000 (\<lambda>_ _. 7) (\<lambda>_ _. 7) = Some r" "ram_ok r"
    using palloc_init_spec [OF boot_memory_witness, of "\<lambda>_ _. 7" "\<lambda>_ _. 7"] by blast
  have "False = ((0 :: u32) AND PAL_USER \<noteq> 0)" by simp
  from palloc_get_outcomes [OF r(2) this, of 1] r(1) show ?thesis by (auto split: if_splits)
qed

end
