(* ===== verification/Pagedir.thy ===== *)
theory Pagedir
  imports Palloc
begin

text \<open>
  Page directories, \<open>src/userprog/pagedir.c\<close>, over the page allocator's memory: a page directory and a page
  table are pages of 1024 words. A pointer to a page table entry is the page and the index. Besides
  the memory the state has the page directory base register, the translations that the processor may
  hold in its translation buffer, which loading the register clears, the kernel's own page directory
  and the number of RAM pages.
\<close>

unbundle bit_operations_syntax

declare upt_rec_numeral [simp del]

record mmu =
  mem :: ram
  cr3 :: u32
  tlb :: "u32 \<Rightarrow> u32 option"
  base_page_dir :: u32
  ram_pages :: nat

definition word_at :: "mmu \<Rightarrow> u32 \<Rightarrow> nat \<Rightarrow> u32" where
  "word_at m page i = page_words (mem m) page i"

definition set_word :: "mmu \<Rightarrow> u32 \<Rightarrow> nat \<Rightarrow> u32 \<Rightarrow> mmu" where
  "set_word m page i v =
     m\<lparr>mem := (mem m)\<lparr>page_words := (page_words (mem m))(page := (page_words (mem m) page)(i := v))\<rparr>\<rparr>"

definition pagedir_activate :: "mmu \<Rightarrow> u32 \<Rightarrow> mmu option" where
  "pagedir_activate m pd = do {
     let pd = (if pd = 0 then base_page_dir m else pd);
     p \<leftarrow> vtop pd;
     Some (m\<lparr>cr3 := p, tlb := \<lambda>_. None\<rparr>)
   }"

definition active_pd :: "mmu \<Rightarrow> u32 option" where
  "active_pd m = ptov (cr3 m)"

definition invalidate_pagedir :: "mmu \<Rightarrow> u32 \<Rightarrow> mmu option" where
  "invalidate_pagedir m pd = do {
     a \<leftarrow> active_pd m;
     if a = pd then pagedir_activate m pd else Some m
   }"

definition pagedir_create :: "mmu \<Rightarrow> (u32 \<times> mmu) option" where
  "pagedir_create m = do {
     (pd, r) \<leftarrow> palloc_get_page (mem m) 0;
     let m = m\<lparr>mem := r\<rparr>;
     Some (pd, if pd \<noteq> 0
       then m\<lparr>mem := r\<lparr>page_words := (page_words r)(pd := page_words r (base_page_dir m))\<rparr>\<rparr> else m)
   }"

fun destroy_ptes :: "ram \<Rightarrow> u32 \<Rightarrow> nat list \<Rightarrow> ram option" where
  "destroy_ptes r pt [] = Some r"
| "destroy_ptes r pt (j # js) = do {
     let pte = page_words r pt j;
     r \<leftarrow> (if pte AND PTE_P \<noteq> 0 then do { page \<leftarrow> pte_get_page pte; palloc_free_page r page } else Some r);
     destroy_ptes r pt js
   }"

fun destroy_pdes :: "ram \<Rightarrow> u32 \<Rightarrow> nat list \<Rightarrow> ram option" where
  "destroy_pdes r pd [] = Some r"
| "destroy_pdes r pd (i # is) = do {
     let pde = page_words r pd i;
     r \<leftarrow> (if pde AND PTE_P \<noteq> 0
           then do {
             pt \<leftarrow> pde_get_pt pde;
             r \<leftarrow> destroy_ptes r pt [0..<1024];
             palloc_free_page r pt
           }
           else Some r);
     destroy_pdes r pd is
   }"

definition pagedir_destroy :: "mmu \<Rightarrow> u32 \<Rightarrow> mmu option" where
  "pagedir_destroy m pd =
     (if pd = 0 then Some m
      else do {
        ASSERT (pd \<noteq> base_page_dir m);
        r \<leftarrow> destroy_pdes (mem m) pd [0..<unat (pd_no PHYS_BASE)];
        r \<leftarrow> palloc_free_page r pd;
        Some (m\<lparr>mem := r\<rparr>)
      })"

text \<open>The result of \<open>lookup_page\<close>: no entry, or the page table and the index in it.\<close>

definition lookup_page :: "mmu \<Rightarrow> u32 \<Rightarrow> u32 \<Rightarrow> bool \<Rightarrow> ((u32 \<times> nat) option \<times> mmu) option" where
  "lookup_page m pd vaddr create = do {
     ASSERT (pd \<noteq> 0);
     ASSERT (\<not> create \<or> is_user_vaddr vaddr);
     let i = unat (pd_no vaddr);
     if word_at m pd i = 0
     then (if create
           then do {
             (pt, r) \<leftarrow> palloc_get_page (mem m) PAL_ZERO;
             let m = m\<lparr>mem := r\<rparr>;
             if pt = 0 then Some (None, m)
             else do {
               pde \<leftarrow> pde_create pt;
               let m = set_word m pd i pde;
               pt \<leftarrow> pde_get_pt (word_at m pd i);
               Some (Some (pt, unat (pt_no vaddr)), m)
             }
           }
           else Some (None, m))
     else do {
       pt \<leftarrow> pde_get_pt (word_at m pd i);
       Some (Some (pt, unat (pt_no vaddr)), m)
     }
   }"

definition pagedir_set_page :: "mmu \<Rightarrow> u32 \<Rightarrow> u32 \<Rightarrow> u32 \<Rightarrow> bool \<Rightarrow> (bool \<times> mmu) option" where
  "pagedir_set_page m pd upage kpage writable = do {
     ASSERT (pg_ofs upage = 0);
     ASSERT (pg_ofs kpage = 0);
     ASSERT (is_user_vaddr upage);
     p \<leftarrow> vtop kpage;
     ASSERT (unat (drop_bit PGBITS p) < ram_pages m);
     ASSERT (pd \<noteq> base_page_dir m);
     (pte, m) \<leftarrow> lookup_page m pd upage True;
     case pte of
       Some (pt, j) \<Rightarrow> do {
         ASSERT (word_at m pt j AND PTE_P = 0);
         e \<leftarrow> pte_create_user kpage writable;
         Some (True, set_word m pt j e)
       }
     | None \<Rightarrow> Some (False, m)
   }"

definition pagedir_get_page :: "mmu \<Rightarrow> u32 \<Rightarrow> u32 \<Rightarrow> u32 option" where
  "pagedir_get_page m pd uaddr = do {
     ASSERT (is_user_vaddr uaddr);
     (pte, _) \<leftarrow> lookup_page m pd uaddr False;
     case pte of
       Some (pt, j) \<Rightarrow>
         if word_at m pt j AND PTE_P \<noteq> 0
         then do { p \<leftarrow> pte_get_page (word_at m pt j); Some (p + pg_ofs uaddr) }
         else Some 0
     | None \<Rightarrow> Some 0
   }"

definition pagedir_clear_page :: "mmu \<Rightarrow> u32 \<Rightarrow> u32 \<Rightarrow> mmu option" where
  "pagedir_clear_page m pd upage = do {
     ASSERT (pg_ofs upage = 0);
     ASSERT (is_user_vaddr upage);
     (pte, m) \<leftarrow> lookup_page m pd upage False;
     case pte of
       Some (pt, j) \<Rightarrow>
         if word_at m pt j AND PTE_P \<noteq> 0
         then invalidate_pagedir (set_word m pt j (word_at m pt j AND NOT PTE_P)) pd
         else Some m
     | None \<Rightarrow> Some m
   }"

definition pagedir_is_dirty :: "mmu \<Rightarrow> u32 \<Rightarrow> u32 \<Rightarrow> bool option" where
  "pagedir_is_dirty m pd vpage = do {
     (pte, _) \<leftarrow> lookup_page m pd vpage False;
     Some (case pte of Some (pt, j) \<Rightarrow> word_at m pt j AND PTE_D \<noteq> 0 | None \<Rightarrow> False)
   }"

definition pagedir_set_dirty :: "mmu \<Rightarrow> u32 \<Rightarrow> u32 \<Rightarrow> bool \<Rightarrow> mmu option" where
  "pagedir_set_dirty m pd vpage dirty = do {
     (pte, m) \<leftarrow> lookup_page m pd vpage False;
     case pte of
       Some (pt, j) \<Rightarrow>
         if dirty then Some (set_word m pt j (word_at m pt j OR PTE_D))
         else invalidate_pagedir (set_word m pt j (word_at m pt j AND NOT PTE_D)) pd
     | None \<Rightarrow> Some m
   }"

definition pagedir_is_accessed :: "mmu \<Rightarrow> u32 \<Rightarrow> u32 \<Rightarrow> bool option" where
  "pagedir_is_accessed m pd vpage = do {
     (pte, _) \<leftarrow> lookup_page m pd vpage False;
     Some (case pte of Some (pt, j) \<Rightarrow> word_at m pt j AND PTE_A \<noteq> 0 | None \<Rightarrow> False)
   }"

definition pagedir_set_accessed :: "mmu \<Rightarrow> u32 \<Rightarrow> u32 \<Rightarrow> bool \<Rightarrow> mmu option" where
  "pagedir_set_accessed m pd vpage accessed = do {
     (pte, m) \<leftarrow> lookup_page m pd vpage False;
     case pte of
       Some (pt, j) \<Rightarrow>
         if accessed then Some (set_word m pt j (word_at m pt j OR PTE_A))
         else invalidate_pagedir (set_word m pt j (word_at m pt j AND NOT PTE_A)) pd
     | None \<Rightarrow> Some m
   }"

section \<open>The mapping a page directory stands for\<close>

definition user_pdes :: nat where
  "user_pdes = 768"

text \<open>Well-formed: the directory and its page tables are pages in use, and no two entries share a table.\<close>

definition pd_ok :: "mmu \<Rightarrow> u32 \<Rightarrow> bool" where
  "pd_ok m pd \<longleftrightarrow> ram_ok (mem m) \<and> cr3 m < PHYS_BASE \<and> pd \<in> taken (mem m) \<and>
     (\<forall>i < user_pdes. word_at m pd i \<noteq> 0 \<longrightarrow>
        (\<exists>pt. pde_get_pt (word_at m pd i) = Some pt \<and> pt \<in> taken (mem m) \<and> pt \<noteq> pd)) \<and>
     (\<forall>i < user_pdes. \<forall>j < user_pdes. word_at m pd i \<noteq> 0 \<longrightarrow> word_at m pd j \<noteq> 0 \<longrightarrow>
        pde_get_pt (word_at m pd i) = pde_get_pt (word_at m pd j) \<longrightarrow> i = j)"

definition table_of :: "mmu \<Rightarrow> u32 \<Rightarrow> nat \<Rightarrow> u32 option" where
  "table_of m pd i = (if word_at m pd i = 0 then None else pde_get_pt (word_at m pd i))"

text \<open>The page table entry of an address, 0 where there is no table.\<close>

definition pte_of :: "mmu \<Rightarrow> u32 \<Rightarrow> u32 \<Rightarrow> u32" where
  "pte_of m pd va = (case table_of m pd (unat (pd_no va)) of None \<Rightarrow> 0 | Some pt \<Rightarrow> word_at m pt (unat (pt_no va)))"

lemma word_at_set_word [simp]: "word_at (set_word m p i v) q j = (if q = p \<and> j = i then v else word_at m q j)"
  by (simp add: word_at_def set_word_def)

lemma set_word_simps [simp]:
  "ram_ok (mem (set_word m p i v)) = ram_ok (mem m)" "taken (mem (set_word m p i v)) = taken (mem m)"
  "cr3 (set_word m p i v) = cr3 m" "tlb (set_word m p i v) = tlb m" "base_page_dir (set_word m p i v) = base_page_dir m"
  "ram_pages (set_word m p i v) = ram_pages m"
  by (simp_all add: set_word_def)

lemma pd_no_unat: "unat (pd_no va) = unat va div 4194304"
  by (simp add: pd_no_def PDSHIFT_def PGBITS_def PTBITS_def drop_bit_eq_div unat_div_distrib)

lemma pd_no_user: "is_user_vaddr va \<longleftrightarrow> unat (pd_no va) < user_pdes"
proof -
  have "unat PHYS_BASE = 768 * 4194304" by (simp add: PHYS_BASE_def)
  then show ?thesis unfolding is_user_vaddr_def pd_no_unat word_less_nat_alt user_pdes_def by (simp add: div_less_iff_less_mult)
qed

lemma table_of_props:
  assumes "pd_ok m pd" "i < user_pdes" "table_of m pd i = Some pt"
  shows "pt \<noteq> pd" "pt \<in> taken (mem m)" "word_at m pd i \<noteq> 0" "pde_get_pt (word_at m pd i) = Some pt"
  using assms unfolding pd_ok_def table_of_def by (auto split: if_splits)

lemma table_of_inj:
  assumes "pd_ok m pd" "i < user_pdes" "j < user_pdes" "table_of m pd i = Some pt" "table_of m pd j = Some pt"
  shows "i = j"
  using assms table_of_props(3,4) [OF assms(1,2,4)] table_of_props(3,4) [OF assms(1,3,5)] unfolding pd_ok_def by metis

lemma table_of_None: "pd_ok m pd \<Longrightarrow> i < user_pdes \<Longrightarrow> table_of m pd i = None \<longleftrightarrow> word_at m pd i = 0"
  unfolding pd_ok_def table_of_def by auto

lemma pd_ok_nonnull: "pd_ok m pd \<Longrightarrow> pd \<noteq> 0"
  using page_at_props(2) [OF ram_ok_pool [of "mem m"]]
  by (auto simp: pd_ok_def taken_pools [of "mem m" True] pool_taken_def used_bits_def)

lemma set_pte:
  fixes v :: u32
  assumes ok: "pd_ok m pd" and va: "is_user_vaddr va" and t: "table_of m pd (unat (pd_no va)) = Some pt"
  defines "m' \<equiv> set_word m pt (unat (pt_no va)) v"
  shows "pd_ok m' pd \<and> (\<forall>a. is_user_vaddr a \<longrightarrow>
    pte_of m' pd a = (if pg_round_down a = pg_round_down va then v else pte_of m pd a))"
proof -
  have i: "unat (pd_no va) < user_pdes" using va by (simp add: pd_no_user)
  note p = table_of_props [OF ok i t]
  have w: "word_at m' pd j = word_at m pd j" for j using p(1) by (simp add: m'_def)
  then have tb: "table_of m' pd j = table_of m pd j" for j by (simp add: table_of_def)
  have "pd_ok m' pd" using ok w by (simp add: pd_ok_def m'_def)
  moreover have "pte_of m' pd a = (if pg_round_down a = pg_round_down va then v else pte_of m pd a)" if a: "is_user_vaddr a" for a
  proof (cases "table_of m pd (unat (pd_no a))")
    case None
    then have "pd_no a \<noteq> pd_no va" using t by auto
    then show ?thesis using None tb by (simp add: pte_of_def same_page_indices)
  next
    case (Some pa)
    have "pa = pt \<longleftrightarrow> pd_no a = pd_no va"
      using table_of_inj [OF ok _ i Some] t a Some by (auto simp: pd_no_user word_unat_eq_iff)
    moreover have "unat (pt_no a) = unat (pt_no va) \<longleftrightarrow> pt_no a = pt_no va" by (simp add: word_unat_eq_iff)
    ultimately show ?thesis using Some tb t by (auto simp: pte_of_def same_page_indices m'_def)
  qed
  ultimately show ?thesis by blast
qed

lemma lookup_hit:
  assumes "pd_ok m pd" "is_user_vaddr va" "table_of m pd (unat (pd_no va)) = Some pt"
  shows "lookup_page m pd va create = Some (Some (pt, unat (pt_no va)), m)"
  using assms pd_ok_nonnull [OF assms(1)] table_of_props(3,4) [OF assms(1) _ assms(3)]
  by (simp add: lookup_page_def pd_no_user Let_def)

lemma lookup_miss:
  assumes "pd_ok m pd" "is_user_vaddr va" "table_of m pd (unat (pd_no va)) = None"
  shows "lookup_page m pd va False = Some (None, m)"
  using assms pd_ok_nonnull [OF assms(1)] table_of_None [OF assms(1)]
  by (simp add: lookup_page_def pd_no_user Let_def)

lemma run_one: "run p (Suc 0) = {p}"
  by (simp add: run_def lessThan_Suc)

text \<open>A new page table: fresh, zeroed, and so without effect on the mapping.\<close>

lemma lookup_create:
  assumes ok: "pd_ok m pd" and va: "is_user_vaddr va" and t: "table_of m pd (unat (pd_no va)) = None"
  shows "if pool_full (kernel_pool (mem m)) 1 then lookup_page m pd va True = Some (None, m)
    else \<exists>pt m'. lookup_page m pd va True = Some (Some (pt, unat (pt_no va)), m') \<and> pd_ok m' pd \<and>
      table_of m' pd (unat (pd_no va)) = Some pt \<and> (\<forall>a. is_user_vaddr a \<longrightarrow> pte_of m' pd a = pte_of m pd a) \<and>
      base_page_dir m' = base_page_dir m \<and> ram_pages m' = ram_pages m \<and> cr3 m' = cr3 m \<and> tlb m' = tlb m"
proof -
  let ?i = "unat (pd_no va)"
  have i: "?i < user_pdes" using va by (simp add: pd_no_user)
  have w0: "word_at m pd ?i = 0" using t table_of_None [OF ok i] by simp
  have r: "ram_ok (mem m)" using ok by (simp add: pd_ok_def)
  have f: "\<not> (PAL_ZERO AND PAL_USER \<noteq> 0)" "PAL_ZERO AND PAL_ASSERT = 0" "PAL_ZERO AND PAL_ZERO \<noteq> 0"
    by (simp_all add: PAL_ZERO_def PAL_USER_def PAL_ASSERT_def)
  note spec = palloc_get_multiple_spec [OF r _ refl, of 1 PAL_ZERO]
  show ?thesis
  proof (cases "pool_full (kernel_pool (mem m)) 1")
    case True
    then have "palloc_get_page (mem m) PAL_ZERO = Some (0, mem m)"
      using spec f by (simp add: palloc_get_page_def get_pool_def)
    then show ?thesis using True w0 va pd_ok_nonnull [OF ok] by (simp add: lookup_page_def Let_def)
  next
    case False
    then obtain pt r' where g: "palloc_get_page (mem m) PAL_ZERO = Some (pt, r')" "ram_ok r'" "PHYS_BASE \<le> pt" "pg_ofs pt = 0"
      "pt \<notin> taken (mem m)" "taken r' = insert pt (taken (mem m))" "page_words r' = fill_pages (page_words (mem m)) pt 1 0"
      using spec f by (auto simp: palloc_get_page_def get_pool_def run_one)
    have w: "page_words r' = (page_words (mem m))(pt := \<lambda>_. 0)" unfolding g(7) by (auto simp: fill_pages_run run_one fun_eq_iff)
    obtain e where e: "pde_create pt = Some e" "e \<noteq> 0" "pde_get_pt e = Some pt" using pde_create_spec [OF g(4,3)] by blast
    let ?m1 = "m\<lparr>mem := r'\<rparr>" let ?m = "set_word ?m1 pd ?i e"
    have pd: "pd \<noteq> pt" using ok g(5) by (auto simp: pd_ok_def)
    have w1: "word_at ?m1 q j = (if q = pt then 0 else word_at m q j)" for q j using w by (simp add: word_at_def)
    have "pt \<noteq> 0" using g(3) by (auto simp: PHYS_BASE_def)
    then have "lookup_page m pd va True = Some (Some (pt, unat (pt_no va)), ?m)"
      using w0 va pd_ok_nonnull [OF ok] g(1) e by (simp add: lookup_page_def Let_def)
    moreover have tb: "table_of ?m pd j = (if j = ?i then Some pt else table_of m pd j)" for j
      using e pd by (simp add: table_of_def w1)
    moreover have "pd_ok ?m pd"
      using ok e g pd unfolding pd_ok_def by (auto simp: w1)
    moreover have "pte_of ?m pd a = pte_of m pd a" if "is_user_vaddr a" for a
    proof (cases "unat (pd_no a) = ?i")
      case True
      then show ?thesis using t pd by (simp add: pte_of_def tb w1)
    next
      case ne: False
      then show ?thesis
        using table_of_props [OF ok, of "unat (pd_no a)"] that g(5)
        by (auto simp: pte_of_def tb w1 pd_no_user split: option.splits)
    qed
    ultimately show ?thesis using False by auto
  qed
qed

section \<open>The operations on the mapping\<close>

lemma lookup_cases:
  assumes "pd_ok m pd" "is_user_vaddr va"
  obtains (table) pt where "lookup_page m pd va False = Some (Some (pt, unat (pt_no va)), m)"
      "table_of m pd (unat (pd_no va)) = Some pt" "word_at m pt (unat (pt_no va)) = pte_of m pd va"
  | (none) "lookup_page m pd va False = Some (None, m)" "pte_of m pd va = 0"
proof (cases "table_of m pd (unat (pd_no va))")
  case None
  then show ?thesis using lookup_miss [OF assms None] by (intro none) (simp_all add: pte_of_def)
next
  case (Some pt)
  then show ?thesis using lookup_hit [OF assms Some] by (intro table [of pt]) (simp_all add: pte_of_def)
qed

lemma invalidate_spec:
  assumes "pd_ok m pd"
  shows "\<exists>m'. invalidate_pagedir m pd = Some m' \<and> mem m' = mem m \<and> cr3 m' = cr3 m \<and>
    base_page_dir m' = base_page_dir m \<and> ram_pages m' = ram_pages m \<and>
    (active_pd m = Some pd \<longrightarrow> tlb m' = (\<lambda>_. None)) \<and> (active_pd m \<noteq> Some pd \<longrightarrow> m' = m)"
proof -
  have c: "cr3 m < PHYS_BASE" using assms by (simp add: pd_ok_def)
  then have a: "active_pd m = Some (cr3 m + PHYS_BASE)" by (simp add: active_pd_def ptov_def)
  show ?thesis
  proof (cases "cr3 m + PHYS_BASE = pd")
    case True
    have "PHYS_BASE \<le> pd"
      using assms page_at_props(1) [OF ram_ok_pool [of "mem m"]]
      by (auto simp: pd_ok_def taken_pools [of "mem m" True] pool_taken_def used_bits_def)
    then have "vtop pd = Some (cr3 m)" using True by (auto simp: vtop_Some)
    then show ?thesis
      using True a pd_ok_nonnull [OF assms] by (simp add: invalidate_pagedir_def pagedir_activate_def Let_def)
  next
    case False
    then show ?thesis using a by (simp add: invalidate_pagedir_def)
  qed
qed

lemma pd_ok_mem: "pd_ok m pd \<Longrightarrow> mem m' = mem m \<Longrightarrow> cr3 m' = cr3 m \<Longrightarrow> pd_ok m' pd"
  by (simp add: pd_ok_def word_at_def)

lemma pte_of_mem: "mem m' = mem m \<Longrightarrow> pte_of m' pd a = pte_of m pd a"
  by (simp add: pte_of_def table_of_def word_at_def split: option.split)

text \<open>What the operations that clear a bit have in common.\<close>

lemma clear_bits_spec:
  assumes ok: "pd_ok m pd" and va: "is_user_vaddr va" and t: "table_of m pd (unat (pd_no va)) = Some pt"
  shows "\<exists>m'. invalidate_pagedir (set_word m pt (unat (pt_no va)) v) pd = Some m' \<and> pd_ok m' pd \<and>
    (\<forall>a. is_user_vaddr a \<longrightarrow> pte_of m' pd a = (if pg_round_down a = pg_round_down va then v else pte_of m pd a)) \<and>
    (active_pd m = Some pd \<longrightarrow> tlb m' = (\<lambda>_. None))"
proof -
  let ?m = "set_word m pt (unat (pt_no va)) v"
  note s = set_pte [OF ok va t, of v]
  then obtain m' where m': "invalidate_pagedir ?m pd = Some m'" "mem m' = mem ?m" "cr3 m' = cr3 ?m"
    "active_pd ?m = Some pd \<longrightarrow> tlb m' = (\<lambda>_. None)" using invalidate_spec [of ?m pd] by auto
  moreover have "active_pd ?m = active_pd m" by (simp add: active_pd_def)
  ultimately show ?thesis using s pd_ok_mem [OF _ m'(2,3), of pd] pte_of_mem [OF m'(2), of pd] by auto
qed

lemma pagedir_get_page_eq:
  assumes "pd_ok m pd" "is_user_vaddr va"
  shows "pagedir_get_page m pd va =
    (if pte_of m pd va AND PTE_P \<noteq> 0 then map_option (\<lambda>p. p + pg_ofs va) (pte_get_page (pte_of m pd va)) else Some 0)"
  by (rule lookup_cases [OF assms]) (use assms(2) in \<open>auto simp: pagedir_get_page_def map_option_case split: option.splits\<close>)

lemma pte_of_page:
  assumes "pg_round_down a = pg_round_down b"
  shows "pte_of m pd a = pte_of m pd b"
  using assms unfolding same_page_indices by (simp add: pte_of_def split: option.split)

lemma pagedir_clear_page_spec:
  assumes "pd_ok m pd" "pg_ofs upage = 0" "is_user_vaddr upage"
  shows "\<exists>m'. pagedir_clear_page m pd upage = Some m' \<and> pd_ok m' pd \<and>
    (\<forall>a. is_user_vaddr a \<longrightarrow> pte_of m' pd a =
       (if pg_round_down a = upage then pte_of m pd upage AND NOT PTE_P else pte_of m pd a)) \<and>
    (active_pd m = Some pd \<and> pte_of m pd upage AND PTE_P \<noteq> 0 \<longrightarrow> tlb m' = (\<lambda>_. None))"
proof -
  define e where "e = pte_of m pd upage"
  have rd: "pg_round_down upage = upage" using assms(2) pg_split [of upage] by simp
  have same: "pte_of m pd a = e" if "pg_round_down a = upage" for a
    unfolding e_def using that rd by (intro pte_of_page) simp
  have keep: "e AND PTE_P = 0 \<Longrightarrow> e AND NOT PTE_P = e" by (auto simp: bit_eq_iff bit_simps)
  show ?thesis
  proof (rule lookup_cases [OF assms(1,3)])
    fix pt assume l: "lookup_page m pd upage False = Some (Some (pt, unat (pt_no upage)), m)"
      "table_of m pd (unat (pd_no upage)) = Some pt" "word_at m pt (unat (pt_no upage)) = pte_of m pd upage"
    show ?thesis
    proof (cases "e AND PTE_P = 0")
      case True
      then have "pagedir_clear_page m pd upage = Some m" using l assms by (simp add: pagedir_clear_page_def e_def)
      then show ?thesis using assms(1) keep [OF True] same True unfolding e_def [symmetric] by simp
    next
      case False
      then have "pagedir_clear_page m pd upage = invalidate_pagedir (set_word m pt (unat (pt_no upage)) (e AND NOT PTE_P)) pd"
        using l assms by (simp add: pagedir_clear_page_def e_def)
      then show ?thesis
        using clear_bits_spec [OF assms(1,3) l(2), of "e AND NOT PTE_P"] unfolding rd e_def [symmetric] by auto
    qed
  next
    assume l: "lookup_page m pd upage False = Some (None, m)" "pte_of m pd upage = 0"
    then have "pagedir_clear_page m pd upage = Some m" using assms by (simp add: pagedir_clear_page_def)
    then show ?thesis using assms(1) l(2) same unfolding e_def by simp
  qed
qed

lemma flag_ops:
  assumes "pd_ok m pd" "is_user_vaddr va"
  shows "pagedir_is_dirty m pd va = Some (pte_of m pd va AND PTE_D \<noteq> 0)"
    "pagedir_is_accessed m pd va = Some (pte_of m pd va AND PTE_A \<noteq> 0)"
  by (rule lookup_cases [OF assms]; simp add: pagedir_is_dirty_def pagedir_is_accessed_def)+

lemma set_flag_spec:
  assumes "pd_ok m pd" "is_user_vaddr va"
    and op: "op = (\<lambda>b. do {
       (pte, m) \<leftarrow> lookup_page m pd va False;
       case pte of
         Some (pt, j) \<Rightarrow>
           if b then Some (set_word m pt j (word_at m pt j OR flag))
           else invalidate_pagedir (set_word m pt j (word_at m pt j AND NOT flag)) pd
       | None \<Rightarrow> Some m })"
  shows "\<exists>m'. op b = Some m' \<and> pd_ok m' pd \<and>
    (\<forall>a. is_user_vaddr a \<longrightarrow> pte_of m' pd a =
      (if pg_round_down a = pg_round_down va \<and> table_of m pd (unat (pd_no va)) \<noteq> None
       then (if b then pte_of m pd va OR flag else pte_of m pd va AND NOT flag) else pte_of m pd a))"
proof (rule lookup_cases [OF assms(1,2)])
  fix pt assume l: "lookup_page m pd va False = Some (Some (pt, unat (pt_no va)), m)"
    "table_of m pd (unat (pd_no va)) = Some pt" "word_at m pt (unat (pt_no va)) = pte_of m pd va"
  show ?thesis
  proof (cases b)
    case True
    then show ?thesis using set_pte [OF assms(1,2) l(2), of "pte_of m pd va OR flag"] l unfolding op by simp
  next
    case False
    then show ?thesis
      using clear_bits_spec [OF assms(1,2) l(2), of "pte_of m pd va AND NOT flag"] l unfolding op by auto
  qed
next
  assume l: "lookup_page m pd va False = Some (None, m)" "pte_of m pd va = 0"
  have "table_of m pd (unat (pd_no va)) = None"
    using l(1) lookup_hit [OF assms(1,2), of _ False] by (cases "table_of m pd (unat (pd_no va))") auto
  then show ?thesis using l assms(1) unfolding op by simp
qed

lemma set_dirty_spec:
  assumes "pd_ok m pd" "is_user_vaddr va"
  shows "\<exists>m'. pagedir_set_dirty m pd va b = Some m' \<and> pd_ok m' pd \<and>
    (\<forall>a. is_user_vaddr a \<longrightarrow> pte_of m' pd a =
      (if pg_round_down a = pg_round_down va \<and> table_of m pd (unat (pd_no va)) \<noteq> None
       then (if b then pte_of m pd va OR PTE_D else pte_of m pd va AND NOT PTE_D) else pte_of m pd a))"
  using set_flag_spec [OF assms, of "pagedir_set_dirty m pd va" PTE_D b] by (simp add: pagedir_set_dirty_def fun_eq_iff)

lemma set_accessed_spec:
  assumes "pd_ok m pd" "is_user_vaddr va"
  shows "\<exists>m'. pagedir_set_accessed m pd va b = Some m' \<and> pd_ok m' pd \<and>
    (\<forall>a. is_user_vaddr a \<longrightarrow> pte_of m' pd a =
      (if pg_round_down a = pg_round_down va \<and> table_of m pd (unat (pd_no va)) \<noteq> None
       then (if b then pte_of m pd va OR PTE_A else pte_of m pd va AND NOT PTE_A) else pte_of m pd a))"
  using set_flag_spec [OF assms, of "pagedir_set_accessed m pd va" PTE_A b] by (simp add: pagedir_set_accessed_def fun_eq_iff)

section \<open>Creation and destruction\<close>

lemma palloc_free_page_spec:
  assumes "ram_ok r" "a \<in> taken r"
  shows "\<exists>r'. palloc_free_page r a = Some r' \<and> ram_ok r' \<and> taken r' = taken r - {a} \<and>
    (\<forall>q. q \<noteq> a \<longrightarrow> page_words r' q = page_words r q)"
proof -
  obtain user i where i: "a = page_at (get_pool r user) i" "i < bit_cnt (used_map (get_pool r user))"
    using assms(2) unfolding taken_pools [of r True] by (auto simp: pool_taken_def used_bits_def)
  from palloc_free_multiple_spec [OF assms(1), of i 1 user] i assms(2) show ?thesis
    by (auto simp: palloc_free_page_def run_one fill_pages_run)
qed

text \<open>The pages that \<open>pagedir_destroy\<close> gives back, in its order.\<close>

fun pt_pages :: "(u32 \<Rightarrow> nat \<Rightarrow> u32) \<Rightarrow> u32 \<Rightarrow> nat list \<Rightarrow> u32 list option" where
  "pt_pages w pt [] = Some []"
| "pt_pages w pt (j # js) = do {
     ps \<leftarrow> pt_pages w pt js;
     if w pt j AND PTE_P \<noteq> 0 then do { p \<leftarrow> pte_get_page (w pt j); Some (p # ps) } else Some ps
   }"

fun pd_pages :: "(u32 \<Rightarrow> nat \<Rightarrow> u32) \<Rightarrow> u32 \<Rightarrow> nat list \<Rightarrow> u32 list option" where
  "pd_pages w pd [] = Some []"
| "pd_pages w pd (i # is) = do {
     ps \<leftarrow> pd_pages w pd is;
     if w pd i AND PTE_P \<noteq> 0
     then do { pt \<leftarrow> pde_get_pt (w pd i); qs \<leftarrow> pt_pages w pt [0..<1024]; Some (qs @ pt # ps) }
     else Some ps
   }"

lemma pt_pages_cong: "w' pt = w pt \<Longrightarrow> pt_pages w' pt js = pt_pages w pt js"
  by (induction js) (simp_all cong: if_cong)

lemma pd_pages_cong:
  "pd_pages w pd is = Some ps \<Longrightarrow> w' pd = w pd \<Longrightarrow> (\<And>q. q \<in> set ps \<Longrightarrow> w' q = w q) \<Longrightarrow> pd_pages w' pd is = Some ps"
proof (induction "is" arbitrary: ps)
  case (Cons i "is")
  show ?case
  proof (cases "w pd i AND PTE_P = 0")
    case True
    then have "pd_pages w' pd is = Some ps" using Cons by simp
    then show ?thesis using True Cons.prems(2) by simp
  next
    case False
    then obtain pt qs ps' where p: "pd_pages w pd is = Some ps'" "pde_get_pt (w pd i) = Some pt"
      "pt_pages w pt [0..<1024] = Some qs" "ps = qs @ pt # ps'"
      using Cons.prems(1) by (auto simp: Option.bind_eq_Some_conv)
    then have "pd_pages w' pd is = Some ps'" "w' pt = w pt" using Cons by simp_all
    moreover from this(2) have "pt_pages w' pt [0..<1024] = Some qs" using p(3) by (simp add: pt_pages_cong [of w' pt w])
    ultimately show ?thesis using False p Cons.prems(2) by simp
  qed
qed simp

lemma destroy_ptes_spec:
  assumes "pt_pages (page_words r) pt js = Some ps" "ram_ok r" "distinct ps" "set ps \<subseteq> taken r" "pt \<notin> set ps"
  shows "\<exists>r'. destroy_ptes r pt js = Some r' \<and> ram_ok r' \<and> taken r' = taken r - set ps \<and>
    (\<forall>q. q \<notin> set ps \<longrightarrow> page_words r' q = page_words r q)"
  using assms
proof (induction js arbitrary: r ps)
  case (Cons j js)
  show ?case
  proof (cases "page_words r pt j AND PTE_P = 0")
    case True
    then have "pt_pages (page_words r) pt js = Some ps" using Cons.prems(1) by simp
    from Cons.IH [OF this Cons.prems(2-5)] True show ?thesis by simp
  next
    case False
    then obtain p ps' where p: "pte_get_page (page_words r pt j) = Some p" "pt_pages (page_words r) pt js = Some ps'" "ps = p # ps'"
      using Cons.prems(1) by (auto simp: Option.bind_eq_Some_conv)
    obtain r1 where r1: "palloc_free_page r p = Some r1" "ram_ok r1" "taken r1 = taken r - {p}"
      "\<And>q. q \<noteq> p \<Longrightarrow> page_words r1 q = page_words r q"
      using palloc_free_page_spec [OF Cons.prems(2), of p] Cons.prems(4) p(3) by auto
    have "pt_pages (page_words r1) pt js = Some ps'" 
      using p r1(4) [of pt] Cons.prems(5) by (simp add: pt_pages_cong [of "page_words r1" pt "page_words r"])
    moreover have "set ps' \<subseteq> taken r1" "distinct ps'" "pt \<notin> set ps'" using Cons.prems(3-5) p(3) r1(3) by auto
    ultimately obtain r' where r': "destroy_ptes r1 pt js = Some r'" "ram_ok r'"
      "taken r' = taken r1 - set ps'" "\<And>q. q \<notin> set ps' \<Longrightarrow> page_words r' q = page_words r1 q"
      using Cons.IH [OF _ r1(2)] by blast
    have "destroy_ptes r pt (j # js) = Some r'" using False p(1) r1(1) r'(1) by simp
    moreover have "taken r' = taken r - set ps" using r'(3) r1(3) p(3) by auto
    moreover have "page_words r' q = page_words r q" if "q \<notin> set ps" for q using that r'(4) [of q] r1(4) [of q] p(3) by simp
    ultimately show ?thesis using r'(2) by blast
  qed
qed simp

lemma destroy_pdes_spec:
  assumes "pd_pages (page_words r) pd is = Some ps" "ram_ok r" "distinct ps" "set ps \<subseteq> taken r" "pd \<notin> set ps"
  shows "\<exists>r'. destroy_pdes r pd is = Some r' \<and> ram_ok r' \<and> taken r' = taken r - set ps"
  using assms
proof (induction "is" arbitrary: r ps)
  case (Cons i "is")
  show ?case
  proof (cases "page_words r pd i AND PTE_P = 0")
    case True
    then have "pd_pages (page_words r) pd is = Some ps" using Cons.prems(1) by simp
    from Cons.IH [OF this Cons.prems(2-5)] True show ?thesis by simp
  next
    case False
    then obtain pt qs ps' where p: "pde_get_pt (page_words r pd i) = Some pt" "pd_pages (page_words r) pd is = Some ps'"
      "pt_pages (page_words r) pt [0..<1024] = Some qs" "ps = qs @ pt # ps'"
      using Cons.prems(1) by (auto simp: Option.bind_eq_Some_conv simp del: upt_Suc)
    obtain r1 where r1: "destroy_ptes r pt [0..<1024] = Some r1" "ram_ok r1" "taken r1 = taken r - set qs"
      "\<And>q. q \<notin> set qs \<Longrightarrow> page_words r1 q = page_words r q"
      using destroy_ptes_spec [OF p(3) Cons.prems(2)] Cons.prems p(4) by auto
    obtain r2 where r2: "palloc_free_page r1 pt = Some r2" "ram_ok r2" "taken r2 = taken r1 - {pt}"
      "\<And>q. q \<noteq> pt \<Longrightarrow> page_words r2 q = page_words r1 q"
      using palloc_free_page_spec [OF r1(2), of pt] r1(3) Cons.prems p(4) by auto
    have d: "set qs \<inter> set ps' = {}" "pt \<notin> set ps'" "pd \<notin> set qs" "pd \<noteq> pt" "distinct ps'" "pd \<notin> set ps'"
      using Cons.prems(3,5) p(4) by auto
    have keep: "page_words r2 q = page_words r q" if "q \<notin> set qs" "q \<noteq> pt" for q
      using r1(4) [OF that(1)] r2(4) [OF that(2)] by simp
    have "pd_pages (page_words r2) pd is = Some ps'"
      using d by (intro pd_pages_cong [OF p(2)] keep) auto
    moreover have "set ps' \<subseteq> taken r2" using Cons.prems(4) p(4) d unfolding r2(3) r1(3) by auto
    ultimately obtain r' where "destroy_pdes r2 pd is = Some r'" "ram_ok r'" "taken r' = taken r2 - set ps'"
      using Cons.IH [OF _ r2(2) d(5) _ d(6)] by blast
    moreover from this(3) have "taken r' = taken r - set ps" using r1(3) r2(3) p(4) by auto
    moreover have "destroy_pdes r pd (i # is) = Some r'" using False p(1) r1(1) r2(1) calculation(1) by simp
    ultimately show ?thesis by blast
  qed
qed simp

lemma pagedir_create_spec:
  assumes "ram_ok (mem m)" "base_page_dir m \<in> taken (mem m)"
  shows "if pool_full (kernel_pool (mem m)) 1 then pagedir_create m = Some (0, m)
    else \<exists>pd m'. pagedir_create m = Some (pd, m') \<and> pd \<notin> taken (mem m) \<and> ram_ok (mem m') \<and>
      taken (mem m') = insert pd (taken (mem m)) \<and> (\<forall>i. word_at m' pd i = word_at m (base_page_dir m) i) \<and>
      (\<forall>q i. q \<noteq> pd \<longrightarrow> word_at m' q i = word_at m q i)"
proof -
  note spec = palloc_get_multiple_spec [OF assms(1) _ refl, of 1 0]
  show ?thesis
  proof (cases "pool_full (kernel_pool (mem m)) 1")
    case True
    then have "palloc_get_page (mem m) 0 = Some (0, mem m)" using spec by (simp add: palloc_get_page_def get_pool_def)
    then show ?thesis using True by (simp add: pagedir_create_def)
  next
    case False
    then obtain pd r where g: "palloc_get_page (mem m) 0 = Some (pd, r)" "ram_ok r" "PHYS_BASE \<le> pd" "pd \<notin> taken (mem m)"
      "taken r = insert pd (taken (mem m))" "page_words r = page_words (mem m)"
      using spec by (auto simp: palloc_get_page_def get_pool_def run_one)
    then have "pd \<noteq> 0" by (auto simp: PHYS_BASE_def)
    then show ?thesis using False g by (auto simp: pagedir_create_def word_at_def)
  qed
qed

section \<open>Properties\<close>

text \<open>C29. \<open>pagedir_set_page\<close> and \<open>pagedir_get_page\<close> are a store and a lookup: mapping an unmapped user page to
a frame fails, without changing any mapping, exactly when a page table is needed and the kernel pool has no
page for it; otherwise every address of the page is looked up at its offset in the frame, with the
permission asked for, all other user addresses are looked up as before, and the page directory stays
well-formed.\<close>

theorem pagedir_set_then_get:
  assumes ok: "pd_ok m pd" "pd \<noteq> base_page_dir m" and u: "pg_ofs upage = 0" "is_user_vaddr upage" "pte_of m pd upage AND PTE_P = 0"
    and k: "pg_ofs kpage = 0" "PHYS_BASE \<le> kpage" "unat (drop_bit PGBITS (kpage - PHYS_BASE)) < ram_pages m"
  shows "if table_of m pd (unat (pd_no upage)) = None \<and> pool_full (kernel_pool (mem m)) 1
    then pagedir_set_page m pd upage kpage writable = Some (False, m)
    else \<exists>m'. pagedir_set_page m pd upage kpage writable = Some (True, m') \<and> pd_ok m' pd \<and>
      (\<forall>a. is_user_vaddr a \<longrightarrow> pagedir_get_page m' pd a =
         (if pg_round_down a = upage then Some (kpage + pg_ofs a) else pagedir_get_page m pd a)) \<and>
      (pte_of m' pd upage AND PTE_W \<noteq> 0) = writable"
proof -
  obtain e where e: "pte_create_user kpage writable = Some e" "e AND PTE_P \<noteq> 0" "pte_get_page e = Some kpage"
    "(e AND PTE_W \<noteq> 0) = writable" using pte_create_user_spec [OF k(1,2)] by blast
  have rd: "pg_round_down upage = upage" using u(1) pg_split [of upage] by simp
  have base: "pagedir_set_page m pd upage kpage writable = do {
      (pte, m) \<leftarrow> lookup_page m pd upage True;
      case pte of Some (pt, j) \<Rightarrow> do { ASSERT (word_at m pt j AND PTE_P = 0); Some (True, set_word m pt j e) } | None \<Rightarrow> Some (False, m) }"
    using u k ok(2) e(1) by (simp add: pagedir_set_page_def vtop_Some cong: option.case_cong)
  have step: "\<exists>m'. do { ASSERT (word_at m1 pt (unat (pt_no upage)) AND PTE_P = 0);
        Some (True, set_word m1 pt (unat (pt_no upage)) e) } = Some (True, m') \<and> pd_ok m' pd \<and>
      (\<forall>a. is_user_vaddr a \<longrightarrow> pagedir_get_page m' pd a =
         (if pg_round_down a = upage then Some (kpage + pg_ofs a) else pagedir_get_page m pd a)) \<and>
      (pte_of m' pd upage AND PTE_W \<noteq> 0) = writable"
    if m1: "pd_ok m1 pd" "table_of m1 pd (unat (pd_no upage)) = Some pt" "\<And>a. is_user_vaddr a \<Longrightarrow> pte_of m1 pd a = pte_of m pd a" for m1 pt
  proof -
    have "word_at m1 pt (unat (pt_no upage)) AND PTE_P = 0" using m1(2) m1(3) [OF u(2)] u(3) by (simp add: pte_of_def)
    then show ?thesis
      using set_pte [OF m1(1) u(2) m1(2), of e] e rd m1(3) ok(1) u(2) by (simp add: pagedir_get_page_eq)
  qed
  show ?thesis
  proof (cases "table_of m pd (unat (pd_no upage))")
    case None
    show ?thesis
    proof (cases "pool_full (kernel_pool (mem m)) 1")
      case True
      then show ?thesis using lookup_create [OF ok(1) u(2) None] None unfolding base by simp
    next
      case False
      then obtain pt m1 where m1: "lookup_page m pd upage True = Some (Some (pt, unat (pt_no upage)), m1)" "pd_ok m1 pd"
        "table_of m1 pd (unat (pd_no upage)) = Some pt" "\<And>a. is_user_vaddr a \<Longrightarrow> pte_of m1 pd a = pte_of m pd a"
        using lookup_create [OF ok(1) u(2) None] by auto
      then show ?thesis using step [OF m1(2-4)] False unfolding base by simp
    qed
  next
    case (Some pt)
    then show ?thesis using lookup_hit [OF ok(1) u(2) Some, of True] step [OF ok(1) Some refl] unfolding base by simp
  qed
qed

text \<open>A memory with two kernel pages, the first of them in use as an empty page directory.\<close>

definition empty_space :: mmu where
  "empty_space = \<lparr>mem = \<lparr>kernel_pool = \<lparr>used_map = \<lparr>bit_cnt = 2, bits = [1]\<rparr>, base = 0xc0100000\<rparr>,
      user_pool = \<lparr>used_map = \<lparr>bit_cnt = 1, bits = [0]\<rparr>, base = 0xc0200000\<rparr>, page_words = \<lambda>_ _. 0\<rparr>,
     cr3 = 0, tlb = \<lambda>_. None, base_page_dir = 0xc0000000, ram_pages = 1024\<rparr>"

lemma empty_space_ok:
  "pd_ok empty_space 0xc0100000" "\<not> pool_full (kernel_pool (mem empty_space)) 1" "word_at empty_space q i = 0"
proof -
  have u: "used_bits \<lparr>bit_cnt = 2, bits = [1]\<rparr> = {0}" "used_bits \<lparr>bit_cnt = 1, bits = [0]\<rparr> = {}"
    by (auto simp: used_bits_def bits_of_def less_2_cases_iff)
  have r: "ram_ok (mem empty_space)"
    by (simp add: ram_ok_def pool_ok_def empty_space_def bitmap_wf_def elem_cnt_def DIV_ROUND_UP_def aligned_unat PHYS_BASE_def)
  have "taken (mem empty_space) = {0xc0100000}"
    using u by (simp add: taken_def pool_taken_def empty_space_def page_at_def)
  moreover show w: "word_at empty_space q i = 0" for q i by (simp add: word_at_def empty_space_def)
  ultimately show "pd_ok empty_space 0xc0100000" using r by (simp add: pd_ok_def) (simp add: empty_space_def PHYS_BASE_def)
  show "\<not> pool_full (kernel_pool (mem empty_space)) 1"
    by (auto simp: pool_full_def empty_space_def u intro: exI [of _ 1])
qed

theorem pagedir_set_then_get_witness:
  "\<exists>m'. pagedir_set_page empty_space 0xc0100000 0x8048000 0xc0300000 True = Some (True, m') \<and>
     pagedir_get_page m' 0xc0100000 0x8048123 = Some 0xc0300123"
proof -
  have "pte_of empty_space 0xc0100000 0x8048000 = 0" using empty_space_ok(3) by (simp add: pte_of_def table_of_def)
  then have "if table_of empty_space 0xc0100000 (unat (pd_no 0x8048000)) = None \<and> pool_full (kernel_pool (mem empty_space)) 1
    then pagedir_set_page empty_space 0xc0100000 0x8048000 0xc0300000 True = Some (False, empty_space)
    else \<exists>m'. pagedir_set_page empty_space 0xc0100000 0x8048000 0xc0300000 True = Some (True, m') \<and> pd_ok m' 0xc0100000 \<and>
      (\<forall>a. is_user_vaddr a \<longrightarrow> pagedir_get_page m' 0xc0100000 a =
         (if pg_round_down a = 0x8048000 then Some (0xc0300000 + pg_ofs a) else pagedir_get_page empty_space 0xc0100000 a)) \<and>
      (pte_of m' 0xc0100000 0x8048000 AND PTE_W \<noteq> 0) = True"
    by (intro pagedir_set_then_get [OF empty_space_ok(1)])
      (simp_all add: aligned_unat is_user_vaddr_def PHYS_BASE_def PGBITS_def, simp_all add: empty_space_def)
  moreover have "is_user_vaddr 0x8048123" "pg_round_down 0x8048123 = 0x8048000" "pg_ofs 0x8048123 = 0x123"
    by (simp_all add: is_user_vaddr_def PHYS_BASE_def pg_round_down_def pg_ofs_def vaddr_consts)
  ultimately show ?thesis using empty_space_ok(2) by auto
qed

text \<open>C30. \<open>pagedir_destroy\<close> gives back exactly the memory of an address space: when the frames, the page tables
and the directory are pairwise different pages in use, it frees each of them once, no assertion of the
allocator fails although freed pages are overwritten, and all other pages stay in use.\<close>

theorem pagedir_destroy_frees:
  assumes "ram_ok (mem m)" "pd \<noteq> 0" "pd \<noteq> base_page_dir m" "pd_pages (page_words (mem m)) pd [0..<768] = Some ps"
    and "distinct (ps @ [pd])" "set (ps @ [pd]) \<subseteq> taken (mem m)"
  shows "\<exists>m'. pagedir_destroy m pd = Some m' \<and> ram_ok (mem m') \<and> taken (mem m') = taken (mem m) - set (ps @ [pd])"
proof -
  have n: "unat (pd_no PHYS_BASE) = 768" by (simp add: pd_no_unat PHYS_BASE_def)
  obtain r1 where r1: "destroy_pdes (mem m) pd [0..<768] = Some r1" "ram_ok r1" "taken r1 = taken (mem m) - set ps"
    using destroy_pdes_spec [OF assms(4,1)] assms(5,6) by auto
  obtain r2 where r2: "palloc_free_page r1 pd = Some r2" "ram_ok r2" "taken r2 = taken r1 - {pd}"
    using palloc_free_page_spec [OF r1(2), of pd] r1(3) assms(5,6) by auto
  have "pagedir_destroy m pd = Some (m\<lparr>mem := r2\<rparr>)"
    unfolding pagedir_destroy_def n using assms(2,3) r1(1) r2(1) by simp
  moreover have "taken r2 = taken (mem m) - set (ps @ [pd])" using r1(3) r2(3) by auto
  ultimately show ?thesis using r2(2) by simp
qed

theorem pagedir_destroy_frees_witness:
  "\<exists>m'. pagedir_destroy empty_space 0xc0100000 = Some m' \<and> taken (mem m') = taken (mem empty_space) - {0xc0100000}"
proof -
  have "pd_pages (page_words (mem empty_space)) 0xc0100000 is = Some []" for "is"
    using empty_space_ok(3) by (induction "is") (simp_all add: word_at_def)
  moreover have m: "base_page_dir empty_space \<noteq> 0xc0100000" by (simp add: empty_space_def)
  ultimately show ?thesis
    using pagedir_destroy_frees [of empty_space "0xc0100000" "[]"] empty_space_ok(1) m
    by (auto simp: pd_ok_def)
qed

end
