(* ===== verification/Block_Store.thy ===== *)
theory Block_Store
  imports Prelude
begin

text \<open>
  The contract of a heap: blocks of cells, each of which keeps what its owner wrote into it until it
  gives the block back. The kernel's heap provides it.
\<close>

text \<open>What a client does with a heap: it asks for a block of \<open>n\<close> cells, writes a cell of the \<open>k\<close>-th block
  it holds, or gives that block back. \<open>held\<close> is the list of its blocks with what they should contain.\<close>

datatype 'b block_use = New nat | Put nat nat 'b | Drop nat

fun use_blocks ::
  "('s \<Rightarrow> nat \<Rightarrow> ('p \<times> 's) option) \<Rightarrow> ('s \<Rightarrow> 'p \<Rightarrow> 's option) \<Rightarrow> ('s \<Rightarrow> 'p \<Rightarrow> nat \<Rightarrow> 'b) \<Rightarrow>
   ('s \<Rightarrow> 'p \<Rightarrow> nat \<Rightarrow> 'b \<Rightarrow> 's) \<Rightarrow> 'p \<Rightarrow> 's \<Rightarrow> ('p \<times> 'b list) list \<Rightarrow> 'b block_use list \<Rightarrow> ('s \<times> ('p \<times> 'b list) list) option" where
  "use_blocks get_block drop_block cell put null s held [] = Some (s, held)"
| "use_blocks get_block drop_block cell put null s held (New n # us) = do {
     (p, s) \<leftarrow> get_block s n;
     use_blocks get_block drop_block cell put null s (if p = null then held else (p, map (cell s p) [0..<n]) # held) us
   }"
| "use_blocks get_block drop_block cell put null s held (Put k i v # us) =
     (if k < length held \<and> i < length (snd (held ! k))
      then use_blocks get_block drop_block cell put null (put s (fst (held ! k)) i v)
             (held[k := (fst (held ! k), (snd (held ! k))[i := v])]) us
      else use_blocks get_block drop_block cell put null s held us)"
| "use_blocks get_block drop_block cell put null s held (Drop k # us) =
     (if k < length held
      then do {
        s \<leftarrow> drop_block s (fst (held ! k));
        use_blocks get_block drop_block cell put null s (take k held @ drop (Suc k) held) us
      }
      else use_blocks get_block drop_block cell put null s held us)"

locale block_store =
  fixes inv :: "'s \<Rightarrow> 'p set \<Rightarrow> bool"
    and room :: "'s \<Rightarrow> 'p \<Rightarrow> nat"
    and cell :: "'s \<Rightarrow> 'p \<Rightarrow> nat \<Rightarrow> 'b"
    and get_block :: "'s \<Rightarrow> nat \<Rightarrow> ('p \<times> 's) option"
    and drop_block :: "'s \<Rightarrow> 'p \<Rightarrow> 's option"
    and put :: "'s \<Rightarrow> 'p \<Rightarrow> nat \<Rightarrow> 'b \<Rightarrow> 's"
    and null :: 'p
    and fits :: "nat \<Rightarrow> bool"
  assumes get_law: "inv s L \<Longrightarrow> fits n \<Longrightarrow> \<exists>p s'. get_block s n = Some (p, s') \<and>
      (\<forall>q \<in> L. room s' q = room s q \<and> (\<forall>i < room s q. cell s' q i = cell s q i)) \<and>
      (if p = null then inv s' L else p \<notin> L \<and> inv s' (insert p L) \<and> n \<le> room s' p)"
    and drop_law: "inv s L \<Longrightarrow> p \<in> L \<Longrightarrow> \<exists>s'. drop_block s p = Some s' \<and> inv s' (L - {p}) \<and>
      (\<forall>q \<in> L - {p}. room s' q = room s q \<and> (\<forall>i < room s q. cell s' q i = cell s q i))"
    and put_law: "inv s L \<Longrightarrow> p \<in> L \<Longrightarrow> i < room s p \<Longrightarrow> inv (put s p i v) L \<and>
      (\<forall>q \<in> L. room (put s p i v) q = room s q \<and>
        (\<forall>j < room s q. cell (put s p i v) q j = (if q = p \<and> j = i then v else cell s q j)))"
begin

definition holding :: "'s \<Rightarrow> ('p \<times> 'b list) list \<Rightarrow> bool" where
  "holding s held \<longleftrightarrow> inv s (set (map fst held)) \<and> distinct (map fst held) \<and>
     (\<forall>(p, bs) \<in> set held. length bs \<le> room s p \<and> (\<forall>i < length bs. cell s p i = bs ! i))"

lemma holding_D: "holding s held \<Longrightarrow> (q, bs) \<in> set held \<Longrightarrow> length bs \<le> room s q \<and> (\<forall>i < length bs. cell s q i = bs ! i)"
  unfolding holding_def by blast

lemma holding_new:
  assumes "holding s held" "fits n"
  shows "\<exists>p s'. get_block s n = Some (p, s') \<and> holding s' (if p = null then held else (p, map (cell s' p) [0..<n]) # held)"
proof -
  have i: "inv s (set (map fst held))" using assms(1) unfolding holding_def by blast
  obtain p s' where g: "get_block s n = Some (p, s')"
    "\<forall>q \<in> set (map fst held). room s' q = room s q \<and> (\<forall>i < room s q. cell s' q i = cell s q i)"
    "if p = null then inv s' (set (map fst held)) else p \<notin> set (map fst held) \<and> inv s' (insert p (set (map fst held))) \<and> n \<le> room s' p"
    using get_law [OF i assms(2)] by blast
  have old: "length bs \<le> room s' q \<and> (\<forall>i < length bs. cell s' q i = bs ! i)" if "(q, bs) \<in> set held" for q bs
  proof -
    have "q \<in> set (map fst held)" using that by force
    moreover have "length bs \<le> room s q \<and> (\<forall>i < length bs. cell s q i = bs ! i)" by (rule holding_D [OF assms(1) that])
    ultimately show ?thesis using g(2) by force
  qed
  have "distinct (map fst held)" using assms(1) by (simp add: holding_def)
  then have "holding s' (if p = null then held else (p, map (cell s' p) [0..<n]) # held)"
    using g(3) old by (cases "p = null") (auto simp: holding_def simp del: set_map)
  then show ?thesis using g(1) by blast
qed

lemma holding_put:
  assumes h: "holding s held" and k: "k < length held" and i: "i < length (snd (held ! k))"
  shows "holding (put s (fst (held ! k)) i v) (held[k := (fst (held ! k), (snd (held ! k))[i := v])])"
proof -
  let ?p = "fst (held ! k)" let ?s = "put s ?p i v" let ?held = "held[k := (?p, (snd (held ! k))[i := v])]"
  have b: "length (snd (held ! j)) \<le> room s (fst (held ! j))" "\<And>m. m < length (snd (held ! j)) \<Longrightarrow> cell s (fst (held ! j)) m = snd (held ! j) ! m"
    if "j < length held" for j using h nth_mem [OF that] unfolding holding_def by (auto simp: case_prod_unfold)
  have p: "?p \<in> set (map fst held)" using nth_mem [OF k] by simp
  have inv: "inv s (set (map fst held))" using h unfolding holding_def by blast
  note pl = put_law [OF inv p less_le_trans [OF i b(1) [OF k]], of v]
  have m: "map fst ?held = map fst held" by (simp add: map_update) (metis list_update_id map_update)
  have "length (snd (?held ! j)) \<le> room ?s (fst (?held ! j)) \<and>
      (\<forall>n < length (snd (?held ! j)). cell ?s (fst (?held ! j)) n = snd (?held ! j) ! n)" if j: "j < length held" for j
  proof -
    have q: "fst (held ! j) \<in> set (map fst held)" using nth_mem [OF j] by simp
    have "fst (held ! j) = ?p \<longleftrightarrow> j = k" using h j k unfolding holding_def by (simp add: distinct_conv_nth) metis
    then show ?thesis using bspec [OF conjunct2 [OF pl] q] b [OF j] i j by (auto simp: nth_list_update)
  qed
  then have "\<forall>x \<in> set ?held. length (snd x) \<le> room ?s (fst x) \<and> (\<forall>n < length (snd x). cell ?s (fst x) n = snd x ! n)"
    by (metis in_set_conv_nth length_list_update)
  then show ?thesis using conjunct1 [OF pl] h unfolding holding_def m by (simp add: case_prod_unfold)
qed

lemma holding_drop:
  assumes h: "holding s (xs @ (p, cs) # ys)"
  shows "\<exists>s'. drop_block s p = Some s' \<and> holding s' (xs @ ys)"
proof -
  let ?L = "set (map fst (xs @ (p, cs) # ys))"
  have i: "inv s ?L" and d: "distinct (map fst (xs @ (p, cs) # ys))" using h unfolding holding_def by blast+
  have "p \<in> ?L" by simp
  with i obtain s' where s': "drop_block s p = Some s'" "inv s' (?L - {p})"
      "\<forall>q \<in> ?L - {p}. room s' q = room s q \<and> (\<forall>i < room s q. cell s' q i = cell s q i)"
    using drop_law by blast
  have m: "?L - {p} = set (map fst (xs @ ys))" using d by auto
  have "length bs \<le> room s' q \<and> (\<forall>i < length bs. cell s' q i = bs ! i)" if q: "(q, bs) \<in> set (xs @ ys)" for q bs
  proof -
    have "(q, bs) \<in> set (xs @ (p, cs) # ys)" using q by auto
    from holding_D [OF h this] have "length bs \<le> room s q" "\<And>i. i < length bs \<Longrightarrow> cell s q i = bs ! i" by simp_all
    moreover have "q \<in> ?L - {p}" unfolding m using q by force
    ultimately show ?thesis using bspec [OF s'(3)] by (metis less_le_trans)
  qed
  then show ?thesis using s'(1,2) d unfolding m by (intro exI [of _ s']) (auto simp: holding_def)
qed

lemma use_blocks_safe:
  "holding s held \<Longrightarrow> (\<And>n. New n \<in> set us \<Longrightarrow> fits n) \<Longrightarrow>
   \<exists>s' held'. use_blocks get_block drop_block cell put null s held us = Some (s', held') \<and> holding s' held'"
proof (induction us arbitrary: s held)
  case (Cons u us)
  have f: "\<And>n. New n \<in> set us \<Longrightarrow> fits n" using Cons.prems(2) by simp
  show ?case
  proof (cases u)
    case (New n)
    then have "fits n" using Cons.prems(2) by simp
    from holding_new [OF Cons.prems(1) this] obtain p s' where g: "get_block s n = Some (p, s')"
      "holding s' (if p = null then held else (p, map (cell s' p) [0..<n]) # held)" by blast
    from Cons.IH [OF g(2) f] show ?thesis using g(1) New by simp
  next
    case (Put k i v)
    then show ?thesis using holding_put [OF Cons.prems(1)] Cons.IH f Cons.prems(1) by simp
  next
    case (Drop k)
    show ?thesis
    proof (cases "k < length held")
      case True
      then have "held = take k held @ (fst (held ! k), snd (held ! k)) # drop (Suc k) held" using id_take_nth_drop by simp
      then obtain s' where d: "drop_block s (fst (held ! k)) = Some s'" "holding s' (take k held @ drop (Suc k) held)"
        using holding_drop Cons.prems(1) by metis
      from Cons.IH [OF d(2) f] show ?thesis using d(1) Drop True by simp
    qed (use Cons.IH [OF Cons.prems(1) f] Drop in simp)
  qed
qed auto

end

end
