(* ===== verification/Malloc.thy ===== *)
theory Malloc
  imports Palloc Block_Store
begin

text \<open>
  The kernel's heap, \<open>src/threads/malloc.c\<close>, on top of the page allocator. The header of an arena is the
  first three words of its page, read and written in the page memory, and a block's contents are bytes
  of that memory. A descriptor's free list is the sequence of its block addresses: the links, which the
  code keeps in the first bytes of the free blocks, are not part of the memory here. Descriptors are
  addressed as in the array \<open>descs\<close>, whose address is part of the state. The descriptor's lock makes
  the work on one descriptor a single step.
\<close>

unbundle bit_operations_syntax

section \<open>Bytes of the page memory\<close>

definition get_byte :: "ram \<Rightarrow> u32 \<Rightarrow> u8" where
  "get_byte r x = ucast (drop_bit (8 * (unat x mod 4)) (page_words r (pg_round_down x) (unat (pg_ofs x) div 4)))"

definition put_word :: "ram \<Rightarrow> u32 \<Rightarrow> nat \<Rightarrow> u32 \<Rightarrow> ram" where
  "put_word r a k v = r\<lparr>page_words := (page_words r)(a := (page_words r a)(k := v))\<rparr>"

definition set_byte :: "ram \<Rightarrow> u32 \<Rightarrow> u8 \<Rightarrow> ram" where
  "set_byte r x v =
     (let a = pg_round_down x; k = unat (pg_ofs x) div 4; n = 8 * (unat x mod 4)
      in put_word r a k ((page_words r a k AND NOT (push_bit n 0xff)) OR push_bit n (ucast v)))"

fun mem_set :: "ram \<Rightarrow> u32 \<Rightarrow> u8 \<Rightarrow> nat \<Rightarrow> ram" where
  "mem_set r p v 0 = r"
| "mem_set r p v (Suc n) = mem_set (set_byte r p v) (p + 1) v n"

fun mem_copy :: "ram \<Rightarrow> u32 \<Rightarrow> u32 \<Rightarrow> nat \<Rightarrow> ram" where
  "mem_copy r dst src 0 = r"
| "mem_copy r dst src (Suc n) = mem_copy (set_byte r dst (get_byte r src)) (dst + 1) (src + 1) n"

section \<open>Descriptors and arenas\<close>

definition ARENA_MAGIC :: u32 where "ARENA_MAGIC = 0x9a548eed"

text \<open>\<open>sizeof (struct arena)\<close> and \<open>sizeof (struct desc)\<close>.\<close>

abbreviation sizeof_arena :: u32 where "sizeof_arena \<equiv> 12"
abbreviation sizeof_desc :: nat where "sizeof_desc \<equiv> 56"

record desc =
  block_size :: u32
  blocks_per_arena :: u32
  free_list :: "u32 list"

record kheap =
  pages :: ram
  descs :: "desc list"
  descs_addr :: u32

definition magic :: "kheap \<Rightarrow> u32 \<Rightarrow> u32" where "magic s a = page_words (pages s) a 0"
definition arena_desc :: "kheap \<Rightarrow> u32 \<Rightarrow> u32" where "arena_desc s a = page_words (pages s) a 1"
definition free_cnt :: "kheap \<Rightarrow> u32 \<Rightarrow> u32" where "free_cnt s a = page_words (pages s) a 2"

definition set_arena :: "kheap \<Rightarrow> u32 \<Rightarrow> u32 \<Rightarrow> u32 \<Rightarrow> u32 \<Rightarrow> kheap" where
  "set_arena s a m d n = s\<lparr>pages := put_word (put_word (put_word (pages s) a 0 m) a 1 d) a 2 n\<rparr>"

definition set_free_cnt :: "kheap \<Rightarrow> u32 \<Rightarrow> u32 \<Rightarrow> kheap" where
  "set_free_cnt s a n = s\<lparr>pages := put_word (pages s) a 2 n\<rparr>"

definition set_free_list :: "kheap \<Rightarrow> nat \<Rightarrow> u32 list \<Rightarrow> kheap" where
  "set_free_list s i l = s\<lparr>descs := (descs s)[i := (descs s ! i)\<lparr>free_list := l\<rparr>]\<rparr>"

definition desc_ptr :: "kheap \<Rightarrow> nat \<Rightarrow> u32" where
  "desc_ptr s i = descs_addr s + of_nat (sizeof_desc * i)"

text \<open>The descriptor that a pointer points to; any other pointer is a fault.\<close>

definition desc_index :: "kheap \<Rightarrow> u32 \<Rightarrow> nat option" where
  "desc_index s d = List.find (\<lambda>i. desc_ptr s i = d) [0..<length (descs s)]"

text \<open>The loop of \<open>malloc_init\<close>.\<close>

partial_function (option) init_descs :: "desc list \<Rightarrow> u32 \<Rightarrow> desc list option" where
  "init_descs ds sz =
     (if sz < PGSIZE div 2
      then do {
        ASSERT (length ds + 1 \<le> 10);
        init_descs (ds @ [\<lparr>block_size = sz, blocks_per_arena = (PGSIZE - sizeof_arena) div sz, free_list = []\<rparr>]) (sz * 2)
      }
      else Some ds)"

definition malloc_init :: "kheap \<Rightarrow> kheap option" where
  "malloc_init s = do { ds \<leftarrow> init_descs (descs s) 16; Some (s\<lparr>descs := ds\<rparr>) }"

definition block_to_arena :: "kheap \<Rightarrow> u32 \<Rightarrow> u32 option" where
  "block_to_arena s b = do {
     let a = pg_round_down b;
     ASSERT (a \<noteq> 0);
     ASSERT (magic s a = ARENA_MAGIC);
     (if arena_desc s a = 0 then Some ()
      else do {
        i \<leftarrow> desc_index s (arena_desc s a);
        ASSERT ((pg_ofs b - sizeof_arena) mod block_size (descs s ! i) = 0)
      });
     ASSERT (arena_desc s a \<noteq> 0 \<or> pg_ofs b = sizeof_arena);
     Some a
   }"

definition arena_to_block :: "kheap \<Rightarrow> u32 \<Rightarrow> u32 \<Rightarrow> u32 option" where
  "arena_to_block s a idx = do {
     ASSERT (a \<noteq> 0);
     ASSERT (magic s a = ARENA_MAGIC);
     i \<leftarrow> desc_index s (arena_desc s a);
     ASSERT (idx < blocks_per_arena (descs s ! i));
     Some (a + sizeof_arena + idx * block_size (descs s ! i))
   }"

section \<open>Allocation and release\<close>

fun find_desc :: "desc list \<Rightarrow> u32 \<Rightarrow> nat" where
  "find_desc [] sz = 0"
| "find_desc (d # ds) sz = (if block_size d \<ge> sz then 0 else Suc (find_desc ds sz))"

text \<open>The loops that put an arena's blocks at the end of a free list, and take them out of it.\<close>

fun add_blocks :: "kheap \<Rightarrow> nat \<Rightarrow> u32 \<Rightarrow> nat list \<Rightarrow> kheap option" where
  "add_blocks s d a [] = Some s"
| "add_blocks s d a (i # is) = do {
     b \<leftarrow> arena_to_block s a (of_nat i);
     add_blocks (set_free_list s d (free_list (descs s ! d) @ [b])) d a is
   }"

fun remove_blocks :: "kheap \<Rightarrow> nat \<Rightarrow> u32 \<Rightarrow> nat list \<Rightarrow> kheap option" where
  "remove_blocks s d a [] = Some s"
| "remove_blocks s d a (i # is) = do {
     b \<leftarrow> arena_to_block s a (of_nat i);
     ASSERT (b \<in> set (free_list (descs s ! d)));
     remove_blocks (set_free_list s d (remove1 b (free_list (descs s ! d)))) d a is
   }"

definition malloc :: "kheap \<Rightarrow> u32 \<Rightarrow> (u32 \<times> kheap) option" where
  "malloc s sz =
     (if sz = 0 then Some (0, s)
      else let d = find_desc (descs s) sz
      in if d = length (descs s)
      then do {
        let page_cnt = (sz + sizeof_arena + PGSIZE - 1) div PGSIZE;
        (a, r) \<leftarrow> palloc_get_multiple (pages s) 0 (unat page_cnt);
        let s = s\<lparr>pages := r\<rparr>;
        if a = 0 then Some (0, s)
        else Some (a + sizeof_arena, set_arena s a ARENA_MAGIC 0 page_cnt)
      }
      else do {
        (ok, s) \<leftarrow> (if free_list (descs s ! d) = []
          then do {
            (a, r) \<leftarrow> palloc_get_page (pages s) 0;
            let s = s\<lparr>pages := r\<rparr>;
            if a = 0 then Some (False, s)
            else do {
              let n = blocks_per_arena (descs s ! d);
              s \<leftarrow> add_blocks (set_arena s a ARENA_MAGIC (desc_ptr s d) n) d a [0..<unat n];
              Some (True, s)
            }
          }
          else Some (True, s));
        if \<not> ok then Some (0, s)
        else do {
          ASSERT (free_list (descs s ! d) \<noteq> []);
          let b = hd (free_list (descs s ! d));
          let s = set_free_list s d (tl (free_list (descs s ! d)));
          a \<leftarrow> block_to_arena s b;
          Some (b, set_free_cnt s a (free_cnt s a - 1))
        }
      })"

definition calloc :: "kheap \<Rightarrow> u32 \<Rightarrow> u32 \<Rightarrow> (u32 \<times> kheap) option" where
  "calloc s a b =
     (let sz = a * b
      in if sz < a \<or> sz < b then Some (0, s)
      else do {
        (p, s) \<leftarrow> malloc s sz;
        Some (p, if p \<noteq> 0 then s\<lparr>pages := mem_set (pages s) p 0 (unat sz)\<rparr> else s)
      })"

definition block_size_of :: "kheap \<Rightarrow> u32 \<Rightarrow> u32 option" where
  "block_size_of s b = do {
     a \<leftarrow> block_to_arena s b;
     if arena_desc s a \<noteq> 0
     then do { i \<leftarrow> desc_index s (arena_desc s a); Some (block_size (descs s ! i)) }
     else Some (PGSIZE * free_cnt s a - pg_ofs b)
   }"

definition free :: "kheap \<Rightarrow> u32 \<Rightarrow> kheap option" where
  "free s p =
     (if p = 0 then Some s
      else do {
        a \<leftarrow> block_to_arena s p;
        if arena_desc s a \<noteq> 0
        then do {
          d \<leftarrow> desc_index s (arena_desc s a);
          let s = s\<lparr>pages := mem_set (pages s) p 0xcc (unat (block_size (descs s ! d)))\<rparr>;
          let s = set_free_list s d (p # free_list (descs s ! d));
          let s = set_free_cnt s a (free_cnt s a + 1);
          if free_cnt s a \<ge> blocks_per_arena (descs s ! d)
          then do {
            ASSERT (free_cnt s a = blocks_per_arena (descs s ! d));
            s \<leftarrow> remove_blocks s d a [0..<unat (blocks_per_arena (descs s ! d))];
            r \<leftarrow> palloc_free_page (pages s) a;
            Some (s\<lparr>pages := r\<rparr>)
          }
          else Some s
        }
        else do {
          r \<leftarrow> palloc_free_multiple (pages s) a (unat (free_cnt s a));
          Some (s\<lparr>pages := r\<rparr>)
        }
      })"

definition realloc :: "kheap \<Rightarrow> u32 \<Rightarrow> u32 \<Rightarrow> (u32 \<times> kheap) option" where
  "realloc s old_block new_size =
     (if new_size = 0
      then do { s \<leftarrow> free s old_block; Some (0, s) }
      else do {
        (new_block, s) \<leftarrow> malloc s new_size;
        if old_block \<noteq> 0 \<and> new_block \<noteq> 0
        then do {
          old_size \<leftarrow> block_size_of s old_block;
          let min_size = (if new_size < old_size then new_size else old_size);
          let s = s\<lparr>pages := mem_copy (pages s) new_block old_block (unat min_size)\<rparr>;
          s \<leftarrow> free s old_block;
          Some (new_block, s)
        }
        else Some (new_block, s)
      })"

section \<open>The byte memory\<close>

lemma pages_put_word [simp]:
  "kernel_pool (put_word r a k v) = kernel_pool r" "user_pool (put_word r a k v) = user_pool r"
  "page_words (put_word r a k v) a' k' = (if a' = a \<and> k' = k then v else page_words r a' k')"
  by (simp_all add: put_word_def)

lemma ram_put_word [simp]: "ram_ok (put_word r a k v) = ram_ok r" "taken (put_word r a k v) = taken r"
  by (simp_all add: put_word_def)

lemma byte_position:
  assumes "pg_round_down y = pg_round_down x" "unat (pg_ofs y) div 4 = unat (pg_ofs x) div 4" "unat y mod 4 = unat x mod 4"
  shows "y = x"
proof -
  have m: "unat (pg_ofs z) mod 4 = unat z mod 4" for z by (simp add: pg_ofs_unat mod_mod_cancel)
  have "unat (pg_ofs y) = unat (pg_ofs x)"
    using assms(2,3) m div_mod_eq [of "unat (pg_ofs y)" 4 "unat (pg_ofs x)"] by metis
  then have "pg_ofs y = pg_ofs x" by (simp add: word_unat_eq_iff)
  then show ?thesis using assms(1) pg_split by metis
qed

lemma replace_byte:
  fixes w :: u32 and v :: u8
  assumes "j < 4" "j' < 4"
  shows "ucast (drop_bit (8 * j') ((w AND NOT (push_bit (8 * j) 0xff)) OR push_bit (8 * j) (ucast v))) =
    (if j' = j then v else ucast (drop_bit (8 * j') w))"
proof (rule bit_eqI)
  fix i assume "possible_bit TYPE(8 word) i"
  then have i: "i < 8" by (simp add: possible_bit_word)
  have m: "(0xff :: u32) = mask 8" by (simp add: mask_eq_exp_minus_1)
  have b: "8 * j' + i < 32" "8 * j' + i - 8 * j < 8 \<longleftrightarrow> j' \<le> j" if "8 * j \<le> 8 * j' + i" using assms i that by linarith+
  show "bit (ucast (drop_bit (8 * j') ((w AND NOT (push_bit (8 * j) 0xff)) OR push_bit (8 * j) (ucast v))) :: u8) i =
      bit (if j' = j then v else ucast (drop_bit (8 * j') w)) i"
    using i assms b unfolding m by (cases j' j rule: linorder_cases) (auto simp: bit_simps dest: bit_imp_le_length)
qed

lemma get_set_byte: "get_byte (set_byte r x v) y = (if y = x then v else get_byte r y)"
proof (cases "pg_round_down y = pg_round_down x \<and> unat (pg_ofs y) div 4 = unat (pg_ofs x) div 4")
  case True
  then have "y = x \<longleftrightarrow> unat y mod 4 = unat x mod 4" using byte_position by blast
  then show ?thesis using True
    by (simp only: get_byte_def set_byte_def Let_def pages_put_word simp_thms if_True) (rule replace_byte; simp)
qed (auto simp: get_byte_def set_byte_def Let_def)

lemma ram_set_byte [simp]: "ram_ok (set_byte r x v) = ram_ok r" "taken (set_byte r x v) = taken r"
  by (simp_all add: set_byte_def Let_def)

lemma word_set_byte:
  "a = pg_round_down x \<longrightarrow> 12 \<le> unat (pg_ofs x) \<Longrightarrow> k < 3 \<Longrightarrow> page_words (set_byte r x v) a k = page_words r a k"
  by (auto simp: set_byte_def Let_def)

lemma byte_put_word:
  "k < 3 \<Longrightarrow> pg_round_down x = a \<longrightarrow> 12 \<le> unat (pg_ofs x) \<Longrightarrow> get_byte (put_word r a k v) x = get_byte r x"
  by (auto simp: get_byte_def)

text \<open>The bytes of a block of \<open>n\<close> bytes at \<open>p\<close>.\<close>

definition bytes_of :: "u32 \<Rightarrow> nat \<Rightarrow> u32 set" where
  "bytes_of p n = {x. unat p \<le> unat x \<and> unat x < unat p + n}"

lemma bytes_of_0 [simp]: "bytes_of p 0 = {}"
  by (simp add: bytes_of_def)

lemma bytes_of_mono: "n \<le> n' \<Longrightarrow> bytes_of p n \<subseteq> bytes_of p n'"
  by (auto simp: bytes_of_def)

lemma unat_add_1: "unat p + Suc n \<le> 2 ^ 32 \<Longrightarrow> 0 < n \<Longrightarrow> unat (p + 1 :: u32) = Suc (unat p)"
  by (subst unat_add_lem [THEN iffD1]) simp_all

lemma unat_add_of_nat: "unat p + n < 2 ^ 32 \<Longrightarrow> unat (p + of_nat n :: u32) = unat p + n"
proof -
  assume a: "unat p + n < 2 ^ 32"
  have "p + of_nat n = of_nat (unat p + n)" by simp
  then show ?thesis using a by (simp only: unat_of_nat) simp
qed

lemma bytes_of_Suc: "unat p + Suc n \<le> 2 ^ 32 \<Longrightarrow> bytes_of p (Suc n) = insert p (bytes_of (p + 1) n)"
proof (cases "n = 0")
  case False
  assume "unat p + Suc n \<le> 2 ^ 32"
  from unat_add_1 [OF this] False show ?thesis
    by (auto simp: bytes_of_def word_unat_eq_iff)
qed (auto simp: bytes_of_def word_unat_eq_iff)

lemma ram_mem_set [simp]: "ram_ok (mem_set r p v n) = ram_ok r" "taken (mem_set r p v n) = taken r"
  by (induction r p v n rule: mem_set.induct) simp_all

lemma ram_mem_copy [simp]: "ram_ok (mem_copy r p q n) = ram_ok r" "taken (mem_copy r p q n) = taken r"
  by (induction r p q n rule: mem_copy.induct) simp_all

lemma get_mem_set:
  "unat p + n \<le> 2 ^ 32 \<Longrightarrow> get_byte (mem_set r p v n) x = (if x \<in> bytes_of p n then v else get_byte r x)"
proof (induction r p v n rule: mem_set.induct)
  case (2 r p v n)
  show ?case
  proof (cases "n = 0")
    case False
    then have "unat (p + 1) + n \<le> 2 ^ 32" using 2 unat_add_1 by simp
    then show ?thesis using 2 by (simp add: bytes_of_Suc get_set_byte)
  qed (use 2 in \<open>simp add: bytes_of_Suc get_set_byte\<close>)
qed simp

lemma get_mem_copy_other:
  "unat p + n \<le> 2 ^ 32 \<Longrightarrow> x \<notin> bytes_of p n \<Longrightarrow> get_byte (mem_copy r p q n) x = get_byte r x"
proof (induction r p q n rule: mem_copy.induct)
  case (2 r p q n)
  show ?case
  proof (cases "n = 0")
    case False
    then have "unat (p + 1) + n \<le> 2 ^ 32" using 2 unat_add_1 by simp
    then show ?thesis using 2 by (simp add: bytes_of_Suc get_set_byte)
  qed (use 2 in \<open>simp add: bytes_of_Suc get_set_byte\<close>)
qed simp

lemma get_mem_copy:
  "unat p + n \<le> 2 ^ 32 \<Longrightarrow> unat q + n \<le> 2 ^ 32 \<Longrightarrow> bytes_of p n \<inter> bytes_of q n = {} \<Longrightarrow> i < n \<Longrightarrow>
   get_byte (mem_copy r p q n) (p + of_nat i) = get_byte r (q + of_nat i)"
proof (induction r p q n arbitrary: i rule: mem_copy.induct)
  case (2 r p q n)
  show ?case
  proof (cases "n = 0")
    case False
    then have u: "unat (p + 1) = Suc (unat p)" "unat (q + 1) = Suc (unat q)" using 2 unat_add_1 by simp_all
    have s: "bytes_of p (Suc n) = insert p (bytes_of (p + 1) n)" "bytes_of q (Suc n) = insert q (bytes_of (q + 1) n)"
      using 2 by (simp_all add: bytes_of_Suc)
    show ?thesis
    proof (cases i)
      case 0
      have "p \<notin> bytes_of (p + 1) n" using u by (simp add: bytes_of_def)
      then show ?thesis using 0 2 u by (simp add: get_mem_copy_other get_set_byte)
    next
      case (Suc j)
      have e: "p + of_nat i = p + 1 + of_nat j" "q + of_nat i = q + 1 + of_nat j" using Suc by simp_all
      have "unat (q + 1 + of_nat j) = unat (q + 1) + j" using u 2 Suc by (intro unat_add_of_nat) simp
      then have "q + 1 + of_nat j \<in> bytes_of (q + 1) n" using 2 Suc by (simp add: bytes_of_def)
      then have "q + 1 + of_nat j \<noteq> p" using 2 s by auto
      then show ?thesis unfolding e using 2 s u Suc by (simp add: get_set_byte)
    qed
  qed (use 2 in \<open>simp add: get_set_byte\<close>)
qed simp

lemma words_mem_set:
  "unat p + n \<le> 2 ^ 32 \<Longrightarrow> (\<And>x. x \<in> bytes_of p n \<Longrightarrow> a = pg_round_down x \<Longrightarrow> 12 \<le> unat (pg_ofs x)) \<Longrightarrow> k < 3 \<Longrightarrow>
   page_words (mem_set r p v n) a k = page_words r a k"
proof (induction r p v n rule: mem_set.induct)
  case (2 r p v n)
  have s: "bytes_of p (Suc n) = insert p (bytes_of (p + 1) n)" using 2 by (simp add: bytes_of_Suc)
  then have e: "page_words (set_byte r p v) a k = page_words r a k" using 2 by (intro word_set_byte) auto
  show ?case
  proof (cases "n = 0")
    case False
    then have "unat (p + 1) + n \<le> 2 ^ 32" using 2 unat_add_1 by simp
    then show ?thesis using 2 s e by simp
  qed (use e in simp)
qed simp

lemma words_mem_copy:
  "unat p + n \<le> 2 ^ 32 \<Longrightarrow> (\<And>x. x \<in> bytes_of p n \<Longrightarrow> a = pg_round_down x \<Longrightarrow> 12 \<le> unat (pg_ofs x)) \<Longrightarrow> k < 3 \<Longrightarrow>
   page_words (mem_copy r p q n) a k = page_words r a k"
proof (induction r p q n rule: mem_copy.induct)
  case (2 r p q n)
  have s: "bytes_of p (Suc n) = insert p (bytes_of (p + 1) n)" using 2 by (simp add: bytes_of_Suc)
  then have e: "page_words (set_byte r p (get_byte r q)) a k = page_words r a k" using 2 by (intro word_set_byte) auto
  show ?case
  proof (cases "n = 0")
    case False
    then have "unat (p + 1) + n \<le> 2 ^ 32" using 2 unat_add_1 by simp
    then show ?thesis using 2 s e by simp
  qed (use e in simp)
qed simp

section \<open>Blocks of an arena\<close>

definition bsize :: "nat \<Rightarrow> nat" where "bsize i = 16 * 2 ^ i"
definition bcount :: "nat \<Rightarrow> nat" where "bcount i = 4084 div bsize i"

definition block_at :: "u32 \<Rightarrow> nat \<Rightarrow> nat \<Rightarrow> u32" where
  "block_at a i k = a + of_nat (12 + bsize i * k)"

abbreviation fl :: "kheap \<Rightarrow> nat \<Rightarrow> u32 list" where
  "fl s i \<equiv> free_list (descs s ! i)"

definition descs_ok :: "kheap \<Rightarrow> bool" where
  "descs_ok s \<longleftrightarrow> length (descs s) = 7 \<and> 0 < unat (descs_addr s) \<and> unat (descs_addr s) + 10 * sizeof_desc \<le> 2 ^ 32 \<and>
     (\<forall>i < 7. block_size (descs s ! i) = of_nat (bsize i) \<and> blocks_per_arena (descs s ! i) = of_nat (bcount i))"

definition arena_hdr :: "kheap \<Rightarrow> u32 \<Rightarrow> nat \<Rightarrow> bool" where
  "arena_hdr s a i \<longleftrightarrow> descs_ok s \<and> i < 7 \<and> pg_ofs a = 0 \<and> a \<noteq> 0 \<and> unat a + page_bytes \<le> 2 ^ 32 \<and>
     magic s a = ARENA_MAGIC \<and> arena_desc s a = desc_ptr s i"

lemma block_fits: "k < bcount i \<Longrightarrow> 12 + bsize i * k + bsize i \<le> page_bytes"
proof -
  assume "k < bcount i"
  then have "Suc k * bsize i \<le> 4084" by (simp add: bcount_def less_eq_div_iff_mult_less_eq Suc_le_eq [symmetric] bsize_def)
  then show ?thesis by (simp add: algebra_simps)
qed

lemma bsize_bounds: "0 < bsize i" "i < 7 \<Longrightarrow> bsize i \<le> 1024"
proof -
  show "0 < bsize i" by (simp add: bsize_def)
  assume "i < 7"
  then have "(2 :: nat) ^ i \<le> 2 ^ 6" by (intro power_increasing) simp_all
  then show "bsize i \<le> 1024" by (simp add: bsize_def)
qed

lemma bcount_bounds: "i < 7 \<Longrightarrow> 0 < bcount i" "bcount i < 4096"
proof -
  show "bcount i < 4096" unfolding bcount_def by (rule le_less_trans [OF div_le_dividend]) simp
  assume "i < 7"
  then show "0 < bcount i" using bsize_bounds [of i] by (simp add: bcount_def div_greater_zero_iff)
qed

lemma page_offset:
  assumes "pg_ofs a = 0" "unat a + page_bytes * Suc j \<le> 2 ^ 32" "unat x = unat a + page_bytes * j + d" "d < page_bytes"
  shows "pg_round_down x = a + PGSIZE * of_nat j" "unat (pg_ofs x) = d"
proof -
  have m: "unat a mod 4096 = 0" using assms(1) by (simp add: aligned_unat)
  have "(a + PGSIZE * of_nat j) = of_nat (unat a + page_bytes * j)" by (simp add: PGSIZE_eq)
  moreover have "unat a + page_bytes * j < 2 ^ 32" using assms(2) by simp
  ultimately have u: "unat (a + PGSIZE * of_nat j) = unat a + page_bytes * j" by (simp only: unat_of_nat) simp
  obtain q where q: "unat a = 4096 * q" using m by (auto simp: mod_eq_0_iff_dvd)
  define n where "n = q + j"
  have x: "unat x = d + 4096 * n" "unat a + page_bytes * j = 4096 * n" using assms(3) q by (simp_all add: n_def)
  have "unat x div 4096 * 4096 = unat a + page_bytes * j" unfolding x using assms(4) by simp
  then show "pg_round_down x = a + PGSIZE * of_nat j" using u by (simp add: word_unat_eq_iff pg_round_down_unat)
  show "unat (pg_ofs x) = d" unfolding pg_ofs_unat x(1) using assms(4) by simp
qed

lemma block_at_facts:
  assumes "pg_ofs a = 0" "unat a + page_bytes \<le> 2 ^ 32" "k < bcount i"
  shows "unat (block_at a i k) = unat a + 12 + bsize i * k" "pg_round_down (block_at a i k) = a"
    "unat (pg_ofs (block_at a i k)) = 12 + bsize i * k" "unat (block_at a i k) + bsize i \<le> 2 ^ 32"
proof -
  note f = block_fits [OF assms(3)] bsize_bounds(1) [of i]
  then have "unat a + (12 + bsize i * k) < 2 ^ 32" using assms(2) by simp
  then show u: "unat (block_at a i k) = unat a + 12 + bsize i * k" unfolding block_at_def by (subst unat_add_of_nat) simp_all
  have "12 + bsize i * k < page_bytes" using f by simp
  then show "pg_round_down (block_at a i k) = a" "unat (pg_ofs (block_at a i k)) = 12 + bsize i * k"
    using page_offset [OF assms(1), of 0 "block_at a i k" "12 + bsize i * k"] assms(2) u by simp_all
  show "unat (block_at a i k) + bsize i \<le> 2 ^ 32" using u f assms(2) by simp
qed

lemma block_bytes_page:
  assumes "pg_ofs a = 0" "unat a + page_bytes \<le> 2 ^ 32" "k < bcount i" "x \<in> bytes_of (block_at a i k) (bsize i)"
  shows "pg_round_down x = a" "12 \<le> unat (pg_ofs x)"
proof -
  have x: "unat a + 12 + bsize i * k \<le> unat x" "unat x < unat a + 12 + bsize i * k + bsize i"
    using assms(4) block_at_facts(1) [OF assms(1-3)] by (simp_all add: bytes_of_def)
  let ?d = "unat x - unat a"
  have d: "unat x = unat a + page_bytes * 0 + ?d" "?d < page_bytes" "12 \<le> ?d" using x block_fits [OF assms(3)] by simp_all
  from page_offset [OF assms(1) _ d(1,2)] assms(2) d(3) show "pg_round_down x = a" "12 \<le> unat (pg_ofs x)" by simp_all
qed

lemma block_at_inj:
  assumes "pg_ofs a = 0" "unat a + page_bytes \<le> 2 ^ 32" "k < bcount i" "k' < bcount i" "block_at a i k = block_at a i k'"
  shows "k = k'"
proof -
  have "unat (block_at a i k) = unat (block_at a i k')" using assms(5) by simp
  then have "bsize i * k = bsize i * k'" using block_at_facts(1) [OF assms(1,2)] assms(3,4) by simp
  then show ?thesis using bsize_bounds(1) [of i] by simp
qed

lemma block_bytes_apart:
  assumes "pg_ofs a = 0" "unat a + page_bytes \<le> 2 ^ 32" "k < bcount i" "k' < bcount i" "k \<noteq> k'"
  shows "bytes_of (block_at a i k) (bsize i) \<inter> bytes_of (block_at a i k') (bsize i) = {}"
proof -
  have "bsize i * Suc k \<le> bsize i * k' \<or> bsize i * Suc k' \<le> bsize i * k" 
    using assms(5) by (metis linorder_neqE_nat mult_le_mono2 Suc_leI)
  then show ?thesis using block_at_facts(1) [OF assms(1,2)] assms(3,4) by (auto simp: bytes_of_def)
qed

section \<open>Arena headers\<close>

lemma desc_ptr_unat: "descs_ok s \<Longrightarrow> i < 7 \<Longrightarrow> unat (desc_ptr s i) = unat (descs_addr s) + sizeof_desc * i"
  unfolding desc_ptr_def by (rule unat_add_of_nat) (simp add: descs_ok_def)

lemma desc_ptr_index: "descs_ok s \<Longrightarrow> i < 7 \<Longrightarrow> desc_index s (desc_ptr s i) = Some i"
  unfolding desc_index_def find_Some_iff
proof (intro exI [of _ i] conjI allI impI)
  fix j assume "descs_ok s" "i < 7" "j < i"
  then show "desc_ptr s ([0..<length (descs s)] ! j) \<noteq> desc_ptr s i"
    using desc_ptr_unat [of s i] desc_ptr_unat [of s j] by (auto simp: descs_ok_def)
qed (simp_all add: descs_ok_def)

lemma desc_ptr_nonnull: "descs_ok s \<Longrightarrow> i < 7 \<Longrightarrow> desc_ptr s i \<noteq> 0"
  using desc_ptr_unat [of s i] by (auto simp: descs_ok_def)

lemma hdr_desc: "arena_hdr s a i \<Longrightarrow> desc_index s (arena_desc s a) = Some i" "arena_hdr s a i \<Longrightarrow> arena_desc s a \<noteq> 0"
  by (simp_all add: arena_hdr_def desc_ptr_index desc_ptr_nonnull)

lemma hdr_sizes:
  assumes "arena_hdr s a i"
  shows "unat (block_size (descs s ! i)) = bsize i" "unat (blocks_per_arena (descs s ! i)) = bcount i"
    "block_size (descs s ! i) = of_nat (bsize i)" "blocks_per_arena (descs s ! i) = of_nat (bcount i)"
proof -
  have i: "i < 7" using assms by (simp add: arena_hdr_def)
  then show e: "block_size (descs s ! i) = of_nat (bsize i)" "blocks_per_arena (descs s ! i) = of_nat (bcount i)"
    using assms by (simp_all add: arena_hdr_def descs_ok_def)
  have "bsize i < 2 ^ 32" "bcount i < 2 ^ 32" using bsize_bounds(2) [OF i] bcount_bounds(2) [of i] by simp_all
  then show "unat (block_size (descs s ! i)) = bsize i" "unat (blocks_per_arena (descs s ! i)) = bcount i"
    unfolding e by (simp_all only: unat_of_nat) simp_all
qed

lemma block_to_arena_small:
  assumes "arena_hdr s a i" "k < bcount i"
  shows "block_to_arena s (block_at a i k) = Some a"
proof -
  have a: "pg_ofs a = 0" "unat a + page_bytes \<le> 2 ^ 32" "a \<noteq> 0" "magic s a = ARENA_MAGIC" using assms(1) by (simp_all add: arena_hdr_def)
  note b = block_at_facts [OF a(1,2) assms(2)]
  have "unat (pg_ofs (block_at a i k) - 12) = bsize i * k" using b(3) by (subst unat_sub) (simp_all add: word_le_nat_alt)
  then have "unat ((pg_ofs (block_at a i k) - 12) mod block_size (descs s ! i)) = 0"
    by (simp add: unat_mod_distrib hdr_sizes(1) [OF assms(1)])
  then have "(pg_ofs (block_at a i k) - 12) mod block_size (descs s ! i) = 0" by (simp add: word_unat_eq_iff)
  then show ?thesis using a b hdr_desc [OF assms(1)] by (simp add: block_to_arena_def Let_def)
qed

lemma arena_to_block_eq:
  assumes "arena_hdr s a i" "k < bcount i"
  shows "arena_to_block s a (of_nat k) = Some (block_at a i k)"
proof -
  have "unat (of_nat k :: u32) = k" using assms(2) bcount_bounds(2) [of i] by (simp only: unat_of_nat) simp
  then have "of_nat k < blocks_per_arena (descs s ! i)" using assms hdr_sizes(2) by (simp add: word_less_nat_alt)
  moreover have "a \<noteq> 0" "magic s a = ARENA_MAGIC" using assms(1) by (simp_all add: arena_hdr_def)
  ultimately show ?thesis using hdr_desc(1) [OF assms(1)] hdr_sizes(3) [OF assms(1)]
    by (simp add: arena_to_block_def block_at_def ac_simps)
qed

section \<open>Free lists\<close>

lemma set_free_list_simps [simp]:
  "pages (set_free_list s d l) = pages s" "descs_addr (set_free_list s d l) = descs_addr s"
  "magic (set_free_list s d l) = magic s" "arena_desc (set_free_list s d l) = arena_desc s"
  "free_cnt (set_free_list s d l) = free_cnt s" "desc_ptr (set_free_list s d l) = desc_ptr s"
  "length (descs (set_free_list s d l)) = length (descs s)"
  "set_free_list (set_free_list s d l) d l' = set_free_list s d l'"
  "set_free_list s d (fl s d) = s"
  by (cases "d < length (descs s)"; auto simp: set_free_list_def magic_def arena_desc_def free_cnt_def desc_ptr_def fun_eq_iff list_update_beyond)+

lemma fl_set [simp]: "d < length (descs s) \<Longrightarrow> fl (set_free_list s d l) i = (if i = d then l else fl s i)"
  by (simp add: set_free_list_def nth_list_update)

lemma sizes_set [simp]:
  "block_size (descs (set_free_list s d l) ! i) = block_size (descs s ! i)"
  "blocks_per_arena (descs (set_free_list s d l) ! i) = blocks_per_arena (descs s ! i)"
  by (cases "d < length (descs s)"; cases "i = d"; simp add: set_free_list_def list_update_beyond)+

lemma descs_ok_set [simp]: "descs_ok (set_free_list s d l) = descs_ok s"
  by (simp add: descs_ok_def)

lemma arena_hdr_set [simp]: "arena_hdr (set_free_list s d l) a i = arena_hdr s a i"
  by (simp add: arena_hdr_def)

lemma hdr_length: "arena_hdr s a i \<Longrightarrow> i < length (descs s)"
  by (simp add: arena_hdr_def descs_ok_def)

lemma add_blocks_eq:
  "arena_hdr s a d \<Longrightarrow> set ks \<subseteq> {..<bcount d} \<Longrightarrow> add_blocks s d a ks = Some (set_free_list s d (fl s d @ map (block_at a d) ks))"
proof (induction ks arbitrary: s)
  case (Cons k ks)
  then show ?case using arena_to_block_eq [OF Cons.prems(1), of k] hdr_length [OF Cons.prems(1)] by simp
qed simp

lemma remove_blocks_eq:
  "arena_hdr s a d \<Longrightarrow> set ks \<subseteq> {..<bcount d} \<Longrightarrow> distinct ks \<Longrightarrow> distinct (fl s d) \<Longrightarrow> block_at a d ` set ks \<subseteq> set (fl s d) \<Longrightarrow>
   remove_blocks s d a ks = Some (set_free_list s d (filter (\<lambda>b. b \<notin> block_at a d ` set ks) (fl s d)))"
proof (induction ks arbitrary: s)
  case (Cons k ks)
  let ?b = "block_at a d k" let ?s = "set_free_list s d (remove1 ?b (fl s d))"
  have a: "pg_ofs a = 0" "unat a + page_bytes \<le> 2 ^ 32" using Cons.prems(1) by (simp_all add: arena_hdr_def)
  have l: "d < length (descs s)" using hdr_length [OF Cons.prems(1)] .
  have r: "fl ?s d = filter (\<lambda>x. x \<noteq> ?b) (fl s d)"
    using l Cons.prems(4) by (simp add: distinct_remove1_removeAll removeAll_filter_not_eq) (rule filter_cong; auto)
  have "block_at a d j \<noteq> ?b" if "j \<in> set ks" for j using that block_at_inj [OF a, of j d k] Cons.prems by auto
  then have "block_at a d ` set ks \<subseteq> set (fl ?s d)" using Cons.prems(5) by (auto simp: r)
  then have "remove_blocks ?s d a ks = Some (set_free_list ?s d (filter (\<lambda>b. b \<notin> block_at a d ` set ks) (fl ?s d)))"
    using Cons.prems l by (intro Cons.IH) simp_all
  then show ?case unfolding r using Cons.prems arena_to_block_eq [OF Cons.prems(1), of k]
    by (simp add: ac_simps)
qed simp

section \<open>The heap's invariant\<close>

text \<open>The pages that the heap owns: an arena of the \<open>i\<close>-th descriptor, or a big block of \<open>n\<close> pages.\<close>

datatype region = Arena nat | Big nat

fun region_pages :: "region \<Rightarrow> nat" where
  "region_pages (Arena i) = 1"
| "region_pages (Big n) = n"

fun capacity :: "region \<Rightarrow> nat" where
  "capacity (Arena i) = bsize i"
| "capacity (Big n) = page_bytes * n - 12"

definition free_in :: "kheap \<Rightarrow> nat \<Rightarrow> u32 \<Rightarrow> u32 list" where
  "free_in s i a = filter (\<lambda>b. pg_round_down b = a) (fl s i)"

fun region_desc :: "kheap \<Rightarrow> u32 \<Rightarrow> region \<Rightarrow> bool" where
  "region_desc s a (Arena i) \<longleftrightarrow> i < 7 \<and> arena_desc s a = desc_ptr s i \<and> free_cnt s a = of_nat (length (free_in s i a))"
| "region_desc s a (Big n) \<longleftrightarrow> 0 < n \<and> arena_desc s a = 0 \<and> free_cnt s a = of_nat n"

definition region_ok :: "kheap \<Rightarrow> u32 \<Rightarrow> region \<Rightarrow> bool" where
  "region_ok s a g \<longleftrightarrow> pg_ofs a = 0 \<and> PHYS_BASE \<le> a \<and> unat a + page_bytes * region_pages g \<le> 2 ^ 32 \<and>
     run a (region_pages g) \<subseteq> taken (pages s) \<and> magic s a = ARENA_MAGIC \<and> region_desc s a g"

definition free_ok :: "kheap \<Rightarrow> (u32 \<rightharpoonup> region) \<Rightarrow> nat \<Rightarrow> bool" where
  "free_ok s R i \<longleftrightarrow> distinct (fl s i) \<and> (\<forall>b \<in> set (fl s i). \<exists>a k. R a = Some (Arena i) \<and> k < bcount i \<and> b = block_at a i k)"

definition apart :: "(u32 \<rightharpoonup> region) \<Rightarrow> bool" where
  "apart R \<longleftrightarrow> (\<forall>a g a' g'. R a = Some g \<longrightarrow> R a' = Some g' \<longrightarrow> a \<noteq> a' \<longrightarrow> run a (region_pages g) \<inter> run a' (region_pages g') = {})"

definition hinv :: "kheap \<Rightarrow> (u32 \<rightharpoonup> region) \<Rightarrow> bool" where
  "hinv s R \<longleftrightarrow> ram_ok (pages s) \<and> descs_ok s \<and> apart R \<and> (\<forall>a g. R a = Some g \<longrightarrow> region_ok s a g) \<and> (\<forall>i < 7. free_ok s R i)"

text \<open>Between operations no arena is entirely free.\<close>

definition in_use :: "kheap \<Rightarrow> u32 \<Rightarrow> region \<Rightarrow> bool" where
  "in_use s a g \<longleftrightarrow> (\<forall>i. g = Arena i \<longrightarrow> length (free_in s i a) < bcount i)"

fun region_blocks :: "kheap \<Rightarrow> u32 \<Rightarrow> region \<Rightarrow> u32 set" where
  "region_blocks s a (Arena i) = block_at a i ` {..<bcount i} - set (fl s i)"
| "region_blocks s a (Big n) = {a + 12}"

definition live :: "kheap \<Rightarrow> (u32 \<rightharpoonup> region) \<Rightarrow> u32 set" where
  "live s R = (\<Union>(a, g) \<in> Map.graph R. region_blocks s a g)"

text \<open>The bytes of a region outside its header.\<close>

definition zone :: "u32 \<Rightarrow> region \<Rightarrow> u32 set" where
  "zone a g = {x. pg_round_down x \<in> run a (region_pages g) \<and> (pg_round_down x = a \<longrightarrow> 12 \<le> unat (pg_ofs x))}"

lemma run_1: "run a 1 = {a}"
  by (auto simp: run_def)

lemma in_run: "0 < n \<Longrightarrow> a \<in> run a n"
  by (auto simp: run_def intro!: image_eqI [of _ _ 0])

lemma region_facts:
  assumes "hinv s R" "R a = Some g"
  shows "pg_ofs a = 0" "PHYS_BASE \<le> a" "0 < region_pages g" "unat a + page_bytes * region_pages g \<le> 2 ^ 32"
    "run a (region_pages g) \<subseteq> taken (pages s)" "magic s a = ARENA_MAGIC" "region_desc s a g" "a \<noteq> 0" "a \<in> run a (region_pages g)"
proof -
  have r: "region_ok s a g" using assms by (simp add: hinv_def)
  then show "pg_ofs a = 0" "PHYS_BASE \<le> a" "unat a + page_bytes * region_pages g \<le> 2 ^ 32"
    "run a (region_pages g) \<subseteq> taken (pages s)" "magic s a = ARENA_MAGIC" "region_desc s a g" by (simp_all add: region_ok_def)
  show "a \<noteq> 0" using r by (auto simp: region_ok_def PHYS_BASE_def)
  show p: "0 < region_pages g" using r by (cases g) (simp_all add: region_ok_def)
  then show "a \<in> run a (region_pages g)" by (rule in_run)
qed

lemma region_arena: "hinv s R \<Longrightarrow> R a = Some (Arena i) \<Longrightarrow> arena_hdr s a i"
  using region_facts [of s R a "Arena i"] by (simp add: arena_hdr_def) (simp add: hinv_def)

lemma zone_mem:
  assumes "pg_ofs a = 0" "unat a + page_bytes * region_pages g \<le> 2 ^ 32"
    and "unat a + 12 \<le> unat x" "unat x < unat a + page_bytes * region_pages g"
  shows "x \<in> zone a g"
proof -
  let ?d = "unat x - unat a"
  have x: "unat x = unat a + page_bytes * (?d div page_bytes) + ?d mod page_bytes" using assms(3) by simp
  have j: "?d div page_bytes < region_pages g" using assms(3,4) by (intro less_mult_imp_div_less) simp
  then have "page_bytes * Suc (?d div page_bytes) \<le> page_bytes * region_pages g" by (intro mult_le_mono2) simp
  then have le: "unat a + page_bytes * Suc (?d div page_bytes) \<le> 2 ^ 32" using assms(2) by simp
  note p = page_offset [OF assms(1) le x]
  have "pg_round_down x \<in> run a (region_pages g)" using p(1) j by (auto simp: run_def)
  moreover have "12 \<le> unat (pg_ofs x)" if e: "pg_round_down x = a"
  proof -
    have "unat x = unat a + unat (pg_ofs x)" using pg_split [of x] e p
    proof -
      have "unat x div 4096 * 4096 = unat a" using e pg_round_down_unat [of x] by simp
      then show ?thesis using pg_ofs_unat [of x] div_mult_mod_eq [of "unat x" 4096] by simp
    qed
    then show ?thesis using assms(3) by simp
  qed
  ultimately show ?thesis by (simp add: zone_def)
qed

lemma block_zone:
  assumes "hinv s R" "R a = Some g" "b \<in> region_blocks s a g"
  shows "bytes_of b (capacity g) \<subseteq> zone a g" "unat b + capacity g \<le> 2 ^ 32" "b \<in> zone a g" "b \<noteq> 0"
proof -
  note r = region_facts [OF assms(1,2)]
  have u: "unat (a + 12) = unat a + 12" using r(3,4) unat_add_of_nat [of a 12] by simp
  have 1: "bytes_of b (capacity g) \<subseteq> zone a g \<and> unat b + capacity g \<le> 2 ^ 32 \<and> 0 < capacity g"
  proof (cases g)
    case (Arena i)
    then obtain k where k: "k < bcount i" "b = block_at a i k" using assms(3) by auto
    have a: "unat a + page_bytes \<le> 2 ^ 32" using r(4) Arena by simp
    show ?thesis using block_bytes_page [OF r(1) a k(1)] block_at_facts(4) [OF r(1) a k(1)] Arena k(2) bsize_bounds(1)
      by (auto simp: zone_def in_run)
  next
    case (Big n)
    then show ?thesis using assms(3) r zone_mem [OF r(1,4)] u by (auto simp: bytes_of_def)
  qed
  then show "bytes_of b (capacity g) \<subseteq> zone a g" "unat b + capacity g \<le> 2 ^ 32" by simp_all
  have "b \<in> bytes_of b (capacity g)" using 1 by (simp add: bytes_of_def)
  then show "b \<in> zone a g" using 1 by blast
  have "unat a \<le> unat b"
  proof (cases g)
    case (Arena i)
    then show ?thesis using assms(3) block_at_facts(1) [OF r(1)] r(4) by auto
  qed (use assms(3) u in auto)
  moreover have "0 < unat a" using r(8) by (simp add: unat_gt_0)
  ultimately show "b \<noteq> 0" by auto
qed

lemma region_unique:
  assumes "hinv s R" "R a = Some g" "R a' = Some g'" "x \<in> run a (region_pages g)" "x \<in> run a' (region_pages g')"
  shows "a' = a"
  using assms unfolding hinv_def apart_def by blast

lemma header_apart:
  assumes "hinv s R" "R a = Some g" "R a' = Some g'" "x \<in> zone a' g'" "pg_round_down x = a"
  shows "12 \<le> unat (pg_ofs x)"
  using region_unique [OF assms(1-3), of a] region_facts(9) [OF assms(1,2)] assms(4,5) by (auto simp: zone_def)

lemma zone_unique:
  assumes "hinv s R" "R a = Some g" "R a' = Some g'" "x \<in> zone a g" "x \<in> zone a' g'"
  shows "a' = a"
  using region_unique [OF assms(1-3)] assms(4,5) by (auto simp: zone_def)

lemma live_region:
  assumes "b \<in> live s R"
  obtains a g where "R a = Some g" "b \<in> region_blocks s a g"
  using assms by (auto simp: live_def dest: in_graphD)

lemma live_I: "R a = Some g \<Longrightarrow> b \<in> region_blocks s a g \<Longrightarrow> b \<in> live s R"
  unfolding live_def by (rule UN_I [of "(a, g)"]) (simp_all add: in_graphI)

lemma live_cong: "(\<And>a g. R a = Some g \<Longrightarrow> region_blocks s' a g = region_blocks s a g) \<Longrightarrow> live s' R = live s R"
  unfolding live_def by (rule SUP_cong) (auto dest: in_graphD)

lemma live_upd: "live s (R(a \<mapsto> g)) = region_blocks s a g \<union> live s (R(a := None))"
  unfolding live_def graph_map_upd by simp

lemma live_split: "R a = Some g \<Longrightarrow> live s R = region_blocks s a g \<union> live s (R(a := None))"
  using live_upd [of s R a g] by (simp add: map_upd_triv)

lemma live_apart:
  assumes "hinv s R" "R a = Some g" "b \<in> region_blocks s a g" "R a' = Some g'" "b' \<in> region_blocks s a' g'" "b \<noteq> b'"
  shows "bytes_of b (capacity g) \<inter> bytes_of b' (capacity g') = {}"
proof (cases "a' = a")
  case True
  then have g: "g' = g" using assms by simp
  note r = region_facts [OF assms(1,2)]
  show ?thesis
  proof (cases g)
    case (Arena i)
    then obtain k k' where "k < bcount i" "b = block_at a i k" "k' < bcount i" "b' = block_at a i k'"
      using assms(3,5) True g by auto
    then show ?thesis using block_bytes_apart [OF r(1)] r(4) Arena g assms(6) by auto
  qed (use assms True g in auto)
next
  case False
  have "x \<notin> bytes_of b' (capacity g')" if "x \<in> bytes_of b (capacity g)" for x
    using zone_unique [OF assms(1,2,4)] block_zone(1) [OF assms(1,2,3)] block_zone(1) [OF assms(1,4,5)] that False by blast
  then show ?thesis by blast
qed

lemma free_in_distinct:
  assumes "hinv s R" "R a = Some (Arena i)"
  shows "distinct (free_in s i a)" "set (free_in s i a) \<subseteq> block_at a i ` {..<bcount i}" "length (free_in s i a) \<le> bcount i"
proof -
  have i: "i < 7" using region_arena [OF assms] by (simp add: arena_hdr_def)
  then have f: "free_ok s R i" using assms(1) by (simp add: hinv_def)
  then show d: "distinct (free_in s i a)" by (simp add: free_ok_def free_in_def)
  show s: "set (free_in s i a) \<subseteq> block_at a i ` {..<bcount i}"
  proof
    fix b assume "b \<in> set (free_in s i a)"
    then obtain a' k where k: "R a' = Some (Arena i)" "k < bcount i" "b = block_at a' i k" "pg_round_down b = a"
      using f by (auto simp: free_ok_def free_in_def)
    then have "a' = a" using block_at_facts(2) region_arena [OF assms(1) k(1)] by (simp add: arena_hdr_def)
    then show "b \<in> block_at a i ` {..<bcount i}" using k by auto
  qed
  have "length (free_in s i a) = card (set (free_in s i a))" using d by (simp add: distinct_card)
  also have "\<dots> \<le> card (block_at a i ` {..<bcount i})" by (intro card_mono s) simp
  also have "\<dots> \<le> bcount i" using card_image_le [of "{..<bcount i}" "block_at a i"] by simp
  finally show "length (free_in s i a) \<le> bcount i" .
qed

section \<open>Changes of the heap\<close>

lemma region_ok_cong:
  assumes "region_ok s a g" "\<And>k. k < 3 \<Longrightarrow> page_words (pages s') a k = page_words (pages s) a k"
    and "descs_addr s' = descs_addr s" "\<And>i. g = Arena i \<Longrightarrow> free_in s' i a = free_in s i a"
    and "run a (region_pages g) \<subseteq> taken (pages s')"
  shows "region_ok s' a g"
proof -
  have "magic s' a = magic s a" "arena_desc s' a = arena_desc s a" "free_cnt s' a = free_cnt s a"
    using assms(2) by (simp_all add: magic_def arena_desc_def free_cnt_def)
  then show ?thesis using assms(1,3-5) by (cases g) (simp_all add: region_ok_def desc_ptr_def)
qed

lemma hinv_memory:
  assumes "hinv s R" "ram_ok r" "taken r = taken (pages s)"
    and "\<And>a g k. R a = Some g \<Longrightarrow> k < 3 \<Longrightarrow> page_words r a k = page_words (pages s) a k"
  shows "hinv (s\<lparr>pages := r\<rparr>) R"
proof -
  have "region_ok (s\<lparr>pages := r\<rparr>) a g" if "R a = Some g" for a g
  proof (rule region_ok_cong)
    show "region_ok s a g" using that assms(1) by (simp add: hinv_def)
  qed (use that assms region_facts(5) [OF assms(1) that] in \<open>simp_all add: free_in_def\<close>)
  then show ?thesis using assms(1,2) by (simp add: hinv_def descs_ok_def free_ok_def)
qed

lemma live_memory: "live (s\<lparr>pages := r\<rparr>) R = live s R"
proof (rule live_cong)
  show "region_blocks (s\<lparr>pages := r\<rparr>) a g = region_blocks s a g" for a g by (cases g) simp_all
qed

text \<open>A free list and the count of one arena change together.\<close>

definition relist :: "kheap \<Rightarrow> nat \<Rightarrow> u32 \<Rightarrow> u32 list \<Rightarrow> kheap" where
  "relist s d a l = set_free_cnt (set_free_list s d l) a (of_nat (length (filter (\<lambda>b. pg_round_down b = a) l)))"

lemma set_free_cnt_simps [simp]:
  "descs (set_free_cnt s a n) = descs s" "descs_addr (set_free_cnt s a n) = descs_addr s"
  "ram_ok (pages (set_free_cnt s a n)) = ram_ok (pages s)" "taken (pages (set_free_cnt s a n)) = taken (pages s)"
  "magic (set_free_cnt s a n) = magic s" "arena_desc (set_free_cnt s a n) = arena_desc s"
  "free_cnt (set_free_cnt s a n) a' = (if a' = a then n else free_cnt s a')"
  "descs_ok (set_free_cnt s a n) = descs_ok s" "desc_ptr (set_free_cnt s a n) = desc_ptr s"
  by (auto simp: set_free_cnt_def magic_def arena_desc_def free_cnt_def descs_ok_def desc_ptr_def fun_eq_iff)

lemma hinv_relist:
  assumes inv: "hinv s R" and a: "R a = Some (Arena d)" and l: "distinct l"
    and mem: "\<And>b. b \<in> set l \<Longrightarrow> \<exists>a k. R a = Some (Arena d) \<and> k < bcount d \<and> b = block_at a d k"
    and other: "\<And>a'. a' \<noteq> a \<Longrightarrow> filter (\<lambda>b. pg_round_down b = a') l = free_in s d a'"
  shows "hinv (relist s d a l) R"
proof -
  have d: "d < 7" "d < length (descs s)" using region_arena [OF inv a] by (simp_all add: arena_hdr_def descs_ok_def)
  have fl: "fl (relist s d a l) i = (if i = d then l else fl s i)" for i using d(2) by (simp add: relist_def)
  have fi: "free_in (relist s d a l) i a' = free_in s i a'" if "a' \<noteq> a \<or> i \<noteq> d" for i a'
    using that other by (auto simp: free_in_def fl)
  have "region_ok (relist s d a l) a' g" if g: "R a' = Some g" for a' g
  proof (cases "a' = a")
    case True
    then have g: "g = Arena d" using g a by simp
    note r = region_facts [OF inv a]
    have "free_in (relist s d a l) d a = filter (\<lambda>b. pg_round_down b = a) l" by (simp add: free_in_def fl)
    then show ?thesis using True g r d(1) by (simp add: region_ok_def relist_def)
  next
    case False
    show ?thesis
    proof (rule region_ok_cong)
      show "region_ok s a' g" using g inv by (simp add: hinv_def)
      show "free_in (relist s d a l) i a' = free_in s i a'" for i using fi False by simp
    qed (use False region_facts(5) [OF inv g] in \<open>simp_all add: relist_def set_free_cnt_def\<close>)
  qed
  moreover have "free_ok (relist s d a l) R i" if "i < 7" for i
    using that inv l mem by (auto simp: hinv_def free_ok_def fl)
  ultimately show ?thesis using inv by (simp add: hinv_def) (simp add: relist_def)
qed

lemma relist_frame:
  assumes "hinv s R" "R a = Some (Arena d)" "R a' = Some g" "x \<in> zone a' g"
  shows "get_byte (pages (relist s d a l)) x = get_byte (pages s) x"
  using header_apart [OF assms(1-4)] by (simp add: relist_def set_free_cnt_def byte_put_word)

text \<open>A new region.\<close>

lemma hinv_add:
  assumes inv: "hinv s R" and a: "pg_ofs a = 0" "PHYS_BASE \<le> a" "unat a + page_bytes * region_pages g \<le> 2 ^ 32" "0 < region_pages g"
    and fresh: "run a (region_pages g) \<inter> taken (pages s) = {}"
    and pages: "ram_ok (pages s')" "taken (pages s') = taken (pages s) \<union> run a (region_pages g)"
      "\<And>x. x \<noteq> a \<Longrightarrow> page_words (pages s') x = page_words (pages s) x"
    and hdr: "magic s' a = ARENA_MAGIC" "region_desc s' a g"
    and descs: "descs_ok s'" "descs_addr s' = descs_addr s"
    and lists: "\<And>i. i < 7 \<Longrightarrow> fl s' i = fl s i @ (if g = Arena i then map (block_at a i) [0..<bcount i] else [])"
  shows "hinv s' (R(a \<mapsto> g))" "R a = None" "\<And>i a'. i < 7 \<Longrightarrow> a' \<noteq> a \<Longrightarrow> free_in s' i a' = free_in s i a'"
    "live s' (R(a \<mapsto> g)) = live s R \<union> region_blocks s' a g"
proof -
  have ap: "run a' (region_pages g') \<inter> run a (region_pages g) = {}" if "R a' = Some g'" for a' g'
    using region_facts(5) [OF inv that] fresh by blast
  show none: "R a = None"
    using ap [of a] region_facts(9) [OF inv, of a] in_run [OF a(4), of a] by (cases "R a") auto
  have le: "unat a + page_bytes \<le> 2 ^ 32" using a(3,4) by (cases "region_pages g") simp_all
  have pg: "pg_round_down b = a" if "b \<in> set (map (block_at a i) [0..<bcount i])" for b i
    using that block_at_facts(2) [OF a(1) le] by auto
  show fi: "free_in s' i a' = free_in s i a'" if "i < 7" "a' \<noteq> a" for i a'
    using that pg by (auto simp: free_in_def lists filter_empty_conv)
  have old: "fl s' i = fl s i" if "i < 7" "g \<noteq> Arena i" for i using lists that by simp
  have apart: "apart (R(a \<mapsto> g))" using inv ap unfolding hinv_def apart_def by (auto split: if_splits)
  have "region_ok s' a' g'" if "R a' = Some g'" for a' g'
  proof (rule region_ok_cong)
    have ne: "a' \<noteq> a" using that none by auto
    show "region_ok s a' g'" using that inv by (simp add: hinv_def)
    show "free_in s' i a' = free_in s i a'" if "g' = Arena i" for i
      using fi ne region_facts(7) [OF inv \<open>R a' = Some g'\<close>] that by simp
    show "page_words (pages s') a' k = page_words (pages s) a' k" for k using pages(3) [OF ne] by simp
  qed (use pages descs region_facts(5) [OF inv that] in auto)
  moreover have "region_ok s' a g" using a hdr pages(2) by (simp add: region_ok_def)
  moreover have "free_ok s' (R(a \<mapsto> g)) i" if i: "i < 7" for i
  proof -
    have f: "free_ok s R i" using inv i by (simp add: hinv_def)
    have n: "distinct (map (block_at a i) [0..<bcount i])"
      using block_at_inj [OF a(1) le] by (auto simp: distinct_map inj_on_def)
    have "b \<notin> set (fl s i)" if b: "b \<in> set (map (block_at a i) [0..<bcount i])" for b
    proof
      assume "b \<in> set (fl s i)"
      then obtain a' k where "R a' = Some (Arena i)" "k < bcount i" "b = block_at a' i k" using f by (auto simp: free_ok_def)
      moreover from this have "pg_round_down b = a'" using block_at_facts(2) region_arena [OF inv] by (simp add: arena_hdr_def)
      ultimately show False using pg [OF b] none by simp
    qed
    then show ?thesis using f n none unfolding free_ok_def lists [OF i] by (auto; fastforce)
  qed
  ultimately show "hinv s' (R(a \<mapsto> g))" using pages descs apart by (auto simp: hinv_def)
  have "region_blocks s' a' g' = region_blocks s a' g'" if "R a' = Some g'" for a' g'
  proof (cases g')
    case (Arena i)
    have h: "arena_hdr s a' i" using region_arena [OF inv] that Arena by simp
    then have "pg_round_down (block_at a' i k) = a'" if "k < bcount i" for k using block_at_facts(2) that by (simp add: arena_hdr_def)
    moreover have "a' \<noteq> a" using none that by auto
    ultimately have "block_at a' i k \<notin> set (map (block_at a i) [0..<bcount i])" if "k < bcount i" for k using pg that by metis
    then show ?thesis using Arena lists [of i] h by (auto simp: arena_hdr_def)
  qed simp
  then show "live s' (R(a \<mapsto> g)) = live s R \<union> region_blocks s' a g" using live_upd [of s' R a g] none live_cong [of R s' s] by (auto simp: fun_upd_idem)
qed

text \<open>A region is given back.\<close>

lemma hinv_drop:
  assumes inv: "hinv s R" and a: "R a = Some g"
    and pages: "ram_ok (pages s')" "taken (pages s') = taken (pages s) - run a (region_pages g)"
      "\<And>x. x \<notin> run a (region_pages g) \<Longrightarrow> page_words (pages s') x = page_words (pages s) x"
    and descs: "descs_ok s'" "descs_addr s' = descs_addr s"
    and lists: "\<And>i. i < 7 \<Longrightarrow> fl s' i = filter (\<lambda>b. pg_round_down b \<noteq> a) (fl s i)"
  shows "hinv s' (R(a := None))" "\<And>i a'. i < 7 \<Longrightarrow> a' \<noteq> a \<Longrightarrow> free_in s' i a' = free_in s i a'"
    "live s' (R(a := None)) = live s R - region_blocks s a g"
proof -
  show fi: "free_in s' i a' = free_in s i a'" if "i < 7" "a' \<noteq> a" for i a'
    using that by (auto simp: free_in_def lists intro: filter_cong)
  have ap: "run a' (region_pages g') \<inter> run a (region_pages g) = {}" if "R a' = Some g'" "a' \<noteq> a" for a' g'
    using inv a that unfolding hinv_def apart_def by blast
  have "region_ok s' a' g'" if g': "R a' = Some g'" "a' \<noteq> a" for a' g'
  proof (rule region_ok_cong)
    show "region_ok s a' g'" using g' inv by (simp add: hinv_def)
    show "free_in s' i a' = free_in s i a'" if "g' = Arena i" for i
      using fi g' region_facts(7) [OF inv g'(1)] that by simp
    have "a' \<notin> run a (region_pages g)" using ap [OF g'] region_facts(9) [OF inv g'(1)] by blast
    then show "page_words (pages s') a' k = page_words (pages s) a' k" for k using pages(3) by simp
    show "run a' (region_pages g') \<subseteq> taken (pages s')" using pages(2) ap [OF g'] region_facts(5) [OF inv g'(1)] by blast
  qed (use descs in simp)
  moreover have "apart (R(a := None))" using inv unfolding hinv_def apart_def by (auto split: if_splits)
  moreover have "free_ok s' (R(a := None)) i" if i: "i < 7" for i
  proof -
    have f: "free_ok s R i" using inv i by (simp add: hinv_def)
    have "\<exists>a' k. (R(a := None)) a' = Some (Arena i) \<and> k < bcount i \<and> b = block_at a' i k" if b: "b \<in> set (fl s' i)" for b
    proof -
      obtain a' k where k: "R a' = Some (Arena i)" "k < bcount i" "b = block_at a' i k" "pg_round_down b \<noteq> a"
        using f b lists [OF i] by (auto simp: free_ok_def)
      then have "a' \<noteq> a" using block_at_facts(2) region_arena [OF inv k(1)] by (auto simp: arena_hdr_def)
      then show ?thesis using k by auto
    qed
    then show ?thesis using f lists [OF i] by (simp add: free_ok_def)
  qed
  ultimately show "hinv s' (R(a := None))" using pages descs by (auto simp: hinv_def split: if_splits)
  have same: "region_blocks s' a' g' = region_blocks s a' g'" if g': "(R(a := None)) a' = Some g'" for a' g'
  proof (cases g')
    case (Arena i)
    have ne: "a' \<noteq> a" "R a' = Some g'" using g' by (auto split: if_splits)
    have h: "arena_hdr s a' i" using region_arena [OF inv] ne Arena by simp
    then have "pg_round_down (block_at a' i k) \<noteq> a" if "k < bcount i" for k
      using block_at_facts(2) [of a' k i] that ne by (simp add: arena_hdr_def)
    then show ?thesis using Arena lists [of i] h by (auto simp: arena_hdr_def)
  qed simp
  have dis: "region_blocks s a' g' \<inter> region_blocks s a g = {}" if "R a' = Some g'" "a' \<noteq> a" for a' g'
    using zone_unique [OF inv a that(1)] block_zone(3) [OF inv a] block_zone(3) [OF inv that(1)] that(2) by blast
  have "x \<notin> region_blocks s a g" if "x \<in> live s (R(a := None))" for x
    using that
  proof (rule live_region)
    fix a' g' assume "(R(a := None)) a' = Some g'" "x \<in> region_blocks s a' g'"
    then show ?thesis using dis [of a' g'] by (auto split: if_splits)
  qed
  then have "live s (R(a := None)) = live s R - region_blocks s a g" using live_split [of R a g s] a by auto
  moreover have "live s' (R(a := None)) = live s (R(a := None))" by (rule live_cong) (rule same)
  ultimately show "live s' (R(a := None)) = live s R - region_blocks s a g" by simp
qed

lemma drop_frame:
  assumes "hinv s R" "R a = Some g" "\<And>x. x \<notin> run a (region_pages g) \<Longrightarrow> page_words r x = page_words (pages s) x"
    and "R a' = Some g'" "a' \<noteq> a" "x \<in> zone a' g'"
  shows "get_byte r x = get_byte (pages s) x"
proof -
  have "pg_round_down x \<notin> run a (region_pages g)" using region_unique [OF assms(1,2,4)] assms(5,6) by (auto simp: zone_def)
  then show ?thesis by (simp add: get_byte_def assms(3))
qed

section \<open>The operations keep the invariant\<close>

lemma relist_blocks:
  assumes "hinv s R" "R a = Some (Arena d)"
  shows "fl (relist s d a l) i = (if i = d then l else fl s i)"
    "region_blocks (relist s d a l) a' (Arena i) = block_at a' i ` {..<bcount i} - set (if i = d then l else fl s i)"
  using hdr_length [OF region_arena [OF assms]] by (simp_all add: relist_def)

lemma relist_free_in:
  assumes "hinv s R" "R a = Some (Arena d)" "\<And>a'. a' \<noteq> a \<Longrightarrow> filter (\<lambda>b. pg_round_down b = a') l = free_in s d a'" "a' \<noteq> a \<or> i \<noteq> d"
  shows "free_in (relist s d a l) i a' = free_in s i a'"
  using assms(3,4) relist_blocks(1) [OF assms(1,2)] by (auto simp: free_in_def)

lemma relist_live:
  assumes inv: "hinv s R" and a: "R a = Some (Arena d)"
    and l: "\<And>a' k. R a' = Some (Arena d) \<Longrightarrow> a' \<noteq> a \<Longrightarrow> k < bcount d \<Longrightarrow> block_at a' d k \<in> set l \<longleftrightarrow> block_at a' d k \<in> set (fl s d)"
  shows "live (relist s d a l) R = (block_at a d ` {..<bcount d} - set l) \<union> live s (R(a := None))"
proof -
  have "region_blocks (relist s d a l) a' g = region_blocks s a' g" if "(R(a := None)) a' = Some g" for a' g
    using that l relist_blocks(2) [OF inv a] by (cases g) (auto split: if_splits)
  then have "live (relist s d a l) (R(a := None)) = live s (R(a := None))" by (rule live_cong)
  then show ?thesis using live_split [of R a "Arena d" "relist s d a l"] a relist_blocks(2) [OF inv a] by simp
qed

text \<open>A block leaves its free list.\<close>

lemma pop_block:
  assumes inv: "hinv s R" and d: "d < 7" and f: "fl s d = b # l"
  obtains a k where "R a = Some (Arena d)" "k < bcount d" "b = block_at a d k"
    "block_to_arena (set_free_list s d l) b = Some a"
    "set_free_cnt (set_free_list s d l) a (free_cnt s a - 1) = relist s d a l"
    "hinv (relist s d a l) R" "b \<notin> live s R" "live (relist s d a l) R = insert b (live s R)"
    "b \<in> region_blocks (relist s d a l) a (Arena d)" "in_use (relist s d a l) a (Arena d)"
    "\<And>a' i. a' \<noteq> a \<or> i \<noteq> d \<Longrightarrow> free_in (relist s d a l) i a' = free_in s i a'"
proof -
  have fo: "distinct (b # l)" "\<And>b'. b' \<in> set (b # l) \<Longrightarrow> \<exists>a k. R a = Some (Arena d) \<and> k < bcount d \<and> b' = block_at a d k"
    using inv d unfolding hinv_def free_ok_def f [symmetric] by blast+
  obtain a k where ak: "R a = Some (Arena d)" "k < bcount d" "b = block_at a d k" using fo(2) [of b] by auto
  have h: "arena_hdr s a d" using region_arena [OF inv ak(1)] .
  have pg: "pg_round_down b = a" using block_at_facts(2) [OF _ _ ak(2)] h ak(3) by (simp add: arena_hdr_def)
  have fi: "free_in s d a = b # filter (\<lambda>b. pg_round_down b = a) l" using pg f by (simp add: free_in_def)
  have ot: "filter (\<lambda>b. pg_round_down b = a') l = free_in s d a'" if "a' \<noteq> a" for a' using pg f that by (simp add: free_in_def)
  have "free_cnt s a = of_nat (length (free_in s d a))" using region_facts(7) [OF inv ak(1)] by simp
  then have cnt: "free_cnt s a - 1 = of_nat (length (filter (\<lambda>b. pg_round_down b = a) l))" by (simp add: fi)
  have pgo: "pg_round_down (block_at a' d j) = a'" if "R a' = Some (Arena d)" "j < bcount d" for a' j
    using block_at_facts(2) [OF _ _ that(2)] region_arena [OF inv that(1)] by (simp add: arena_hdr_def)
  have lv: "live (relist s d a l) R = (block_at a d ` {..<bcount d} - set l) \<union> live s (R(a := None))"
    using pgo pg f by (intro relist_live [OF inv ak(1)]) auto
  have "live s R = (block_at a d ` {..<bcount d} - set (b # l)) \<union> live s (R(a := None))"
    using live_split [of R a "Arena d" s] ak(1) f by simp
  then have lv': "live (relist s d a l) R = insert b (live s R)" using lv ak(2,3) fo(1) by auto
  have "b \<notin> live s R"
  proof
    assume "b \<in> live s R"
    then obtain a' g where g: "R a' = Some g" "b \<in> region_blocks s a' g" by (rule live_region)
    have "b \<in> bytes_of b (bsize d)" using bsize_bounds(1) by (simp add: bytes_of_def)
    then have "b \<in> zone a (Arena d)" using block_bytes_page [OF _ _ ak(2), of a b] h ak(3) by (simp add: zone_def arena_hdr_def in_run)
    then have "a' = a" using zone_unique [OF inv ak(1) g(1)] block_zone(3) [OF inv g] by blast
    moreover from this have "g = Arena d" using g(1) ak(1) by simp
    ultimately show False using g(2) f by simp
  qed
  moreover have "in_use (relist s d a l) a (Arena d)"
    using free_in_distinct(3) [OF inv ak(1)] relist_blocks(1) [OF inv ak(1), of l d] by (simp add: in_use_def fi) (simp add: free_in_def)
  moreover have "b \<in> region_blocks (relist s d a l) a (Arena d)" using relist_blocks(2) [OF inv ak(1), of l a d] ak fo(1) by auto
  moreover have "hinv (relist s d a l) R" by (rule hinv_relist [OF inv ak(1)]) (use fo ot in auto)
  moreover have "block_to_arena (set_free_list s d l) b = Some a" using block_to_arena_small [of "set_free_list s d l" a d k] h ak by simp
  moreover have "set_free_cnt (set_free_list s d l) a (free_cnt s a - 1) = relist s d a l" by (simp add: relist_def cnt)
  ultimately show ?thesis using that [OF ak] lv' relist_free_in [OF inv ak(1) ot] by blast
qed

lemma find_desc_spec: "find_desc ds sz \<le> length ds \<and> (find_desc ds sz < length ds \<longrightarrow> sz \<le> block_size (ds ! find_desc ds sz))"
  by (induction ds) auto

lemma set_arena_simps [simp]:
  "descs (set_arena s a m d n) = descs s" "descs_addr (set_arena s a m d n) = descs_addr s"
  "ram_ok (pages (set_arena s a m d n)) = ram_ok (pages s)" "taken (pages (set_arena s a m d n)) = taken (pages s)"
  "magic (set_arena s a m d n) a = m" "arena_desc (set_arena s a m d n) a = d" "free_cnt (set_arena s a m d n) a = n"
  "x \<noteq> a \<Longrightarrow> page_words (pages (set_arena s a m d n)) x = page_words (pages s) x"
  "desc_ptr (set_arena s a m d n) = desc_ptr s" "descs_ok (set_arena s a m d n) = descs_ok s"
  by (auto simp: set_arena_def magic_def arena_desc_def free_cnt_def desc_ptr_def descs_ok_def fun_eq_iff)

lemma pool_range: "i + n \<le> c \<Longrightarrow> u + page_bytes * c \<le> m \<Longrightarrow> u + page_bytes * i + page_bytes * n \<le> m"
  by linarith

lemma palloc_kernel_pages:
  assumes "ram_ok r" "palloc_get_multiple r 0 n = Some (a, r')"
  obtains "a = 0" "r' = r" "n = 0 \<or> pool_full (get_pool r False) n"
  | "a \<noteq> 0" "0 < n" "ram_ok r'" "PHYS_BASE \<le> a" "pg_ofs a = 0" "unat a + page_bytes * n \<le> 2 ^ 32" "run a n \<inter> taken r = {}"
    "taken r' = taken r \<union> run a n" "page_words r' = page_words r"
proof (cases "n = 0")
  case True
  then show ?thesis using assms(2) that(1) by (simp add: palloc_get_multiple_def Let_def)
next
  case False
  note spec = palloc_get_multiple_spec [OF assms(1) _ refl, of n 0]
  show ?thesis
  proof (cases "pool_full (get_pool r False) n")
    case True
    then show ?thesis using spec assms(2) False that(1) by simp
  next
    case nf: False
    then obtain i where i: "i + n \<le> bit_cnt (used_map (get_pool r False))" "a = page_at (get_pool r False) i" "ram_ok r'"
      "PHYS_BASE \<le> a" "pg_ofs a = 0" "run a n \<inter> taken r = {}" "taken r' = taken r \<union> run a n" "page_words r' = page_words r"
      using spec assms(2) False by auto
    have p: "pool_ok (get_pool r False)" using ram_ok_pool [OF assms(1)] .
    have "unat a = unat (base (get_pool r False)) + page_bytes * i" using page_at_unat [OF p] i(1,2) False by simp
    moreover have "unat (base (get_pool r False)) + page_bytes * bit_cnt (used_map (get_pool r False)) \<le> 2 ^ 32"
      using p by (simp add: pool_ok_def)
    ultimately have "unat a + page_bytes * n \<le> 2 ^ 32" using i(1) by (metis pool_range)
    moreover have "a \<noteq> 0" using i(4) by (auto simp: PHYS_BASE_def)
    ultimately show ?thesis using that(2) i False by blast
  qed
qed

lemma refill:
  assumes inv: "hinv s R" and d: "d < 7" and empty: "fl s d = []"
    and a: "PHYS_BASE \<le> a" "pg_ofs a = 0" "unat a + page_bytes \<le> 2 ^ 32" "a \<notin> taken (pages s)"
    and r: "ram_ok r" "taken r = insert a (taken (pages s))" "page_words r = page_words (pages s)"
  defines "n \<equiv> blocks_per_arena (descs s ! d)"
  shows "\<exists>s'. add_blocks (set_arena (s\<lparr>pages := r\<rparr>) a ARENA_MAGIC (desc_ptr s d) n) d a [0..<unat n] = Some s' \<and>
     hinv s' (R(a \<mapsto> Arena d)) \<and> R a = None \<and> live s' (R(a \<mapsto> Arena d)) = live s R \<and> fl s' d \<noteq> [] \<and>
     (\<forall>i < 7. \<forall>a'. a' \<noteq> a \<longrightarrow> free_in s' i a' = free_in s i a') \<and>
     (\<forall>a' g x. R a' = Some g \<longrightarrow> x \<in> zone a' g \<longrightarrow> get_byte (pages s') x = get_byte (pages s) x)"
proof -
  have ok: "descs_ok s" using inv by (simp add: hinv_def)
  define s0 where "s0 = set_arena (s\<lparr>pages := r\<rparr>) a ARENA_MAGIC (desc_ptr s d) n"
  define bs where "bs = map (block_at a d) [0..<bcount d]"
  define s' where "s' = set_free_list s0 d bs"
  have dp: "desc_ptr (s\<lparr>pages := r\<rparr>) = desc_ptr s" "descs_ok (s\<lparr>pages := r\<rparr>)" using ok by (simp_all add: desc_ptr_def descs_ok_def fun_eq_iff)
  have "a \<noteq> 0" using a(1) by (auto simp: PHYS_BASE_def)
  then have h: "arena_hdr s0 a d" using a d ok dp by (simp add: s0_def arena_hdr_def)
  have dl: "d < length (descs s0)" using hdr_length [OF h] .
  have n: "n = of_nat (bcount d)" "unat n = bcount d" using hdr_sizes(2,4) [OF h] by (simp_all add: n_def s0_def)
  have e: "add_blocks s0 d a [0..<unat n] = Some s'"
    using add_blocks_eq [OF h, of "[0..<bcount d]"] empty n(2) by (simp add: s'_def bs_def s0_def atLeast0LessThan)
  have fl: "fl s' i = fl s i @ (if Arena d = Arena i then map (block_at a i) [0..<bcount i] else [])" for i
    using dl empty by (simp add: s'_def bs_def) (simp add: s0_def)
  have "pg_round_down b = a" if "b \<in> set bs" for b using that block_at_facts(2) [OF a(2,3)] by (auto simp: bs_def)
  then have fi: "length (free_in s' d a) = bcount d" using dl by (simp add: free_in_def s'_def bs_def)
  have w: "page_words (pages s') x = page_words (pages s) x" if "x \<noteq> a" for x using that by (simp add: s'_def s0_def r)
  have al: "free_cnt s' a = n" "magic s' a = ARENA_MAGIC" "arena_desc s' a = desc_ptr s' d" using dp by (simp_all add: s'_def s0_def)
  have "hinv s' (R(a \<mapsto> Arena d)) \<and> R a = None \<and> (\<forall>i a'. i < 7 \<longrightarrow> a' \<noteq> a \<longrightarrow> free_in s' i a' = free_in s i a') \<and>
      live s' (R(a \<mapsto> Arena d)) = live s R \<union> region_blocks s' a (Arena d)"
  proof (intro conjI allI impI)
    have run: "run a (region_pages (Arena d)) = {a}" using run_1 by simp
    note add = hinv_add [OF inv a(2,1), of "Arena d" s', unfolded run]
    have prem: "ram_ok (pages s')" "taken (pages s') = taken (pages s) \<union> {a}" "{a} \<inter> taken (pages s) = {}"
      "descs_ok s'" "descs_addr s' = descs_addr s" "region_desc s' a (Arena d)"
      using r a ok d fi n al dp by (simp_all add: s'_def s0_def)
    show "hinv s' (R(a \<mapsto> Arena d))" by (rule add(1)) (use prem a al w fl in auto)
    show "R a = None" by (rule add(2)) (use prem a al w fl in auto)
    show "free_in s' i a' = free_in s i a'" if "i < 7" "a' \<noteq> a" for i a' by (rule add(3)) (use prem a al w fl that in auto)
    show "live s' (R(a \<mapsto> Arena d)) = live s R \<union> region_blocks s' a (Arena d)" by (rule add(4)) (use prem a al w fl in auto)
  qed
  moreover have "region_blocks s' a (Arena d) = {}" using fl [of d] by auto
  moreover have "fl s' d \<noteq> []" using fl [of d] bcount_bounds(1) [OF d] by simp
  moreover have "get_byte (pages s') x = get_byte (pages s) x" if "R a' = Some g" "x \<in> zone a' g" for a' g x
  proof -
    have "pg_round_down x \<noteq> a" using region_facts(5) [OF inv that(1)] that(2) a(4) by (auto simp: zone_def)
    then show ?thesis by (simp add: get_byte_def w)
  qed
  ultimately show ?thesis using e unfolding s0_def by blast
qed

lemma palloc_kernel_total: "ram_ok r \<Longrightarrow> \<exists>a r'. palloc_get_multiple r 0 n = Some (a, r')"
proof (cases "n = 0")
  case True
  then show ?thesis by (simp add: palloc_get_multiple_def Let_def)
next
  case False
  assume "ram_ok r"
  from palloc_get_multiple_spec [OF this _ refl, of n 0] False show ?thesis by (cases "pool_full (get_pool r False) n") auto
qed

definition busy :: "kheap \<Rightarrow> (u32 \<rightharpoonup> region) \<Rightarrow> bool" where
  "busy s R \<longleftrightarrow> (\<forall>a g. R a = Some g \<longrightarrow> in_use s a g)"

text \<open>What \<open>malloc\<close> did: nothing, or it handed out a new block and kept the bytes of every other one.\<close>

definition kept :: "kheap \<Rightarrow> (u32 \<rightharpoonup> region) \<Rightarrow> kheap \<Rightarrow> bool" where
  "kept s R s' \<longleftrightarrow> (\<forall>a g x. R a = Some g \<longrightarrow> x \<in> zone a g \<longrightarrow> get_byte (pages s') x = get_byte (pages s) x)"

definition got :: "kheap \<Rightarrow> (u32 \<rightharpoonup> region) \<Rightarrow> u32 \<Rightarrow> u32 \<Rightarrow> kheap \<Rightarrow> bool" where
  "got s R sz p s' \<longleftrightarrow> (\<exists>R' a g. hinv s' R' \<and> busy s' R' \<and> R \<subseteq>\<^sub>m R' \<and> R' a = Some g \<and> p \<in> region_blocks s' a g \<and>
     (unat sz + 4107 < 2 ^ 32 \<longrightarrow> unat sz \<le> capacity g) \<and>
     p \<notin> live s R \<and> live s' R' = insert p (live s R) \<and> kept s R s')"

lemma in_use_cong: "in_use s a g \<Longrightarrow> (\<And>i. g = Arena i \<Longrightarrow> free_in s' i a = free_in s i a) \<Longrightarrow> in_use s' a g"
  by (simp add: in_use_def)

lemma big_pages:
  fixes sz :: u32
  assumes "unat sz + 4107 < 2 ^ 32"
  shows "unat ((sz + sizeof_arena + PGSIZE - 1) div PGSIZE) = (unat sz + 4107) div 4096"
proof -
  have e: "sz + sizeof_arena + PGSIZE - 1 = sz + of_nat 4107" by (simp add: PGSIZE_eq)
  show ?thesis unfolding e unat_div_distrib unat_add_of_nat [OF assms] by (simp add: PGSIZE_eq)
qed

lemma malloc_big:
  assumes inv: "hinv s R" and b: "busy s R" and sz: "sz \<noteq> 0" and d: "find_desc (descs s) sz = length (descs s)"
  shows "\<exists>p s'. malloc s sz = Some (p, s') \<and> (if p = 0 then s' = s else got s R sz p s')"
proof -
  define c where "c = (sz + sizeof_arena + PGSIZE - 1) div PGSIZE"
  have ok: "ram_ok (pages s)" "descs_ok s" using inv by (simp_all add: hinv_def)
  obtain a r where g: "palloc_get_multiple (pages s) 0 (unat c) = Some (a, r)" using palloc_kernel_total [OF ok(1)] by blast
  define s' where "s' = set_arena (s\<lparr>pages := r\<rparr>) a ARENA_MAGIC 0 c"
  have e: "malloc s sz = Some (if a = 0 then (0, s\<lparr>pages := r\<rparr>) else (a + sizeof_arena, s'))"
    using g sz d unfolding malloc_def Let_def c_def [symmetric] s'_def by simp
  from ok(1) g show ?thesis
  proof (cases rule: palloc_kernel_pages)
    case 1
    then show ?thesis using e by simp
  next
    case 2
    have dp: "desc_ptr (s\<lparr>pages := r\<rparr>) = desc_ptr s" "descs_ok (s\<lparr>pages := r\<rparr>)"
      using ok by (simp_all add: desc_ptr_def descs_ok_def fun_eq_iff)
    have w: "page_words (pages s') x = page_words (pages s) x" if "x \<noteq> a" for x using that 2 by (simp add: s'_def)
    have prem: "ram_ok (pages s')" "taken (pages s') = taken (pages s) \<union> run a (unat c)" "magic s' a = ARENA_MAGIC"
      "region_desc s' a (Big (unat c))" "descs_ok s'" "descs_addr s' = descs_addr s" "\<And>i. fl s' i = fl s i"
      using 2 dp by (simp_all add: s'_def)
    note add = hinv_add [OF inv 2(5,4), of "Big (unat c)" s', simplified region_pages.simps, OF 2(6,2,7) prem(1,2) w prem(3,4,5,6)]
    have "hinv s' (R(a \<mapsto> Big (unat c)))" and none: "R a = None" by (rule add; simp add: prem)+
    moreover have lv: "live s' (R(a \<mapsto> Big (unat c))) = insert (a + 12) (live s R)" by (subst add(4)) (simp_all add: prem)
    moreover have "busy s' (R(a \<mapsto> Big (unat c)))" unfolding busy_def
    proof (intro allI impI)
      fix a' g assume g: "(R(a \<mapsto> Big (unat c))) a' = Some g"
      show "in_use s' a' g"
      proof (cases "a' = a")
        case False
        then have "in_use s a' g" using b g by (simp add: busy_def)
        then show ?thesis by (rule in_use_cong) (simp add: free_in_def prem)
      qed (use g in \<open>auto simp: in_use_def\<close>)
    qed
    moreover have kp: "kept s R s'" unfolding kept_def
    proof (intro allI impI)
      fix a' g x assume x: "R a' = Some g" "x \<in> zone a' g"
      have "a \<notin> taken (pages s)" using 2(7) in_run [OF 2(2), of a] by blast
      then have "pg_round_down x \<noteq> a" using region_facts(5) [OF inv x(1)] x(2) by (auto simp: zone_def)
      then show "get_byte (pages s') x = get_byte (pages s) x" by (simp add: get_byte_def w)
    qed
    moreover have "a + 12 \<notin> live s R"
    proof
      assume "a + 12 \<in> live s R"
      then obtain a' g where g: "R a' = Some g" "a + 12 \<in> region_blocks s a' g" by (rule live_region)
      have "page_bytes * 1 \<le> page_bytes * unat c" using 2(2) by (intro mult_le_mono2) simp
      then have "unat a + 12 < 2 ^ 32" using 2(6) by simp
      then have "unat (a + 12) = unat a + 12" using unat_add_of_nat [of a 12] by simp
      then have "pg_round_down (a + 12) = a" using page_offset(1) [OF 2(5), of 0 "a + 12" 12] 2(6) \<open>page_bytes * 1 \<le> page_bytes * unat c\<close> by simp
      then have "a \<in> taken (pages s)" using block_zone(3) [OF inv g] region_facts(5) [OF inv g(1)] by (auto simp: zone_def)
      then show False using 2(7) in_run [OF 2(2), of a] by blast
    qed
    moreover have "unat sz \<le> capacity (Big (unat c))" if "unat sz + 4107 < 2 ^ 32"
      using big_pages [OF that] by (simp add: c_def)
    moreover have "R \<subseteq>\<^sub>m R(a \<mapsto> Big (unat c))" using none by (auto simp: map_le_def)
    ultimately have "got s R sz (a + 12) s'" unfolding got_def by (intro exI [of _ "R(a \<mapsto> Big (unat c))"] exI [of _ a] exI [of _ "Big (unat c)"]) simp
    moreover have "a + 12 \<noteq> 0"
      using block_zone(4) [OF \<open>hinv s' (R(a \<mapsto> Big (unat c)))\<close>, of a "Big (unat c)" "a + 12"] by simp
    ultimately show ?thesis using e 2(1) by simp
  qed
qed

text \<open>Taking a block from a descriptor whose free list is not empty.\<close>

lemma take_block:
  assumes inv: "hinv s R" and d: "d < 7" and ne: "fl s d \<noteq> []"
    and b: "\<And>a g. R a = Some g \<Longrightarrow> in_use s a g \<or> g = Arena d \<and> (\<forall>x \<in> set (fl s d). pg_round_down x = a)"
  shows "\<exists>a p s'. do {
        let b = hd (fl s d);
        let s = set_free_list s d (tl (fl s d));
        a \<leftarrow> block_to_arena s b;
        Some (b, set_free_cnt s a (free_cnt s a - 1))
      } = Some (p, s') \<and> hinv s' R \<and> busy s' R \<and> R a = Some (Arena d) \<and> p \<in> region_blocks s' a (Arena d) \<and>
      p \<notin> live s R \<and> live s' R = insert p (live s R) \<and> kept s R s'"
proof -
  obtain p l where f: "fl s d = p # l" using ne by (cases "fl s d") auto
  obtain a k where p: "R a = Some (Arena d)" "k < bcount d" "p = block_at a d k"
    "block_to_arena (set_free_list s d l) p = Some a"
    "set_free_cnt (set_free_list s d l) a (free_cnt s a - 1) = relist s d a l"
    "hinv (relist s d a l) R" "p \<notin> live s R" "live (relist s d a l) R = insert p (live s R)"
    "p \<in> region_blocks (relist s d a l) a (Arena d)" "in_use (relist s d a l) a (Arena d)"
    "\<And>a' i. a' \<noteq> a \<or> i \<noteq> d \<Longrightarrow> free_in (relist s d a l) i a' = free_in s i a'"
    using pop_block [OF inv d f] by metis
  have pg: "pg_round_down p = a" using block_at_facts(2) [OF _ _ p(2)] region_arena [OF inv p(1)] p(3) by (simp add: arena_hdr_def)
  have "busy (relist s d a l) R" unfolding busy_def
  proof (intro allI impI)
    fix a' g assume g: "R a' = Some g"
    show "in_use (relist s d a l) a' g"
    proof (cases "a' = a")
      case False
      then have "in_use s a' g" using b [OF g] f pg by auto
      then show ?thesis by (rule in_use_cong) (use p(11) False in simp)
    qed (use g p in auto)
  qed
  moreover have "kept s R (relist s d a l)" using relist_frame [OF inv p(1)] by (auto simp: kept_def)
  ultimately show ?thesis using p f by (intro exI [of _ a] exI [of _ p] exI [of _ "relist s d a l"]) (simp add: Let_def)
qed

lemma kept_trans:
  assumes "kept s R s'" "kept s' R' s''" "R \<subseteq>\<^sub>m R'"
  shows "kept s R s''"
  unfolding kept_def
proof (intro allI impI)
  fix a g x assume x: "R a = Some g" "x \<in> zone a g"
  moreover have "R' a = Some g" using assms(3) x(1) by (metis domI map_le_def)
  ultimately show "get_byte (pages s'') x = get_byte (pages s) x" using assms(1,2) by (simp add: kept_def)
qed

lemma malloc_small:
  assumes inv: "hinv s R" and b: "busy s R" and sz: "sz \<noteq> 0" and d: "d < length (descs s)" "find_desc (descs s) sz = d"
  shows "\<exists>p s'. malloc s sz = Some (p, s') \<and>
    (if p = 0 then s' = s \<and> pool_full (kernel_pool (pages s)) 1 else got s R sz p s')"
proof -
  have ok: "ram_ok (pages s)" "descs_ok s" using inv by (simp_all add: hinv_def)
  then have d7: "d < 7" using d by (simp add: descs_ok_def)
  have "sz \<le> block_size (descs s ! d)" using find_desc_spec [of "descs s" sz] d by simp
  moreover have "unat (block_size (descs s ! d)) \<le> bsize d"
    using ok(2) d7 unat_of_nat [of "bsize d", where 'a = 32] by (simp add: descs_ok_def)
  ultimately have cap: "unat sz \<le> capacity (Arena d)" by (simp add: word_le_nat_alt)
  show ?thesis
  proof (cases "fl s d = []")
    case False
    obtain a p s' where t: "do {
        let b = hd (fl s d);
        let s = set_free_list s d (tl (fl s d));
        a \<leftarrow> block_to_arena s b;
        Some (b, set_free_cnt s a (free_cnt s a - 1))
      } = Some (p, s')" "hinv s' R" "busy s' R" "R a = Some (Arena d)" "p \<in> region_blocks s' a (Arena d)"
      "p \<notin> live s R" "live s' R = insert p (live s R)" "kept s R s'"
      using take_block [OF inv d7 False] b unfolding busy_def by blast
    have "malloc s sz = Some (p, s')" using t(1) sz d False by (simp add: malloc_def Let_def)
    moreover have "got s R sz p s'" unfolding got_def using t cap by (intro exI [of _ R] exI [of _ a] exI [of _ "Arena d"]) simp
    moreover have "p \<noteq> 0" using block_zone(4) [OF t(2,4,5)] .
    ultimately show ?thesis by auto
  next
    case True
    obtain a r where g: "palloc_get_page (pages s) 0 = Some (a, r)" "palloc_get_multiple (pages s) 0 1 = Some (a, r)"
      using palloc_kernel_total [OF ok(1), of 1] by (auto simp: palloc_get_page_def)
    from ok(1) g(2) show ?thesis
    proof (cases rule: palloc_kernel_pages)
      case 1
      then have "malloc s sz = Some (0, s)" using g sz d True by (simp add: malloc_def Let_def)
      then show ?thesis using 1(3) by (simp add: get_pool_def)
    next
      case 2
      let ?R = "R(a \<mapsto> Arena d)" let ?n = "blocks_per_arena (descs s ! d)"
      have run: "run a 1 = {a}" by (rule run_1)
      obtain s1 where s1: "add_blocks (set_arena (s\<lparr>pages := r\<rparr>) a ARENA_MAGIC (desc_ptr s d) ?n) d a [0..<unat ?n] = Some s1"
        "hinv s1 ?R" "R a = None" "live s1 ?R = live s R" "fl s1 d \<noteq> []"
        "\<And>i a'. i < 7 \<Longrightarrow> a' \<noteq> a \<Longrightarrow> free_in s1 i a' = free_in s i a'" "kept s R s1"
        using refill [OF inv d7 True 2(4,5), of r] 2 unfolding run kept_def by auto
      have fs: "pg_round_down x = a" if "x \<in> set (fl s1 d)" for x
      proof (rule ccontr)
        assume ne: "pg_round_down x \<noteq> a"
        have "x \<in> set (free_in s1 d (pg_round_down x))" using that by (simp add: free_in_def)
        moreover have "free_in s1 d (pg_round_down x) = []" using s1(6) [OF d7 ne] True by (simp add: free_in_def)
        ultimately show False by simp
      qed
      have bz: "in_use s1 a' g \<or> g = Arena d \<and> (\<forall>x \<in> set (fl s1 d). pg_round_down x = a')" if "?R a' = Some g" for a' g
      proof (cases "a' = a")
        case True
        then show ?thesis using that fs by simp
      next
        case False
        then have "R a' = Some g" using that by simp
        then have "in_use s a' g" "region_desc s a' g" using b region_facts(7) [OF inv] by (simp_all add: busy_def)
        then show ?thesis using s1(6) False by (auto intro: in_use_cong)
      qed
      obtain a' p s' where t: "do {
        let b = hd (fl s1 d);
        let s = set_free_list s1 d (tl (fl s1 d));
        a \<leftarrow> block_to_arena s b;
        Some (b, set_free_cnt s a (free_cnt s a - 1))
      } = Some (p, s')" "hinv s' ?R" "busy s' ?R" "?R a' = Some (Arena d)" "p \<in> region_blocks s' a' (Arena d)"
        "p \<notin> live s1 ?R" "live s' ?R = insert p (live s1 ?R)" "kept s1 ?R s'"
        using take_block [OF s1(2) d7 s1(5) bz] by blast
      have dp: "desc_ptr (s\<lparr>pages := r\<rparr>) d = desc_ptr s d" by (simp add: desc_ptr_def)
      have "malloc s sz = Some (p, s')"
        using t(1) sz d True g(1) 2(1) s1(1,5) dp by (simp add: malloc_def Let_def)
      moreover have le: "R \<subseteq>\<^sub>m ?R" using s1(3) by (auto simp: map_le_def)
      then have "got s R sz p s'" unfolding got_def using t cap s1(4) kept_trans [OF s1(7) t(8) le]
        by (intro exI [of _ ?R] exI [of _ a'] exI [of _ "Arena d"]) simp
      moreover have "p \<noteq> 0" using block_zone(4) [OF t(2,4,5)] .
      ultimately show ?thesis by auto
    qed
  qed
qed

lemma malloc_spec:
  assumes "hinv s R" "busy s R"
  shows "\<exists>p s'. malloc s sz = Some (p, s') \<and> (if p = 0 then s' = s else got s R sz p s')"
proof (cases "sz = 0")
  case False
  consider "find_desc (descs s) sz = length (descs s)" | "find_desc (descs s) sz < length (descs s)"
    using find_desc_spec [of "descs s" sz] by linarith
  then show ?thesis using malloc_big [OF assms False] malloc_small [OF assms False _ refl] by cases (fast, metis)
qed (simp add: malloc_def)

text \<open>Giving a block back.\<close>

lemma palloc_free_run:
  assumes ok: "ram_ok r" and n: "0 < n" and a: "pg_ofs a = 0" "unat a + page_bytes * n \<le> 2 ^ 32" "run a n \<subseteq> taken r"
  shows "\<exists>r'. palloc_free_multiple r a n = Some r' \<and> ram_ok r' \<and> taken r' = taken r - run a n \<and>
    (\<forall>x. x \<notin> run a n \<longrightarrow> page_words r' x = page_words r x)"
proof -
  let ?i = "unat (pg_no a)"
  have m: "unat a mod 4096 = 0" using a(1) by (simp add: aligned_unat)
  have step: "unat (pg_no (a + PGSIZE * of_nat j)) = ?i + j" if "j < n" for j
  proof -
    have e: "a + PGSIZE * of_nat j = a + of_nat (page_bytes * j)" by (simp add: PGSIZE_eq)
    have "page_bytes * Suc j \<le> page_bytes * n" using that by (intro mult_le_mono2) simp
    then have "unat a + page_bytes * j < 2 ^ 32" using a(2) by simp
    then show ?thesis unfolding e pg_no_unat by (simp only: unat_add_of_nat)
  qed
  have "{?i..<?i + n} \<subseteq> page_numbers r"
  proof
    fix x assume x: "x \<in> {?i..<?i + n}"
    then obtain j where j: "j < n" "x = ?i + j" using le_Suc_ex [of ?i x] by auto
    then have "a + PGSIZE * of_nat j \<in> taken r" using a(3) by (auto simp: run_def)
    then show "x \<in> page_numbers r" unfolding page_numbers_def using step [OF j(1)] j(2) by (metis imageI)
  qed
  from ok n this obtain user k where k: "?i = pool_no r user + k" "k + n \<le> pool_size r user"
    "{k..<k + n} \<subseteq> used_bits (used_map (get_pool r user))" by (rule run_in_pool)
  have kb: "k < bit_cnt (used_map (get_pool r user))" using k(2) n by (simp add: pool_size_def)
  have "a = page_at (get_pool r user) k"
    using k(1) page_at_props(3,5) [OF ram_ok_pool [OF ok] kb] by (intro pg_no_inj [OF a(1)]) (simp_all add: pool_no_def)
  then show ?thesis using palloc_free_multiple_spec [OF ok _ n, of k user] k(2) a(3) by (auto simp: pool_size_def fill_pages_run)
qed

definition bytes_kept :: "kheap \<Rightarrow> kheap \<Rightarrow> (u32 \<rightharpoonup> region) \<Rightarrow> bool" where
  "bytes_kept s s' R \<longleftrightarrow> (\<forall>a g q x. R a = Some g \<longrightarrow> q \<in> region_blocks s' a g \<longrightarrow> x \<in> bytes_of q (capacity g) \<longrightarrow>
     get_byte (pages s') x = get_byte (pages s) x)"

definition gave :: "kheap \<Rightarrow> (u32 \<rightharpoonup> region) \<Rightarrow> u32 \<Rightarrow> kheap \<Rightarrow> bool" where
  "gave s R p s' \<longleftrightarrow> (\<exists>R'. hinv s' R' \<and> busy s' R' \<and> R' \<subseteq>\<^sub>m R \<and> live s' R' = live s R - {p} \<and> bytes_kept s s' R')"

lemma free_big:
  assumes inv: "hinv s R" and b: "busy s R" and a: "R a = Some (Big n)"
  shows "\<exists>s'. free s (a + 12) = Some s' \<and> gave s R (a + 12) s'"
proof -
  note r = region_facts [OF inv a, simplified]
  have nz: "a + 12 \<noteq> 0" using block_zone(4) [OF inv a] by simp
  have "page_bytes * 1 \<le> page_bytes * n" using r(3) by (intro mult_le_mono2) simp
  then have le: "unat a + page_bytes \<le> 2 ^ 32" using r(4) by simp
  then have "unat (a + 12) = unat a + 12" using unat_add_of_nat [of a 12] by simp
  then have pg: "pg_round_down (a + 12) = a" "unat (pg_ofs (a + 12)) = 12"
    using page_offset [OF r(1), of 0 "a + 12" 12] le by simp_all
  then have "pg_ofs (a + 12) = 12" by (simp add: word_unat_eq_iff)
  then have ba: "block_to_arena s (a + 12) = Some a" using pg r by (simp add: block_to_arena_def Let_def)
  have n: "unat (of_nat n :: u32) = n" using r(4) by (simp only: unat_of_nat) simp
  have ok: "ram_ok (pages s)" using inv by (simp add: hinv_def)
  obtain r' where r': "palloc_free_multiple (pages s) a n = Some r'" "ram_ok r'" "taken r' = taken (pages s) - run a n"
    "\<And>x. x \<notin> run a n \<Longrightarrow> page_words r' x = page_words (pages s) x"
    using palloc_free_run [OF ok r(3,1) _ r(5)] r(4) by auto
  let ?s = "s\<lparr>pages := r'\<rparr>"
  have e: "free s (a + 12) = Some ?s" using nz ba r(7) n r'(1) by (simp add: free_def)
  have nf: "pg_round_down x \<noteq> a" if x: "x \<in> set (fl s i)" and i: "i < 7" for x i
  proof -
    obtain a' k where k: "R a' = Some (Arena i)" "k < bcount i" "x = block_at a' i k" using inv x i unfolding hinv_def free_ok_def by blast
    then have "pg_round_down x = a'" using block_at_facts(2) region_arena [OF inv k(1)] by (simp add: arena_hdr_def)
    then show ?thesis using k(1) a by auto
  qed
  have prem: "ram_ok (pages ?s)" "taken (pages ?s) = taken (pages s) - run a (region_pages (Big n))"
    "descs_ok ?s" "descs_addr ?s = descs_addr s" "\<And>i. i < 7 \<Longrightarrow> fl ?s i = filter (\<lambda>b. pg_round_down b \<noteq> a) (fl s i)"
    "\<And>x. x \<notin> run a (region_pages (Big n)) \<Longrightarrow> page_words (pages ?s) x = page_words (pages s) x"
    using r' inv nf by (auto simp: hinv_def descs_ok_def filter_id_conv)
  note drop = hinv_drop [OF inv a prem(1,2,6,3,4,5)]
  have "busy ?s (R(a := None))" using b by (auto simp: busy_def in_use_def free_in_def split: if_splits)
  moreover have "bytes_kept s ?s (R(a := None))" unfolding bytes_kept_def
  proof (intro allI impI)
    fix a' g q x assume g: "(R(a := None)) a' = Some g" and x: "q \<in> region_blocks ?s a' g" "x \<in> bytes_of q (capacity g)"
    have "x \<in> zone a' g" using block_zone(1) [OF drop(1) g x(1)] x(2) by blast
    then show "get_byte (pages ?s) x = get_byte (pages s) x"
      using drop_frame [OF inv a prem(6), of a' g x] g by (auto split: if_splits)
  qed
  moreover have "R(a := None) \<subseteq>\<^sub>m R" by (auto simp: map_le_def)
  ultimately show ?thesis using e drop(1,3) unfolding gave_def by auto
qed

text \<open>A small block goes to the front of its free list; \<open>push_block\<close> is the heap after that.\<close>

definition push_block :: "kheap \<Rightarrow> nat \<Rightarrow> u32 \<Rightarrow> u32 \<Rightarrow> kheap" where
  "push_block s d a p = (let s0 = s\<lparr>pages := mem_set (pages s) p 0xcc (bsize d)\<rparr> in relist s0 d a (p # fl s0 d))"

lemma push_block_spec:
  assumes inv: "hinv s R" and a: "R a = Some (Arena d)" and p: "p \<in> region_blocks s a (Arena d)"
  shows "hinv (push_block s d a p) R" "live (push_block s d a p) R = live s R - {p}"
    "\<And>a' i. a' \<noteq> a \<or> i \<noteq> d \<Longrightarrow> free_in (push_block s d a p) i a' = free_in s i a'"
    "bytes_kept s (push_block s d a p) R"
    "block_to_arena s p = Some a"
    "push_block s d a p = (let s = s\<lparr>pages := mem_set (pages s) p 0xcc (bsize d)\<rparr>; s = set_free_list s d (p # fl s d)
       in set_free_cnt s a (free_cnt s a + 1))"
proof -
  let ?s0 = "s\<lparr>pages := mem_set (pages s) p 0xcc (bsize d)\<rparr>"
  obtain k where k: "k < bcount d" "p = block_at a d k" "p \<notin> set (fl s d)" using p by auto
  have h: "arena_hdr s a d" using region_arena [OF inv a] .
  then have al: "pg_ofs a = 0" "unat a + page_bytes \<le> 2 ^ 32" "d < 7" by (simp_all add: arena_hdr_def)
  note bf = block_at_facts [OF al(1,2) k(1), folded k(2)] and bz = block_zone [OF inv a p, simplified capacity.simps]
  have inv0: "hinv ?s0 R"
  proof (rule hinv_memory [OF inv])
    fix a' g j assume g: "R a' = Some g" and j: "j < (3 :: nat)"
    show "page_words (mem_set (pages s) p 0xcc (bsize d)) a' j = page_words (pages s) a' j"
      using bz(1) header_apart [OF inv g a] by (intro words_mem_set [OF bf(4) _ j]) blast
  qed (use inv in \<open>simp_all add: hinv_def\<close>)
  have fo: "distinct (fl s d)" "\<And>b. b \<in> set (fl s d) \<Longrightarrow> \<exists>a k. R a = Some (Arena d) \<and> k < bcount d \<and> b = block_at a d k"
    using inv al(3) unfolding hinv_def free_ok_def by blast+
  have ot: "filter (\<lambda>b. pg_round_down b = a') (p # fl ?s0 d) = free_in ?s0 d a'" if "a' \<noteq> a" for a'
    using bf(2) that by (simp add: free_in_def)
  show inv1: "hinv (push_block s d a p) R" unfolding push_block_def Let_def
    by (rule hinv_relist [OF inv0 a]) (use fo k a ot in auto)
  show "free_in (push_block s d a p) i a' = free_in s i a'" if "a' \<noteq> a \<or> i \<noteq> d" for a' i
    unfolding push_block_def Let_def using relist_free_in [OF inv0 a ot that] by (simp add: free_in_def)
  have pgo: "pg_round_down (block_at a' d j) = a'" if "R a' = Some (Arena d)" "j < bcount d" for a' j
    using block_at_facts(2) [OF _ _ that(2)] region_arena [OF inv that(1)] by (simp add: arena_hdr_def)
  have "live (push_block s d a p) R = (block_at a d ` {..<bcount d} - set (p # fl s d)) \<union> live ?s0 (R(a := None))"
    unfolding push_block_def Let_def using pgo bf(2) by (subst relist_live [OF inv0 a]) auto
  moreover have "live s R = (block_at a d ` {..<bcount d} - set (fl s d)) \<union> live s (R(a := None))"
    using live_split [of R a "Arena d" s] a by simp
  moreover have "p \<notin> live s (R(a := None))"
  proof
    assume "p \<in> live s (R(a := None))"
    then obtain a' g where g: "(R(a := None)) a' = Some g" "p \<in> region_blocks s a' g" by (rule live_region)
    then have "a' \<noteq> a" "R a' = Some g" by (auto split: if_splits)
    then show False using zone_unique [OF inv a, of a' g p] block_zone(3) [OF inv _ g(2)] bz(3) by blast
  qed
  ultimately show "live (push_block s d a p) R = live s R - {p}" by (auto simp: live_memory)
  show "block_to_arena s p = Some a" using block_to_arena_small [OF h k(1)] k(2) by simp
  have "free_cnt ?s0 a = of_nat (length (free_in ?s0 d a))" using region_facts(7) [OF inv0 a] by simp
  then show "push_block s d a p = (let s = s\<lparr>pages := mem_set (pages s) p 0xcc (bsize d)\<rparr>; s = set_free_list s d (p # fl s d)
       in set_free_cnt s a (free_cnt s a + 1))"
    using bf(2) by (simp add: push_block_def relist_def Let_def free_in_def add.commute)
  show "bytes_kept s (push_block s d a p) R" unfolding bytes_kept_def
  proof (intro allI impI)
    fix a' g q x assume g: "R a' = Some g" and x: "q \<in> region_blocks (push_block s d a p) a' g" "x \<in> bytes_of q (capacity g)"
    have "q \<in> region_blocks s a' g" using x(1) relist_blocks(1) [OF inv0 a] by (cases g) (auto simp: push_block_def split: if_splits)
    moreover have "q \<in> live (push_block s d a p) R" by (rule live_I [of R a' g]) (use g x in simp_all)
    then have "p \<noteq> q" using \<open>live (push_block s d a p) R = live s R - {p}\<close> by auto
    ultimately have "x \<notin> bytes_of p (bsize d)" using live_apart [OF inv a p g] x(2) by auto
    moreover have "x \<in> zone a' g" using block_zone(1) [OF inv1 g x(1)] x(2) by blast
    ultimately show "get_byte (pages (push_block s d a p)) x = get_byte (pages s) x"
      using relist_frame [OF inv0 a g] get_mem_set [OF bf(4)] by (simp add: push_block_def)
  qed
qed

text \<open>The release of an arena all of whose blocks are free.\<close>

lemma release_arena:
  assumes inv: "hinv s R" and a: "R a = Some (Arena d)" and full: "length (free_in s d a) = bcount d"
  shows "\<exists>s' r. remove_blocks s d a [0..<bcount d] = Some s' \<and> palloc_free_page (pages s') a = Some r \<and>
     hinv (s'\<lparr>pages := r\<rparr>) (R(a := None)) \<and> live (s'\<lparr>pages := r\<rparr>) (R(a := None)) = live s R \<and>
     (\<forall>i < 7. \<forall>a'. a' \<noteq> a \<longrightarrow> free_in (s'\<lparr>pages := r\<rparr>) i a' = free_in s i a') \<and>
     bytes_kept s (s'\<lparr>pages := r\<rparr>) (R(a := None))"
proof -
  have h: "arena_hdr s a d" using region_arena [OF inv a] .
  then have al: "pg_ofs a = 0" "unat a + page_bytes \<le> 2 ^ 32" "d < 7" "d < length (descs s)" by (simp_all add: arena_hdr_def descs_ok_def)
  let ?B = "block_at a d ` {..<bcount d}"
  note fd = free_in_distinct [OF inv a]
  have "card ?B = bcount d" using block_at_inj [OF al(1,2)] by (subst card_image) (auto simp: inj_on_def)
  then have all: "set (free_in s d a) = ?B" using fd(1,2) full by (intro card_subset_eq) (simp_all add: distinct_card)
  have ow: "\<exists>a' k. R a' = Some (Arena i) \<and> k < bcount i \<and> b = block_at a' i k \<and> pg_round_down b = a'"
    if ib: "i < 7" "b \<in> set (fl s i)" for i b
  proof -
    obtain a' k where k: "R a' = Some (Arena i)" "k < bcount i" "b = block_at a' i k" using inv ib unfolding hinv_def free_ok_def by blast
    then have "pg_round_down b = a'" using block_at_facts(2) region_arena [OF inv k(1)] by (simp add: arena_hdr_def)
    then show ?thesis using k by blast
  qed
  have inB: "b \<in> ?B \<longleftrightarrow> pg_round_down b = a" if "b \<in> set (fl s d)" for b
    using ow [OF al(3) that] block_at_facts(2) [OF al(1,2)] by auto
  define s' where "s' = set_free_list s d (filter (\<lambda>b. pg_round_down b \<noteq> a) (fl s d))"
  have di: "distinct (fl s d)" using inv al(3) unfolding hinv_def free_ok_def by blast
  have "filter (\<lambda>b. b \<notin> ?B) (fl s d) = filter (\<lambda>b. pg_round_down b \<noteq> a) (fl s d)" using inB by (intro filter_cong) auto
  moreover have "?B \<subseteq> set (fl s d)" using all by (auto simp: free_in_def)
  ultimately have e: "remove_blocks s d a [0..<bcount d] = Some s'"
    using remove_blocks_eq [OF h, of "[0..<bcount d]"] di by (simp add: s'_def atLeast0LessThan)
  have ok: "ram_ok (pages s)" using inv by (simp add: hinv_def)
  have run: "run a 1 = {a}" by (rule run_1)
  obtain r where r: "palloc_free_page (pages s) a = Some r" "ram_ok r" "taken r = taken (pages s) - {a}"
    "\<And>x. x \<noteq> a \<Longrightarrow> page_words r x = page_words (pages s) x"
    using palloc_free_run [OF ok _ al(1), of 1] al(2) region_facts(5) [OF inv a] run unfolding palloc_free_page_def by auto
  let ?s = "s'\<lparr>pages := r\<rparr>"
  have fl: "fl ?s i = filter (\<lambda>b. pg_round_down b \<noteq> a) (fl s i)" if i: "i < 7" for i
  proof (cases "i = d")
    case False
    then have "pg_round_down b \<noteq> a" if "b \<in> set (fl s i)" for b using ow [OF i that] a by auto
    then show ?thesis using False al(4) by (simp add: s'_def filter_id_conv)
  qed (use al(4) in \<open>simp add: s'_def\<close>)
  have prem: "ram_ok (pages ?s)" "taken (pages ?s) = taken (pages s) - run a (region_pages (Arena d))"
    "\<And>x. x \<notin> run a (region_pages (Arena d)) \<Longrightarrow> page_words (pages ?s) x = page_words (pages s) x"
    "descs_ok ?s" "descs_addr ?s = descs_addr s"
  proof -
    have "descs_ok s'" using inv by (simp add: s'_def hinv_def)
    then show "descs_ok ?s" by (simp add: descs_ok_def)
  qed (use r run in \<open>simp_all add: s'_def\<close>)
  note drop = hinv_drop [OF inv a prem fl]
  have "region_blocks s a (Arena d) = {}" using all by (auto simp: free_in_def)
  then have lv: "live ?s (R(a := None)) = live s R" using drop(3) by (simp del: region_blocks.simps)
  have "bytes_kept s ?s (R(a := None))" unfolding bytes_kept_def
  proof (intro allI impI)
    fix a' g q x assume g: "(R(a := None)) a' = Some g" and x: "q \<in> region_blocks ?s a' g" "x \<in> bytes_of q (capacity g)"
    have "x \<in> zone a' g" using block_zone(1) [OF drop(1) g x(1)] x(2) by blast
    then show "get_byte (pages ?s) x = get_byte (pages s) x"
      using drop_frame [OF inv a prem(3), of a' g x] g by (auto split: if_splits)
  qed
  then show ?thesis using e r(1) drop(1,2) lv by (intro exI [of _ s'] exI [of _ r]) (simp add: s'_def)
qed

lemma bytes_kept_trans:
  assumes "bytes_kept s s' R" "bytes_kept s' s'' R'" "R' \<subseteq>\<^sub>m R" "\<And>a g. R' a = Some g \<Longrightarrow> region_blocks s'' a g \<subseteq> region_blocks s' a g"
  shows "bytes_kept s s'' R'"
  unfolding bytes_kept_def
proof (intro allI impI)
  fix a g q x assume g: "R' a = Some g" "q \<in> region_blocks s'' a g" "x \<in> bytes_of q (capacity g)"
  moreover have "R a = Some g" using assms(3) g(1) by (metis domI map_le_def)
  moreover have "q \<in> region_blocks s' a g" using assms(4) [OF g(1)] g(2) by blast
  ultimately show "get_byte (pages s'') x = get_byte (pages s) x" using assms(1,2) unfolding bytes_kept_def by metis
qed

lemma free_small:
  assumes inv: "hinv s R" and b: "busy s R" and a: "R a = Some (Arena d)" and p: "p \<in> region_blocks s a (Arena d)"
  shows "\<exists>s'. free s p = Some s' \<and> gave s R p s'"
proof -
  let ?s1 = "push_block s d a p"
  note h = region_arena [OF inv a] and ps = push_block_spec [OF inv a p] and nz = block_zone(4) [OF inv a p]
  have d: "d < 7" using h by (simp add: arena_hdr_def)
  have h1: "arena_hdr ?s1 a d" using region_arena [OF ps(1) a] .
  let ?n = "length (free_in ?s1 d a)"
  have cnt: "free_cnt ?s1 a = of_nat ?n" using region_facts(7) [OF ps(1) a] by simp
  have le: "?n \<le> bcount d" using free_in_distinct(3) [OF ps(1) a] .
  have u: "unat (of_nat ?n :: u32) = ?n" using le bcount_bounds(2) [of d] by (simp only: unat_of_nat) simp
  have ge: "free_cnt ?s1 a \<ge> blocks_per_arena (descs ?s1 ! d) \<longleftrightarrow> ?n = bcount d"
    using le u hdr_sizes(2) [OF h1] by (simp add: cnt word_le_nat_alt) linarith
  have step: "free s p = (if free_cnt ?s1 a \<ge> blocks_per_arena (descs ?s1 ! d)
      then do {
        ASSERT (free_cnt ?s1 a = blocks_per_arena (descs ?s1 ! d));
        s \<leftarrow> remove_blocks ?s1 d a [0..<unat (blocks_per_arena (descs ?s1 ! d))];
        r \<leftarrow> palloc_free_page (pages s) a;
        Some (s\<lparr>pages := r\<rparr>)
      }
      else Some ?s1)"
    using nz ps(5,6) hdr_desc [OF h] hdr_sizes(1) [OF h] by (simp add: free_def Let_def)
  have use: "in_use s' a' g" if "R a' = Some g" "a' \<noteq> a" "\<And>i. i < 7 \<Longrightarrow> free_in s' i a' = free_in ?s1 i a'" for s' a' g
  proof (rule in_use_cong)
    show "in_use s a' g" using b that(1) by (simp add: busy_def)
    show "free_in s' i a' = free_in s i a'" if "g = Arena i" for i
      using ps(3) \<open>a' \<noteq> a\<close> \<open>\<And>i. i < 7 \<Longrightarrow> free_in s' i a' = free_in ?s1 i a'\<close> region_facts(7) [OF inv \<open>R a' = Some g\<close>] that by simp
  qed
  show ?thesis
  proof (cases "?n = bcount d")
    case True
    obtain s2 r where s2: "remove_blocks ?s1 d a [0..<bcount d] = Some s2" "palloc_free_page (pages s2) a = Some r"
      "hinv (s2\<lparr>pages := r\<rparr>) (R(a := None))" "live (s2\<lparr>pages := r\<rparr>) (R(a := None)) = live ?s1 R"
      "\<And>i a'. i < 7 \<Longrightarrow> a' \<noteq> a \<Longrightarrow> free_in (s2\<lparr>pages := r\<rparr>) i a' = free_in ?s1 i a'"
      "bytes_kept ?s1 (s2\<lparr>pages := r\<rparr>) (R(a := None))"
      using release_arena [OF ps(1) a True] by blast
    have "free s p = Some (s2\<lparr>pages := r\<rparr>)"
      unfolding step using ge True s2(1,2) hdr_sizes(2,4) [OF h1] cnt by simp
    moreover have "busy (s2\<lparr>pages := r\<rparr>) (R(a := None))" using use s2(5) by (auto simp: busy_def split: if_splits)
    moreover have "R(a := None) \<subseteq>\<^sub>m R" by (auto simp: map_le_def)
    moreover have "region_blocks (s2\<lparr>pages := r\<rparr>) a' g \<subseteq> region_blocks ?s1 a' g" if g: "(R(a := None)) a' = Some g" for a' g
    proof
      fix q assume q: "q \<in> region_blocks (s2\<lparr>pages := r\<rparr>) a' g"
      show "q \<in> region_blocks ?s1 a' g"
      proof (cases g)
        case (Arena i)
        have R: "R a' = Some (Arena i)" "a' \<noteq> a" using g Arena by (auto split: if_splits)
        have i: "i < 7" "pg_ofs a' = 0" "unat a' + page_bytes \<le> 2 ^ 32" using region_arena [OF inv R(1)] by (simp_all add: arena_hdr_def)
        obtain k where k: "k < bcount i" "q = block_at a' i k" "q \<notin> set (fl (s2\<lparr>pages := r\<rparr>) i)" using q Arena by auto
        then have "q \<notin> set (free_in (s2\<lparr>pages := r\<rparr>) i a')" by (simp add: free_in_def)
        then have "q \<notin> set (free_in ?s1 i a')" unfolding s2(5) [OF i(1) R(2)] .
        then have "q \<notin> set (fl ?s1 i)" using block_at_facts(2) [OF i(2,3) k(1)] k(2) by (simp add: free_in_def)
        then show ?thesis using k Arena by simp
      qed (use q in simp)
    qed
    ultimately show ?thesis using s2(3,4) ps(2) bytes_kept_trans [OF ps(4) s2(6)]
      unfolding gave_def by (intro exI [of _ "s2\<lparr>pages := r\<rparr>"] conjI exI [of _ "R(a := None)"]) simp_all
  next
    case False
    then have "free s p = Some ?s1" unfolding step using ge by simp
    moreover have "busy ?s1 R" unfolding busy_def
    proof (intro allI impI)
      fix a' g assume g: "R a' = Some g"
      then show "in_use ?s1 a' g" using use [OF g] False le a by (cases "a' = a") (auto simp: in_use_def)
    qed
    ultimately show ?thesis using ps(1,2,4) unfolding gave_def by (intro exI [of _ ?s1] conjI exI [of _ R]) simp_all
  qed
qed

lemma free_spec:
  assumes "hinv s R" "busy s R" "p \<in> live s R"
  shows "\<exists>s'. free s p = Some s' \<and> gave s R p s'"
proof -
  obtain a g where g: "R a = Some g" "p \<in> region_blocks s a g" using assms(3) by (rule live_region)
  then show ?thesis using free_big [OF assms(1,2)] free_small [OF assms(1,2)] by (cases g) auto
qed

section \<open>The heap as seen by its clients\<close>

definition heap_ok :: "kheap \<Rightarrow> u32 set \<Rightarrow> bool" where
  "heap_ok s L \<longleftrightarrow> (\<exists>R. hinv s R \<and> busy s R \<and> live s R = L)"

definition usable :: "kheap \<Rightarrow> u32 \<Rightarrow> nat" where
  "usable s p = (case block_size_of s p of None \<Rightarrow> 0 | Some n \<Rightarrow> unat n)"

definition byte_of :: "kheap \<Rightarrow> u32 \<Rightarrow> nat \<Rightarrow> u8" where
  "byte_of s p i = get_byte (pages s) (p + of_nat i)"

definition put_byte :: "kheap \<Rightarrow> u32 \<Rightarrow> nat \<Rightarrow> u8 \<Rightarrow> kheap" where
  "put_byte s p i v = s\<lparr>pages := set_byte (pages s) (p + of_nat i) v\<rparr>"

lemma capacity_word:
  assumes "hinv s R" "R a = Some g"
  shows "capacity g < 2 ^ 32"
proof (cases g)
  case (Arena d)
  then show ?thesis using region_facts(7) [OF assms] bsize_bounds(2) [of d] by simp
qed (use region_facts(4) [OF assms] in auto)

lemma block_size_of_eq:
  assumes inv: "hinv s R" and a: "R a = Some g" and p: "p \<in> region_blocks s a g"
  shows "block_size_of s p = Some (of_nat (capacity g))"
proof (cases g)
  case (Arena d)
  obtain k where k: "k < bcount d" "p = block_at a d k" using p Arena by auto
  have h: "arena_hdr s a d" using region_arena [OF inv] a Arena by simp
  then show ?thesis using block_to_arena_small [OF h k(1)] hdr_desc [OF h] hdr_sizes(3) [OF h] k(2) Arena by (simp add: block_size_of_def)
next
  case (Big n)
  note r = region_facts [OF inv a, unfolded Big, simplified]
  have p: "p = a + 12" using p Big by simp
  have "page_bytes * 1 \<le> page_bytes * n" using r(3) by (intro mult_le_mono2) simp
  then have le: "unat a + page_bytes \<le> 2 ^ 32" using r(4) by simp
  then have "unat (a + 12) = unat a + 12" using unat_add_of_nat [of a 12] by simp
  then have pg: "pg_round_down p = a" "unat (pg_ofs p) = 12" using page_offset [OF r(1), of 0 p 12] le p by simp_all
  then have o: "pg_ofs p = 12" by (simp add: word_unat_eq_iff)
  then have ba: "block_to_arena s p = Some a" using pg r by (simp add: block_to_arena_def Let_def)
  have "12 \<le> page_bytes * n" using r(3) by simp
  then have "(of_nat (page_bytes * n - 12) :: u32) = of_nat (page_bytes * n) - of_nat 12" by (rule of_nat_diff)
  then show ?thesis using ba r(7) o Big by (simp add: block_size_of_def PGSIZE_eq)
qed

lemma usable_eq: "hinv s R \<Longrightarrow> R a = Some g \<Longrightarrow> p \<in> region_blocks s a g \<Longrightarrow> usable s p = capacity g"
  using capacity_word [of s R a g] unat_of_nat [of "capacity g", where 'a = 32] by (simp add: usable_def block_size_of_eq)

lemma byte_addr:
  assumes "hinv s R" "R a = Some g" "p \<in> region_blocks s a g" "i < capacity g"
  shows "unat (p + of_nat i) = unat p + i" "p + of_nat i \<in> bytes_of p (capacity g)"
proof -
  show u: "unat (p + of_nat i) = unat p + i" using block_zone(2) [OF assms(1-3)] assms(4) by (intro unat_add_of_nat) simp
  then show "p + of_nat i \<in> bytes_of p (capacity g)" using assms(4) by (simp add: bytes_of_def)
qed

text \<open>A block is left alone: its size and its bytes are the same.\<close>

definition same_block :: "kheap \<Rightarrow> kheap \<Rightarrow> u32 \<Rightarrow> bool" where
  "same_block s s' q \<longleftrightarrow> usable s' q = usable s q \<and> (\<forall>i < usable s q. byte_of s' q i = byte_of s q i)"

lemma same_block_trans: "same_block s s' q \<Longrightarrow> same_block s' s'' q \<Longrightarrow> same_block s s'' q"
  by (simp add: same_block_def)

lemma same_block_I:
  assumes "hinv s R" "R a = Some g" "q \<in> region_blocks s a g" "hinv s' R'" "R' a = Some g" "q \<in> region_blocks s' a g"
    and "\<And>x. x \<in> bytes_of q (capacity g) \<Longrightarrow> get_byte (pages s') x = get_byte (pages s) x"
  shows "same_block s s' q"
  using usable_eq [OF assms(1-3)] usable_eq [OF assms(4-6)] byte_addr(2) [OF assms(1-3)] assms(7)
  by (simp add: same_block_def byte_of_def)

lemma region_of_block:
  assumes "hinv s R" "R a = Some g" "q \<in> region_blocks s a g" "hinv s' R'" "R' a' = Some g'" "q \<in> region_blocks s' a' g'"
    and "R \<subseteq>\<^sub>m R' \<or> R' \<subseteq>\<^sub>m R"
  shows "a' = a \<and> g' = g"
proof -
  have z: "q \<in> zone a g" "q \<in> zone a' g'" using block_zone(3) [OF assms(1-3)] block_zone(3) [OF assms(4-6)] .
  have "\<exists>s0 R0. hinv s0 R0 \<and> R0 a = Some g \<and> R0 a' = Some g'"
    using assms(7)
  proof
    assume "R \<subseteq>\<^sub>m R'"
    then have "R' a = Some g" using assms(2) by (metis domI map_le_def)
    then show ?thesis using assms(4,5) by blast
  next
    assume "R' \<subseteq>\<^sub>m R"
    then have "R a' = Some g'" using assms(5) by (metis domI map_le_def)
    then show ?thesis using assms(1,2) by blast
  qed
  then obtain s0 R0 where r: "hinv s0 R0" "R0 a = Some g" "R0 a' = Some g'" by blast
  from zone_unique [OF this z] r show ?thesis by simp
qed

lemma got_heap:
  assumes inv: "hinv s R" and g: "got s R sz p s'"
  shows "heap_ok s' (insert p (live s R))" "p \<notin> live s R" "p \<noteq> 0" "unat sz + 4107 < 2 ^ 32 \<Longrightarrow> unat sz \<le> usable s' p"
    "\<And>q. q \<in> live s R \<Longrightarrow> same_block s s' q"
proof -
  obtain R' a g where r: "hinv s' R'" "busy s' R'" "R \<subseteq>\<^sub>m R'" "R' a = Some g" "p \<in> region_blocks s' a g"
     "unat sz + 4107 < 2 ^ 32 \<longrightarrow> unat sz \<le> capacity g" "p \<notin> live s R" "live s' R' = insert p (live s R)" "kept s R s'"
    using g unfolding got_def by blast
  show "heap_ok s' (insert p (live s R))" using r by (auto simp: heap_ok_def)
  show "p \<notin> live s R" by fact
  show "p \<noteq> 0" using block_zone(4) [OF r(1,4,5)] .
  show "unat sz \<le> usable s' p" if "unat sz + 4107 < 2 ^ 32" using that r(6) usable_eq [OF r(1,4,5)] by simp
  fix q assume q: "q \<in> live s R"
  then obtain b h where b: "R b = Some h" "q \<in> region_blocks s b h" by (rule live_region)
  have "q \<in> live s' R'" using r(8) q by simp
  then obtain b' h' where b': "R' b' = Some h'" "q \<in> region_blocks s' b' h'" by (rule live_region)
  have e: "b' = b" "h' = h" using region_of_block [OF inv b r(1) b'] r(3) by simp_all
  show "same_block s s' q" using b' e r(9) block_zone(1) [OF inv b] b
    by (intro same_block_I [OF inv b r(1)]) (auto simp: kept_def)
qed

lemma gave_heap:
  assumes inv: "hinv s R" and g: "gave s R p s'"
  shows "heap_ok s' (live s R - {p})" "\<And>q. q \<in> live s R - {p} \<Longrightarrow> same_block s s' q"
proof -
  obtain R' where r: "hinv s' R'" "busy s' R'" "R' \<subseteq>\<^sub>m R" "live s' R' = live s R - {p}" "bytes_kept s s' R'"
    using g unfolding gave_def by blast
  show "heap_ok s' (live s R - {p})" using r by (auto simp: heap_ok_def)
  fix q assume q: "q \<in> live s R - {p}"
  then have "q \<in> live s R" by simp
  then obtain b h where b: "R b = Some h" "q \<in> region_blocks s b h" by (rule live_region)
  have "q \<in> live s' R'" using r(4) q by simp
  then obtain b' h' where b': "R' b' = Some h'" "q \<in> region_blocks s' b' h'" by (rule live_region)
  have e: "b' = b" "h' = h" using region_of_block [OF inv b r(1) b'] r(3) by simp_all
  show "same_block s s' q" using b' e r(5) unfolding bytes_kept_def by (intro same_block_I [OF inv b r(1)]) auto
qed

lemma malloc_heap:
  assumes "heap_ok s L"
  shows "\<exists>p s'. malloc s sz = Some (p, s') \<and> (\<forall>q \<in> L. same_block s s' q) \<and>
    (if p = 0 then s' = s else p \<notin> L \<and> heap_ok s' (insert p L) \<and> (unat sz + 4107 < 2 ^ 32 \<longrightarrow> unat sz \<le> usable s' p))"
proof -
  obtain R where R: "hinv s R" "busy s R" "live s R = L" using assms by (auto simp: heap_ok_def)
  obtain p s' where m: "malloc s sz = Some (p, s')" "if p = 0 then s' = s else got s R sz p s'" using malloc_spec [OF R(1,2)] by blast
  show ?thesis
  proof (cases "p = 0")
    case True
    then show ?thesis using m by (simp add: same_block_def)
  next
    case False
    then have "got s R sz p s'" using m(2) by simp
    from got_heap [OF R(1) this] m(1) False show ?thesis unfolding R(3) by auto
  qed
qed

lemma free_heap:
  assumes "heap_ok s L" "p \<in> L"
  shows "\<exists>s'. free s p = Some s' \<and> heap_ok s' (L - {p}) \<and> (\<forall>q \<in> L - {p}. same_block s s' q)"
proof -
  obtain R where R: "hinv s R" "busy s R" "live s R = L" using assms(1) by (auto simp: heap_ok_def)
  obtain s' where m: "free s p = Some s'" "gave s R p s'" using free_spec [OF R(1,2)] assms(2) R(3) by blast
  from gave_heap [OF R(1) m(2)] m(1) show ?thesis unfolding R(3) by auto
qed

text \<open>Writes inside one block touch neither a header nor another block.\<close>

lemma write_heap:
  assumes ok: "heap_ok s L" "p \<in> L" "n \<le> usable s p"
    and r: "ram_ok r = ram_ok (pages s)" "taken r = taken (pages s)"
      "\<And>x. x \<notin> bytes_of p n \<Longrightarrow> get_byte r x = get_byte (pages s) x"
      "\<And>a k. (\<And>x. x \<in> bytes_of p n \<Longrightarrow> a = pg_round_down x \<Longrightarrow> 12 \<le> unat (pg_ofs x)) \<Longrightarrow> k < 3 \<Longrightarrow> page_words r a k = page_words (pages s) a k"
  shows "heap_ok (s\<lparr>pages := r\<rparr>) L" "\<And>q. q \<in> L \<Longrightarrow> q \<noteq> p \<Longrightarrow> same_block s (s\<lparr>pages := r\<rparr>) q" "usable (s\<lparr>pages := r\<rparr>) p = usable s p"
proof -
  let ?s = "s\<lparr>pages := r\<rparr>"
  obtain R where R: "hinv s R" "busy s R" "live s R = L" using ok(1) by (auto simp: heap_ok_def)
  obtain a g where g: "R a = Some g" "p \<in> region_blocks s a g" using ok(2) R(3) by (auto elim: live_region)
  have u: "usable s p = capacity g" using usable_eq [OF R(1) g] .
  have sub: "bytes_of p n \<subseteq> bytes_of p (capacity g)" using ok(3) u by (intro bytes_of_mono) simp
  then have z: "bytes_of p n \<subseteq> zone a g" using block_zone(1) [OF R(1) g] by blast
  have inv: "hinv ?s R"
  proof (rule hinv_memory [OF R(1)])
    fix a' g' k assume g': "R a' = Some g'" and k: "k < (3 :: nat)"
    show "page_words r a' k = page_words (pages s) a' k" by (rule r(4) [OF _ k]) (use z header_apart [OF R(1) g' g(1)] in blast)
  qed (use r R in \<open>simp_all add: hinv_def\<close>)
  have rb: "region_blocks ?s a g = region_blocks s a g" for a g by (cases g) simp_all
  have "busy ?s R" using R(2) by (simp add: busy_def in_use_def free_in_def)
  then show "heap_ok ?s L" using inv R(3) by (auto simp: heap_ok_def live_memory)
  show "usable ?s p = usable s p" using usable_eq [OF inv g(1)] rb g(2) u by simp
  fix q assume q: "q \<in> L" "q \<noteq> p"
  then obtain b h where b: "R b = Some h" "q \<in> region_blocks s b h" using R(3) by (auto elim: live_region)
  have "bytes_of p (capacity g) \<inter> bytes_of q (capacity h) = {}" using live_apart [OF R(1) g b] q(2) by simp
  then show "same_block s ?s q" using sub r(3) b(2) rb by (intro same_block_I [OF R(1) b inv b(1)]) auto
qed

lemma block_end: "heap_ok s L \<Longrightarrow> p \<in> L \<Longrightarrow> unat p + usable s p \<le> 2 ^ 32 \<and> p \<noteq> 0"
  unfolding heap_ok_def using block_zone(2,4) usable_eq by (metis live_region)

lemma put_byte_heap:
  assumes ok: "heap_ok s L" "p \<in> L" and i: "i < usable s p"
  shows "heap_ok (put_byte s p i v) L \<and> (\<forall>q \<in> L. usable (put_byte s p i v) q = usable s q \<and>
    (\<forall>j < usable s q. byte_of (put_byte s p i v) q j = (if q = p \<and> j = i then v else byte_of s q j)))"
proof -
  let ?x = "p + of_nat i" let ?r = "set_byte (pages s) ?x v"
  have e: "unat p + usable s p \<le> 2 ^ 32" using block_end [OF ok] by simp
  then have u: "unat (p + of_nat j) = unat p + j" if "j < usable s p" for j using that by (intro unat_add_of_nat) simp
  have "?x \<in> bytes_of p (usable s p)" using u [OF i] i by (simp add: bytes_of_def)
  then have "get_byte ?r x = get_byte (pages s) x" if "x \<notin> bytes_of p (usable s p)" for x using that by (auto simp: get_set_byte)
  moreover have "page_words ?r a k = page_words (pages s) a k"
    if "\<And>x. x \<in> bytes_of p (usable s p) \<Longrightarrow> a = pg_round_down x \<Longrightarrow> 12 \<le> unat (pg_ofs x)" "k < 3" for a k
    using that \<open>?x \<in> bytes_of p (usable s p)\<close> by (intro word_set_byte) auto
  ultimately have w: "heap_ok (put_byte s p i v) L" "\<And>q. q \<in> L \<Longrightarrow> q \<noteq> p \<Longrightarrow> same_block s (put_byte s p i v) q"
      "usable (put_byte s p i v) p = usable s p"
    using write_heap [OF ok order_refl, of ?r] unfolding put_byte_def by auto
  have "byte_of (put_byte s p i v) p j = (if j = i then v else byte_of s p j)" if "j < usable s p" for j
  proof -
    have "p + of_nat j = ?x \<longleftrightarrow> j = i" using u [OF that] u [OF i] by (metis add_left_cancel)
    then show ?thesis by (simp add: byte_of_def put_byte_def get_set_byte)
  qed
  then show ?thesis using w unfolding same_block_def by (metis (full_types))
qed

interpretation kernel_heap: block_store heap_ok usable byte_of "\<lambda>s n. malloc s (of_nat n)" free put_byte 0 "\<lambda>n. n + 4107 < 2 ^ 32"
proof
  fix s L and n :: nat assume ok: "heap_ok s L" and n: "n + 4107 < 2 ^ 32"
  have "unat (of_nat n :: u32) = n" using n by (simp only: unat_of_nat) simp
  with malloc_heap [OF ok, of "of_nat n"] n ok
  show "\<exists>p s'. malloc s (of_nat n) = Some (p, s') \<and>
      (\<forall>q \<in> L. usable s' q = usable s q \<and> (\<forall>i < usable s q. byte_of s' q i = byte_of s q i)) \<and>
      (if p = 0 then heap_ok s' L else p \<notin> L \<and> heap_ok s' (insert p L) \<and> n \<le> usable s' p)"
    unfolding same_block_def by (auto split: if_splits)
next
  fix s L p assume "heap_ok s L" "p \<in> L"
  from free_heap [OF this] show "\<exists>s'. free s p = Some s' \<and> heap_ok s' (L - {p}) \<and>
      (\<forall>q \<in> L - {p}. usable s' q = usable s q \<and> (\<forall>i < usable s q. byte_of s' q i = byte_of s q i))"
    unfolding same_block_def .
next
  show "heap_ok (put_byte s p i v) L \<and> (\<forall>q \<in> L. usable (put_byte s p i v) q = usable s q \<and>
      (\<forall>j < usable s q. byte_of (put_byte s p i v) q j = (if q = p \<and> j = i then v else byte_of s q j)))"
    if "heap_ok s L" "p \<in> L" "i < usable s p" for s L p i v by (rule put_byte_heap [OF that])
qed

section \<open>Zeroed blocks, resizing and initialisation\<close>

lemma calloc_heap:
  assumes ok: "heap_ok s L" and ab: "0 < unat a" "0 < unat b" "unat a * unat b + 4107 < 2 ^ 32"
  shows "\<exists>p s'. calloc s a b = Some (p, s') \<and> (\<forall>q \<in> L. same_block s s' q) \<and>
    (if p = 0 then s' = s
     else p \<notin> L \<and> heap_ok s' (insert p L) \<and> unat a * unat b \<le> usable s' p \<and> (\<forall>i < unat a * unat b. byte_of s' p i = 0))"
proof -
  have u: "unat (a * b) = unat a * unat b" using ab(3) by (simp add: unat_word_ariths)
  moreover have "unat a * 1 \<le> unat a * unat b" "1 * unat b \<le> unat a * unat b" using ab(1,2) by (intro mult_le_mono; simp)+
  ultimately have c: "\<not> a * b < a" "\<not> a * b < b" using ab(1,2) by (simp_all add: word_less_nat_alt)
  have c4: "unat (a * b) + 4107 < 2 ^ 32" using ab(3) u by simp
  obtain p s1 where m: "malloc s (a * b) = Some (p, s1)" "\<forall>q \<in> L. same_block s s1 q"
      "if p = 0 then s1 = s else p \<notin> L \<and> heap_ok s1 (insert p L) \<and> unat (a * b) \<le> usable s1 p"
    using malloc_heap [OF ok, of "a * b"] c4 by auto
  show ?thesis
  proof (cases "p = 0")
    case True
    then show ?thesis using m c by (simp add: calloc_def Let_def)
  next
    case False
    let ?n = "unat a * unat b" let ?r = "mem_set (pages s1) p 0 ?n" let ?s = "s1\<lparr>pages := ?r\<rparr>"
    have h: "heap_ok s1 (insert p L)" "?n \<le> usable s1 p" "p \<notin> L" using m(3) False u by auto
    have e: "unat p + ?n \<le> 2 ^ 32" using block_end [OF h(1), of p] h(2) by simp
    note g = get_mem_set [OF e, of "pages s1" 0]
    have w: "heap_ok ?s (insert p L)" "\<And>q. q \<in> insert p L \<Longrightarrow> q \<noteq> p \<Longrightarrow> same_block s1 ?s q" "usable ?s p = usable s1 p"
      by (rule write_heap [OF h(1) insertI1 h(2), of ?r]; simp add: g words_mem_set [OF e])+
    have "byte_of ?s p i = 0" if "i < ?n" for i
    proof -
      have "unat (p + of_nat i) = unat p + i" using e that by (intro unat_add_of_nat) simp
      then show ?thesis using that by (simp add: byte_of_def g bytes_of_def)
    qed
    moreover have "same_block s ?s q" if "q \<in> L" for q using w(2) [of q] m(2) that h(3) same_block_trans by blast
    ultimately show ?thesis using m(1) c False w(1,3) h u by (intro exI [of _ p] exI [of _ ?s]) (simp add: calloc_def Let_def)
  qed
qed

lemma realloc_heap:
  assumes ok: "heap_ok s L" "p \<in> L" and n: "n \<noteq> 0" "unat n + 4107 < 2 ^ 32"
  shows "\<exists>q s'. realloc s p n = Some (q, s') \<and> (\<forall>r \<in> L - {p}. same_block s s' r) \<and>
    (if q = 0 then s' = s
     else q \<notin> L \<and> heap_ok s' (insert q (L - {p})) \<and> unat n \<le> usable s' q \<and>
       (\<forall>i < min (unat n) (usable s p). byte_of s' q i = byte_of s p i))"
proof -
  obtain q s1 where m: "malloc s n = Some (q, s1)" "\<forall>r \<in> L. same_block s s1 r"
      "if q = 0 then s1 = s else q \<notin> L \<and> heap_ok s1 (insert q L) \<and> unat n \<le> usable s1 q"
    using malloc_heap [OF ok(1), of n] n(2) by auto
  have p0: "p \<noteq> 0" using block_end [OF ok] by simp
  show ?thesis
  proof (cases "q = 0")
    case True
    then show ?thesis using m n(1) by (simp add: realloc_def same_block_def)
  next
    case False
    have h: "heap_ok s1 (insert q L)" "unat n \<le> usable s1 q" "q \<notin> L" using m(3) False by auto
    have up: "usable s1 p = usable s p" using m(2) ok(2) by (simp add: same_block_def)
    obtain R where R: "hinv s1 R" "busy s1 R" "live s1 R = insert q L" using h(1) by (auto simp: heap_ok_def)
    obtain a g where g: "R a = Some g" "p \<in> region_blocks s1 a g" using ok(2) R(3) by (metis insertI2 live_region)
    obtain b k where k: "R b = Some k" "q \<in> region_blocks s1 b k" using R(3) by (metis insertI1 live_region)
    let ?sz = "of_nat (usable s p) :: u32" let ?min = "if n < ?sz then n else ?sz"
    have bs: "block_size_of s1 p = Some ?sz" using block_size_of_eq [OF R(1) g] usable_eq [OF R(1) g] up by simp
    have us: "unat ?sz = usable s p" using capacity_word [OF R(1) g(1)] usable_eq [OF R(1) g] up
      by (simp only: unat_of_nat) simp
    define c where "c = min (unat n) (usable s p)"
    have mn: "unat ?min = c" by (simp add: c_def word_less_nat_alt us min_def)
    have cq: "c \<le> usable s1 q" "c \<le> usable s1 p" using h(2) up by (simp_all add: c_def)
    have e: "unat q + c \<le> 2 ^ 32" "unat p + c \<le> 2 ^ 32"
      using block_end [OF h(1), of q] block_end [OF h(1), of p] cq ok(2) by simp_all
    have "bytes_of q (usable s1 q) \<inter> bytes_of p (usable s1 p) = {}"
      using live_apart [OF R(1) k g] h(3) ok(2) usable_eq [OF R(1) g] usable_eq [OF R(1) k] by auto
    then have dis: "bytes_of q c \<inter> bytes_of p c = {}" using bytes_of_mono [OF cq(1)] bytes_of_mono [OF cq(2)] by blast
    let ?r = "mem_copy (pages s1) q p c" let ?s = "s1\<lparr>pages := ?r\<rparr>"
    have w: "heap_ok ?s (insert q L)" "\<And>r. r \<in> insert q L \<Longrightarrow> r \<noteq> q \<Longrightarrow> same_block s1 ?s r" "usable ?s q = usable s1 q"
      by (rule write_heap [OF h(1) insertI1 cq(1), of ?r]; simp add: get_mem_copy_other [OF e(1)] words_mem_copy [OF e(1)])+
    obtain s2 where s2: "free ?s p = Some s2" "heap_ok s2 (insert q L - {p})" "\<forall>r \<in> insert q L - {p}. same_block ?s s2 r"
      using free_heap [OF w(1), of p] ok(2) by blast
    have L: "insert q L - {p} = insert q (L - {p})" using h(3) ok(2) by auto
    have sq: "same_block ?s s2 q" using s2(3) L by simp
    have "byte_of s2 q i = byte_of s p i" if "i < c" for i
    proof -
      have "byte_of s2 q i = byte_of ?s q i" using sq that cq w(3) by (simp add: same_block_def)
      also have "\<dots> = byte_of s1 p i" using get_mem_copy [OF e dis that] by (simp add: byte_of_def)
      also have "\<dots> = byte_of s p i" using m(2) ok(2) that by (simp add: same_block_def c_def)
      finally show ?thesis .
    qed
    moreover have "usable s2 q = usable s1 q" using sq w(3) by (simp add: same_block_def)
    moreover have "same_block s s2 r" if "r \<in> L - {p}" for r
      using same_block_trans [OF same_block_trans, of s s1 r ?s s2] m(2) w(2) [of r] s2(3) that h(3) by auto
    moreover have "realloc s p n = Some (q, s2)" using m(1) n(1) p0 False bs s2(1) mn by (simp add: realloc_def Let_def)
    ultimately show ?thesis using s2(2) h L False unfolding c_def [symmetric] by (intro exI [of _ q] exI [of _ s2]) simp
  qed
qed

lemma init_descs_eq: "init_descs [] 16 =
  Some (map (\<lambda>i. \<lparr>block_size = of_nat (bsize i), blocks_per_arena = of_nat (bcount i), free_list = []\<rparr>) [0..<7])"
  by (simp add: init_descs.simps [of _ 16] init_descs.simps [of _ 32] init_descs.simps [of _ 64] init_descs.simps [of _ 128]
      init_descs.simps [of _ 256] init_descs.simps [of _ 512] init_descs.simps [of _ 1024] init_descs.simps [of _ 2048]
      PGSIZE_eq bsize_def bcount_def upt_rec)

lemma malloc_init_heap:
  assumes "ram_ok r" "0 < unat d" "unat d + 10 * sizeof_desc \<le> 2 ^ 32"
  shows "\<exists>s. malloc_init \<lparr>pages = r, descs = [], descs_addr = d\<rparr> = Some s \<and> heap_ok s {}"
proof -
  let ?ds = "map (\<lambda>i. \<lparr>block_size = of_nat (bsize i), blocks_per_arena = of_nat (bcount i), free_list = []\<rparr>) [0..<7]"
  let ?s = "\<lparr>pages = r, descs = ?ds, descs_addr = d\<rparr>"
  have "malloc_init \<lparr>pages = r, descs = [], descs_addr = d\<rparr> = Some ?s" by (simp add: malloc_init_def init_descs_eq)
  moreover have "hinv ?s Map.empty" using assms by (simp add: hinv_def descs_ok_def apart_def free_ok_def del: upt_rec_numeral)
  then have "heap_ok ?s {}" unfolding heap_ok_def by (intro exI [of _ Map.empty]) (simp add: busy_def live_def Map.graph_def)
  ultimately show ?thesis by blast
qed

section \<open>Properties\<close>

text \<open>C31. Memory safety of the kernel's heap. After the page allocator and the heap have been initialised,
whatever sequence of \<open>malloc\<close>, of writes into blocks and of \<open>free\<close> of blocks held is made, no assertion fails, the
blocks held are pairwise disjoint, and each of them contains what was last written into it. The requests are
less than \<open>2 ^ 32 - 4107\<close> bytes, so that the size with the header does not wrap.\<close>

theorem heap_clients_isolated:
  assumes "boot_memory_ok kernel_end n_pages limit" "palloc_init kernel_end n_pages limit junk w = Some r"
    and "malloc_init \<lparr>pages = r, descs = [], descs_addr = d\<rparr> = Some s" "0 < unat d" "unat d + 10 * sizeof_desc \<le> 2 ^ 32"
    and "\<forall>n. New n \<in> set us \<longrightarrow> n + 4107 < 2 ^ 32"
  shows "\<exists>s' held. use_blocks (\<lambda>s n. malloc s (of_nat n)) free byte_of put_byte 0 s [] us = Some (s', held) \<and>
     (\<forall>(p, bs) \<in> set held. \<forall>(q, cs) \<in> set held. p \<noteq> q \<longrightarrow> bytes_of p (length bs) \<inter> bytes_of q (length cs) = {}) \<and>
     distinct (map fst held) \<and> (\<forall>(p, bs) \<in> set held. map (byte_of s' p) [0..<length bs] = bs)"
proof -
  have "ram_ok r" using palloc_init_spec [OF assms(1), of junk w] assms(2) by auto
  then have "heap_ok s {}" using malloc_init_heap assms(3-5) by force
  then have "kernel_heap.holding s []" by (simp add: kernel_heap.holding_def)
  then obtain s' held where h: "use_blocks (\<lambda>s n. malloc s (of_nat n)) free byte_of put_byte 0 s [] us = Some (s', held)"
      "kernel_heap.holding s' held"
    using kernel_heap.use_blocks_safe [of s "[]" us] assms(6) by blast
  have ok: "heap_ok s' (set (map fst held))" "distinct (map fst held)" using h(2) unfolding kernel_heap.holding_def by blast+
  have b: "length bs \<le> usable s' p" "p \<in> set (map fst held)" "map (byte_of s' p) [0..<length bs] = bs" if "(p, bs) \<in> set held" for p bs
    using kernel_heap.holding_D [OF h(2) that] that by (auto intro!: nth_equalityI image_eqI [of _ fst "(p, bs)"])
  obtain R where R: "hinv s' R" "live s' R = set (map fst held)" using ok(1) by (auto simp: heap_ok_def)
  have "bytes_of p (length bs) \<inter> bytes_of q (length cs) = {}" if p: "(p, bs) \<in> set held" and q: "(q, cs) \<in> set held" and ne: "p \<noteq> q" for p bs q cs
  proof -
    obtain a g where g: "R a = Some g" "p \<in> region_blocks s' a g" using b(2) [OF p] R(2) by (metis live_region)
    obtain a' g' where g': "R a' = Some g'" "q \<in> region_blocks s' a' g'" using b(2) [OF q] R(2) by (metis live_region)
    have "bytes_of p (usable s' p) \<inter> bytes_of q (usable s' q) = {}"
      using live_apart [OF R(1) g g' ne] usable_eq [OF R(1) g] usable_eq [OF R(1) g'] by simp
    then show ?thesis using bytes_of_mono [OF b(1) [OF p]] bytes_of_mono [OF b(1) [OF q]] by blast
  qed
  then have "\<forall>(p, bs) \<in> set held. \<forall>(q, cs) \<in> set held. p \<noteq> q \<longrightarrow> bytes_of p (length bs) \<inter> bytes_of q (length cs) = {}" by fast
  moreover have "\<forall>(p, bs) \<in> set held. map (byte_of s' p) [0..<length bs] = bs" using b(3) by fast
  ultimately show ?thesis using h(1) ok(2) by blast
qed

theorem heap_clients_isolated_witness:
  "\<exists>r s s' held. palloc_init 0xc0100000 1024 100 (\<lambda>_ _. 0) (\<lambda>_ _. 0) = Some r \<and>
     malloc_init \<lparr>pages = r, descs = [], descs_addr = 0xc00a0000\<rparr> = Some s \<and>
     use_blocks (\<lambda>s n. malloc s (of_nat n)) free byte_of put_byte 0 s [] [New 100, New 5000, Put 0 3 7, Drop 1] = Some (s', held) \<and>
     (\<forall>(p, bs) \<in> set held. map (byte_of s' p) [0..<length bs] = bs)"
proof -
  have b: "boot_memory_ok 0xc0100000 1024 100" by (simp add: boot_memory_ok_def PHYS_BASE_def)
  obtain r where r: "palloc_init 0xc0100000 1024 100 (\<lambda>_ _. 0) (\<lambda>_ _. 0) = Some r" "ram_ok r" using palloc_init_spec [OF b] by blast
  obtain s where s: "malloc_init \<lparr>pages = r, descs = [], descs_addr = 0xc00a0000\<rparr> = Some s"
    using malloc_init_heap [OF r(2), of "0xc00a0000"] by auto
  from heap_clients_isolated [OF b r(1) s, of "[New 100, New 5000, Put 0 3 7, Drop 1]"] r(1) s show ?thesis
    by (fastforce simp del: use_blocks.simps)
qed

text \<open>C32. \<open>realloc\<close> keeps the contents: unless memory runs out, in which case nothing changes, it returns a new
block that starts with as many bytes of the old one as fit, the old block is free and every other block is as before.\<close>

theorem realloc_preserves:
  assumes "heap_ok s L" "p \<in> L" "n \<noteq> 0" "unat n + 4107 < 2 ^ 32"
  shows "\<exists>q s'. realloc s p n = Some (q, s') \<and>
    (if q = 0 then s' = s
     else q \<notin> L \<and> heap_ok s' (insert q (L - {p})) \<and> unat n \<le> usable s' q \<and>
       (\<forall>i < min (unat n) (usable s p). byte_of s' q i = byte_of s p i) \<and>
       (\<forall>r \<in> L - {p}. usable s' r = usable s r \<and> (\<forall>i < usable s r. byte_of s' r i = byte_of s r i)))"
  using realloc_heap [OF assms] unfolding same_block_def by (metis (mono_tags, lifting))

text \<open>A memory with two free kernel pages.\<close>

definition two_pages :: ram where
  "two_pages = \<lparr>kernel_pool = \<lparr>used_map = \<lparr>bit_cnt = 2, bits = [0]\<rparr>, base = 0xc0100000\<rparr>,
      user_pool = \<lparr>used_map = \<lparr>bit_cnt = 1, bits = [0]\<rparr>, base = 0xc0200000\<rparr>, page_words = \<lambda>_ _. 0\<rparr>"

lemma two_pages_heap:
  obtains s p s' where "malloc_init \<lparr>pages = two_pages, descs = [], descs_addr = 0xc00a0000\<rparr> = Some s"
    "malloc s 100 = Some (p, s')" "heap_ok s' {p}"
proof -
  have r: "ram_ok two_pages"
    by (simp add: ram_ok_def pool_ok_def two_pages_def bitmap_wf_def elem_cnt_def DIV_ROUND_UP_def aligned_unat PHYS_BASE_def)
  obtain s where s: "malloc_init \<lparr>pages = two_pages, descs = [], descs_addr = 0xc00a0000\<rparr> = Some s" "heap_ok s {}"
    using malloc_init_heap [OF r, of "0xc00a0000"] by auto
  then have p: "pages s = two_pages" and d: "find_desc (descs s) 100 < length (descs s)"
    by (auto simp: malloc_init_def init_descs_eq bsize_def upt_rec)
  have "\<not> bits_of \<lparr>bit_cnt = 2, bits = [0]\<rparr> ! i" if "i < 2" for i
    using that by (auto simp: bits_of_def less_2_cases_iff)
  then have "used_bits \<lparr>bit_cnt = 2, bits = [0]\<rparr> = {}" by (auto simp: used_bits_def)
  then have nf: "\<not> pool_full (kernel_pool (pages s)) 1" by (auto simp: pool_full_def p two_pages_def intro: exI [of _ 0])
  obtain R where R: "hinv s R" "busy s R" "live s R = {}" using s(2) by (auto simp: heap_ok_def)
  obtain q s' where q: "malloc s 100 = Some (q, s')" "q \<noteq> 0" "got s R 100 q s'"
    using malloc_small [OF R(1,2) _ d refl] nf by (auto split: if_splits)
  show ?thesis using that [OF s(1) q(1)] got_heap(1) [OF R(1) q(3)] R(3) by simp
qed

theorem realloc_preserves_witness:
  "\<exists>s p s1 q s2. malloc_init \<lparr>pages = two_pages, descs = [], descs_addr = 0xc00a0000\<rparr> = Some s \<and> malloc s 100 = Some (p, s1) \<and>
     realloc s1 p 200 = Some (q, s2) \<and> (q \<noteq> 0 \<longrightarrow> byte_of s2 q 0 = byte_of s1 p 0 \<or> usable s1 p = 0)"
proof -
  obtain s p s1 where s: "malloc_init \<lparr>pages = two_pages, descs = [], descs_addr = 0xc00a0000\<rparr> = Some s"
    "malloc s 100 = Some (p, s1)" "heap_ok s1 {p}" by (rule two_pages_heap)
  from realloc_preserves [OF s(3), of p 200] show ?thesis using s(1,2) by (fastforce split: if_splits)
qed

end
