(* ===== verification/Disk.thy ===== *)
theory Disk
  imports Prelude
begin

text \<open>
  The ATA disk driver, \<open>src/devices/disk.c\<close>. The medium is a map from sector numbers to 512 bytes.
  What the driver writes to the controller's registers is a list of port writes, and the sector that the
  controller then transfers is the one that the registers name (\<open>lba_of\<close>, the address format of
  the ATA standard). What it reads from the status registers is an argument. The transfer of a
  sector is modelled for a controller that answers; a controller that does not makes the kernel panic.
\<close>

unbundle bit_operations_syntax

section \<open>Registers\<close>

abbreviation DISK_SECTOR_SIZE :: nat where "DISK_SECTOR_SIZE \<equiv> 512"
abbreviation CHANNEL_CNT :: nat where "CHANNEL_CNT \<equiv> 2"

definition STA_BSY :: u8 where "STA_BSY = 0x80"
definition STA_DRDY :: u8 where "STA_DRDY = 0x40"
definition STA_DRQ :: u8 where "STA_DRQ = 0x08"
definition DEV_MBS :: u8 where "DEV_MBS = 0xa0"
definition DEV_LBA :: u8 where "DEV_LBA = 0x40"
definition DEV_DEV :: u8 where "DEV_DEV = 0x10"
definition CMD_READ_SECTOR_RETRY :: u8 where "CMD_READ_SECTOR_RETRY = 0x20"
definition CMD_WRITE_SECTOR_RETRY :: u8 where "CMD_WRITE_SECTOR_RETRY = 0x30"

record channel =
  reg_base :: u16
  irq :: u8
  expecting_interrupt :: bool
  completion_wait :: nat

record disk =
  chan :: channel
  dev_no :: nat
  is_ata :: bool
  capacity :: u32
  read_cnt :: nat
  write_cnt :: nat
  sectors :: "u32 \<Rightarrow> u8 list"

definition reg_nsect :: "channel \<Rightarrow> u16" where "reg_nsect c = reg_base c + 2"
definition reg_lbal :: "channel \<Rightarrow> u16" where "reg_lbal c = reg_base c + 3"
definition reg_lbam :: "channel \<Rightarrow> u16" where "reg_lbam c = reg_base c + 4"
definition reg_lbah :: "channel \<Rightarrow> u16" where "reg_lbah c = reg_base c + 5"
definition reg_device :: "channel \<Rightarrow> u16" where "reg_device c = reg_base c + 6"
definition reg_status :: "channel \<Rightarrow> u16" where "reg_status c = reg_base c + 7"
definition reg_command :: "channel \<Rightarrow> u16" where "reg_command c = reg_status c"

type_synonym port_writes = "(u16 \<times> u8) list"

section \<open>Channels and devices\<close>

definition init_channel :: "nat \<Rightarrow> channel option" where
  "init_channel chan_no =
     (if chan_no = 0 then Some \<lparr>reg_base = 0x1f0, irq = 14 + 0x20, expecting_interrupt = False, completion_wait = 0\<rparr>
      else if chan_no = 1 then Some \<lparr>reg_base = 0x170, irq = 15 + 0x20, expecting_interrupt = False, completion_wait = 0\<rparr>
      else None)"

definition init_device :: "channel \<Rightarrow> nat \<Rightarrow> (u32 \<Rightarrow> u8 list) \<Rightarrow> disk" where
  "init_device c n medium =
     \<lparr>chan = c, dev_no = n, is_ata = False, capacity = 0, read_cnt = 0, write_cnt = 0, sectors = medium\<rparr>"

definition disk_get :: "(nat \<Rightarrow> nat \<Rightarrow> disk) \<Rightarrow> nat \<Rightarrow> nat \<Rightarrow> disk option option" where
  "disk_get devices chan_no n = do {
     ASSERT (n = 0 \<or> n = 1);
     Some (if chan_no < CHANNEL_CNT \<and> is_ata (devices chan_no n) then Some (devices chan_no n) else None)
   }"

definition disk_size :: "disk \<Rightarrow> u32" where
  "disk_size d = capacity d"

text \<open>The signature that the registers \<open>error\<close>, \<open>lbam\<close>, \<open>lbah\<close> and \<open>status\<close> show after a reset; the second result
  says whether a slave may exist.\<close>

definition check_device_type :: "disk \<Rightarrow> u8 \<Rightarrow> u8 \<Rightarrow> u8 \<Rightarrow> u8 \<Rightarrow> disk \<times> bool" where
  "check_device_type d error lbam lbah status =
     (if (error \<noteq> 1 \<and> (error \<noteq> 0x81 \<or> dev_no d = 1)) \<or> status AND STA_DRDY = 0 \<or> status AND STA_BSY \<noteq> 0
      then (d\<lparr>is_ata := False\<rparr>, error \<noteq> 0x81)
      else (d\<lparr>is_ata := (lbam = 0 \<and> lbah = 0) \<or> (lbam = 0x3c \<and> lbah = 0xc3)\<rparr>, True))"

text \<open>The capacity that the device reports in two 16-bit words of its identity; \<open>ready\<close> is the result of the wait for it.\<close>

definition identify_ata_device :: "disk \<Rightarrow> bool \<Rightarrow> u16 list \<Rightarrow> disk option" where
  "identify_ata_device d ready ident = do {
     ASSERT (is_ata d);
     if \<not> ready then Some (d\<lparr>is_ata := False\<rparr>)
     else do {
       ASSERT (length ident = DISK_SECTOR_SIZE div 2);
       Some (d\<lparr>capacity := ucast (ident ! 60) OR push_bit 16 (ucast (ident ! 61))\<rparr>)
     }
   }"

definition is_space :: "u8 \<Rightarrow> bool" where
  "is_space c \<longleftrightarrow> c \<in> {32, 12, 10, 13, 9, 11}"

text \<open>The loop that finds the last character to print, and the printing; bytes are swapped in pairs.\<close>

fun ata_string_end :: "u8 list \<Rightarrow> nat \<Rightarrow> nat" where
  "ata_string_end s 0 = 0"
| "ata_string_end s (Suc n) =
     (let c = s ! (if even n then n + 1 else n - 1)
      in if c \<noteq> 0 \<and> \<not> is_space c then Suc n else ata_string_end s n)"

definition print_ata_string :: "u8 list \<Rightarrow> nat \<Rightarrow> u8 list" where
  "print_ata_string s sz = map (\<lambda>i. s ! (if even i then i + 1 else i - 1)) [0..<ata_string_end s sz]"

section \<open>Waiting\<close>

text \<open>\<open>st i\<close> is the \<open>i\<close>-th value read from the status register.\<close>

fun busy_loop :: "(nat \<Rightarrow> u8) \<Rightarrow> nat \<Rightarrow> nat \<Rightarrow> bool" where
  "busy_loop st i 0 = False"
| "busy_loop st i (Suc n) = (if st i AND STA_BSY = 0 then st (i + 1) AND STA_DRQ \<noteq> 0 else busy_loop st (i + 1) n)"

definition wait_while_busy :: "(nat \<Rightarrow> u8) \<Rightarrow> bool" where
  "wait_while_busy st = busy_loop st 0 3000"

fun idle_loop :: "(nat \<Rightarrow> u8) \<Rightarrow> nat \<Rightarrow> nat \<Rightarrow> bool" where
  "idle_loop st i 0 = False"
| "idle_loop st i (Suc n) = (st i AND (STA_BSY OR STA_DRQ) = 0 \<or> idle_loop st (i + 1) n)"

text \<open>Whether the controller became idle; the code only reports a timeout.\<close>

definition wait_until_idle :: "(nat \<Rightarrow> u8) \<Rightarrow> bool" where
  "wait_until_idle st = idle_loop st 0 1000"

definition select_device :: "disk \<Rightarrow> port_writes" where
  "select_device d = [(reg_device (chan d), if dev_no d = 1 then DEV_MBS OR DEV_DEV else DEV_MBS)]"

section \<open>Transfers\<close>

definition select_sector :: "disk \<Rightarrow> u32 \<Rightarrow> port_writes option" where
  "select_sector d sec_no = do {
     ASSERT (sec_no < capacity d);
     ASSERT (sec_no < push_bit 28 1);
     let c = chan d;
     Some (select_device d @
       [(reg_nsect c, 1),
        (reg_lbal c, ucast sec_no),
        (reg_lbam c, ucast (drop_bit 8 sec_no)),
        (reg_lbah c, ucast (drop_bit 16 sec_no)),
        (reg_device c, DEV_MBS OR DEV_LBA OR (if dev_no d = 1 then DEV_DEV else 0) OR ucast (drop_bit 24 sec_no))])
   }"

definition issue_pio_command :: "channel \<Rightarrow> bool \<Rightarrow> u8 \<Rightarrow> (channel \<times> port_writes) option" where
  "issue_pio_command c intr_on command = do {
     ASSERT intr_on;
     Some (c\<lparr>expecting_interrupt := True\<rparr>, [(reg_command c, command)])
   }"

text \<open>The last value written to a port, and the address that the address registers hold.\<close>

definition reg_value :: "port_writes \<Rightarrow> u16 \<Rightarrow> u8" where
  "reg_value ws p = (case map_of (rev ws) p of None \<Rightarrow> 0 | Some v \<Rightarrow> v)"

definition lba_of :: "channel \<Rightarrow> port_writes \<Rightarrow> u32" where
  "lba_of c ws = ucast (reg_value ws (reg_lbal c)) OR push_bit 8 (ucast (reg_value ws (reg_lbam c))) OR
     push_bit 16 (ucast (reg_value ws (reg_lbah c))) OR push_bit 24 (ucast (reg_value ws (reg_device c) AND 0x0f))"

definition disk_read :: "disk \<Rightarrow> u32 \<Rightarrow> (u8 list \<times> disk) option" where
  "disk_read d sec_no = do {
     ws \<leftarrow> select_sector d sec_no;
     (c, w) \<leftarrow> issue_pio_command (chan d) True CMD_READ_SECTOR_RETRY;
     Some (sectors d (lba_of (chan d) (ws @ w)), d\<lparr>chan := c, read_cnt := read_cnt d + 1\<rparr>)
   }"

definition disk_write :: "disk \<Rightarrow> u32 \<Rightarrow> u8 list \<Rightarrow> disk option" where
  "disk_write d sec_no buffer = do {
     ws \<leftarrow> select_sector d sec_no;
     (c, w) \<leftarrow> issue_pio_command (chan d) True CMD_WRITE_SECTOR_RETRY;
     ASSERT (length buffer = DISK_SECTOR_SIZE);
     Some (d\<lparr>chan := c, write_cnt := write_cnt d + 1, sectors := (sectors d)(lba_of (chan d) (ws @ w) := buffer)\<rparr>)
   }"

text \<open>The interrupt handler finds the channel of the interrupt; an expected one wakes the waiter.\<close>

fun disk_interrupt :: "channel list \<Rightarrow> u8 \<Rightarrow> channel list option" where
  "disk_interrupt [] vec = None"
| "disk_interrupt (c # cs) vec =
     (if irq c = vec
      then Some ((if expecting_interrupt c then c\<lparr>completion_wait := completion_wait c + 1\<rparr> else c) # cs)
      else do { cs \<leftarrow> disk_interrupt cs vec; Some (c # cs) })"

section \<open>Addressing\<close>

lemma sector_registers:
  fixes s :: u32
  assumes "s < 0x10000000"
  shows "ucast (ucast s :: u8) OR push_bit 8 (ucast (ucast (drop_bit 8 s) :: u8)) OR push_bit 16 (ucast (ucast (drop_bit 16 s) :: u8)) OR
    push_bit 24 (ucast (take_bit 4 (ucast (drop_bit 24 s) :: u8))) = s"
proof (rule bit_eqI)
  fix n assume "possible_bit TYPE(32 word) n"
  then have n: "n < 32" by (simp add: possible_bit_word)
  have "take_bit 28 s = s" using assms by (simp add: take_bit_eq_mod mod_word_less)
  then have hi: "\<not> bit s n" if "28 \<le> n" using that by (metis bit_take_bit_iff not_le)
  consider "n < 8" | "8 \<le> n" "n < 16" | "16 \<le> n" "n < 24" | "24 \<le> n" "n < 28" | "28 \<le> n" by linarith
  then show "bit ((ucast (ucast s :: u8) :: u32) OR push_bit 8 (ucast (ucast (drop_bit 8 s) :: u8)) OR push_bit 16 (ucast (ucast (drop_bit 16 s) :: u8)) OR
      push_bit 24 (ucast (take_bit 4 (ucast (drop_bit 24 s) :: u8)))) n = bit s n"
    using n hi by cases (auto simp: bit_simps)
qed

lemma device_register: "(DEV_MBS OR DEV_LBA OR (if b then DEV_DEV else 0) OR h) AND 0x0f = take_bit 4 h"
proof -
  have m: "(0x0f :: u8) = mask 4" by (simp add: mask_eq_exp_minus_1)
  show ?thesis unfolding m take_bit_eq_mask [symmetric] take_bit_or
    by (simp add: DEV_MBS_def DEV_LBA_def DEV_DEV_def)
qed

lemma lba_select_sector:
  assumes "select_sector d sec_no = Some ws"
  shows "lba_of (chan d) (ws @ [(reg_command (chan d), v)]) = sec_no"
proof -
  have lt: "sec_no < 0x10000000" using assms by (simp add: select_sector_def split: if_splits)
  have ws: "ws = select_device d @
       [(reg_nsect (chan d), 1), (reg_lbal (chan d), ucast sec_no), (reg_lbam (chan d), ucast (drop_bit 8 sec_no)),
        (reg_lbah (chan d), ucast (drop_bit 16 sec_no)),
        (reg_device (chan d), DEV_MBS OR DEV_LBA OR (if dev_no d = 1 then DEV_DEV else 0) OR ucast (drop_bit 24 sec_no))]"
    using assms by (simp add: select_sector_def Let_def split: if_splits)
  show ?thesis unfolding lba_of_def ws reg_value_def
    by (simp add: reg_nsect_def reg_lbal_def reg_lbam_def reg_lbah_def reg_device_def reg_command_def reg_status_def
        device_register sector_registers [OF lt])
qed

text \<open>A sector number that fits the disk and 28 bits addresses that very sector.\<close>

lemma select_sector_ok: "sec_no < capacity d \<Longrightarrow> sec_no < push_bit 28 1 \<Longrightarrow> \<exists>ws. select_sector d sec_no = Some ws"
  by (simp add: select_sector_def Let_def)

lemma disk_read_eq:
  "disk_read d sec_no = (if sec_no < capacity d \<and> sec_no < push_bit 28 1
     then Some (sectors d sec_no, d\<lparr>chan := (chan d)\<lparr>expecting_interrupt := True\<rparr>, read_cnt := read_cnt d + 1\<rparr>) else None)"
proof (cases "select_sector d sec_no")
  case None
  then show ?thesis using select_sector_ok [of sec_no d] by (auto simp: disk_read_def)
next
  case (Some ws)
  moreover have "sec_no < capacity d \<and> sec_no < push_bit 28 1" using Some by (simp add: select_sector_def split: if_splits)
  ultimately show ?thesis using lba_select_sector [OF Some] by (simp add: disk_read_def issue_pio_command_def)
qed

lemma disk_write_eq:
  "disk_write d sec_no buffer = (if sec_no < capacity d \<and> sec_no < push_bit 28 1 \<and> length buffer = DISK_SECTOR_SIZE
     then Some (d\<lparr>chan := (chan d)\<lparr>expecting_interrupt := True\<rparr>, write_cnt := write_cnt d + 1, sectors := (sectors d)(sec_no := buffer)\<rparr>)
     else None)"
proof (cases "select_sector d sec_no")
  case None
  then show ?thesis using select_sector_ok [of sec_no d] by (auto simp: disk_write_def)
next
  case (Some ws)
  moreover have "sec_no < capacity d \<and> sec_no < push_bit 28 1" using Some by (simp add: select_sector_def split: if_splits)
  ultimately show ?thesis using lba_select_sector [OF Some] by (simp add: disk_write_def issue_pio_command_def)
qed

end
