(* ===== verification/Sector_Store.thy ===== *)
theory Sector_Store
  imports Prelude
begin

text \<open>
  The contract of a store of numbered sectors that are read and written in part, and what follows for a
  client that makes a sequence of accesses: it sees one flat array of sectors. The buffer cache provides it.
\<close>

text \<open>\<open>bs\<close> with the bytes from \<open>ofs\<close> on replaced.\<close>

definition patch :: "'a list \<Rightarrow> nat \<Rightarrow> 'a list \<Rightarrow> 'a list" where
  "patch bs ofs new = take ofs bs @ new @ drop (ofs + length new) bs"

lemma length_patch [simp]: "ofs + length new \<le> length bs \<Longrightarrow> length (patch bs ofs new) = length bs"
  by (simp add: patch_def)

lemma nth_patch:
  "ofs + length new \<le> length bs \<Longrightarrow> i < length bs \<Longrightarrow>
   patch bs ofs new ! i = (if ofs \<le> i \<and> i < ofs + length new then new ! (i - ofs) else bs ! i)"
  by (auto simp: patch_def nth_append min_def)

lemma patch_Nil [simp]: "patch bs ofs [] = bs"
  by (simp add: patch_def)

lemma take_drop_patch_same: "ofs + length new \<le> length bs \<Longrightarrow> take (length new) (drop ofs (patch bs ofs new)) = new"
  by (simp add: patch_def)

lemma take_drop_patch_other:
  assumes "ofs + length new \<le> length bs" "p + n \<le> length bs" "p + n \<le> ofs \<or> ofs + length new \<le> p"
  shows "take n (drop p (patch bs ofs new)) = take n (drop p bs)"
  using assms by (intro nth_equalityI) (auto simp: nth_patch)

lemma patch_all: "length new = length bs \<Longrightarrow> patch bs 0 new = new"
  by (simp add: patch_def)

datatype ('k, 'b) access = Fetch 'k nat nat | Store 'k nat "'b list"

fun in_sector :: "('k \<Rightarrow> bool) \<Rightarrow> nat \<Rightarrow> ('k, 'b) access \<Rightarrow> bool" where
  "in_sector legal len (Fetch k ofs n) \<longleftrightarrow> legal k \<and> ofs + n \<le> len"
| "in_sector legal len (Store k ofs bs) \<longleftrightarrow> legal k \<and> ofs + length bs \<le> len"

text \<open>Accesses to a flat array: what the fetches return, and the array afterwards.\<close>

fun flat_accesses :: "('k \<Rightarrow> 'b list) \<Rightarrow> ('k, 'b) access list \<Rightarrow> 'b list list \<times> ('k \<Rightarrow> 'b list)" where
  "flat_accesses v [] = ([], v)"
| "flat_accesses v (Fetch k ofs n # as) = (let (rs, v') = flat_accesses v as in (take n (drop ofs (v k)) # rs, v'))"
| "flat_accesses v (Store k ofs bs # as) = flat_accesses (v(k := patch (v k) ofs bs)) as"

text \<open>The same accesses to a store.\<close>

fun store_accesses ::
  "('s \<Rightarrow> 'k \<Rightarrow> nat \<Rightarrow> nat \<Rightarrow> ('b list \<times> 's) option) \<Rightarrow> ('s \<Rightarrow> 'b list \<Rightarrow> 'k \<Rightarrow> nat \<Rightarrow> 's option) \<Rightarrow>
   's \<Rightarrow> ('k, 'b) access list \<Rightarrow> ('b list list \<times> 's) option" where
  "store_accesses rd wr s [] = Some ([], s)"
| "store_accesses rd wr s (Fetch k ofs n # as) = do {
     (bs, s) \<leftarrow> rd s k ofs n;
     (rs, s) \<leftarrow> store_accesses rd wr s as;
     Some (bs # rs, s)
   }"
| "store_accesses rd wr s (Store k ofs bs # as) = do { s \<leftarrow> wr s bs k ofs; store_accesses rd wr s as }"

locale sector_store =
  fixes inv :: "'s \<Rightarrow> bool"
    and view :: "'s \<Rightarrow> 'k \<Rightarrow> 'b list"
    and legal :: "'s \<Rightarrow> 'k \<Rightarrow> bool"
    and len :: nat
    and rd :: "'s \<Rightarrow> 'k \<Rightarrow> nat \<Rightarrow> nat \<Rightarrow> ('b list \<times> 's) option"
    and wr :: "'s \<Rightarrow> 'b list \<Rightarrow> 'k \<Rightarrow> nat \<Rightarrow> 's option"
  assumes view_length: "inv s \<Longrightarrow> length (view s k) = len"
    and rd_law: "inv s \<Longrightarrow> legal s k \<Longrightarrow> ofs + n \<le> len \<Longrightarrow>
      \<exists>s'. rd s k ofs n = Some (take n (drop ofs (view s k)), s') \<and> inv s' \<and> view s' = view s \<and> legal s' = legal s"
    and wr_law: "inv s \<Longrightarrow> legal s k \<Longrightarrow> ofs + length bs \<le> len \<Longrightarrow>
      \<exists>s'. wr s bs k ofs = Some s' \<and> inv s' \<and> view s' = (view s)(k := patch (view s k) ofs bs) \<and> legal s' = legal s"
begin

lemma accesses_flat:
  "inv s \<Longrightarrow> (\<And>a. a \<in> set as \<Longrightarrow> in_sector (legal s) len a) \<Longrightarrow>
   \<exists>s'. store_accesses rd wr s as = Some (fst (flat_accesses (view s) as), s') \<and> inv s' \<and>
     view s' = snd (flat_accesses (view s) as) \<and> legal s' = legal s"
proof (induction as arbitrary: s)
  case (Cons a as)
  have as: "in_sector (legal s) len b" if "b \<in> set as" for b using Cons.prems(2) that by simp
  show ?case
  proof (cases a)
    case (Fetch k ofs n)
    then have "legal s k" "ofs + n \<le> len" using Cons.prems(2) [of a] by auto
    from rd_law [OF Cons.prems(1) this] obtain s1 where
      s1: "rd s k ofs n = Some (take n (drop ofs (view s k)), s1)" "inv s1" "view s1 = view s" "legal s1 = legal s" by blast
    from Cons.IH [of s1] as s1 Fetch show ?thesis by (auto split: prod.split)
  next
    case (Store k ofs bs)
    then have "legal s k" "ofs + length bs \<le> len" using Cons.prems(2) [of a] by auto
    from wr_law [OF Cons.prems(1) this] obtain s1 where
      s1: "wr s bs k ofs = Some s1" "inv s1" "view s1 = (view s)(k := patch (view s k) ofs bs)" "legal s1 = legal s" by blast
    have "\<exists>s'. store_accesses rd wr s1 as = Some (fst (flat_accesses (view s1) as), s') \<and> inv s' \<and>
        view s' = snd (flat_accesses (view s1) as) \<and> legal s' = legal s1"
      using as s1(4) by (intro Cons.IH [OF s1(2)]) simp
    then show ?thesis unfolding s1(3,4) Store by (simp add: s1(1))
  qed
qed simp

text \<open>A write is read back, and bytes outside it are not affected.\<close>

lemma read_back:
  assumes "inv s" "legal s k" "ofs + length bs \<le> len"
  shows "\<exists>s1 s2. wr s bs k ofs = Some s1 \<and> rd s1 k ofs (length bs) = Some (bs, s2) \<and> inv s2 \<and> view s2 = view s1 \<and> legal s2 = legal s"
proof -
  obtain s1 where s1: "wr s bs k ofs = Some s1" "inv s1" "view s1 = (view s)(k := patch (view s k) ofs bs)" "legal s1 = legal s"
    using wr_law [OF assms] by blast
  have "take (length bs) (drop ofs (view s1 k)) = bs" using s1(3) view_length [OF assms(1)] assms(3) by (simp add: take_drop_patch_same)
  then show ?thesis using rd_law [OF s1(2), of k ofs "length bs"] s1 assms by auto
qed

end

end
