(* ===== verification/Buffer_Cache.thy ===== *)
theory Buffer_Cache
  imports Disk Sector_Store
begin

text \<open>
  The buffer cache, \<open>src/filesys/cache.c\<close>: a list of at most 64 sectors, in the order in which they came in,
  in front of the disk. Every operation runs under the table's lock, so it is one step. The memory of a
  new entry is filled from the disk before anything reads it; until then it is taken to be zero, and
  the two allocations of an entry are taken to succeed, since the code does not check them. Copying a
  range that does not lie in the sector is a fault.
\<close>

abbreviation CACHE_TABLE_MAX_SIZE :: int where "CACHE_TABLE_MAX_SIZE \<equiv> 64"

record cache_table_entry =
  block :: u32
  vaddr :: "u8 list"

record cache_table =
  entries :: "cache_table_entry list"
  table_size :: int
  destroyed :: bool
  filesys_disk :: disk

definition cache_table_init :: "disk \<Rightarrow> cache_table" where
  "cache_table_init d = \<lparr>entries = [], table_size = 0, destroyed = False, filesys_disk = d\<rparr>"

definition cache_table_find :: "cache_table \<Rightarrow> u32 \<Rightarrow> cache_table_entry option" where
  "cache_table_find c b = List.find (\<lambda>e. block e = b) (entries c)"

definition allocate_cache :: "cache_table \<Rightarrow> u32 \<Rightarrow> cache_table option" where
  "allocate_cache c b = do {
     let cte = \<lparr>block = b, vaddr = replicate DISK_SECTOR_SIZE 0\<rparr>;
     ASSERT (table_size c \<le> CACHE_TABLE_MAX_SIZE);
     c \<leftarrow> (if table_size c = CACHE_TABLE_MAX_SIZE
          then do {
            ASSERT (entries c \<noteq> []);
            let victim = hd (entries c);
            d \<leftarrow> disk_write (filesys_disk c) (block victim) (vaddr victim);
            Some (c\<lparr>entries := tl (entries c), filesys_disk := d, table_size := table_size c - 1\<rparr>)
          }
          else Some c);
     Some (c\<lparr>entries := entries c @ [cte], table_size := table_size c + 1\<rparr>)
   }"

fun drop_entry :: "cache_table_entry list \<Rightarrow> u32 \<Rightarrow> cache_table_entry list" where
  "drop_entry [] b = []"
| "drop_entry (e # es) b = (if block e = b then es else e # drop_entry es b)"

definition free_cache :: "cache_table \<Rightarrow> u32 \<Rightarrow> cache_table" where
  "free_cache c b = c\<lparr>entries := drop_entry (entries c) b\<rparr>"

text \<open>The entry of a sector gets new contents.\<close>

definition set_vaddr :: "cache_table \<Rightarrow> u32 \<Rightarrow> u8 list \<Rightarrow> cache_table" where
  "set_vaddr c b bs = c\<lparr>entries := map (\<lambda>e. if block e = b then e\<lparr>vaddr := bs\<rparr> else e) (entries c)\<rparr>"

text \<open>The common start of reading and writing: the sector's entry, read from the disk if it is new.\<close>

definition cache_load :: "cache_table \<Rightarrow> u32 \<Rightarrow> (u8 list \<times> cache_table) option" where
  "cache_load c sector = (case cache_table_find c sector of
       Some cte \<Rightarrow> Some (vaddr cte, c)
     | None \<Rightarrow> do {
         c \<leftarrow> allocate_cache c sector;
         (bs, d) \<leftarrow> disk_read (filesys_disk c) sector;
         Some (bs, set_vaddr (c\<lparr>filesys_disk := d\<rparr>) sector bs)
       })"

definition cache_table_read :: "cache_table \<Rightarrow> u32 \<Rightarrow> nat \<Rightarrow> nat \<Rightarrow> (u8 list \<times> cache_table) option" where
  "cache_table_read c sector ofs n = do {
     (bs, c) \<leftarrow> cache_load c sector;
     ASSERT (ofs + n \<le> length bs);
     Some (take n (drop ofs bs), c)
   }"

definition cache_table_write :: "cache_table \<Rightarrow> u8 list \<Rightarrow> u32 \<Rightarrow> nat \<Rightarrow> cache_table option" where
  "cache_table_write c buffer sector ofs = do {
     (bs, c) \<leftarrow> cache_load c sector;
     ASSERT (ofs + length buffer \<le> length bs);
     Some (set_vaddr c sector (patch bs ofs buffer))
   }"

fun flush_entries :: "disk \<Rightarrow> cache_table_entry list \<Rightarrow> disk option" where
  "flush_entries d [] = Some d"
| "flush_entries d (e # es) = do { d \<leftarrow> disk_write d (block e) (vaddr e); flush_entries d es }"

definition cache_table_flush :: "cache_table \<Rightarrow> cache_table option" where
  "cache_table_flush c = do { d \<leftarrow> flush_entries (filesys_disk c) (entries c); Some (c\<lparr>filesys_disk := d\<rparr>) }"

text \<open>One turn of the thread that writes the cache back every 50 ms; it ends when the table is destroyed.\<close>

definition cache_table_thread :: "cache_table \<Rightarrow> cache_table option option" where
  "cache_table_thread c = (if destroyed c then None else Some (cache_table_flush c))"

definition cache_table_destroy :: "cache_table \<Rightarrow> cache_table option" where
  "cache_table_destroy c = do { c \<leftarrow> cache_table_flush c; Some (c\<lparr>entries := [], destroyed := True\<rparr>) }"

section \<open>What the cache shows\<close>

text \<open>The contents of a sector as the file system sees them.\<close>

definition sector_view :: "cache_table \<Rightarrow> u32 \<Rightarrow> u8 list" where
  "sector_view c sec = (case cache_table_find c sec of Some e \<Rightarrow> vaddr e | None \<Rightarrow> sectors (filesys_disk c) sec)"

definition disk_limit :: "cache_table \<Rightarrow> u32 \<Rightarrow> bool" where
  "disk_limit c sec \<longleftrightarrow> sec < capacity (filesys_disk c) \<and> sec < push_bit 28 1"

definition cache_ok :: "cache_table \<Rightarrow> bool" where
  "cache_ok c \<longleftrightarrow> distinct (map block (entries c)) \<and>
     (\<forall>e \<in> set (entries c). length (vaddr e) = DISK_SECTOR_SIZE \<and> disk_limit c (block e)) \<and>
     (\<forall>sec. length (sectors (filesys_disk c) sec) = DISK_SECTOR_SIZE) \<and>
     int (length (entries c)) \<le> table_size c \<and> table_size c \<le> CACHE_TABLE_MAX_SIZE \<and>
     (table_size c = CACHE_TABLE_MAX_SIZE \<longrightarrow> entries c \<noteq> [])"

lemma find_block: "List.find (\<lambda>e. block e = b) es = Some e \<Longrightarrow> e \<in> set es \<and> block e = b"
  by (auto simp: find_Some_iff)

lemma find_distinct: "distinct (map block es) \<Longrightarrow> e \<in> set es \<Longrightarrow> List.find (\<lambda>x. block x = block e) es = Some e"
  by (induction es) (auto simp: image_iff)

lemma find_None_block: "List.find (\<lambda>e. block e = b) es = None \<longleftrightarrow> b \<notin> block ` set es"
  by (auto simp: find_None_iff)

lemma find_set_vaddr:
  "List.find (\<lambda>e. block e = x) (map (\<lambda>e. if block e = b then e\<lparr>vaddr := bs\<rparr> else e) es) =
     map_option (\<lambda>e. if x = b then e\<lparr>vaddr := bs\<rparr> else e) (List.find (\<lambda>e. block e = x) es)"
  by (induction es) auto

lemma blocks_set_vaddr: "map block (map (\<lambda>e. if block e = b then e\<lparr>vaddr := bs\<rparr> else e) es) = map block es"
  by (induction es) auto

lemma entries_set_vaddr: "map block (entries (set_vaddr c b bs)) = map block (entries c)"
  unfolding set_vaddr_def using blocks_set_vaddr [of b bs "entries c"] by (simp del: map_map)

lemma find_append: "List.find P (xs @ ys) = (case List.find P xs of None \<Rightarrow> List.find P ys | Some x \<Rightarrow> Some x)"
  by (induction xs) auto

lemma view_set_vaddr:
  assumes "b \<in> block ` set (entries c)"
  shows "sector_view (set_vaddr c b bs) = (sector_view c)(b := bs)"
proof
  fix x
  have "List.find (\<lambda>e. block e = b) (entries c) \<noteq> None" using assms by (simp only: find_None_block) simp
  then show "sector_view (set_vaddr c b bs) x = ((sector_view c)(b := bs)) x"
    by (cases "x = b") (auto simp: sector_view_def cache_table_find_def set_vaddr_def find_set_vaddr split: option.split)
qed

lemma cache_ok_set_vaddr: "cache_ok c \<Longrightarrow> length bs = DISK_SECTOR_SIZE \<Longrightarrow> cache_ok (set_vaddr c b bs)"
  unfolding cache_ok_def set_vaddr_def disk_limit_def by (simp add: comp_def blocks_set_vaddr [unfolded map_map comp_def] split: if_splits) auto

lemma view_length_ok: "cache_ok c \<Longrightarrow> length (sector_view c sec) = DISK_SECTOR_SIZE"
  by (auto simp: sector_view_def cache_table_find_def cache_ok_def split: option.split dest: find_block)

text \<open>The eviction of the oldest entry keeps what the cache shows.\<close>

lemma evict_ok:
  assumes ok: "cache_ok c" and e: "entries c = v # es" and d: "disk_write (filesys_disk c) (block v) (vaddr v) = Some d"
  defines "c' \<equiv> c\<lparr>entries := es, filesys_disk := d, table_size := table_size c - 1\<rparr>"
  shows "sector_view c' = sector_view c" "disk_limit c' = disk_limit c" "distinct (map block es)"
    "\<And>x. x \<in> set es \<Longrightarrow> length (vaddr x) = DISK_SECTOR_SIZE \<and> disk_limit c (block x)"
    "\<And>sec. length (sectors d sec) = DISK_SECTOR_SIZE" "block ` set es \<subseteq> block ` set (entries c)"
proof -
  have d': "d = (filesys_disk c)\<lparr>chan := (chan (filesys_disk c))\<lparr>expecting_interrupt := True\<rparr>, write_cnt := write_cnt (filesys_disk c) + 1,
      sectors := (sectors (filesys_disk c))(block v := vaddr v)\<rparr>"
    using d by (simp add: disk_write_eq split: if_splits)
  have ds: "distinct (map block (v # es))" using ok e by (simp add: cache_ok_def)
  then have "List.find (\<lambda>x. block x = block v) es = None" by (auto simp: find_None_block)
  then show "sector_view c' = sector_view c"
    by (auto simp: sector_view_def cache_table_find_def c'_def e fun_eq_iff d' split: option.split)
  show "disk_limit c' = disk_limit c" by (simp add: disk_limit_def c'_def d' fun_eq_iff)
  show "distinct (map block es)" using ds by simp
  show "length (vaddr x) = DISK_SECTOR_SIZE \<and> disk_limit c (block x)" if "x \<in> set es" for x using ok e that by (simp add: cache_ok_def)
  show "length (sectors d sec) = DISK_SECTOR_SIZE" for sec using ok e by (simp add: d' cache_ok_def)
  show "block ` set es \<subseteq> block ` set (entries c)" by (auto simp: e)
qed

lemma allocate_cache_ok:
  assumes ok: "cache_ok c" and new: "b \<notin> block ` set (entries c)" and lim: "disk_limit c b"
  shows "\<exists>c'. allocate_cache c b = Some c' \<and> cache_ok c' \<and> (\<forall>x. x \<noteq> b \<longrightarrow> sector_view c' x = sector_view c x) \<and>
    disk_limit c' = disk_limit c \<and> b \<in> block ` set (entries c') \<and> sectors (filesys_disk c') b = sector_view c b"
proof -
  let ?e = "\<lparr>block = b, vaddr = replicate DISK_SECTOR_SIZE 0\<rparr>"
  have key: "\<exists>c'. allocate_cache c b = Some c' \<and> entries c' = entries c1 @ [?e] \<and> filesys_disk c' = filesys_disk c1 \<and> table_size c' = table_size c1 + 1"
    if "(if table_size c = CACHE_TABLE_MAX_SIZE
          then do {
            ASSERT (entries c \<noteq> []);
            let victim = hd (entries c);
            d \<leftarrow> disk_write (filesys_disk c) (block victim) (vaddr victim);
            Some (c\<lparr>entries := tl (entries c), filesys_disk := d, table_size := table_size c - 1\<rparr>)
          }
          else Some c) = Some c1" for c1
    using ok that by (simp add: allocate_cache_def cache_ok_def Let_def)
  have fin: ?thesis
    if c1: "\<exists>c'. allocate_cache c b = Some c' \<and> entries c' = entries c1 @ [?e] \<and> filesys_disk c' = filesys_disk c1 \<and> table_size c' = table_size c1 + 1"
      "sector_view c1 = sector_view c" "disk_limit c1 = disk_limit c" "distinct (map block (entries c1))"
      "\<And>x. x \<in> set (entries c1) \<Longrightarrow> length (vaddr x) = DISK_SECTOR_SIZE \<and> disk_limit c (block x)"
      "\<And>sec. length (sectors (filesys_disk c1) sec) = DISK_SECTOR_SIZE" "block ` set (entries c1) \<subseteq> block ` set (entries c)"
      "int (length (entries c1)) \<le> table_size c1" "table_size c1 < CACHE_TABLE_MAX_SIZE" for c1
  proof -
    obtain c' where c': "allocate_cache c b = Some c'" "entries c' = entries c1 @ [?e]" "filesys_disk c' = filesys_disk c1" "table_size c' = table_size c1 + 1"
      using c1(1) by blast
    have lm: "disk_limit c' = disk_limit c" using c1(3) c'(3) by (simp add: disk_limit_def fun_eq_iff)
    have nb: "b \<notin> block ` set (entries c1)" using c1(7) new by blast
    then have "List.find (\<lambda>e. block e = b) (entries c1) = None" by (simp add: find_None_block)
    then have "sectors (filesys_disk c') b = sector_view c b" using c1(2) c'(3) by (auto simp: sector_view_def cache_table_find_def dest: fun_cong [of _ _ b])
    moreover have "sector_view c' x = sector_view c x" if "x \<noteq> b" for x
      using that c'(2,3) fun_cong [OF c1(2), of x] by (auto simp: sector_view_def cache_table_find_def find_append split: option.splits)
    moreover have "cache_ok c'" unfolding cache_ok_def lm using c' c1 nb lim by (auto simp: image_iff)
    ultimately show ?thesis using c' lm by auto
  qed
  show ?thesis
  proof (cases "table_size c = CACHE_TABLE_MAX_SIZE")
    case True
    then obtain v es where e: "entries c = v # es" using ok by (cases "entries c") (auto simp: cache_ok_def)
    then have "disk_limit c (block v)" "length (vaddr v) = DISK_SECTOR_SIZE" using ok by (simp_all add: cache_ok_def)
    then obtain d where d: "disk_write (filesys_disk c) (block v) (vaddr v) = Some d" by (simp add: disk_write_eq disk_limit_def)
    let ?c1 = "c\<lparr>entries := es, filesys_disk := d, table_size := table_size c - 1\<rparr>"
    show ?thesis using evict_ok [OF ok e d] ok True e d
      by (intro fin [of ?c1] key) (auto simp: Let_def cache_ok_def)
  next
    case False
    then show ?thesis using ok by (intro fin [of c] key) (auto simp: cache_ok_def)
  qed
qed

lemma cache_load_ok:
  assumes ok: "cache_ok c" and lim: "disk_limit c sec"
  shows "\<exists>c'. cache_load c sec = Some (sector_view c sec, c') \<and> cache_ok c' \<and> sector_view c' = sector_view c \<and>
    disk_limit c' = disk_limit c \<and> sec \<in> block ` set (entries c')"
proof (cases "cache_table_find c sec")
  case (Some e)
  then show ?thesis using ok find_block [of sec "entries c" e] by (auto simp: cache_load_def sector_view_def cache_table_find_def)
next
  case None
  then have new: "sec \<notin> block ` set (entries c)" by (simp add: cache_table_find_def find_None_block)
  obtain c1 where c1: "allocate_cache c sec = Some c1" "cache_ok c1" "\<And>x. x \<noteq> sec \<Longrightarrow> sector_view c1 x = sector_view c x"
    "disk_limit c1 = disk_limit c" "sec \<in> block ` set (entries c1)" "sectors (filesys_disk c1) sec = sector_view c sec"
    using allocate_cache_ok [OF ok new lim] by blast
  have "disk_limit c1 sec" using lim c1(4) by simp
  then obtain d where d: "disk_read (filesys_disk c1) sec = Some (sector_view c sec, d)" "sectors d = sectors (filesys_disk c1)"
      "capacity d = capacity (filesys_disk c1)"
    using c1(6) by (auto simp: disk_read_eq disk_limit_def)
  let ?c2 = "c1\<lparr>filesys_disk := d\<rparr>" let ?c3 = "set_vaddr ?c2 sec (sector_view c sec)"
  have l2: "disk_limit ?c2 = disk_limit c1" using d(3) by (simp add: disk_limit_def fun_eq_iff)
  have ok2: "cache_ok ?c2" using c1(2) d(2) unfolding cache_ok_def l2 by simp
  have v2: "sector_view ?c2 = sector_view c1" using d(2) by (simp add: sector_view_def cache_table_find_def fun_eq_iff split: option.split)
  have "sector_view ?c3 = sector_view c" using view_set_vaddr [of sec ?c2] c1(3,5) v2 by (auto simp: fun_eq_iff)
  moreover have "cache_ok ?c3" using cache_ok_set_vaddr [OF ok2] view_length_ok [OF ok] by simp
  moreover have "disk_limit ?c3 = disk_limit c" using l2 c1(4) by (simp add: set_vaddr_def disk_limit_def fun_eq_iff)
  moreover have "block ` set (entries ?c3) = block ` set (entries c1)" unfolding set_map [symmetric] entries_set_vaddr by simp
  moreover have "cache_load c sec = Some (sector_view c sec, ?c3)" using None c1(1) d(1) by (simp add: cache_load_def)
  ultimately show ?thesis using c1(5) by auto
qed

interpretation buffer_cache: sector_store cache_ok sector_view disk_limit DISK_SECTOR_SIZE cache_table_read cache_table_write
proof
  show "length (sector_view c k) = DISK_SECTOR_SIZE" if "cache_ok c" for c k by (rule view_length_ok [OF that])
next
  fix c k ofs n assume ok: "cache_ok c" and lim: "disk_limit c k" and le: "ofs + n \<le> DISK_SECTOR_SIZE"
  from cache_load_ok [OF ok lim] view_length_ok [OF ok, of k] le
  show "\<exists>c'. cache_table_read c k ofs n = Some (take n (drop ofs (sector_view c k)), c') \<and> cache_ok c' \<and>
      sector_view c' = sector_view c \<and> disk_limit c' = disk_limit c"
    by (auto simp: cache_table_read_def)
next
  fix c k ofs and bs :: "u8 list" assume ok: "cache_ok c" and lim: "disk_limit c k" and le: "ofs + length bs \<le> DISK_SECTOR_SIZE"
  obtain c1 where c1: "cache_load c k = Some (sector_view c k, c1)" "cache_ok c1" "sector_view c1 = sector_view c"
    "disk_limit c1 = disk_limit c" "k \<in> block ` set (entries c1)" using cache_load_ok [OF ok lim] by blast
  let ?c2 = "set_vaddr c1 k (patch (sector_view c k) ofs bs)"
  have "cache_ok ?c2" using cache_ok_set_vaddr [OF c1(2)] view_length_ok [OF ok, of k] le by simp
  moreover have "sector_view ?c2 = (sector_view c)(k := patch (sector_view c k) ofs bs)" using view_set_vaddr [OF c1(5)] c1(3) by simp
  moreover have "disk_limit ?c2 = disk_limit c" using c1(4) by (simp add: set_vaddr_def disk_limit_def fun_eq_iff)
  ultimately show "\<exists>c'. cache_table_write c bs k ofs = Some c' \<and> cache_ok c' \<and>
      sector_view c' = (sector_view c)(k := patch (sector_view c k) ofs bs) \<and> disk_limit c' = disk_limit c"
    using c1(1) view_length_ok [OF ok, of k] le by (simp add: cache_table_write_def)
qed

section \<open>Writing back\<close>

lemma flush_entries_ok:
  "distinct (map block es) \<Longrightarrow> (\<And>e. e \<in> set es \<Longrightarrow> length (vaddr e) = DISK_SECTOR_SIZE \<and> block e < capacity d \<and> block e < push_bit 28 1) \<Longrightarrow>
   \<exists>d'. flush_entries d es = Some d' \<and> capacity d' = capacity d \<and>
     (\<forall>sec. sectors d' sec = (case List.find (\<lambda>e. block e = sec) es of Some e \<Rightarrow> vaddr e | None \<Rightarrow> sectors d sec))"
proof (induction es arbitrary: d)
  case (Cons e es)
  have e: "length (vaddr e) = DISK_SECTOR_SIZE" "block e < capacity d" "block e < push_bit 28 1" using Cons.prems(2) by simp_all
  then obtain d1 where d1: "disk_write d (block e) (vaddr e) = Some d1" "capacity d1 = capacity d" "sectors d1 = (sectors d)(block e := vaddr e)"
    by (simp add: disk_write_eq)
  have "List.find (\<lambda>x. block x = block e) es = None" using Cons.prems(1) by (auto simp: find_None_block)
  moreover obtain d' where "flush_entries d1 es = Some d'" "capacity d' = capacity d1"
      "\<And>sec. sectors d' sec = (case List.find (\<lambda>e. block e = sec) es of Some e \<Rightarrow> vaddr e | None \<Rightarrow> sectors d1 sec)"
    using Cons.IH [of d1] Cons.prems d1(2) by auto
  ultimately show ?case using d1 by (auto split: option.split)
qed simp

lemma cache_table_flush_ok:
  assumes ok: "cache_ok c"
  shows "\<exists>c'. cache_table_flush c = Some c' \<and> cache_ok c' \<and> sector_view c' = sector_view c \<and> disk_limit c' = disk_limit c \<and>
    sectors (filesys_disk c') = sector_view c"
proof -
  obtain d where d: "flush_entries (filesys_disk c) (entries c) = Some d" "capacity d = capacity (filesys_disk c)"
      "\<And>sec. sectors d sec = (case List.find (\<lambda>e. block e = sec) (entries c) of Some e \<Rightarrow> vaddr e | None \<Rightarrow> sectors (filesys_disk c) sec)"
    using flush_entries_ok [of "entries c" "filesys_disk c"] ok by (auto simp: cache_ok_def disk_limit_def)
  have v: "sectors d = sector_view c" using d(3) by (simp add: sector_view_def cache_table_find_def fun_eq_iff)
  have l: "disk_limit (c\<lparr>filesys_disk := d\<rparr>) = disk_limit c" using d(2) by (simp add: disk_limit_def fun_eq_iff)
  have "sector_view (c\<lparr>filesys_disk := d\<rparr>) = sector_view c"
    using v by (auto simp: sector_view_def [of "c\<lparr>filesys_disk := d\<rparr>"] sector_view_def [of c] cache_table_find_def fun_eq_iff split: option.split)
  moreover have "cache_ok (c\<lparr>filesys_disk := d\<rparr>)" using ok v view_length_ok [OF ok] unfolding cache_ok_def l by simp
  ultimately show ?thesis using d(1) v l by (simp add: cache_table_flush_def)
qed

section \<open>Properties\<close>

text \<open>C33. The buffer cache is transparent: from a good state, any sequence of partial reads and writes of legal
sectors returns what the same accesses return on a flat array of sectors, and writing the cache back
afterwards leaves exactly that array on the disk.\<close>

theorem cache_is_transparent:
  assumes "cache_ok c" "\<forall>a \<in> set as. in_sector (disk_limit c) DISK_SECTOR_SIZE a"
  shows "\<exists>c' c''. store_accesses cache_table_read cache_table_write c as = Some (fst (flat_accesses (sector_view c) as), c') \<and>
     cache_table_destroy c' = Some c'' \<and> sectors (filesys_disk c'') = snd (flat_accesses (sector_view c) as)"
proof -
  obtain c' where c': "store_accesses cache_table_read cache_table_write c as = Some (fst (flat_accesses (sector_view c) as), c')"
      "cache_ok c'" "sector_view c' = snd (flat_accesses (sector_view c) as)"
    using buffer_cache.accesses_flat [OF assms(1)] assms(2) by blast
  moreover obtain d where "cache_table_flush c' = Some d" "sectors (filesys_disk d) = sector_view c'"
    using cache_table_flush_ok [OF c'(2)] by blast
  ultimately show ?thesis by (simp add: cache_table_destroy_def)
qed

text \<open>A disk with 1000 empty sectors.\<close>

definition blank_disk :: disk where
  "blank_disk = \<lparr>chan = \<lparr>reg_base = 0x1f0, irq = 46, expecting_interrupt = False, completion_wait = 0\<rparr>, dev_no = 1, is_ata = True,
     capacity = 1000, read_cnt = 0, write_cnt = 0, sectors = \<lambda>_. replicate DISK_SECTOR_SIZE 0\<rparr>"

lemma cache_init_ok:
  assumes "\<And>sec. length (sectors d sec) = DISK_SECTOR_SIZE"
  shows "cache_ok (cache_table_init d)" "sector_view (cache_table_init d) = sectors d"
  using assms by (simp_all add: cache_ok_def cache_table_init_def sector_view_def cache_table_find_def fun_eq_iff)

theorem cache_is_transparent_witness:
  "\<exists>c' c''. store_accesses cache_table_read cache_table_write (cache_table_init blank_disk) [Store 3 2 [7, 8], Fetch 3 1 3] = Some ([[0, 7, 8]], c') \<and>
     cache_table_destroy c' = Some c'' \<and> take 4 (sectors (filesys_disk c'') 3) = [0, 0, 7, 8]"
proof -
  have ok: "cache_ok (cache_table_init blank_disk)" "sector_view (cache_table_init blank_disk) = (\<lambda>_. replicate DISK_SECTOR_SIZE 0)"
    using cache_init_ok [of blank_disk] by (simp_all add: blank_disk_def)
  have a: "\<forall>a \<in> set [Store 3 2 [7, 8], Fetch 3 1 3]. in_sector (disk_limit (cache_table_init blank_disk)) DISK_SECTOR_SIZE a"
    by (simp add: disk_limit_def cache_table_init_def blank_disk_def)
  have f: "flat_accesses (\<lambda>_. replicate DISK_SECTOR_SIZE 0) [Store 3 2 [7, 8], Fetch 3 1 3] =
      ([[0, 7, 8]], (\<lambda>_. replicate DISK_SECTOR_SIZE 0)(3 := patch (replicate DISK_SECTOR_SIZE 0) 2 [7, 8]))"
    by (simp add: patch_def numeral_eq_Suc)
  from cache_is_transparent [OF ok(1) a] show ?thesis unfolding ok(2) f by (auto simp: patch_def numeral_eq_Suc)
qed

text \<open>Sectors are read one after the other, or dropped from the cache.\<close>

fun read_all :: "cache_table \<Rightarrow> u32 list \<Rightarrow> cache_table option" where
  "read_all c [] = Some c"
| "read_all c (s # ss) = do { (_, c) \<leftarrow> cache_table_read c s 0 1; read_all c ss }"

lemma drop_entry_blocks: "distinct (map block es) \<Longrightarrow> map block (drop_entry es b) = filter (\<lambda>x. x \<noteq> b) (map block es)"
  by (induction es) (auto intro!: filter_True [symmetric])

lemma load_new:
  assumes "cache_ok c" "disk_limit c sec" "sec \<notin> block ` set (entries c)" "table_size c < CACHE_TABLE_MAX_SIZE"
  shows "\<exists>bs c'. cache_table_read c sec 0 1 = Some (bs, c') \<and> cache_ok c' \<and> disk_limit c' = disk_limit c \<and>
    map block (entries c') = map block (entries c) @ [sec] \<and> table_size c' = table_size c + 1"
proof -
  obtain c' where c': "cache_table_read c sec 0 1 = Some (take 1 (drop 0 (sector_view c sec)), c')" "cache_ok c'" "disk_limit c' = disk_limit c"
    using buffer_cache.rd_law [OF assms(1,2), of 0 1] by auto
  have n: "cache_table_find c sec = None" using assms(3) by (simp add: cache_table_find_def find_None_block)
  obtain d bs where d: "disk_read (filesys_disk c) sec = Some (bs, d)" using assms(2) by (simp add: disk_read_eq disk_limit_def)
  have "map block (entries c') = map block (entries c) @ [sec]" "table_size c' = table_size c + 1"
    using c'(1) n d assms(4) entries_set_vaddr
    by (auto simp: cache_table_read_def cache_load_def allocate_cache_def Let_def set_vaddr_def split: if_splits simp del: map_map intro: blocks_set_vaddr)
  then show ?thesis using c' by blast
qed

lemma read_all_new:
  "cache_ok c \<Longrightarrow> (\<And>s. s \<in> set ss \<Longrightarrow> disk_limit c s) \<Longrightarrow> distinct (map block (entries c) @ ss) \<Longrightarrow>
   table_size c + int (length ss) \<le> CACHE_TABLE_MAX_SIZE \<Longrightarrow>
   \<exists>c'. read_all c ss = Some c' \<and> cache_ok c' \<and> map block (entries c') = map block (entries c) @ ss \<and>
     table_size c' = table_size c + int (length ss)"
proof (induction ss arbitrary: c)
  case (Cons s ss)
  obtain bs c1 where c1: "cache_table_read c s 0 1 = Some (bs, c1)" "cache_ok c1" "disk_limit c1 = disk_limit c"
      "map block (entries c1) = map block (entries c) @ [s]" "table_size c1 = table_size c + 1"
    using load_new [OF Cons.prems(1), of s] Cons.prems by auto
  have "\<exists>c'. read_all c1 ss = Some c' \<and> cache_ok c' \<and> map block (entries c') = map block (entries c1) @ ss \<and>
     table_size c' = table_size c1 + int (length ss)"
    using Cons.prems c1 by (intro Cons.IH) auto
  then show ?case using c1 by auto
qed simp

lemma free_all:
  "distinct (map block (entries c)) \<Longrightarrow> set (map block (entries c)) \<subseteq> set ss \<Longrightarrow>
   entries (fold (\<lambda>s c. free_cache c s) ss c) = [] \<and> table_size (fold (\<lambda>s c. free_cache c s) ss c) = table_size c"
proof (induction ss arbitrary: c)
  case (Cons s ss)
  have m: "map block (entries (free_cache c s)) = filter (\<lambda>x. x \<noteq> s) (map block (entries c))"
    using drop_entry_blocks [OF Cons.prems(1)] by (simp add: free_cache_def)
  have "entries (fold (\<lambda>s c. free_cache c s) ss (free_cache c s)) = [] \<and>
      table_size (fold (\<lambda>s c. free_cache c s) ss (free_cache c s)) = table_size (free_cache c s)"
    by (rule Cons.IH) (use Cons.prems m in auto)
  then show ?case by (simp add: free_cache_def)
qed simp

text \<open>C34. \<open>free_cache\<close> does not count the entry it removes: when the cache has been filled with 64 sectors and these
are freed, the table is empty but counts as full, and the next access to any sector stops the kernel in
\<open>list_pop_front\<close>.\<close>

theorem free_cache_exhausts:
  assumes "\<And>sec. length (sectors d sec) = DISK_SECTOR_SIZE" "capacity d \<le> push_bit 28 1" "distinct ss" "length ss = 64" "\<And>s. s \<in> set ss \<Longrightarrow> s < capacity d"
  shows "\<exists>c. read_all (cache_table_init d) ss = Some c \<and>
     cache_table_read (fold (\<lambda>s c. free_cache c s) ss c) sec ofs n = None"
proof -
  have l: "disk_limit (cache_table_init d) s" if "s \<in> set ss" for s
    using assms(2) assms(5) [OF that] by (auto simp: disk_limit_def cache_table_init_def)
  obtain c where c: "read_all (cache_table_init d) ss = Some c" "cache_ok c" "map block (entries c) = ss" "table_size c = 64"
    using read_all_new [of "cache_table_init d" ss] cache_init_ok(1) [OF assms(1)] l assms(3,4) by (auto simp: cache_table_init_def)
  let ?c = "fold (\<lambda>s c. free_cache c s) ss c"
  have "entries ?c = []" "table_size ?c = 64" using free_all [of c ss] c(3,4) assms(3) by simp_all
  then have "cache_table_read ?c sec ofs n = None"
    by (simp add: cache_table_read_def cache_load_def cache_table_find_def allocate_cache_def Let_def)
  then show ?thesis using c(1) by blast
qed

theorem free_cache_exhausts_witness:
  "\<exists>c. read_all (cache_table_init blank_disk) (map of_nat [0..<64]) = Some c \<and>
     cache_table_read (fold (\<lambda>s c. free_cache c s) (map of_nat [0..<64]) c) 5 0 1 = None"
proof (rule free_cache_exhausts)
  have u: "unat (of_nat i :: u32) = i" if "i < 64" for i :: nat using that by (simp only: unat_of_nat) simp
  have "inj_on (of_nat :: nat \<Rightarrow> u32) {0..<64}" by (rule inj_onI) (metis atLeastLessThan_iff u)
  then show "distinct (map of_nat [0..<64] :: u32 list)" by (simp add: distinct_map del: upt_rec_numeral)
  show "s < capacity blank_disk" if "s \<in> set (map of_nat [0..<64])" for s
    using that u by (auto simp: blank_disk_def word_less_nat_alt simp del: upt_rec_numeral)
qed (simp_all add: blank_disk_def del: upt_rec_numeral)

end
