(* ===== verification/Inode.thy ===== *)
theory Inode
  imports Bitmap Buffer_Cache
begin

text \<open>
  Index nodes and the free map, \<open>src/filesys/inode.c\<close> and \<open>src/filesys/free-map.c\<close>, with the two routines of
  \<open>src/lib/kernel/bitmap.c\<close> that keep the free map in a file. The file system's state has the buffer cache,
  the free map, the inodes in memory by address and the list of those that are open, and the outcomes of
  the memory allocations to come (an allocation that is not listed succeeds). Offsets, sizes
  and lengths, which the code keeps in a signed 32-bit \<open>off_t\<close>, are natural numbers: the callers pass non-negative ones, the properties
  of reading and writing hold below the largest file size, \<open>8460288\<close> bytes, where no sum leaves \<open>off_t\<close>, and beyond
  \<open>2\<^sup>31\<close>, where the C code has undefined behaviour, the model does not follow it. So the assertion \<open>length >= 0\<close> of
  \<open>inode_create\<close> holds by the type. Its assertion on the size of \<open>struct inode_disk\<close> is the length of \<open>encode_inode\<close>, which \<open>disk_write\<close> checks.

  Writing the free map back is itself a write to a file, so the code is recursive through
  \<open>free_map_allocate\<close>. The routines take the operation that writes the free map as an argument;
  \<open>bitmap_write n\<close> is that operation with at most \<open>n\<close> nested writes. The free map's file has all its sectors
  from the start, so that its own writes allocate nothing and one level is enough.
\<close>

section \<open>State\<close>

abbreviation UNUSED_SECTOR :: u32 where "UNUSED_SECTOR \<equiv> 0xffffffff"
abbreviation DIRECT_MAX :: nat where "DIRECT_MAX \<equiv> 12"
abbreviation SECTOR_MAX :: nat where "SECTOR_MAX \<equiv> 128"
definition INODE_MAGIC :: u32 where "INODE_MAGIC = 0x494e4f44"
definition FREE_MAP_SECTOR :: u32 where "FREE_MAP_SECTOR = 0"
definition ROOT_DIR_SECTOR :: u32 where "ROOT_DIR_SECTOR = 1"

record inode_disk =
  direct :: "u32 list"
  indirect :: u32
  double_indirect :: u32
  is_dir :: u32
  parent_dir :: u32
  ilength :: nat
  imagic :: u32

record inode =
  sector :: u32
  open_cnt :: int
  removed :: bool
  deny_write_cnt :: int
  data :: inode_disk

record open_file =
  f_inode :: ptr
  f_pos :: nat
  f_deny :: bool

record fs =
  cache :: cache_table
  free_map :: bitmap
  free_map_file :: "open_file option"
  open_inodes :: "ptr list"
  inode_at :: "ptr \<Rightarrow> inode"
  next_inode :: ptr
  outcomes :: "bool list"

definition alloc_memory :: "fs \<Rightarrow> bool \<times> fs" where
  "alloc_memory s = (case outcomes s of [] \<Rightarrow> (True, s) | b # bs \<Rightarrow> (b, s\<lparr>outcomes := bs\<rparr>))"

text \<open>The inode behind a pointer. An access through a null pointer or to an inode that has been freed is an error.\<close>

definition deref :: "fs \<Rightarrow> ptr \<Rightarrow> inode option" where
  "deref s p = (if p \<in> set (open_inodes s) then Some (inode_at s p) else None)"

definition upd_inode :: "fs \<Rightarrow> ptr \<Rightarrow> (inode \<Rightarrow> inode) \<Rightarrow> fs" where
  "upd_inode s p f = s\<lparr>inode_at := (inode_at s)(p := f (inode_at s p))\<rparr>"

definition read_cache :: "fs \<Rightarrow> u32 \<Rightarrow> nat \<Rightarrow> nat \<Rightarrow> (u8 list \<times> fs) option" where
  "read_cache s sec ofs n = do { (bs, c) \<leftarrow> cache_table_read (cache s) sec ofs n; Some (bs, s\<lparr>cache := c\<rparr>) }"

definition write_cache :: "fs \<Rightarrow> u8 list \<Rightarrow> u32 \<Rightarrow> nat \<Rightarrow> fs option" where
  "write_cache s bs sec ofs = do { c \<leftarrow> cache_table_write (cache s) bs sec ofs; Some (s\<lparr>cache := c\<rparr>) }"

section \<open>Layout on disk\<close>

definition word_bytes :: "u32 \<Rightarrow> u8 list" where
  "word_bytes w = [ucast w, ucast (drop_bit 8 w), ucast (drop_bit 16 w), ucast (drop_bit 24 w)]"

fun bytes_word :: "u8 list \<Rightarrow> u32" where
  "bytes_word (a # b # c # d # _) = ucast a OR push_bit 8 (ucast b) OR push_bit 16 (ucast c) OR push_bit 24 (ucast d)"
| "bytes_word _ = 0"

definition word_at :: "u8 list \<Rightarrow> nat \<Rightarrow> u32" where
  "word_at bs i = bytes_word (take 4 (drop (4 * i) bs))"

text \<open>\<open>struct inode_disk\<close> as it is on disk, copied as raw memory by the code: 18 words and 110 unused ones, which are zero since
  \<open>inode_create\<close> writes what \<open>calloc\<close> gave it. The code never writes a length with the sign bit set; such a word is read as a large length.\<close>

definition encode_inode :: "inode_disk \<Rightarrow> u8 list" where
  "encode_inode d = concat (map word_bytes
     (direct d @ [indirect d, double_indirect d, is_dir d, parent_dir d, of_nat (ilength d), imagic d] @ replicate 110 0))"

definition decode_inode :: "u8 list \<Rightarrow> inode_disk" where
  "decode_inode bs = \<lparr>direct = map (word_at bs) [0..<DIRECT_MAX], indirect = word_at bs 12, double_indirect = word_at bs 13,
     is_dir = word_at bs 14, parent_dir = word_at bs 15, ilength = unat (word_at bs 16), imagic = word_at bs 17\<rparr>"

definition bytes_to_sectors :: "nat \<Rightarrow> nat" where
  "bytes_to_sectors n = (n + DISK_SECTOR_SIZE - 1) div DISK_SECTOR_SIZE"

text \<open>The contents of a new sector: zeros, or, for a table of sectors, the mark for unused entries.\<close>

definition zeros :: "u8 list" where "zeros = replicate DISK_SECTOR_SIZE 0"
definition unused :: "u8 list" where "unused = concat (map word_bytes (replicate SECTOR_MAX UNUSED_SECTOR))"

section \<open>The free map\<close>

type_synonym saver = "fs \<Rightarrow> (bool \<times> fs) option"

definition free_map_init :: "fs \<Rightarrow> fs option" where
  "free_map_init s = do {
     let n = unat (disk_size (filesys_disk (cache s)));
     let (got_header, s) = alloc_memory s;
     let (got_bits, s) = alloc_memory s;
     m \<leftarrow> bitmap_create got_header (if got_bits then Some (replicate (elem_cnt n) 0) else None) n;
     m \<leftarrow> m;
     m \<leftarrow> bitmap_mark m (unat FREE_MAP_SECTOR);
     m \<leftarrow> bitmap_mark m (unat ROOT_DIR_SECTOR);
     Some (s\<lparr>free_map := m\<rparr>)
   }"

definition free_map_allocate :: "saver \<Rightarrow> fs \<Rightarrow> nat \<Rightarrow> (u32 option \<times> fs) option" where
  "free_map_allocate save s cnt = do {
     (sec, m) \<leftarrow> bitmap_scan_and_flip (free_map s) 0 cnt False;
     let s = s\<lparr>free_map := m\<rparr>;
     (sec, s) \<leftarrow> (if sec \<noteq> BITMAP_ERROR \<and> free_map_file s \<noteq> None
       then do {
         (ok, s) \<leftarrow> save s;
         if \<not> ok
         then do {
           m \<leftarrow> bitmap_set_multiple (free_map s) sec cnt False;
           Some (BITMAP_ERROR, s\<lparr>free_map := m\<rparr>)
         }
         else Some (sec, s)
       }
       else Some (sec, s));
     Some (if sec \<noteq> BITMAP_ERROR then Some (of_nat sec) else None, s)
   }"

definition free_map_release :: "saver \<Rightarrow> fs \<Rightarrow> u32 \<Rightarrow> nat \<Rightarrow> fs option" where
  "free_map_release save s sec cnt = do {
     b \<leftarrow> bitmap_all (free_map s) (unat sec) cnt;
     ASSERT b;
     m \<leftarrow> bitmap_set_multiple (free_map s) (unat sec) cnt False;
     (_, s) \<leftarrow> save (s\<lparr>free_map := m\<rparr>);
     Some s
   }"

section \<open>Blocks of a file\<close>

text \<open>The entry \<open>i\<close> of the table in sector \<open>tab\<close>; an unused one gets a new sector with the contents \<open>fill\<close>.\<close>

definition table_block :: "saver \<Rightarrow> fs \<Rightarrow> u32 \<Rightarrow> nat \<Rightarrow> u8 list \<Rightarrow> (u32 \<times> fs) option" where
  "table_block save s tab i fill = do {
     (bs, s) \<leftarrow> read_cache s tab (4 * i) 4;
     let blk = bytes_word bs;
     if blk = UNUSED_SECTOR
     then do {
       (new, s) \<leftarrow> free_map_allocate save s 1;
       case new of None \<Rightarrow> Some (UNUSED_SECTOR, s)
       | Some blk \<Rightarrow> do {
           s \<leftarrow> write_cache s (word_bytes blk) tab (4 * i);
           s \<leftarrow> write_cache s fill blk 0;
           Some (blk, s)
         }
     }
     else Some (blk, s)
   }"

text \<open>The sector that an inode names itself; a block or a table that is not there yet gets a new sector.\<close>

definition root_block :: "saver \<Rightarrow> fs \<Rightarrow> u32 \<Rightarrow> u8 list \<Rightarrow> (u32 \<times> fs) option" where
  "root_block save s blk fill =
     (if blk = UNUSED_SECTOR
      then do {
        (new, s) \<leftarrow> free_map_allocate save s 1;
        case new of None \<Rightarrow> Some (UNUSED_SECTOR, s)
        | Some blk \<Rightarrow> do { s \<leftarrow> write_cache s fill blk 0; Some (blk, s) }
      }
      else Some (blk, s))"

definition allocate_block :: "saver \<Rightarrow> fs \<Rightarrow> inode_disk \<Rightarrow> nat \<Rightarrow> (u32 \<times> inode_disk \<times> fs) option" where
  "allocate_block save s d pos =
     (if pos < DIRECT_MAX
      then do {
        (blk, s) \<leftarrow> root_block save s (direct d ! pos) zeros;
        Some (blk, d\<lparr>direct := (direct d)[pos := blk]\<rparr>, s)
      }
      else if pos < DIRECT_MAX + SECTOR_MAX
      then do {
        (tab, s) \<leftarrow> root_block save s (indirect d) unused;
        let d = d\<lparr>indirect := tab\<rparr>;
        if tab = UNUSED_SECTOR then Some (UNUSED_SECTOR, d, s)
        else do {
          (blk, s) \<leftarrow> table_block save s tab (pos - DIRECT_MAX) zeros;
          Some (blk, d, s)
        }
      }
      else do {
        (tab, s) \<leftarrow> root_block save s (double_indirect d) unused;
        let d = d\<lparr>double_indirect := tab\<rparr>;
        if tab = UNUSED_SECTOR then Some (UNUSED_SECTOR, d, s)
        else do {
          let ioffset = (pos - DIRECT_MAX - SECTOR_MAX) div SECTOR_MAX;
          let doffset = (pos - DIRECT_MAX - SECTOR_MAX) mod SECTOR_MAX;
          (ind, s) \<leftarrow> table_block save s tab ioffset unused;
          if ind = UNUSED_SECTOR then Some (UNUSED_SECTOR, d, s)
          else do {
            (blk, s) \<leftarrow> table_block save s ind doffset zeros;
            Some (blk, d, s)
          }
        }
      })"

section \<open>Reading and writing\<close>

text \<open>The number of bytes to copy out of the sector of an offset.\<close>

definition read_chunk :: "nat \<Rightarrow> nat \<Rightarrow> nat \<Rightarrow> int" where
  "read_chunk len sz ofs =
     (let inode_left = int len - int ofs;
          sector_left = int (DISK_SECTOR_SIZE - ofs mod DISK_SECTOR_SIZE);
          min_left = (if inode_left < sector_left then inode_left else sector_left)
      in if int sz < min_left then int sz else min_left)"

function read_loop :: "saver \<Rightarrow> fs \<Rightarrow> ptr \<Rightarrow> nat \<Rightarrow> nat \<Rightarrow> u8 list \<Rightarrow> (u8 list \<times> fs) option" where
  "read_loop save s p sz ofs buffer =
     (if sz > 0
      then do {
        i \<leftarrow> deref s p;
        (sec, d, s) \<leftarrow> allocate_block save s (data i) (ofs div DISK_SECTOR_SIZE);
        let s = upd_inode s p (\<lambda>i. i\<lparr>data := d\<rparr>);
        let chunk_size = read_chunk (ilength d) sz ofs;
        if chunk_size \<le> 0 then Some (buffer, s)
        else do {
          (bs, s) \<leftarrow> read_cache s sec (ofs mod DISK_SECTOR_SIZE) (nat chunk_size);
          read_loop save s p (sz - nat chunk_size) (ofs + nat chunk_size) (buffer @ bs)
        }
      }
      else Some (buffer, s))"
  by pat_completeness auto

termination
  by (relation "measure (\<lambda>(save, s, p, sz, ofs, buffer). sz)") (auto split: if_splits)

definition inode_read_with :: "saver \<Rightarrow> fs \<Rightarrow> ptr \<Rightarrow> nat \<Rightarrow> nat \<Rightarrow> (u8 list \<times> fs) option" where
  "inode_read_with save s p sz ofs = read_loop save s p sz ofs []"

function write_loop :: "saver \<Rightarrow> fs \<Rightarrow> ptr \<Rightarrow> u8 list \<Rightarrow> nat \<Rightarrow> nat \<Rightarrow> (nat \<times> fs) option" where
  "write_loop save s p buffer ofs bytes_written =
     (if length buffer > 0
      then do {
        i \<leftarrow> deref s p;
        (sec, d, s) \<leftarrow> allocate_block save s (data i) (ofs div DISK_SECTOR_SIZE);
        let s = upd_inode s p (\<lambda>i. i\<lparr>data := d\<rparr>);
        let sector_ofs = ofs mod DISK_SECTOR_SIZE;
        let sector_left = DISK_SECTOR_SIZE - sector_ofs;
        let chunk_size = (if length buffer < sector_left then length buffer else sector_left);
        if chunk_size \<le> 0 then Some (bytes_written, s)
        else do {
          s \<leftarrow> write_cache s (take chunk_size buffer) sec sector_ofs;
          write_loop save s p (drop chunk_size buffer) (ofs + chunk_size) (bytes_written + chunk_size)
        }
      }
      else Some (bytes_written, s))"
  by pat_completeness auto

termination
  by (relation "measure (\<lambda>(save, s, p, buffer, ofs, n). length buffer)") (auto split: if_splits)

declare read_loop.simps [simp del] write_loop.simps [simp del]

definition inode_write_with :: "saver \<Rightarrow> fs \<Rightarrow> ptr \<Rightarrow> u8 list \<Rightarrow> nat \<Rightarrow> (nat \<times> fs) option" where
  "inode_write_with save s p buffer ofs =
     do {
       i \<leftarrow> deref s p;
       if deny_write_cnt i \<noteq> 0 then Some (0, s)
       else do {
         let s = (if ilength (data i) < ofs + length buffer
                  then upd_inode s p (\<lambda>i. i\<lparr>data := (data i)\<lparr>ilength := ofs + length buffer\<rparr>\<rparr>) else s);
         write_loop save s p buffer ofs 0
       }
     }"

text \<open>\<open>bitmap_write\<close> on the free map and its file.\<close>

fun bitmap_write :: "nat \<Rightarrow> saver" where
  "bitmap_write 0 s = None"
| "bitmap_write (Suc n) s = do {
     f \<leftarrow> free_map_file s;
     let bytes = concat (map word_bytes (bits (free_map s)));
     (written, s) \<leftarrow> inode_write_with (bitmap_write n) s (f_inode f) bytes 0;
     Some (written = byte_cnt (bit_cnt (free_map s)), s)
   }"

definition save_map :: saver where
  "save_map = bitmap_write 2"

definition inode_read_at :: "fs \<Rightarrow> ptr \<Rightarrow> nat \<Rightarrow> nat \<Rightarrow> (u8 list \<times> fs) option" where
  "inode_read_at = inode_read_with save_map"

definition inode_write_at :: "fs \<Rightarrow> ptr \<Rightarrow> u8 list \<Rightarrow> nat \<Rightarrow> (nat \<times> fs) option" where
  "inode_write_at = inode_write_with save_map"

section \<open>Creating, opening and closing inodes\<close>

fun allocate_blocks :: "saver \<Rightarrow> fs \<Rightarrow> inode_disk \<Rightarrow> nat list \<Rightarrow> bool \<Rightarrow> (bool \<times> inode_disk \<times> fs) option" where
  "allocate_blocks save s d [] success = Some (success, d, s)"
| "allocate_blocks save s d (i # is) success = do {
     (blk, d, s) \<leftarrow> allocate_block save s d i;
     allocate_blocks save s d is (if blk = UNUSED_SECTOR then False else success)
   }"

definition inode_create :: "fs \<Rightarrow> u32 \<Rightarrow> nat \<Rightarrow> bool \<Rightarrow> u32 \<Rightarrow> (bool \<times> fs) option" where
  "inode_create s sec len dir parent = do {
     let (ok, s) = alloc_memory s;
     if \<not> ok then Some (False, s)
     else do {
       let sects = bytes_to_sectors len;
       let d = \<lparr>direct = replicate DIRECT_MAX UNUSED_SECTOR, indirect = UNUSED_SECTOR, double_indirect = UNUSED_SECTOR,
                is_dir = (if dir then 1 else 0), parent_dir = parent, ilength = len, imagic = INODE_MAGIC\<rparr>;
       (success, d, s) \<leftarrow> allocate_blocks save_map s d [0..<sects] True;
       if success
       then do {
         dk \<leftarrow> disk_write (filesys_disk (cache s)) sec (encode_inode d);
         Some (True, s\<lparr>cache := (cache s)\<lparr>filesys_disk := dk\<rparr>\<rparr>)
       }
       else Some (False, s)
     }
   }"

definition inode_init :: "fs \<Rightarrow> fs" where
  "inode_init s = s\<lparr>open_inodes := []\<rparr>"

definition inode_reopen :: "fs \<Rightarrow> ptr \<Rightarrow> (ptr \<times> fs) option" where
  "inode_reopen s p =
     (if p \<noteq> NULL then do { i \<leftarrow> deref s p; Some (p, upd_inode s p (\<lambda>i. i\<lparr>open_cnt := open_cnt i + 1\<rparr>)) }
      else Some (p, s))"

definition inode_open :: "fs \<Rightarrow> u32 \<Rightarrow> (ptr \<times> fs) option" where
  "inode_open s sec = (case List.find (\<lambda>p. sector (inode_at s p) = sec) (open_inodes s) of
       Some p \<Rightarrow> inode_reopen s p
     | None \<Rightarrow> do {
         let (ok, s) = alloc_memory s;
         if \<not> ok then Some (NULL, s)
         else do {
           let p = next_inode s;
           (bs, dk) \<leftarrow> disk_read (filesys_disk (cache s)) sec;
           Some (p, s\<lparr>cache := (cache s)\<lparr>filesys_disk := dk\<rparr>, open_inodes := p # open_inodes s, next_inode := p + 1,
             inode_at := (inode_at s)(p := \<lparr>sector = sec, open_cnt = 1, removed = False, deny_write_cnt = 0, data = decode_inode bs\<rparr>)\<rparr>)
         }
       })"

definition inode_get_inumber :: "fs \<Rightarrow> ptr \<Rightarrow> u32 option" where
  "inode_get_inumber s p = do { i \<leftarrow> deref s p; Some (sector i) }"

definition drop_sector :: "fs \<Rightarrow> u32 \<Rightarrow> fs option" where
  "drop_sector s blk = do { s \<leftarrow> free_map_release save_map s blk 1; Some (s\<lparr>cache := free_cache (cache s) blk\<rparr>) }"

text \<open>One turn of the loop of \<open>free_blocks\<close>, which goes from the last sector of the file to the first.\<close>

definition free_block :: "fs \<Rightarrow> inode_disk \<Rightarrow> nat \<Rightarrow> fs option" where
  "free_block s d pos =
     (if pos < DIRECT_MAX then drop_sector s (direct d ! pos)
      else if pos < DIRECT_MAX + SECTOR_MAX
      then do {
        let doffset = pos - DIRECT_MAX;
        (bs, s) \<leftarrow> read_cache s (indirect d) (doffset * 4) 4;
        s \<leftarrow> (if bytes_word bs \<noteq> UNUSED_SECTOR then drop_sector s (bytes_word bs) else Some s);
        if doffset = 0 then drop_sector s (indirect d) else Some s
      }
      else do {
        let ioffset = (pos - DIRECT_MAX - SECTOR_MAX) div SECTOR_MAX;
        let doffset = (pos - DIRECT_MAX - SECTOR_MAX) mod SECTOR_MAX;
        (bs, s) \<leftarrow> read_cache s (double_indirect d) (ioffset * 4) 4;
        let ind = bytes_word bs;
        s \<leftarrow> (if ind \<noteq> UNUSED_SECTOR
             then do {
               (bs, s) \<leftarrow> read_cache s ind (doffset * 4) 4;
               s \<leftarrow> (if bytes_word bs \<noteq> UNUSED_SECTOR then drop_sector s (bytes_word bs) else Some s);
               if doffset = 0 then drop_sector s ind else Some s
             }
             else Some s);
        if ioffset = 0 \<and> doffset = 0 then drop_sector s (double_indirect d) else Some s
      })"

fun free_block_list :: "fs \<Rightarrow> inode_disk \<Rightarrow> nat list \<Rightarrow> fs option" where
  "free_block_list s d [] = Some s"
| "free_block_list s d (pos # ps) = do { s \<leftarrow> free_block s d pos; free_block_list s d ps }"

definition free_blocks :: "fs \<Rightarrow> inode_disk \<Rightarrow> fs option" where
  "free_blocks s d = free_block_list s d (rev [0..<bytes_to_sectors (ilength d)])"

definition inode_close :: "fs \<Rightarrow> ptr \<Rightarrow> fs option" where
  "inode_close s p =
     (if p = NULL then Some s
      else do {
        i \<leftarrow> deref s p;
        let s = upd_inode s p (\<lambda>i. i\<lparr>open_cnt := open_cnt i - 1\<rparr>);
        if open_cnt i - 1 = 0
        then do {
          let s = s\<lparr>open_inodes := remove1 p (open_inodes s)\<rparr>;
          if removed i
          then do { s \<leftarrow> free_map_release save_map s (sector i) 1; free_blocks s (data i) }
          else do {
            dk \<leftarrow> disk_write (filesys_disk (cache s)) (sector i) (encode_inode (data i));
            Some (s\<lparr>cache := (cache s)\<lparr>filesys_disk := dk\<rparr>\<rparr>)
          }
        }
        else Some s
      })"

definition inode_remove :: "fs \<Rightarrow> ptr \<Rightarrow> fs option" where
  "inode_remove s p = do { i \<leftarrow> deref s p; Some (upd_inode s p (\<lambda>i. i\<lparr>removed := True\<rparr>)) }"

definition inode_deny_write :: "fs \<Rightarrow> ptr \<Rightarrow> fs option" where
  "inode_deny_write s p = do {
     i \<leftarrow> deref s p;
     ASSERT (deny_write_cnt i + 1 \<le> open_cnt i);
     Some (upd_inode s p (\<lambda>i. i\<lparr>deny_write_cnt := deny_write_cnt i + 1\<rparr>))
   }"

definition inode_allow_write :: "fs \<Rightarrow> ptr \<Rightarrow> fs option" where
  "inode_allow_write s p = do {
     i \<leftarrow> deref s p;
     ASSERT (deny_write_cnt i > 0);
     ASSERT (deny_write_cnt i \<le> open_cnt i);
     Some (upd_inode s p (\<lambda>i. i\<lparr>deny_write_cnt := deny_write_cnt i - 1\<rparr>))
   }"

definition inode_length :: "fs \<Rightarrow> ptr \<Rightarrow> nat option" where
  "inode_length s p = do { i \<leftarrow> deref s p; Some (ilength (data i)) }"

end
