(* ===== verification/Inode_Layout.thy ===== *)
theory Inode_Layout
  imports Inode
begin

text \<open>
  The sectors of a file as a map from slots to sectors: a slot is a block of the file, the table of
  indirect blocks, the table of tables, or one of the tables in it. A sector of the file system belongs
  to at most one slot of one file. This theory shows, for the contents of the disk as a function from sectors to
  bytes, what adding a sector to a slot changes: that slot, and nothing of the contents of any file.
\<close>

section \<open>Words on disk\<close>

lemma length_word_bytes [simp]: "length (word_bytes w) = 4"
  by (simp add: word_bytes_def)

lemma bytes_word_bytes [simp]: "bytes_word (word_bytes w) = w"
  unfolding word_bytes_def bytes_word.simps
proof (rule bit_word_eqI)
  fix n assume "n < LENGTH(32)"
  then consider "n < 8" | "8 \<le> n" "n < 16" | "16 \<le> n" "n < 24" | "24 \<le> n" "n < 32" by fastforce
  then show "bit ((ucast (ucast w :: u8) :: u32) OR push_bit 8 (ucast (ucast (drop_bit 8 w) :: u8)) OR
      push_bit 16 (ucast (ucast (drop_bit 16 w) :: u8)) OR push_bit 24 (ucast (ucast (drop_bit 24 w) :: u8))) n = bit w n"
    by cases (auto simp: bit_or_iff bit_push_bit_iff bit_ucast_iff bit_drop_bit_eq)
qed

lemma take_words:
  "i < length ws \<Longrightarrow> take 4 (drop (4 * i) (concat (map word_bytes ws))) = word_bytes (ws ! i)"
proof (induction ws arbitrary: i)
  case (Cons w ws)
  then show ?case by (cases i) simp_all
qed simp

lemma word_at_words: "i < length ws \<Longrightarrow> word_at (concat (map word_bytes ws)) i = ws ! i"
  by (simp add: word_at_def take_words)

lemma length_words [simp]: "length (concat (map word_bytes ws)) = 4 * length ws"
  by (induction ws) simp_all

lemma word_at_patch:
  assumes "4 * i + 4 \<le> length bs" "4 * j + 4 \<le> length bs"
  shows "word_at (patch bs (4 * i) (word_bytes w)) j = (if i = j then w else word_at bs j)"
proof (cases "i = j")
  case True
  then show ?thesis using take_drop_patch_same [of "4 * i" "word_bytes w" bs] assms by (simp add: word_at_def)
next
  case False
  then have "take 4 (drop (4 * j) (patch bs (4 * i) (word_bytes w))) = take 4 (drop (4 * j) bs)"
    using assms by (intro take_drop_patch_other) auto
  then show ?thesis using False by (simp add: word_at_def)
qed

lemma length_unused [simp]: "length unused = DISK_SECTOR_SIZE"
  unfolding unused_def length_words by simp

lemma length_zeros [simp]: "length zeros = DISK_SECTOR_SIZE"
  by (simp add: zeros_def)

lemma word_at_unused: "i < SECTOR_MAX \<Longrightarrow> word_at unused i = UNUSED_SECTOR"
  unfolding unused_def using word_at_words [of i "replicate SECTOR_MAX UNUSED_SECTOR"] by simp

section \<open>Slots\<close>

datatype slot = Tab | Dtab | Sub nat | Blk nat

abbreviation BLOCK_MAX :: nat where "BLOCK_MAX \<equiv> 16524"

fun valid_slot :: "slot \<Rightarrow> bool" where
  "valid_slot Tab = True"
| "valid_slot Dtab = True"
| "valid_slot (Sub i) = (i < SECTOR_MAX)"
| "valid_slot (Blk pos) = (pos < BLOCK_MAX)"

text \<open>The entry of a table, if the table is there.\<close>

definition entry :: "(u32 \<Rightarrow> u8 list) \<Rightarrow> u32 \<Rightarrow> nat \<Rightarrow> u32" where
  "entry v tab i = (if tab = UNUSED_SECTOR then UNUSED_SECTOR else word_at (v tab) i)"

fun slot_sector :: "(u32 \<Rightarrow> u8 list) \<Rightarrow> inode_disk \<Rightarrow> slot \<Rightarrow> u32" where
  "slot_sector v d Tab = indirect d"
| "slot_sector v d Dtab = double_indirect d"
| "slot_sector v d (Sub i) = entry v (double_indirect d) i"
| "slot_sector v d (Blk pos) =
     (if pos < DIRECT_MAX then direct d ! pos
      else if pos < DIRECT_MAX + SECTOR_MAX then entry v (indirect d) (pos - DIRECT_MAX)
      else entry v (entry v (double_indirect d) ((pos - DIRECT_MAX - SECTOR_MAX) div SECTOR_MAX))
             ((pos - DIRECT_MAX - SECTOR_MAX) mod SECTOR_MAX))"

text \<open>The slot whose table has the entry for a slot, and the place in it.\<close>

fun table_of :: "slot \<Rightarrow> (slot \<times> nat) option" where
  "table_of Tab = None"
| "table_of Dtab = None"
| "table_of (Sub i) = Some (Dtab, i)"
| "table_of (Blk pos) =
     (if pos < DIRECT_MAX then None
      else if pos < DIRECT_MAX + SECTOR_MAX then Some (Tab, pos - DIRECT_MAX)
      else Some (Sub ((pos - DIRECT_MAX - SECTOR_MAX) div SECTOR_MAX), (pos - DIRECT_MAX - SECTOR_MAX) mod SECTOR_MAX))"

lemma slot_in_table: "table_of x = Some (t, i) \<Longrightarrow> slot_sector v d x = entry v (slot_sector v d t) i"
  by (cases x) (auto split: if_splits)

lemma table_of_valid: "valid_slot x \<Longrightarrow> table_of x = Some (t, i) \<Longrightarrow> valid_slot t \<and> i < SECTOR_MAX"
  by (cases x) (auto split: if_splits)

fun slot_in :: "slot \<Rightarrow> nat \<Rightarrow> slot" where
  "slot_in Tab i = Blk (DIRECT_MAX + i)"
| "slot_in Dtab i = Sub i"
| "slot_in (Sub j) i = Blk (DIRECT_MAX + SECTOR_MAX + SECTOR_MAX * j + i)"
| "slot_in (Blk pos) i = Blk pos"

lemma slot_in_table_of: "table_of x = Some (t, i) \<Longrightarrow> x = slot_in t i"
proof (cases x)
  case (Blk pos)
  assume "table_of x = Some (t, i)"
  moreover have "pos = 140 + 128 * ((pos - 140) div 128) + (pos - 140) mod 128" if "\<not> pos < 140"
    using that mult_div_mod_eq [of 128 "pos - 140"] by linarith
  ultimately show ?thesis using Blk by (auto simp del: mult_div_mod_eq split: if_splits)
qed auto

lemma slot_table_inj: "table_of x = Some (t, i) \<Longrightarrow> table_of y = Some (t, i) \<Longrightarrow> x = y"
  using slot_in_table_of by metis

text \<open>The slot of a table, not of a block.\<close>

fun is_table :: "slot \<Rightarrow> bool" where
  "is_table (Blk pos) = False"
| "is_table x = True"

lemma table_of_is_table: "table_of x = Some (t, i) \<Longrightarrow> is_table t"
  by (cases x) (auto split: if_splits)

text \<open>The slots of a family of files that have a sector.\<close>

definition own :: "(u32 \<Rightarrow> u8 list) \<Rightarrow> 'k set \<Rightarrow> ('k \<Rightarrow> inode_disk) \<Rightarrow> ('k \<times> slot) set" where
  "own v K D = {(q, x). q \<in> K \<and> valid_slot x \<and> slot_sector v (D q) x \<noteq> UNUSED_SECTOR}"

definition owned :: "(u32 \<Rightarrow> u8 list) \<Rightarrow> 'k set \<Rightarrow> ('k \<Rightarrow> inode_disk) \<Rightarrow> u32 set" where
  "owned v K D = (\<lambda>(q, x). slot_sector v (D q) x) ` own v K D"

definition layout :: "(u32 \<Rightarrow> u8 list) \<Rightarrow> 'k set \<Rightarrow> ('k \<Rightarrow> inode_disk) \<Rightarrow> bool" where
  "layout v K D \<longleftrightarrow> inj_on (\<lambda>(q, x). slot_sector v (D q) x) (own v K D) \<and> (\<forall>q \<in> K. length (direct (D q)) = DIRECT_MAX) \<and>
     (\<forall>sec. length (v sec) = DISK_SECTOR_SIZE)"

text \<open>The contents of a block: zeros where the file has a hole.\<close>

definition content :: "(u32 \<Rightarrow> u8 list) \<Rightarrow> inode_disk \<Rightarrow> nat \<Rightarrow> u8 list" where
  "content v d pos = (if slot_sector v d (Blk pos) = UNUSED_SECTOR then zeros else v (slot_sector v d (Blk pos)))"

lemma layout_inj:
  "layout v K D \<Longrightarrow> q \<in> K \<Longrightarrow> r \<in> K \<Longrightarrow> valid_slot x \<Longrightarrow> valid_slot y \<Longrightarrow> slot_sector v (D q) x \<noteq> UNUSED_SECTOR \<Longrightarrow>
   slot_sector v (D q) x = slot_sector v (D r) y \<Longrightarrow> q = r \<and> x = y"
  using inj_onD [of "\<lambda>(q, x). slot_sector v (D q) x" "own v K D" "(q, x)" "(r, y)"] by (simp add: layout_def own_def)

lemma ownedI: "q \<in> K \<Longrightarrow> valid_slot x \<Longrightarrow> slot_sector v (D q) x \<noteq> UNUSED_SECTOR \<Longrightarrow> slot_sector v (D q) x \<in> owned v K D"
  unfolding owned_def own_def by force

lemma layout_length: "layout v K D \<Longrightarrow> length (v sec) = DISK_SECTOR_SIZE"
  by (simp add: layout_def)

text \<open>Slots depend only on the sectors that are tables.\<close>

lemma slot_sector_cong:
  assumes "\<And>t. is_table t \<Longrightarrow> valid_slot t \<Longrightarrow> slot_sector v d t \<noteq> UNUSED_SECTOR \<Longrightarrow> v' (slot_sector v d t) = v (slot_sector v d t)"
    and "valid_slot x"
  shows "slot_sector v' d x = slot_sector v d x"
proof -
  have e: "entry v' (slot_sector v d t) i = entry v (slot_sector v d t) i" if "is_table t" "valid_slot t" for t i
    using assms(1) [OF that] by (auto simp: entry_def)
  have sub: "slot_sector v' d (Sub i) = slot_sector v d (Sub i)" for i using e [of Dtab i] by simp
  show ?thesis
  proof (cases x)
    case (Blk pos)
    then have "(pos - 140) div 128 < SECTOR_MAX" using assms(2) by simp
    then show ?thesis
      using e [of Tab "pos - DIRECT_MAX"] e [of "Sub ((pos - 140) div 128)" "(pos - 140) mod 128"] sub [of "(pos - 140) div 128"] Blk
      by simp
  qed (use sub in auto)
qed

section \<open>Adding a sector\<close>

text \<open>In the new state, the slot \<open>x\<close> of the file \<open>p\<close> has the sector \<open>n\<close>, and every other slot is as before.\<close>

definition adds :: "'k set \<Rightarrow> (u32 \<Rightarrow> u8 list) \<Rightarrow> ('k \<Rightarrow> inode_disk) \<Rightarrow> (u32 \<Rightarrow> u8 list) \<Rightarrow> ('k \<Rightarrow> inode_disk) \<Rightarrow> 'k \<Rightarrow> slot \<Rightarrow> u32 \<Rightarrow> bool" where
  "adds K v D v' D' p x n \<longleftrightarrow>
     (\<forall>q \<in> K. \<forall>y. valid_slot y \<longrightarrow> slot_sector v' (D' q) y = (if q = p \<and> y = x then n else slot_sector v (D q) y))"

lemma addsD:
  "adds K v D v' D' p x n \<Longrightarrow> q \<in> K \<Longrightarrow> valid_slot y \<Longrightarrow>
   slot_sector v' (D' q) y = (if q = p \<and> y = x then n else slot_sector v (D q) y)"
  unfolding adds_def by blast

lemma own_adds:
  assumes "adds K v D v' D' p x n" "p \<in> K" "valid_slot x" "slot_sector v (D p) x = UNUSED_SECTOR" "n \<noteq> UNUSED_SECTOR"
  shows "own v' K D' = insert (p, x) (own v K D)"
  using assms addsD [OF assms(1)] unfolding own_def by (auto split: if_splits)

lemma layout_adds:
  assumes lay: "layout v K D" and ad: "adds K v D v' D' p x n" and p: "p \<in> K" "valid_slot x"
    and x: "slot_sector v (D p) x = UNUSED_SECTOR" and n: "n \<noteq> UNUSED_SECTOR" "n \<notin> owned v K D"
    and len: "\<And>q. q \<in> K \<Longrightarrow> length (direct (D' q)) = DIRECT_MAX" "\<And>sec. length (v' sec) = DISK_SECTOR_SIZE"
  shows "layout v' K D'" "owned v' K D' = insert n (owned v K D)"
proof -
  let ?f = "\<lambda>(q, x). slot_sector v (D q) x" and ?f' = "\<lambda>(q, x). slot_sector v' (D' q) x"
  have own: "own v' K D' = insert (p, x) (own v K D)" by (rule own_adds [OF ad p x n(1)])
  have px: "(p, x) \<notin> own v K D" using x by (simp add: own_def)
  have eq: "?f' z = ?f z" if "z \<in> own v K D" for z
    using that px addsD [OF ad] by (cases z) (auto simp: own_def)
  have new: "?f' (p, x) = n" using addsD [OF ad p(1) p(2)] by simp
  have inj: "inj_on ?f' (own v K D)" using lay eq inj_on_cong [of "own v K D" ?f' ?f] by (simp add: layout_def)
  have im: "?f' ` own v K D = owned v K D" unfolding owned_def by (rule image_cong) (use eq in auto)
  show "owned v' K D' = insert n (owned v K D)"
    unfolding owned_def [of v' K D'] own image_insert im using new by simp
  have "inj_on ?f' (insert (p, x) (own v K D))"
    unfolding inj_on_insert using inj im px n(2) new by simp
  then show "layout v' K D'" using own len by (simp add: layout_def)
qed

lemma content_adds:
  assumes ad: "adds K v D v' D' p x n" and q: "q \<in> K" "pos < BLOCK_MAX"
    and x: "slot_sector v (D p) x = UNUSED_SECTOR" and n: "n \<noteq> UNUSED_SECTOR"
    and same: "slot_sector v (D q) (Blk pos) \<noteq> UNUSED_SECTOR \<Longrightarrow> v' (slot_sector v (D q) (Blk pos)) = v (slot_sector v (D q) (Blk pos))"
    and fill: "\<not> is_table x \<Longrightarrow> v' n = zeros"
  shows "content v' (D' q) pos = content v (D q) pos"
proof -
  have "valid_slot (Blk pos)" using q by simp
  from addsD [OF ad q(1) this] show ?thesis
    using same fill n x unfolding content_def by (cases "q = p \<and> Blk pos = x") (auto simp del: slot_sector.simps)
qed

text \<open>One step from a table to an entry of it.\<close>

lemma adds_entry:
  assumes lay: "layout v K D" and q: "q \<in> K" "p \<in> K" and x: "slot_sector v (D p) x = UNUSED_SECTOR"
    and n: "n \<noteq> UNUSED_SECTOR" and fill: "is_table x \<Longrightarrow> v' n = unused"
    and ent: "\<And>q t i. q \<in> K \<Longrightarrow> is_table t \<Longrightarrow> valid_slot t \<Longrightarrow> slot_sector v (D q) t \<noteq> UNUSED_SECTOR \<Longrightarrow> i < SECTOR_MAX \<Longrightarrow>
      word_at (v' (slot_sector v (D q) t)) i =
        (if q = p \<and> table_of x = Some (t, i) then n else word_at (v (slot_sector v (D q) t)) i)"
    and top: "\<And>t i. table_of x = Some (t, i) \<Longrightarrow> slot_sector v (D p) t \<noteq> UNUSED_SECTOR"
    and y: "valid_slot y" "table_of y = Some (t, i)"
    and t: "slot_sector v' (D' q) t = (if q = p \<and> t = x then n else slot_sector v (D q) t)"
  shows "slot_sector v' (D' q) y = (if q = p \<and> y = x then n else slot_sector v (D q) y)"
proof -
  have vt: "valid_slot t" "i < SECTOR_MAX" "is_table t" using table_of_valid [OF y] table_of_is_table [OF y(2)] by auto
  have ne: "y \<noteq> t" using y(2) by (cases y) (auto split: if_splits)
  have e: "slot_sector v' (D' q) y = entry v' (slot_sector v' (D' q) t) i" "slot_sector v (D q) y = entry v (slot_sector v (D q) t) i"
    by (rule slot_in_table [OF y(2)])+
  show ?thesis
  proof (cases "q = p \<and> t = x")
    case True
    then have "entry v' n i = UNUSED_SECTOR" using fill vt n by (simp add: entry_def word_at_unused)
    then show ?thesis using True e t x ne by (auto simp: entry_def simp del: slot_sector.simps)
  next
    case False
    then have t': "slot_sector v' (D' q) t = slot_sector v (D q) t" using t by auto
    show ?thesis
    proof (cases "slot_sector v (D q) t = UNUSED_SECTOR")
      case True
      then show ?thesis using e t' top [of t i] y(2) by (auto simp: entry_def simp del: slot_sector.simps)
    next
      case present: False
      have "(q = p \<and> table_of x = Some (t, i)) = (q = p \<and> y = x)" using y(2) slot_table_inj [of x t i y] by auto
      then show ?thesis using ent [OF q(1) vt(3,1) present vt(2)] e t' present by (simp add: entry_def del: slot_sector.simps)
    qed
  qed
qed

lemma addsI:
  assumes lay: "layout v K D" and p: "p \<in> K" and x: "slot_sector v (D p) x = UNUSED_SECTOR"
    and n: "n \<noteq> UNUSED_SECTOR" and fill: "is_table x \<Longrightarrow> v' n = unused"
    and ent: "\<And>q t i. q \<in> K \<Longrightarrow> is_table t \<Longrightarrow> valid_slot t \<Longrightarrow> slot_sector v (D q) t \<noteq> UNUSED_SECTOR \<Longrightarrow> i < SECTOR_MAX \<Longrightarrow>
      word_at (v' (slot_sector v (D q) t)) i =
        (if q = p \<and> table_of x = Some (t, i) then n else word_at (v (slot_sector v (D q) t)) i)"
    and top: "\<And>t i. table_of x = Some (t, i) \<Longrightarrow> slot_sector v (D p) t \<noteq> UNUSED_SECTOR"
    and root: "\<And>q y. q \<in> K \<Longrightarrow> valid_slot y \<Longrightarrow> table_of y = None \<Longrightarrow>
      slot_sector v' (D' q) y = (if q = p \<and> y = x then n else slot_sector v (D q) y)"
  shows "adds K v D v' D' p x n"
proof -
  have step: "slot_sector v' (D' q) y = (if q = p \<and> y = x then n else slot_sector v (D q) y)"
    if "q \<in> K" "valid_slot y" "table_of y = Some (t, i)"
      "slot_sector v' (D' q) t = (if q = p \<and> t = x then n else slot_sector v (D q) t)" for q y t i
    using lay that(1) p x n fill ent top that(2,3,4) by (rule adds_entry [where v = v and v' = v' and D = D and K = K])
  have sub: "slot_sector v' (D' q) (Sub j) = (if q = p \<and> Sub j = x then n else slot_sector v (D q) (Sub j))"
    if "q \<in> K" "j < SECTOR_MAX" for q j
    by (rule step [where t = Dtab]) (use that root [OF that(1), of Dtab] in simp_all)
  have tab: "slot_sector v' (D' q) t = (if q = p \<and> t = x then n else slot_sector v (D q) t)"
    if "q \<in> K" "is_table t" "valid_slot t" for q t
    using that sub root [of q t] by (cases t) (simp_all del: slot_sector.simps)
  show ?thesis unfolding adds_def
  proof (intro ballI allI impI)
    fix q y assume q: "q \<in> K" and y: "valid_slot y"
    show "slot_sector v' (D' q) y = (if q = p \<and> y = x then n else slot_sector v (D q) y)"
    proof (cases "table_of y")
      case None
      then show ?thesis by (rule root [OF q y])
    next
      case (Some z)
      then have s: "table_of y = Some (fst z, snd z)" by simp
      show ?thesis
        using table_of_valid [OF y s] table_of_is_table [OF s] by (intro step [OF q y s] tab [OF q]) auto
    qed
  qed
qed

text \<open>The contents of a new sector, and the inode with a new sector in a slot of its own.\<close>

definition new_sector :: "slot \<Rightarrow> u8 list" where
  "new_sector x = (if is_table x then unused else zeros)"

fun set_root :: "inode_disk \<Rightarrow> slot \<Rightarrow> u32 \<Rightarrow> inode_disk" where
  "set_root d Tab n = d\<lparr>indirect := n\<rparr>"
| "set_root d Dtab n = d\<lparr>double_indirect := n\<rparr>"
| "set_root d (Sub i) n = d"
| "set_root d (Blk pos) n = d\<lparr>direct := (direct d)[pos := n]\<rparr>"

lemma length_new_sector [simp]: "length (new_sector x) = DISK_SECTOR_SIZE"
  by (simp add: new_sector_def)

lemma not_owned_slot: "n \<notin> owned v K D \<Longrightarrow> q \<in> K \<Longrightarrow> valid_slot y \<Longrightarrow> slot_sector v (D q) y \<noteq> UNUSED_SECTOR \<Longrightarrow> slot_sector v (D q) y \<noteq> n"
  using ownedI [of q K y v D] by auto

definition linked :: "'k set \<Rightarrow> (u32 \<Rightarrow> u8 list) \<Rightarrow> ('k \<Rightarrow> inode_disk) \<Rightarrow> (u32 \<Rightarrow> u8 list) \<Rightarrow> ('k \<Rightarrow> inode_disk) \<Rightarrow> 'k \<Rightarrow> slot \<Rightarrow> u32 \<Rightarrow> bool" where
  "linked K v D v' D' p x n \<longleftrightarrow> adds K v D v' D' p x n \<and> layout v' K D' \<and> owned v' K D' = insert n (owned v K D) \<and>
     (\<forall>q \<in> K. \<forall>pos < BLOCK_MAX. content v' (D' q) pos = content v (D q) pos)"

lemma link_root:
  assumes lay: "layout v K D" and p: "p \<in> K" "valid_slot x" and x: "slot_sector v (D p) x = UNUSED_SECTOR" "table_of x = None"
    and n: "n \<noteq> UNUSED_SECTOR" "n \<notin> owned v K D"
  shows "linked K v D (v(n := new_sector x)) (D(p := set_root (D p) x n)) p x n"
proof -
  let ?v = "v(n := new_sector x)" and ?D = "D(p := set_root (D p) x n)"
  have len: "length (direct (D q)) = DIRECT_MAX" if "q \<in> K" for q using lay that by (simp add: layout_def)
  have ad: "adds K v D ?v ?D p x n"
  proof (rule addsI [OF lay p(1) x(1) n(1)])
    fix q y assume q: "q \<in> K" and y: "valid_slot y" "table_of y = None"
    show "slot_sector ?v (?D q) y = (if q = p \<and> y = x then n else slot_sector v (D q) y)"
      using y x(2) p(2) len [OF q] by (cases y; cases x) (auto split: if_splits)
  qed (use x(2) not_owned_slot [OF n(2)] in \<open>auto simp: new_sector_def\<close>)
  have "length (direct (set_root (D p) x n)) = DIRECT_MAX" using len [OF p(1)] by (cases x) auto
  then have lay': "layout ?v K ?D" "owned ?v K ?D = insert n (owned v K D)"
    using layout_adds [OF lay ad p x(1) n] len layout_length [OF lay] by auto
  have "content ?v (?D q) pos = content v (D q) pos" if q: "q \<in> K" "pos < BLOCK_MAX" for q pos
    using not_owned_slot [OF n(2) q(1), of "Blk pos"] q(2)
    by (intro content_adds [OF ad q x(1) n(1)]) (auto simp: new_sector_def simp del: slot_sector.simps)
  then show ?thesis using ad lay' by (simp add: linked_def)
qed

lemma link_entry:
  assumes lay: "layout v K D" and p: "p \<in> K" "valid_slot x" and x: "slot_sector v (D p) x = UNUSED_SECTOR" "table_of x = Some (t, i)"
    and tab: "tab = slot_sector v (D p) t" "tab \<noteq> UNUSED_SECTOR"
    and n: "n \<noteq> UNUSED_SECTOR" "n \<notin> owned v K D"
  shows "linked K v D (v(tab := patch (v tab) (4 * i) (word_bytes n), n := new_sector x)) D p x n"
proof -
  let ?v = "v(tab := patch (v tab) (4 * i) (word_bytes n), n := new_sector x)"
  have t: "valid_slot t" "i < SECTOR_MAX" "is_table t" using table_of_valid [OF p(2) x(2)] table_of_is_table [OF x(2)] by auto
  have lv: "length (v sec) = DISK_SECTOR_SIZE" for sec by (rule layout_length [OF lay])
  have "tab \<noteq> n" using not_owned_slot [OF n(2) p(1) t(1)] tab by simp
  have other: "q = p \<and> y = t" if "q \<in> K" "valid_slot y" "slot_sector v (D q) y = tab" for q y
    using layout_inj [OF lay that(1) p(1) that(2) t(1)] that(3) tab by simp
  have ad: "adds K v D ?v D p x n"
  proof (rule addsI [OF lay p(1) x(1) n(1)])
    fix q t' j assume q: "q \<in> K" and t': "is_table t'" "valid_slot t'" "slot_sector v (D q) t' \<noteq> UNUSED_SECTOR" "j < SECTOR_MAX"
    have nn: "slot_sector v (D q) t' \<noteq> n" by (rule not_owned_slot [OF n(2) q t'(2,3)])
    have w: "word_at (patch (v tab) (4 * i) (word_bytes n)) j = (if i = j then n else word_at (v tab) j)"
      using t(2) t'(4) lv by (intro word_at_patch) auto
    show "word_at (?v (slot_sector v (D q) t')) j =
        (if q = p \<and> table_of x = Some (t', j) then n else word_at (v (slot_sector v (D q) t')) j)"
    proof (cases "slot_sector v (D q) t' = tab")
      case True
      then show ?thesis using other [OF q t'(2) True] x(2) w nn by simp
    next
      case False
      then have "\<not> (q = p \<and> t' = t)" using tab(1) by blast
      then show ?thesis using False nn x(2) by auto
    qed
  next
    fix q y assume "table_of y = None"
    then show "slot_sector ?v (D q) y = (if q = p \<and> y = x then n else slot_sector v (D q) y)"
      using x(2) by (cases y) (auto split: if_splits)
  qed (use x(2) tab in \<open>auto simp: new_sector_def\<close>)
  have lay': "layout ?v K D" "owned ?v K D = insert n (owned v K D)"
    using layout_adds [OF lay ad p x(1) n] lay t(2) lv by (auto simp: layout_def)
  have "content ?v (D q) pos = content v (D q) pos" if q: "q \<in> K" "pos < BLOCK_MAX" for q pos
    using not_owned_slot [OF n(2) q(1), of "Blk pos"] q(2) other [OF q(1), of "Blk pos"] t(3)
    by (intro content_adds [OF ad q x(1) n(1)]) (auto simp: new_sector_def simp del: slot_sector.simps)
  then show ?thesis using ad lay' by (simp add: linked_def)
qed

section \<open>Writing a block\<close>

text \<open>A change of sectors that are not tables leaves all slots as they are.\<close>

lemma slots_same:
  assumes lay: "layout v K D" and q: "q \<in> K" "valid_slot y"
    and S: "\<And>sec. sec \<notin> S \<Longrightarrow> v' sec = v sec"
    and B: "\<And>r t. r \<in> K \<Longrightarrow> is_table t \<Longrightarrow> valid_slot t \<Longrightarrow> slot_sector v (D r) t \<noteq> UNUSED_SECTOR \<Longrightarrow> slot_sector v (D r) t \<notin> S"
  shows "slot_sector v' (D q) y = slot_sector v (D q) y"
  using S B [OF q(1)] by (intro slot_sector_cong q(2)) auto

text \<open>The sectors of the blocks of a file.\<close>

definition block_sectors :: "(u32 \<Rightarrow> u8 list) \<Rightarrow> inode_disk \<Rightarrow> u32 set" where
  "block_sectors v d = {sec. \<exists>pos < BLOCK_MAX. slot_sector v d (Blk pos) = sec \<and> sec \<noteq> UNUSED_SECTOR}"

lemma table_not_block:
  assumes "layout v K D" "r \<in> K" "m \<in> K" "is_table t" "valid_slot t" "slot_sector v (D r) t \<noteq> UNUSED_SECTOR"
  shows "slot_sector v (D r) t \<notin> block_sectors v (D m)"
proof
  assume "slot_sector v (D r) t \<in> block_sectors v (D m)"
  then obtain pos where "pos < BLOCK_MAX" "slot_sector v (D r) t = slot_sector v (D m) (Blk pos)" by (auto simp: block_sectors_def)
  with layout_inj [OF assms(1,2,3,5), of "Blk pos"] assms(4,6) show False by (auto simp del: slot_sector.simps)
qed

lemma rewrite_blocks:
  assumes lay: "layout v K D" and m: "m \<in> K"
    and S: "\<forall>sec. sec \<notin> block_sectors v (D m) \<longrightarrow> v' sec = v sec" and len: "\<forall>sec. length (v' sec) = DISK_SECTOR_SIZE"
  shows "q \<in> K \<Longrightarrow> valid_slot y \<Longrightarrow> slot_sector v' (D q) y = slot_sector v (D q) y"
    and "layout v' K D" and "owned v' K D = owned v K D"
    and "q \<in> K \<Longrightarrow> q \<noteq> m \<Longrightarrow> pos < BLOCK_MAX \<Longrightarrow> content v' (D q) pos = content v (D q) pos"
proof -
  have ss: "slot_sector v' (D q) y = slot_sector v (D q) y" if "q \<in> K" "valid_slot y" for q y
    using table_not_block [OF lay _ m] S by (intro slots_same [OF lay that, of "block_sectors v (D m)"]) auto
  then show "q \<in> K \<Longrightarrow> valid_slot y \<Longrightarrow> slot_sector v' (D q) y = slot_sector v (D q) y" .
  have own: "own v' K D = own v K D" using ss by (auto simp: own_def)
  have eq: "(case z of (q, x) \<Rightarrow> slot_sector v' (D q) x) = (case z of (q, x) \<Rightarrow> slot_sector v (D q) x)" if "z \<in> own v K D" for z
    using ss that by (auto simp: own_def)
  show "layout v' K D" using lay len eq unfolding layout_def own by (simp cong: inj_on_cong)
  show "owned v' K D = owned v K D" unfolding owned_def own by (rule image_cong) (use eq in auto)
  show "content v' (D q) pos = content v (D q) pos" if q: "q \<in> K" "q \<noteq> m" "pos < BLOCK_MAX"
  proof -
    have v: "valid_slot (Blk pos)" using q by simp
    have "slot_sector v (D q) (Blk pos) \<notin> block_sectors v (D m)" if "slot_sector v (D q) (Blk pos) \<noteq> UNUSED_SECTOR"
    proof
      assume "slot_sector v (D q) (Blk pos) \<in> block_sectors v (D m)"
      then obtain r where "r < BLOCK_MAX" "slot_sector v (D q) (Blk pos) = slot_sector v (D m) (Blk r)" by (auto simp: block_sectors_def)
      with layout_inj [OF lay q(1) m v, of "Blk r"] q(2) that show False by (simp del: slot_sector.simps)
    qed
    then show ?thesis using ss [OF q(1) v] S by (simp add: content_def del: slot_sector.simps)
  qed
qed

end
