(* ===== verification/Inode_Files.thy ===== *)
theory Inode_Files
  imports Inode_Layout
begin

text \<open>
  What the file system keeps while it reads and writes files, and that \<open>inode_read_at\<close> and
  \<open>inode_write_at\<close> of \<open>src/filesys/inode.c\<close> are reading and writing an array of bytes: a file is a function from offsets to bytes,
  zero where nothing was written, that a write changes exactly in its range.
\<close>

section \<open>The invariant\<close>

abbreviation view :: "fs \<Rightarrow> u32 \<Rightarrow> u8 list" where "view s \<equiv> sector_view (cache s)"

definition nfree :: "fs \<Rightarrow> nat" where
  "nfree s = card ({..<bit_cnt (free_map s)} - used_bits (free_map s))"

definition map_blocks :: "fs \<Rightarrow> nat" where
  "map_blocks s = bytes_to_sectors (byte_cnt (bit_cnt (free_map s)))"

text \<open>The sectors that a family of files has are marked in the free map, one sector belongs to one slot, and the file \<open>m\<close> of
  the free map has room for all of it.\<close>

definition fs_ok :: "ptr \<Rightarrow> ptr set \<Rightarrow> (ptr \<Rightarrow> inode_disk) \<Rightarrow> fs \<Rightarrow> bool" where
  "fs_ok m K D s \<longleftrightarrow>
     cache_ok (cache s) \<and> bitmap_wf (free_map s) \<and> bit_cnt (free_map s) \<le> 2 ^ 26 \<and>
     (\<forall>i < bit_cnt (free_map s). disk_limit (cache s) (of_nat i)) \<and>
     layout (view s) K D \<and> unat ` owned (view s) K D \<subseteq> used_bits (free_map s) \<and>
     map_option f_inode (free_map_file s) = Some m \<and> m \<in> K \<and> m \<in> set (open_inodes s) \<and>
     data (inode_at s m) = D m \<and> deny_write_cnt (inode_at s m) = 0 \<and>
     byte_cnt (bit_cnt (free_map s)) \<le> ilength (D m) \<and>
     (\<forall>pos < map_blocks s. slot_sector (view s) (D m) (Blk pos) \<noteq> UNUSED_SECTOR)"

lemma fs_okD:
  assumes "fs_ok m K D s"
  shows "cache_ok (cache s)" "bitmap_wf (free_map s)" "bit_cnt (free_map s) \<le> 2 ^ 26"
    "\<And>i. i < bit_cnt (free_map s) \<Longrightarrow> disk_limit (cache s) (of_nat i)"
    "layout (view s) K D" "\<And>sec. sec \<in> owned (view s) K D \<Longrightarrow> unat sec \<in> used_bits (free_map s)"
    "m \<in> K" "m \<in> set (open_inodes s)" "data (inode_at s m) = D m" "deny_write_cnt (inode_at s m) = 0"
    "byte_cnt (bit_cnt (free_map s)) \<le> ilength (D m)"
    "\<And>pos. pos < map_blocks s \<Longrightarrow> slot_sector (view s) (D m) (Blk pos) \<noteq> UNUSED_SECTOR"
  using assms unfolding fs_ok_def by (simp_all add: image_subset_iff del: slot_sector.simps)

lemma fs_ok_file: "fs_ok m K D s \<Longrightarrow> \<exists>f. free_map_file s = Some f \<and> f_inode f = m"
  unfolding fs_ok_def by (cases "free_map_file s") auto

text \<open>What writing the free map to its file must do.\<close>

definition saver_ok :: "saver \<Rightarrow> ptr \<Rightarrow> bool" where
  "saver_ok save m \<longleftrightarrow> (\<forall>K D s. fs_ok m K D s \<longrightarrow>
     (\<exists>c. save s = Some (True, s\<lparr>cache := c\<rparr>) \<and> cache_ok c \<and> disk_limit c = disk_limit (cache s) \<and>
          (\<forall>sec. sec \<notin> block_sectors (view s) (D m) \<longrightarrow> sector_view c sec = view s sec)))"

text \<open>A step that gives sectors to files, at most \<open>k\<close> of them, and changes the contents of no file but \<open>m\<close>.\<close>

definition grown :: "ptr \<Rightarrow> ptr set \<Rightarrow> (ptr \<Rightarrow> inode_disk) \<Rightarrow> fs \<Rightarrow> (ptr \<Rightarrow> inode_disk) \<Rightarrow> fs \<Rightarrow> nat \<Rightarrow> bool" where
  "grown m K D s D' s' k \<longleftrightarrow> fs_ok m K D' s' \<and> (\<exists>c b. s' = s\<lparr>cache := c, free_map := b\<rparr>) \<and>
     (\<forall>q \<in> K. q \<noteq> m \<longrightarrow> (\<forall>pos < BLOCK_MAX. content (view s') (D' q) pos = content (view s) (D q) pos)) \<and>
     (\<forall>q \<in> K. \<forall>y. valid_slot y \<longrightarrow> slot_sector (view s) (D q) y \<noteq> UNUSED_SECTOR \<longrightarrow>
        slot_sector (view s') (D' q) y = slot_sector (view s) (D q) y) \<and>
     nfree s \<le> nfree s' + k \<and> bit_cnt (free_map s') = bit_cnt (free_map s)"

lemma grown_fs_ok: "grown m K D s D' s' k \<Longrightarrow> fs_ok m K D' s'"
  by (simp add: grown_def)

lemma grown_refl: "fs_ok m K D s \<Longrightarrow> grown m K D s D s 0"
proof -
  have "\<exists>c b. s = s\<lparr>cache := c, free_map := b\<rparr>" by (rule exI [of _ "cache s"], rule exI [of _ "free_map s"]) simp
  then show "fs_ok m K D s \<Longrightarrow> grown m K D s D s 0" by (simp add: grown_def)
qed

lemma grown_trans:
  assumes "grown m K D s D1 s1 k" "grown m K D1 s1 D2 s2 l"
  shows "grown m K D s D2 s2 (k + l)"
proof -
  obtain c b where "s1 = s\<lparr>cache := c, free_map := b\<rparr>" using assms(1) unfolding grown_def by blast
  moreover obtain c' b' where "s2 = s1\<lparr>cache := c', free_map := b'\<rparr>" using assms(2) unfolding grown_def by blast
  ultimately have "s2 = s\<lparr>cache := c', free_map := b'\<rparr>" by simp
  then have st: "\<exists>c b. s2 = s\<lparr>cache := c, free_map := b\<rparr>" by blast
  have ss: "slot_sector (view s2) (D2 q) y = slot_sector (view s) (D q) y"
    if "q \<in> K" "valid_slot y" "slot_sector (view s) (D q) y \<noteq> UNUSED_SECTOR" for q y
  proof -
    have "slot_sector (view s1) (D1 q) y = slot_sector (view s) (D q) y" using assms(1) that unfolding grown_def by blast
    then show ?thesis using assms(2) that unfolding grown_def by metis
  qed
  have co: "content (view s2) (D2 q) pos = content (view s) (D q) pos" if "q \<in> K" "q \<noteq> m" "pos < BLOCK_MAX" for q pos
    using assms that unfolding grown_def by metis
  have "nfree s \<le> nfree s2 + (k + l)" "bit_cnt (free_map s2) = bit_cnt (free_map s)" "fs_ok m K D2 s2"
    using assms unfolding grown_def by linarith+
  then show ?thesis using st ss co unfolding grown_def by blast
qed

lemma grown_mono: "grown m K D s D' s' k \<Longrightarrow> k \<le> l \<Longrightarrow> grown m K D s D' s' l"
  unfolding grown_def by auto

section \<open>Access to sectors\<close>

lemma read_cache_spec:
  assumes "cache_ok (cache s)" "disk_limit (cache s) sec" "ofs + n \<le> DISK_SECTOR_SIZE"
  obtains c where "read_cache s sec ofs n = Some (take n (drop ofs (view s sec)), s\<lparr>cache := c\<rparr>)"
    "cache_ok c" "sector_view c = view s" "disk_limit c = disk_limit (cache s)"
  using buffer_cache.rd_law [OF assms] unfolding read_cache_def by auto

lemma write_cache_spec:
  assumes "cache_ok (cache s)" "disk_limit (cache s) sec" "ofs + length bs \<le> DISK_SECTOR_SIZE"
  obtains c where "write_cache s bs sec ofs = Some (s\<lparr>cache := c\<rparr>)"
    "cache_ok c" "sector_view c = (view s)(sec := patch (view s sec) ofs bs)" "disk_limit c = disk_limit (cache s)"
  using buffer_cache.wr_law [OF assms] unfolding write_cache_def by auto

lemma fs_ok_limit: "fs_ok m K D s \<Longrightarrow> unat sec \<in> used_bits (free_map s) \<Longrightarrow> disk_limit (cache s) sec"
  using fs_okD(4) [of m K D s "unat sec"] by (simp add: used_bits_def)

lemma fs_ok_slot_limit:
  "fs_ok m K D s \<Longrightarrow> q \<in> K \<Longrightarrow> valid_slot y \<Longrightarrow> slot_sector (view s) (D q) y \<noteq> UNUSED_SECTOR \<Longrightarrow>
   disk_limit (cache s) (slot_sector (view s) (D q) y)"
  by (rule fs_ok_limit, assumption) (rule fs_okD(6), assumption, rule ownedI)

text \<open>A change of the cache alone keeps the invariant if it keeps the slots.\<close>

lemma fs_ok_cache:
  assumes ok: "fs_ok m K D s" and c: "cache_ok c" "disk_limit c = disk_limit (cache s)"
    and lay: "layout (sector_view c) K D" "owned (sector_view c) K D = owned (view s) K D"
    and ss: "\<And>pos. pos < map_blocks s \<Longrightarrow> slot_sector (sector_view c) (D m) (Blk pos) = slot_sector (view s) (D m) (Blk pos)"
  shows "fs_ok m K D (s\<lparr>cache := c\<rparr>)"
  using assms unfolding fs_ok_def map_blocks_def by (auto simp del: slot_sector.simps)

section \<open>New sectors\<close>

lemma nfree_take:
  assumes "used_bits b' = insert i (used_bits (free_map s))" "bit_cnt b' = bit_cnt (free_map s)"
    "i < bit_cnt (free_map s)" "i \<notin> used_bits (free_map s)"
  shows "nfree s = Suc (nfree (s\<lparr>free_map := b'\<rparr>))"
proof -
  have "{..<bit_cnt (free_map s)} - used_bits (free_map s) = insert i ({..<bit_cnt b'} - used_bits b')"
    using assms by auto
  then show ?thesis unfolding nfree_def by (simp add: assms(1))
qed

lemma nfree_cache [simp]: "nfree (s\<lparr>cache := c\<rparr>) = nfree s"
  by (simp add: nfree_def)

lemma map_blocks_cache [simp]: "map_blocks (s\<lparr>cache := c\<rparr>) = map_blocks s"
  by (simp add: map_blocks_def)

lemma map_blocks_max: "fs_ok m K D s \<Longrightarrow> map_blocks s \<le> BLOCK_MAX"
proof -
  assume "fs_ok m K D s"
  then have "bit_cnt (free_map s) \<le> 67108864" using fs_okD(3) by force
  then have "byte_cnt (bit_cnt (free_map s)) \<le> 8388608" by (simp add: byte_cnt_def elem_cnt_eq)
  then show ?thesis by (simp add: map_blocks_def bytes_to_sectors_def)
qed

lemma fs_ok_blocks:
  assumes ok: "fs_ok m K D s" and q: "q \<in> K" and c: "cache_ok c" "disk_limit c = disk_limit (cache s)"
    and v: "\<forall>sec. sec \<notin> block_sectors (view s) (D q) \<longrightarrow> sector_view c sec = view s sec"
  shows "fs_ok m K D (s\<lparr>cache := c\<rparr>)"
proof (rule fs_ok_cache [OF ok c])
  have len: "\<forall>sec. length (sector_view c sec) = DISK_SECTOR_SIZE" using buffer_cache.view_length [OF c(1)] by blast
  note r = rewrite_blocks [OF fs_okD(5) [OF ok] q v len]
  show "layout (sector_view c) K D" "owned (sector_view c) K D = owned (view s) K D" by (rule r(2,3))+
  show "slot_sector (sector_view c) (D m) (Blk pos) = slot_sector (view s) (D m) (Blk pos)" if "pos < map_blocks s" for pos
    using that map_blocks_max [OF ok] by (intro r(1) fs_okD(7) [OF ok]) simp_all
qed

lemma grown_saved:
  assumes ok: "fs_ok m K D s" and c: "cache_ok c" "disk_limit c = disk_limit (cache s)"
    and v: "\<forall>sec. sec \<notin> block_sectors (view s) (D m) \<longrightarrow> sector_view c sec = view s sec"
  shows "grown m K D s D (s\<lparr>cache := c\<rparr>) 0" "owned (sector_view c) K D = owned (view s) K D"
    "\<And>q y. q \<in> K \<Longrightarrow> valid_slot y \<Longrightarrow> slot_sector (sector_view c) (D q) y = slot_sector (view s) (D q) y"
proof -
  have len: "\<forall>sec. length (sector_view c sec) = DISK_SECTOR_SIZE" using buffer_cache.view_length [OF c(1)] by blast
  have m: "m \<in> K" by (rule fs_okD(7) [OF ok])
  note r = rewrite_blocks [OF fs_okD(5) [OF ok] m v len]
  have "\<exists>c' b. s\<lparr>cache := c\<rparr> = s\<lparr>cache := c', free_map := b\<rparr>"
    by (rule exI [of _ c], rule exI [of _ "free_map s"]) simp
  then show "grown m K D s D (s\<lparr>cache := c\<rparr>) 0"
    using fs_ok_blocks [OF ok m c v] r(1,4) by (simp add: grown_def del: slot_sector.simps)
  show "owned (sector_view c) K D = owned (view s) K D" by (rule r(3))
  show "slot_sector (sector_view c) (D q) y = slot_sector (view s) (D q) y" if "q \<in> K" "valid_slot y" for q y by (rule r(1) [OF that])
qed

text \<open>Taking a bit of the free map before it is saved.\<close>

lemma grown_taken:
  assumes ok: "fs_ok m K D s" and b: "bitmap_wf b" "bit_cnt b = bit_cnt (free_map s)" "used_bits b = insert i (used_bits (free_map s))"
    and i: "i < bit_cnt (free_map s)" "i \<notin> used_bits (free_map s)"
  shows "grown m K D s D (s\<lparr>free_map := b\<rparr>) 1"
proof -
  have "\<exists>c b'. s\<lparr>free_map := b\<rparr> = s\<lparr>cache := c, free_map := b'\<rparr>"
    by (rule exI [of _ "cache s"], rule exI [of _ b]) simp
  moreover have "fs_ok m K D (s\<lparr>free_map := b\<rparr>)"
    using ok b unfolding fs_ok_def map_blocks_def by (auto simp del: slot_sector.simps)
  ultimately show ?thesis using nfree_take [OF b(3,2) i] b(2) by (simp add: grown_def)
qed

lemma free_map_allocate_spec:
  assumes ok: "fs_ok m K D s" and save: "saver_ok save m"
  obtains (full) "free_map_allocate save s 1 = Some (None, s)" "nfree s = 0"
  | (taken) n s' where "free_map_allocate save s 1 = Some (Some n, s')" "grown m K D s D s' 1"
      "n \<noteq> UNUSED_SECTOR" "n \<notin> owned (view s') K D" "unat n \<in> used_bits (free_map s')"
      "\<And>q y. q \<in> K \<Longrightarrow> valid_slot y \<Longrightarrow> slot_sector (view s') (D q) y = slot_sector (view s) (D q) y"
  using fs_okD(2) [OF ok]
proof (cases rule: bitmap_take_cases [where n = 1])
  case (taken i b)
  let ?t = "s\<lparr>free_map := b\<rparr>"
  have i: "i < bit_cnt (free_map s)" "i \<notin> used_bits (free_map s)" "used_bits b = insert i (used_bits (free_map s))" using taken by auto
  have g1: "grown m K D s D ?t 1" by (rule grown_taken [OF ok taken(3,4) i(3,1,2)])
  note ok1 = grown_fs_ok [OF g1]
  obtain c where c: "save ?t = Some (True, ?t\<lparr>cache := c\<rparr>)" "cache_ok c" "disk_limit c = disk_limit (cache ?t)"
      "\<forall>sec. sec \<notin> block_sectors (view ?t) (D m) \<longrightarrow> sector_view c sec = view ?t sec"
    using save ok1 unfolding saver_ok_def by blast
  note g2 = grown_saved [OF ok1 c(2,3,4)]
  have small: "i < 2 ^ 26" using i(1) fs_okD(3) [OF ok] by simp
  then have un: "unat (of_nat i :: u32) = i" by (simp add: unat_of_nat)
  have "unat (of_nat i :: u32) \<noteq> unat UNUSED_SECTOR" unfolding un using small by simp
  then have ne: "of_nat i \<noteq> UNUSED_SECTOR" by metis
  have "of_nat i \<notin> owned (view s) K D" using fs_okD(6) [OF ok] i(2) un by metis
  then have no: "of_nat i \<notin> owned (view (?t\<lparr>cache := c\<rparr>)) K D" using g2(2) by simp
  have al: "free_map_allocate save s 1 = Some (Some (of_nat i), ?t\<lparr>cache := c\<rparr>)"
    using taken(1,2) c(1) fs_ok_file [OF ok] by (auto simp: free_map_allocate_def)
  show thesis
    using grown_trans [OF g1 g2(1)] ne no un i(3) g2(3) by (intro that(2) [OF al]) auto
next
  case full
  have "nfree s = 0" using full(2) unfolding nfree_def by (auto simp: subset_iff)
  moreover have "free_map_allocate save s 1 = Some (None, s)" using full(1) by (simp add: free_map_allocate_def)
  ultimately show thesis by (intro that(1))
qed

lemma free_map_allocate_full:
  assumes ok: "fs_ok m K D s" and full: "nfree s = 0"
  shows "free_map_allocate save s 1 = Some (None, s)"
  using fs_okD(2) [OF ok]
proof (cases rule: bitmap_take_cases [where n = 1])
  case (taken i b)
  then have "i \<in> {..<bit_cnt (free_map s)} - used_bits (free_map s)" by auto
  then have "0 < nfree s" unfolding nfree_def by (subst card_gt_0_iff) blast
  then show ?thesis using full by simp
next
  case full
  then show ?thesis by (simp add: free_map_allocate_def)
qed

text \<open>A sector that was just taken is filled and linked into a file.\<close>

lemma grown_linked:
  assumes ok: "fs_ok m K D s" and l: "linked K (view s) D (sector_view c) D' p x n" and D': "D' m = D m"
    and c: "cache_ok c" "disk_limit c = disk_limit (cache s)" and n: "unat n \<in> used_bits (free_map s)"
    and x: "slot_sector (view s) (D p) x = UNUSED_SECTOR"
  shows "grown m K D s D' (s\<lparr>cache := c\<rparr>) 0"
proof -
  have ad: "adds K (view s) D (sector_view c) D' p x n" and lay: "layout (sector_view c) K D'"
    and ow: "owned (sector_view c) K D' = insert n (owned (view s) K D)"
    and co: "\<And>q pos. q \<in> K \<Longrightarrow> pos < BLOCK_MAX \<Longrightarrow> content (sector_view c) (D' q) pos = content (view s) (D q) pos"
    using l by (auto simp: linked_def)
  have keep: "slot_sector (sector_view c) (D' q) y = slot_sector (view s) (D q) y"
    if "q \<in> K" "valid_slot y" "slot_sector (view s) (D q) y \<noteq> UNUSED_SECTOR" for q y
    using addsD [OF ad that(1,2)] that(3) x by auto
  have "slot_sector (sector_view c) (D' m) (Blk pos) \<noteq> UNUSED_SECTOR" if "pos < map_blocks s" for pos
    using keep [OF fs_okD(7) [OF ok], of "Blk pos"] fs_okD(12) [OF ok that] that map_blocks_max [OF ok]
    by (simp del: slot_sector.simps)
  then have "fs_ok m K D' (s\<lparr>cache := c\<rparr>)"
    using ok c lay ow n D' unfolding fs_ok_def map_blocks_def by (simp add: image_subset_iff del: slot_sector.simps)
  moreover have "\<exists>c' b. s\<lparr>cache := c\<rparr> = s\<lparr>cache := c', free_map := b\<rparr>"
    by (rule exI [of _ c], rule exI [of _ "free_map s"]) simp
  ultimately show ?thesis using co keep by (simp add: grown_def del: slot_sector.simps)
qed

lemma set_root_same: "table_of x = None \<Longrightarrow> set_root d x (slot_sector v d x) = d"
  by (cases x) (auto split: if_splits)

lemma fresh_slot: "linked K v D v' D' p x n \<Longrightarrow> p \<in> K \<Longrightarrow> valid_slot x \<Longrightarrow> slot_sector v' (D' p) x = n"
  unfolding linked_def by (auto dest: addsD)

lemma root_block_spec:
  assumes ok: "fs_ok m K D s" and save: "saver_ok save m" and p: "p \<in> K" "p \<noteq> m" and x: "valid_slot x" "table_of x = None"
  obtains r s' where "root_block save s (slot_sector (view s) (D p) x) (new_sector x) = Some (r, s')"
    "grown m K D s (D(p := set_root (D p) x r)) s' 1" "slot_sector (view s') (set_root (D p) x r) x = r"
    "r = UNUSED_SECTOR \<Longrightarrow> nfree s = 0"
proof (cases "slot_sector (view s) (D p) x = UNUSED_SECTOR")
  case False
  then have "root_block save s (slot_sector (view s) (D p) x) (new_sector x) = Some (slot_sector (view s) (D p) x, s)"
    by (simp add: root_block_def)
  then show thesis
    using grown_mono [OF grown_refl [OF ok], of 1] set_root_same [OF x(2), of "D p" "view s"] False by (intro that) auto
next
  case True
  from ok save show thesis
  proof (cases rule: free_map_allocate_spec)
    case full
    have id: "set_root (D p) x UNUSED_SECTOR = D p" using set_root_same [OF x(2), of "D p" "view s"] True by simp
    show thesis using True full grown_mono [OF grown_refl [OF ok], of 1] id
      by (intro that [of UNUSED_SECTOR s]) (auto simp: root_block_def)
  next
    case (taken n s1)
    note ok1 = grown_fs_ok [OF taken(2)]
    have x1: "slot_sector (view s1) (D p) x = UNUSED_SECTOR" using taken(6) [OF p(1) x(1)] True by simp
    obtain c where c: "write_cache s1 (new_sector x) n 0 = Some (s1\<lparr>cache := c\<rparr>)" "cache_ok c"
        "sector_view c = (view s1)(n := patch (view s1 n) 0 (new_sector x))" "disk_limit c = disk_limit (cache s1)"
      by (rule write_cache_spec [OF fs_okD(1) [OF ok1] fs_ok_limit [OF ok1 taken(5)], of 0 "new_sector x"]) auto
    have v: "sector_view c = (view s1)(n := new_sector x)"
      using c(3) layout_length [OF fs_okD(5) [OF ok1]] by (simp add: patch_all)
    have l: "linked K (view s1) D (sector_view c) (D(p := set_root (D p) x n)) p x n"
      unfolding v by (rule link_root [OF fs_okD(5) [OF ok1] p(1) x(1) x1 x(2) taken(3,4)])
    have g: "grown m K D s1 (D(p := set_root (D p) x n)) (s1\<lparr>cache := c\<rparr>) 0"
      using p(2) by (intro grown_linked [OF ok1 l _ c(2,4) taken(5) x1]) simp
    have "root_block save s (slot_sector (view s) (D p) x) (new_sector x) = Some (n, s1\<lparr>cache := c\<rparr>)"
      using True taken(1) c(1) by (simp add: root_block_def)
    then show thesis
      using grown_trans [OF taken(2) g] fresh_slot [OF l p(1) x(1)] taken(3) by (intro that) auto
  qed
qed

lemma table_read:
  assumes ok: "fs_ok m K D s" and p: "p \<in> K" and x: "valid_slot x" "table_of x = Some (t, i)"
    and tab: "slot_sector (view s) (D p) t \<noteq> UNUSED_SECTOR"
  obtains c where "read_cache s (slot_sector (view s) (D p) t) (4 * i) 4 =
      Some (take 4 (drop (4 * i) (view s (slot_sector (view s) (D p) t))), s\<lparr>cache := c\<rparr>)"
    "bytes_word (take 4 (drop (4 * i) (view s (slot_sector (view s) (D p) t)))) = slot_sector (view s) (D p) x"
    "cache_ok c" "sector_view c = view s" "disk_limit c = disk_limit (cache s)"
proof -
  have t: "valid_slot t" "i < SECTOR_MAX" using table_of_valid [OF x] by auto
  have le: "4 * i + 4 \<le> DISK_SECTOR_SIZE" using t(2) by simp
  have "bytes_word (take 4 (drop (4 * i) (view s (slot_sector (view s) (D p) t)))) = slot_sector (view s) (D p) x"
    using slot_in_table [OF x(2), of "view s" "D p"] tab by (simp add: entry_def word_at_def del: slot_sector.simps)
  moreover obtain c where "read_cache s (slot_sector (view s) (D p) t) (4 * i) 4 =
      Some (take 4 (drop (4 * i) (view s (slot_sector (view s) (D p) t))), s\<lparr>cache := c\<rparr>)"
    "cache_ok c" "sector_view c = view s" "disk_limit c = disk_limit (cache s)"
    by (rule read_cache_spec [OF fs_okD(1) [OF ok] fs_ok_slot_limit [OF ok p t(1) tab] le])
  ultimately show thesis by (intro that)
qed

lemma grown_read:
  assumes ok: "fs_ok m K D s" and c: "cache_ok c" "sector_view c = view s" "disk_limit c = disk_limit (cache s)"
  shows "grown m K D s D (s\<lparr>cache := c\<rparr>) 0"
  using grown_saved(1) [OF ok c(1,3)] c(2) by simp

lemma table_block_spec:
  assumes ok: "fs_ok m K D s" and save: "saver_ok save m" and p: "p \<in> K" "p \<noteq> m" and x: "valid_slot x" "table_of x = Some (t, i)"
    and tab: "slot_sector (view s) (D p) t \<noteq> UNUSED_SECTOR"
  obtains r s' where "table_block save s (slot_sector (view s) (D p) t) i (new_sector x) = Some (r, s')"
    "grown m K D s D s' 1" "slot_sector (view s') (D p) x = r" "r = UNUSED_SECTOR \<Longrightarrow> nfree s = 0"
proof -
  let ?tab = "slot_sector (view s) (D p) t"
  have t: "valid_slot t" "i < SECTOR_MAX" using table_of_valid [OF x] by auto
  obtain c where c: "read_cache s ?tab (4 * i) 4 = Some (take 4 (drop (4 * i) (view s ?tab)), s\<lparr>cache := c\<rparr>)"
    and w: "bytes_word (take 4 (drop (4 * i) (view s ?tab))) = slot_sector (view s) (D p) x"
    and c': "cache_ok c" "sector_view c = view s" "disk_limit c = disk_limit (cache s)"
    by (rule table_read [OF ok p(1) x tab])
  let ?s = "s\<lparr>cache := c\<rparr>"
  have g0: "grown m K D s D ?s 0" by (rule grown_read [OF ok c'])
  note ok0 = grown_fs_ok [OF g0]
  show thesis
  proof (cases "slot_sector (view s) (D p) x = UNUSED_SECTOR")
    case False
    then have "table_block save s ?tab i (new_sector x) = Some (slot_sector (view s) (D p) x, ?s)"
      using c w by (simp add: table_block_def del: slot_sector.simps)
    then show thesis using grown_mono [OF g0, of 1] c'(2) False by (intro that) auto
  next
    case True
    from ok0 save show thesis
    proof (cases rule: free_map_allocate_spec)
      case full
      then have "table_block save s ?tab i (new_sector x) = Some (UNUSED_SECTOR, ?s)"
        using c w True by (simp add: table_block_def del: slot_sector.simps)
      then show thesis using grown_mono [OF g0, of 1] c'(2) True full(2) by (intro that) auto
    next
      case (taken n s1)
      note ok1 = grown_fs_ok [OF taken(2)]
      have s1: "slot_sector (view s1) (D p) x = UNUSED_SECTOR" "slot_sector (view s1) (D p) t = ?tab"
        using taken(6) [OF p(1) x(1)] taken(6) [OF p(1) t(1)] True c'(2) by simp_all
      have lim: "disk_limit (cache s1) ?tab" using fs_ok_slot_limit [OF ok1 p(1) t(1)] s1(2) tab by simp
      obtain c1 where c1: "write_cache s1 (word_bytes n) ?tab (4 * i) = Some (s1\<lparr>cache := c1\<rparr>)" "cache_ok c1"
          "sector_view c1 = (view s1)(?tab := patch (view s1 ?tab) (4 * i) (word_bytes n))" "disk_limit c1 = disk_limit (cache s1)"
        using t(2) by (elim write_cache_spec [OF fs_okD(1) [OF ok1] lim, of "4 * i" "word_bytes n", rotated]) simp
      have lim2: "disk_limit (cache (s1\<lparr>cache := c1\<rparr>)) n" using fs_ok_limit [OF ok1 taken(5)] c1(4) by simp
      obtain c2 where c2: "write_cache (s1\<lparr>cache := c1\<rparr>) (new_sector x) n 0 = Some (s1\<lparr>cache := c2\<rparr>)" "cache_ok c2"
          "sector_view c2 = (sector_view c1)(n := patch (sector_view c1 n) 0 (new_sector x))" "disk_limit c2 = disk_limit c1"
        using write_cache_spec [OF _ lim2, of 0 "new_sector x"] c1(2) by auto
      have v: "sector_view c2 = (view s1)(?tab := patch (view s1 ?tab) (4 * i) (word_bytes n), n := new_sector x)"
        using c2(3) buffer_cache.view_length [OF c1(2)] unfolding c1(3) [symmetric] by (simp add: patch_all)
      have l: "linked K (view s1) D (sector_view c2) D p x n"
        unfolding v using tab by (intro link_entry [OF fs_okD(5) [OF ok1] p(1) x(1) s1(1) x(2) _ _ taken(3,4)]) (simp_all add: s1(2))
      have g: "grown m K D s1 D (s1\<lparr>cache := c2\<rparr>) 0"
        using c1(4) c2(4) by (intro grown_linked [OF ok1 l _ c2(2) _ taken(5) s1(1)]) simp_all
      have "table_block save s ?tab i (new_sector x) = Some (n, s1\<lparr>cache := c2\<rparr>)"
        using c w True taken(1) c1(1) c2(1) by (simp add: table_block_def del: slot_sector.simps)
      then show thesis
        using grown_trans [OF g0 grown_trans [OF taken(2) g]] fresh_slot [OF l p(1) x(1)] taken(3) by (intro that) auto
    qed
  qed
qed

section \<open>Finding the sector of a block\<close>

lemma table_block_present:
  assumes ok: "fs_ok m K D s" and p: "p \<in> K" and x: "valid_slot x" "table_of x = Some (t, i)"
    and sec: "slot_sector (view s) (D p) x \<noteq> UNUSED_SECTOR"
  obtains c where "table_block save s (slot_sector (view s) (D p) t) i fill = Some (slot_sector (view s) (D p) x, s\<lparr>cache := c\<rparr>)"
    "cache_ok c" "sector_view c = view s" "disk_limit c = disk_limit (cache s)"
proof -
  have "slot_sector (view s) (D p) t \<noteq> UNUSED_SECTOR" using sec slot_in_table [OF x(2), of "view s" "D p"] by (auto simp: entry_def)
  from table_read [OF ok p x this] obtain c where
    c: "read_cache s (slot_sector (view s) (D p) t) (4 * i) 4 =
        Some (take 4 (drop (4 * i) (view s (slot_sector (view s) (D p) t))), s\<lparr>cache := c\<rparr>)"
      "bytes_word (take 4 (drop (4 * i) (view s (slot_sector (view s) (D p) t)))) = slot_sector (view s) (D p) x"
      "cache_ok c" "sector_view c = view s" "disk_limit c = disk_limit (cache s)" .
  have "table_block save s (slot_sector (view s) (D p) t) i fill = Some (slot_sector (view s) (D p) x, s\<lparr>cache := c\<rparr>)"
    using c(1,2) sec by (simp add: table_block_def del: slot_sector.simps)
  then show thesis using c(3,4,5) by (rule that)
qed

lemma allocate_block_present:
  assumes ok: "fs_ok m K D s" and p: "p \<in> K" and pos: "pos < BLOCK_MAX"
    and sec: "slot_sector (view s) (D p) (Blk pos) \<noteq> UNUSED_SECTOR"
  obtains c where "allocate_block save s (D p) pos = Some (slot_sector (view s) (D p) (Blk pos), D p, s\<lparr>cache := c\<rparr>)"
    "cache_ok c" "sector_view c = view s" "disk_limit c = disk_limit (cache s)"
proof -
  have v: "valid_slot (Blk pos)" using pos by simp
  consider "pos < DIRECT_MAX" | "\<not> pos < DIRECT_MAX" "pos < DIRECT_MAX + SECTOR_MAX" | "\<not> pos < DIRECT_MAX + SECTOR_MAX" by linarith
  then show thesis
  proof cases
    case 1
    then have "allocate_block save s (D p) pos = Some (slot_sector (view s) (D p) (Blk pos), D p, s\<lparr>cache := cache s\<rparr>)"
      using sec by (simp add: allocate_block_def root_block_def)
    then show thesis using fs_okD(1) [OF ok] by (rule that) simp_all
  next
    case 2
    then have t: "table_of (Blk pos) = Some (Tab, pos - DIRECT_MAX)" by simp
    obtain c where c: "table_block save s (indirect (D p)) (pos - DIRECT_MAX) zeros = Some (slot_sector (view s) (D p) (Blk pos), s\<lparr>cache := c\<rparr>)"
        "cache_ok c" "sector_view c = view s" "disk_limit c = disk_limit (cache s)"
      using table_block_present [OF ok p v t sec, of save zeros] by auto
    have "indirect (D p) \<noteq> UNUSED_SECTOR" using sec 2 by (auto simp: entry_def)
    then have "allocate_block save s (D p) pos = Some (slot_sector (view s) (D p) (Blk pos), D p, s\<lparr>cache := c\<rparr>)"
      using 2 c(1) by (simp add: allocate_block_def root_block_def)
    then show thesis using c(2,3,4) by (rule that)
  next
    case 3
    let ?i = "(pos - DIRECT_MAX - SECTOR_MAX) div SECTOR_MAX" and ?j = "(pos - DIRECT_MAX - SECTOR_MAX) mod SECTOR_MAX"
    have t: "table_of (Blk pos) = Some (Sub ?i, ?j)" using 3 by simp
    have vi: "valid_slot (Sub ?i)" using table_of_valid [OF v t] by simp
    have si: "slot_sector (view s) (D p) (Sub ?i) \<noteq> UNUSED_SECTOR"
      using sec slot_in_table [OF t, of "view s" "D p"] by (auto simp: entry_def)
    then have sd: "double_indirect (D p) \<noteq> UNUSED_SECTOR" by (auto simp: entry_def)
    obtain c where c: "table_block save s (double_indirect (D p)) ?i unused = Some (slot_sector (view s) (D p) (Sub ?i), s\<lparr>cache := c\<rparr>)"
        "cache_ok c" "sector_view c = view s" "disk_limit c = disk_limit (cache s)"
      using table_block_present [OF ok p vi table_of.simps(3) si, of save unused] by auto
    have ok1: "fs_ok m K D (s\<lparr>cache := c\<rparr>)" by (rule grown_fs_ok [OF grown_read [OF ok c(2,3,4)]])
    obtain c1 where c1: "table_block save (s\<lparr>cache := c\<rparr>) (slot_sector (view s) (D p) (Sub ?i)) ?j zeros =
          Some (slot_sector (view s) (D p) (Blk pos), s\<lparr>cache := c1\<rparr>)"
        "cache_ok c1" "sector_view c1 = view s" "disk_limit c1 = disk_limit (cache s)"
      using table_block_present [OF ok1 p v t, of save zeros] sec c by (auto simp del: slot_sector.simps)
    have "allocate_block save s (D p) pos = Some (slot_sector (view s) (D p) (Blk pos), D p, s\<lparr>cache := c1\<rparr>)"
      using 3 c(1) c1(1) si sd by (simp add: allocate_block_def root_block_def Let_def del: slot_sector.simps)
    then show thesis using c1(2,3,4) by (rule that)
  qed
qed

text \<open>The fields of an inode that do not name sectors.\<close>

definition same_head :: "inode_disk \<Rightarrow> inode_disk \<Rightarrow> bool" where
  "same_head d' d \<longleftrightarrow> is_dir d' = is_dir d \<and> parent_dir d' = parent_dir d \<and> ilength d' = ilength d \<and> imagic d' = imagic d"

lemma same_head_refl [simp]: "same_head d d" by (simp add: same_head_def)

lemma same_head_trans: "same_head a b \<Longrightarrow> same_head b c \<Longrightarrow> same_head a c" by (simp add: same_head_def)

lemma same_head_tables [simp]: "same_head (d\<lparr>indirect := n\<rparr>) d" "same_head (d\<lparr>double_indirect := n\<rparr>) d"
  by (simp_all add: same_head_def)

lemma same_head_set_root [simp]: "same_head (set_root d x n) d"
  by (cases x) (simp_all add: same_head_def)

lemma allocate_block_absent:
  assumes ok: "fs_ok m K D s" and save: "saver_ok save m" and p: "p \<in> K" "p \<noteq> m" and pos: "pos < BLOCK_MAX"
  obtains blk d' s' where "allocate_block save s (D p) pos = Some (blk, d', s')"
    "grown m K D s (D(p := d')) s' 3" "slot_sector (view s') d' (Blk pos) = blk" "blk = UNUSED_SECTOR \<Longrightarrow> nfree s < 3" "same_head d' (D p)"
proof -
  have v: "valid_slot (Blk pos)" using pos by simp
  consider "pos < DIRECT_MAX" | "\<not> pos < DIRECT_MAX" "pos < DIRECT_MAX + SECTOR_MAX" | "\<not> pos < DIRECT_MAX + SECTOR_MAX" by linarith
  then show thesis
  proof cases
    case 1
    then have t: "table_of (Blk pos) = None" by simp
    obtain r s1 where r: "root_block save s (slot_sector (view s) (D p) (Blk pos)) (new_sector (Blk pos)) = Some (r, s1)"
        "grown m K D s (D(p := set_root (D p) (Blk pos) r)) s1 1" "slot_sector (view s1) (set_root (D p) (Blk pos) r) (Blk pos) = r"
        "r = UNUSED_SECTOR \<Longrightarrow> nfree s = 0"
      by (rule root_block_spec [OF ok save p v t]) simp
    have "allocate_block save s (D p) pos = Some (r, set_root (D p) (Blk pos) r, s1)"
      using 1 r(1) by (simp add: allocate_block_def new_sector_def)
    moreover have "grown m K D s (D(p := set_root (D p) (Blk pos) r)) s1 3" by (rule grown_mono [OF r(2)]) simp
    ultimately show thesis using r(3,4) by (intro that [of r "set_root (D p) (Blk pos) r" s1]) (simp_all del: slot_sector.simps set_root.simps)
  next
    case 2
    then have t: "table_of (Blk pos) = Some (Tab, pos - DIRECT_MAX)" by simp
    obtain r s1 where r: "root_block save s (indirect (D p)) unused = Some (r, s1)"
        "grown m K D s (D(p := set_root (D p) Tab r)) s1 1" "r = UNUSED_SECTOR \<Longrightarrow> nfree s = 0"
      using root_block_spec [OF ok save p, of Tab] by (auto simp: new_sector_def)
    let ?D = "D(p := set_root (D p) Tab r)"
    note ok1 = grown_fs_ok [OF r(2)]
    show thesis
    proof (cases "r = UNUSED_SECTOR")
      case True
      then have "allocate_block save s (D p) pos = Some (UNUSED_SECTOR, set_root (D p) Tab r, s1)"
        using 2 r(1) by (simp add: allocate_block_def)
      then show thesis using grown_mono [OF r(2), of 3] r(3) True 2 by (intro that) (auto simp: entry_def)
    next
      case False
      obtain b s2 where b: "table_block save s1 r (pos - DIRECT_MAX) zeros = Some (b, s2)" "grown m K ?D s1 ?D s2 1"
          "slot_sector (view s2) (set_root (D p) Tab r) (Blk pos) = b" "b = UNUSED_SECTOR \<Longrightarrow> nfree s1 = 0"
        using table_block_spec [OF ok1 save p v t] False by (auto simp: new_sector_def simp del: slot_sector.simps(4))
      have "allocate_block save s (D p) pos = Some (b, set_root (D p) Tab r, s2)"
        using 2 r(1) b(1) False by (simp add: allocate_block_def)
      moreover have "nfree s < 3" if "b = UNUSED_SECTOR" using b(4) [OF that] r(2) by (simp add: grown_def)
      ultimately show thesis using grown_mono [OF grown_trans [OF r(2) b(2)], of 3] b(3) by (intro that) auto
    qed
  next
    case 3
    let ?i = "(pos - DIRECT_MAX - SECTOR_MAX) div SECTOR_MAX" and ?j = "(pos - DIRECT_MAX - SECTOR_MAX) mod SECTOR_MAX"
    have t: "table_of (Blk pos) = Some (Sub ?i, ?j)" using 3 by simp
    have vi: "valid_slot (Sub ?i)" using table_of_valid [OF v t] by simp
    obtain r s1 where r: "root_block save s (double_indirect (D p)) unused = Some (r, s1)"
        "grown m K D s (D(p := set_root (D p) Dtab r)) s1 1" "r = UNUSED_SECTOR \<Longrightarrow> nfree s = 0"
      using root_block_spec [OF ok save p, of Dtab] by (auto simp: new_sector_def)
    let ?D = "D(p := set_root (D p) Dtab r)"
    note ok1 = grown_fs_ok [OF r(2)]
    show thesis
    proof (cases "r = UNUSED_SECTOR")
      case True
      then have "allocate_block save s (D p) pos = Some (UNUSED_SECTOR, set_root (D p) Dtab r, s1)"
        using 3 r(1) by (simp add: allocate_block_def)
      then show thesis using grown_mono [OF r(2), of 3] r(3) True 3 by (intro that) (auto simp: entry_def)
    next
      case rF: False
      obtain b s2 where b: "table_block save s1 r ?i unused = Some (b, s2)" "grown m K ?D s1 ?D s2 1"
          "slot_sector (view s2) (set_root (D p) Dtab r) (Sub ?i) = b" "b = UNUSED_SECTOR \<Longrightarrow> nfree s1 = 0"
        using table_block_spec [OF ok1 save p vi table_of.simps(3)] rF by (auto simp: new_sector_def)
      note g2 = grown_trans [OF r(2) b(2)] and ok2 = grown_fs_ok [OF b(2)]
      show thesis
      proof (cases "b = UNUSED_SECTOR")
        case True
        then have "allocate_block save s (D p) pos = Some (UNUSED_SECTOR, set_root (D p) Dtab r, s2)"
          using 3 r(1) b(1) rF by (simp add: allocate_block_def Let_def)
        moreover have "nfree s < 3" using b(4) [OF True] r(2) by (simp add: grown_def)
        moreover have "slot_sector (view s2) (set_root (D p) Dtab r) (Blk pos) = UNUSED_SECTOR"
          using slot_in_table [OF t, of "view s2" "set_root (D p) Dtab r"] b(3) True by (simp add: entry_def del: slot_sector.simps)
        ultimately show thesis using grown_mono [OF g2, of 3] by (intro that) auto
      next
        case False
        obtain a s3 where a: "table_block save s2 b ?j zeros = Some (a, s3)" "grown m K ?D s2 ?D s3 1"
            "slot_sector (view s3) (set_root (D p) Dtab r) (Blk pos) = a" "a = UNUSED_SECTOR \<Longrightarrow> nfree s2 = 0"
          using table_block_spec [OF ok2 save p v t] False b(3) by (auto simp: new_sector_def simp del: slot_sector.simps)
        have "allocate_block save s (D p) pos = Some (a, set_root (D p) Dtab r, s3)"
          using 3 r(1) b(1) a(1) rF False by (simp add: allocate_block_def Let_def)
        moreover have "nfree s < 3" if "a = UNUSED_SECTOR" using a(4) [OF that] g2 by (simp add: grown_def)
        ultimately show thesis using grown_mono [OF grown_trans [OF g2 a(2)], of 3] a(3) by (intro that) auto
      qed
    qed
  qed
qed

lemma allocate_block_spec:
  assumes ok: "fs_ok m K D s" and save: "saver_ok save m" and p: "p \<in> K" "p \<noteq> m" and pos: "pos < BLOCK_MAX"
  obtains blk d' s' where "allocate_block save s (D p) pos = Some (blk, d', s')"
    "grown m K D s (D(p := d')) s' (if slot_sector (view s) (D p) (Blk pos) = UNUSED_SECTOR then 3 else 0)"
    "slot_sector (view s') d' (Blk pos) = blk"
    "blk = UNUSED_SECTOR \<Longrightarrow> slot_sector (view s) (D p) (Blk pos) = UNUSED_SECTOR \<and> nfree s < 3" "same_head d' (D p)"
proof (cases "slot_sector (view s) (D p) (Blk pos) = UNUSED_SECTOR")
  case True
  show thesis
    by (rule allocate_block_absent [OF ok save p pos]) (use True that in \<open>simp del: slot_sector.simps\<close>)
next
  case False
  obtain c where c: "allocate_block save s (D p) pos = Some (slot_sector (view s) (D p) (Blk pos), D p, s\<lparr>cache := c\<rparr>)"
      "cache_ok c" "sector_view c = view s" "disk_limit c = disk_limit (cache s)"
    by (rule allocate_block_present [OF ok p(1) pos False])
  show thesis
    using grown_read [OF ok c(2,3,4)] False c(3) by (intro that [OF c(1)]) (simp_all del: slot_sector.simps)
qed

section \<open>Files as arrays of bytes\<close>

definition fbyte :: "(u32 \<Rightarrow> u8 list) \<Rightarrow> inode_disk \<Rightarrow> nat \<Rightarrow> u8" where
  "fbyte v d k = content v d (k div DISK_SECTOR_SIZE) ! (k mod DISK_SECTOR_SIZE)"

abbreviation FILE_MAX :: nat where "FILE_MAX \<equiv> 8460288"

lemma content_length: "(\<And>sec. length (v sec) = DISK_SECTOR_SIZE) \<Longrightarrow> length (content v d pos) = DISK_SECTOR_SIZE"
  by (simp add: content_def)

text \<open>Writing inside one block.\<close>

lemma write_block:
  assumes ok: "fs_ok m K D s" and p: "p \<in> K" and pos: "pos < BLOCK_MAX"
    and sec: "slot_sector (view s) (D p) (Blk pos) \<noteq> UNUSED_SECTOR" and le: "ofs + length bs \<le> DISK_SECTOR_SIZE"
  obtains c where "write_cache s bs (slot_sector (view s) (D p) (Blk pos)) ofs = Some (s\<lparr>cache := c\<rparr>)"
    "cache_ok c" "disk_limit c = disk_limit (cache s)" "fs_ok m K D (s\<lparr>cache := c\<rparr>)"
    "\<forall>x. x \<notin> block_sectors (view s) (D p) \<longrightarrow> sector_view c x = view s x"
    "\<And>q y. q \<in> K \<Longrightarrow> valid_slot y \<Longrightarrow> slot_sector (sector_view c) (D q) y = slot_sector (view s) (D q) y"
    "\<And>q i. q \<in> K \<Longrightarrow> i < BLOCK_MAX \<Longrightarrow> content (sector_view c) (D q) i =
       (if q = p \<and> i = pos then patch (content (view s) (D p) pos) ofs bs else content (view s) (D q) i)"
proof -
  let ?sec = "slot_sector (view s) (D p) (Blk pos)"
  have vp: "valid_slot (Blk pos)" using pos by simp
  obtain c where c: "write_cache s bs ?sec ofs = Some (s\<lparr>cache := c\<rparr>)" "cache_ok c"
      "sector_view c = (view s)(?sec := patch (view s ?sec) ofs bs)" "disk_limit c = disk_limit (cache s)"
    by (rule write_cache_spec [OF fs_okD(1) [OF ok] fs_ok_slot_limit [OF ok p vp sec] le])
  have out: "\<forall>x. x \<notin> block_sectors (view s) (D p) \<longrightarrow> sector_view c x = view s x"
    using c(3) pos sec by (auto simp: block_sectors_def simp del: slot_sector.simps)
  have len: "\<forall>x. length (sector_view c x) = DISK_SECTOR_SIZE" using buffer_cache.view_length [OF c(2)] by blast
  note r = rewrite_blocks [OF fs_okD(5) [OF ok] p out len]
  have co: "content (sector_view c) (D q) i =
      (if q = p \<and> i = pos then patch (content (view s) (D p) pos) ofs bs else content (view s) (D q) i)"
    if q: "q \<in> K" "i < BLOCK_MAX" for q i
  proof -
    have vi: "valid_slot (Blk i)" using q by simp
    have "?sec \<noteq> slot_sector (view s) (D q) (Blk i)" if "\<not> (q = p \<and> i = pos)"
      using layout_inj [OF fs_okD(5) [OF ok] p q(1) vp vi sec] that by blast
    then show ?thesis
      unfolding content_def r(1) [OF q(1) vi] using c(3) sec by (cases "q = p \<and> i = pos") (auto simp del: slot_sector.simps)
  qed
  show thesis by (rule that [OF c(1,2,4) fs_ok_blocks [OF ok p c(2,4) out] out r(1) co])
qed

lemma block_below: "ofs < FILE_MAX \<Longrightarrow> ofs div DISK_SECTOR_SIZE < BLOCK_MAX"
  by (rule less_mult_imp_div_less) simp

lemma block_start: "ofs div DISK_SECTOR_SIZE * DISK_SECTOR_SIZE \<le> ofs"
  by (rule div_times_less_eq_dividend)

lemma upd_inode_same: "data (inode_at s p) = d \<Longrightarrow> upd_inode s p (\<lambda>i. i\<lparr>data := d\<rparr>) = s"
proof -
  assume "data (inode_at s p) = d"
  then have "(inode_at s p)\<lparr>data := d\<rparr> = inode_at s p" by (cases "inode_at s p") simp
  then show ?thesis unfolding upd_inode_def by simp
qed

text \<open>With all blocks present, writing a file changes only its blocks; nothing is allocated.\<close>

lemma write_loop_present:
  assumes "fs_ok m K D s" "p \<in> K" "p \<in> set (open_inodes s)" "data (inode_at s p) = D p"
    and "ofs + length buffer \<le> FILE_MAX"
    and "\<And>pos. pos * DISK_SECTOR_SIZE < ofs + length buffer \<Longrightarrow> slot_sector (view s) (D p) (Blk pos) \<noteq> UNUSED_SECTOR"
  shows "\<exists>c. write_loop save s p buffer ofs n = Some (n + length buffer, s\<lparr>cache := c\<rparr>) \<and> cache_ok c \<and>
    disk_limit c = disk_limit (cache s) \<and> (\<forall>x. x \<notin> block_sectors (view s) (D p) \<longrightarrow> sector_view c x = view s x)"
  using assms
proof (induction "length buffer" arbitrary: s buffer ofs n rule: less_induct)
  case less
  show ?case
  proof (cases "buffer = []")
    case True
    have s: "s\<lparr>cache := cache s\<rparr> = s" by simp
    show ?thesis using True fs_okD(1) [OF less.prems(1)]
      by (intro exI [of _ "cache s"]) (simp add: write_loop.simps [of save s p "[]"])
  next
    case False
    let ?pos = "ofs div DISK_SECTOR_SIZE" and ?o = "ofs mod DISK_SECTOR_SIZE"
    let ?sec = "slot_sector (view s) (D p) (Blk ?pos)"
    let ?k = "if length buffer < DISK_SECTOR_SIZE - ?o then length buffer else DISK_SECTOR_SIZE - ?o"
    have len: "0 < length buffer" using False by simp
    have k: "0 < ?k" "?k \<le> length buffer" "?o + ?k \<le> DISK_SECTOR_SIZE" using len by auto
    have pos: "?pos < BLOCK_MAX" using less.prems(5) len by (intro block_below) linarith
    have below: "?pos * DISK_SECTOR_SIZE < ofs + length buffer" using len block_start [of ofs] by linarith
    have sec: "?sec \<noteq> UNUSED_SECTOR" using less.prems(6) [OF below] .
    obtain c where c: "allocate_block save s (D p) ?pos = Some (?sec, D p, s\<lparr>cache := c\<rparr>)"
        "cache_ok c" "sector_view c = view s" "disk_limit c = disk_limit (cache s)"
      by (rule allocate_block_present [OF less.prems(1,2) pos sec])
    let ?s = "s\<lparr>cache := c\<rparr>"
    have ok1: "fs_ok m K D ?s" by (rule grown_fs_ok [OF grown_read [OF less.prems(1) c(2,3,4)]])
    have upd: "upd_inode ?s p (\<lambda>i. i\<lparr>data := D p\<rparr>) = ?s" using less.prems(4) by (intro upd_inode_same) simp
    have v1: "view ?s = view s" using c(3) by simp
    have le: "?o + length (take ?k buffer) \<le> DISK_SECTOR_SIZE" using k by simp
    obtain c1 where c1: "write_cache ?s (take ?k buffer) ?sec ?o = Some (?s\<lparr>cache := c1\<rparr>)" "cache_ok c1" "disk_limit c1 = disk_limit (cache ?s)"
        "fs_ok m K D (?s\<lparr>cache := c1\<rparr>)" "\<forall>x. x \<notin> block_sectors (view s) (D p) \<longrightarrow> sector_view c1 x = view s x"
        "\<And>q y. q \<in> K \<Longrightarrow> valid_slot y \<Longrightarrow> slot_sector (sector_view c1) (D q) y = slot_sector (view s) (D q) y"
      by (rule write_block [OF ok1 less.prems(2) pos _ le, unfolded v1, OF sec]) (simp del: slot_sector.simps)
    have step: "write_loop save s p buffer ofs n = write_loop save (s\<lparr>cache := c1\<rparr>) p (drop ?k buffer) (ofs + ?k) (n + ?k)"
      using len less.prems(3,4) c(1) upd c1(1) k(1)
      by (simp add: write_loop.simps [of save s p buffer] deref_def Let_def del: slot_sector.simps)
    have ssl: "slot_sector (sector_view c1) (D p) (Blk i) = slot_sector (view s) (D p) (Blk i)" if "i < BLOCK_MAX" for i
      using c1(6) [OF less.prems(2), of "Blk i"] that by simp
    have IH: "\<exists>c. write_loop save (s\<lparr>cache := c1\<rparr>) p (drop ?k buffer) (ofs + ?k) (n + ?k) =
          Some (n + ?k + length (drop ?k buffer), s\<lparr>cache := c1\<rparr>\<lparr>cache := c\<rparr>) \<and> cache_ok c \<and>
        disk_limit c = disk_limit (cache (s\<lparr>cache := c1\<rparr>)) \<and>
        (\<forall>x. x \<notin> block_sectors (view (s\<lparr>cache := c1\<rparr>)) (D p) \<longrightarrow> sector_view c x = view (s\<lparr>cache := c1\<rparr>) x)"
    proof (rule less.hyps)
      fix i assume i: "i * DISK_SECTOR_SIZE < ofs + ?k + length (drop ?k buffer)"
      then have "i * DISK_SECTOR_SIZE < ofs + length buffer" using k(2) by simp
      then show "slot_sector (view (s\<lparr>cache := c1\<rparr>)) (D p) (Blk i) \<noteq> UNUSED_SECTOR"
        using less.prems(5,6) ssl [of i] by (simp del: slot_sector.simps)
    qed (use k len less.prems c1(4) in auto)
    have bs: "block_sectors (sector_view c1) (D p) = block_sectors (view s) (D p)"
      unfolding block_sectors_def using ssl by (auto simp del: slot_sector.simps)
    from IH obtain c2 where c2: "write_loop save (s\<lparr>cache := c1\<rparr>) p (drop ?k buffer) (ofs + ?k) (n + ?k) =
          Some (n + ?k + length (drop ?k buffer), s\<lparr>cache := c2\<rparr>)" "cache_ok c2" "disk_limit c2 = disk_limit c1"
        "\<forall>x. x \<notin> block_sectors (view s) (D p) \<longrightarrow> sector_view c2 x = sector_view c1 x" using bs by auto
    show ?thesis
      unfolding step c2(1) using c2(2,3,4) c1(3,5) c(4) k(2) by (intro exI [of _ c2]) simp
  qed
qed

section \<open>Saving the free map\<close>

text \<open>The file of the free map has all its sectors, so writing it needs no new one, and one level of \<open>bitmap_write\<close> is enough.\<close>

lemma map_bytes: "fs_ok m K D s \<Longrightarrow> 4 * length (bits (free_map s)) = byte_cnt (bit_cnt (free_map s))"
proof -
  assume ok: "fs_ok m K D s"
  have "bit_cnt (free_map s) \<le> 67108864" using fs_okD(3) [OF ok] by simp
  then have "4 * elem_cnt (bit_cnt (free_map s)) < size_mod" by (simp add: elem_cnt_eq)
  then show ?thesis using fs_okD(2) [OF ok] by (simp add: bitmap_wf_def byte_cnt_def)
qed

lemma below_blocks: "pos * DISK_SECTOR_SIZE < n \<longleftrightarrow> pos < bytes_to_sectors n"
  by (auto simp: bytes_to_sectors_def)

lemma bitmap_write_saves: "saver_ok (bitmap_write (Suc n)) m"
  unfolding saver_ok_def
proof (intro allI impI)
  fix K D s assume ok: "fs_ok m K D s"
  let ?bytes = "concat (map word_bytes (bits (free_map s)))"
  have len: "length ?bytes = byte_cnt (bit_cnt (free_map s))" using map_bytes [OF ok] by (simp del: length_concat)
  obtain f where f: "free_map_file s = Some f" "f_inode f = m" using fs_ok_file [OF ok] by blast
  have le: "0 + length ?bytes \<le> FILE_MAX"
  proof -
    have "bit_cnt (free_map s) \<le> 67108864" using fs_okD(3) [OF ok] by simp
    then show ?thesis unfolding len by (simp add: byte_cnt_def elem_cnt_eq)
  qed
  have present: "slot_sector (view s) (D m) (Blk pos) \<noteq> UNUSED_SECTOR" if "pos * DISK_SECTOR_SIZE < 0 + length ?bytes" for pos
    using that fs_okD(12) [OF ok, of pos] unfolding len by (simp add: below_blocks map_blocks_def del: slot_sector.simps)
  obtain c where c: "write_loop (bitmap_write n) s m ?bytes 0 0 = Some (0 + length ?bytes, s\<lparr>cache := c\<rparr>)" "cache_ok c"
      "disk_limit c = disk_limit (cache s)" "\<forall>x. x \<notin> block_sectors (view s) (D m) \<longrightarrow> sector_view c x = view s x"
    using write_loop_present [OF ok fs_okD(7,8,9) [OF ok] le present] by blast
  have "inode_write_with (bitmap_write n) s m ?bytes 0 = Some (length ?bytes, s\<lparr>cache := c\<rparr>)"
    unfolding inode_write_with_def using c(1) fs_okD(8,9,10,11) [OF ok] len by (simp add: deref_def del: length_concat)
  then have "bitmap_write (Suc n) s = Some (True, s\<lparr>cache := c\<rparr>)" using f len by (simp del: length_concat)
  then show "\<exists>c. bitmap_write (Suc n) s = Some (True, s\<lparr>cache := c\<rparr>) \<and> cache_ok c \<and> disk_limit c = disk_limit (cache s) \<and>
      (\<forall>sec. sec \<notin> block_sectors (view s) (D m) \<longrightarrow> sector_view c sec = view s sec)" using c by blast
qed

lemma save_map_ok: "saver_ok save_map m"
  unfolding save_map_def numeral_2_eq_2 by (rule bitmap_write_saves)

section \<open>Steps of a file\<close>

text \<open>A step of the file \<open>p\<close>: it may get sectors and new contents, the other files keep theirs.\<close>

definition wrote :: "ptr \<Rightarrow> ptr set \<Rightarrow> ptr \<Rightarrow> (ptr \<Rightarrow> inode_disk) \<Rightarrow> fs \<Rightarrow> inode_disk \<Rightarrow> fs \<Rightarrow> bool" where
  "wrote m K p D s d' s' \<longleftrightarrow> fs_ok m K (D(p := d')) s' \<and>
     (\<exists>c b. s' = s\<lparr>cache := c, free_map := b, inode_at := (inode_at s)(p := (inode_at s p)\<lparr>data := d'\<rparr>)\<rparr>) \<and>
     same_head d' (D p) \<and>
     (\<forall>q \<in> K. q \<noteq> p \<longrightarrow> q \<noteq> m \<longrightarrow> (\<forall>pos < BLOCK_MAX. content (view s') (D q) pos = content (view s) (D q) pos)) \<and>
     (\<forall>q \<in> K. \<forall>y. valid_slot y \<longrightarrow> slot_sector (view s) (D q) y \<noteq> UNUSED_SECTOR \<longrightarrow>
        slot_sector (view s') ((D(p := d')) q) y = slot_sector (view s) (D q) y) \<and>
     bit_cnt (free_map s') = bit_cnt (free_map s)"

lemma wrote_fs_ok: "wrote m K p D s d' s' \<Longrightarrow> fs_ok m K (D(p := d')) s'"
  by (simp add: wrote_def)

lemma wrote_trans:
  assumes "wrote m K p D s d1 s1" "wrote m K p (D(p := d1)) s1 d2 s2"
  shows "wrote m K p D s d2 s2"
proof -
  obtain c b where "s1 = s\<lparr>cache := c, free_map := b, inode_at := (inode_at s)(p := (inode_at s p)\<lparr>data := d1\<rparr>)\<rparr>"
    using assms(1) unfolding wrote_def by blast
  moreover obtain c' b' where "s2 = s1\<lparr>cache := c', free_map := b', inode_at := (inode_at s1)(p := (inode_at s1 p)\<lparr>data := d2\<rparr>)\<rparr>"
    using assms(2) unfolding wrote_def by blast
  ultimately have "s2 = s\<lparr>cache := c', free_map := b', inode_at := (inode_at s)(p := (inode_at s p)\<lparr>data := d2\<rparr>)\<rparr>" by simp
  then have st: "\<exists>c b. s2 = s\<lparr>cache := c, free_map := b, inode_at := (inode_at s)(p := (inode_at s p)\<lparr>data := d2\<rparr>)\<rparr>" by blast
  have ss: "slot_sector (view s2) ((D(p := d2)) q) y = slot_sector (view s) (D q) y"
    if "q \<in> K" "valid_slot y" "slot_sector (view s) (D q) y \<noteq> UNUSED_SECTOR" for q y
  proof -
    have "slot_sector (view s1) ((D(p := d1)) q) y = slot_sector (view s) (D q) y" using assms(1) that unfolding wrote_def by blast
    then show ?thesis using assms(2) that unfolding wrote_def by (metis fun_upd_upd)
  qed
  have co: "content (view s2) (D q) pos = content (view s) (D q) pos" if "q \<in> K" "q \<noteq> p" "q \<noteq> m" "pos < BLOCK_MAX" for q pos
  proof -
    have "content (view s1) (D q) pos = content (view s) (D q) pos" using assms(1) that unfolding wrote_def by blast
    moreover have "content (view s2) ((D(p := d1)) q) pos = content (view s1) ((D(p := d1)) q) pos" using assms(2) that unfolding wrote_def by blast
    ultimately show ?thesis using that(2) by simp
  qed
  have "same_head d2 (D p)" using assms same_head_trans [of d2 d1 "D p"] unfolding wrote_def by simp
  moreover have "fs_ok m K (D(p := d2)) s2" "bit_cnt (free_map s2) = bit_cnt (free_map s)" using assms unfolding wrote_def by simp_all
  ultimately show ?thesis using st ss co unfolding wrote_def by blast
qed

lemma fs_ok_upd_inode:
  "fs_ok m K D s \<Longrightarrow> p \<noteq> m \<Longrightarrow> fs_ok m K D (upd_inode s p f)"
  unfolding fs_ok_def upd_inode_def map_blocks_def by (simp del: slot_sector.simps)

lemma view_upd_inode [simp]: "cache (upd_inode s p f) = cache s" "free_map (upd_inode s p f) = free_map s"
  "open_inodes (upd_inode s p f) = open_inodes s" "inode_at (upd_inode s p f) p = f (inode_at s p)"
  by (simp_all add: upd_inode_def)

lemma grown_wrote:
  assumes g: "grown m K D s (D(p := d')) s' k" and p: "p \<noteq> m" and h: "same_head d' (D p)"
  shows "wrote m K p D s d' (upd_inode s' p (\<lambda>i. i\<lparr>data := d'\<rparr>))"
proof -
  obtain c b where s': "s' = s\<lparr>cache := c, free_map := b\<rparr>" using g unfolding grown_def by blast
  have "upd_inode s' p (\<lambda>i. i\<lparr>data := d'\<rparr>) = s\<lparr>cache := c, free_map := b, inode_at := (inode_at s)(p := (inode_at s p)\<lparr>data := d'\<rparr>)\<rparr>"
    unfolding s' upd_inode_def by simp
  then have st: "\<exists>c b. upd_inode s' p (\<lambda>i. i\<lparr>data := d'\<rparr>) = s\<lparr>cache := c, free_map := b, inode_at := (inode_at s)(p := (inode_at s p)\<lparr>data := d'\<rparr>)\<rparr>"
    by blast
  have "content (view s') (D q) pos = content (view s) (D q) pos" if "q \<in> K" "q \<noteq> p" "q \<noteq> m" "pos < BLOCK_MAX" for q pos
  proof -
    have "content (view s') ((D(p := d')) q) pos = content (view s) (D q) pos" using g that unfolding grown_def by blast
    then show ?thesis using that(2) by simp
  qed
  moreover have "slot_sector (view s') ((D(p := d')) q) y = slot_sector (view s) (D q) y"
    if "q \<in> K" "valid_slot y" "slot_sector (view s) (D q) y \<noteq> UNUSED_SECTOR" for q y using g that unfolding grown_def by blast
  ultimately show ?thesis
    using st h fs_ok_upd_inode [OF grown_fs_ok [OF g] p] g unfolding wrote_def grown_def view_upd_inode by blast
qed

section \<open>Reading and writing a file\<close>

definition touched :: "nat \<Rightarrow> nat \<Rightarrow> nat set" where
  "touched ofs n = {pos. 0 < n \<and> pos * DISK_SECTOR_SIZE < ofs + n \<and> ofs < Suc pos * DISK_SECTOR_SIZE}"

text \<open>The number of blocks in a range that have no sector yet.\<close>

definition holes :: "(u32 \<Rightarrow> u8 list) \<Rightarrow> inode_disk \<Rightarrow> nat \<Rightarrow> nat \<Rightarrow> nat" where
  "holes v d ofs n = card {pos \<in> touched ofs n. slot_sector v d (Blk pos) = UNUSED_SECTOR}"

lemma finite_touched: "finite (touched ofs n)"
proof (rule finite_subset)
  show "touched ofs n \<subseteq> {..<ofs + n}" by (auto simp: touched_def)
qed simp

lemma touched_first: "0 < n \<Longrightarrow> ofs div DISK_SECTOR_SIZE \<in> touched ofs n"
  using block_start [of ofs] mod_less_divisor [of DISK_SECTOR_SIZE ofs] mult_div_mod_eq [of DISK_SECTOR_SIZE ofs]
  unfolding touched_def by auto

lemma touched_max: "pos \<in> touched ofs n \<Longrightarrow> ofs + n \<le> FILE_MAX \<Longrightarrow> pos < BLOCK_MAX"
  by (simp add: touched_def)

lemma holes_step:
  assumes persist: "\<And>pos. pos < BLOCK_MAX \<Longrightarrow> slot_sector v d (Blk pos) \<noteq> UNUSED_SECTOR \<Longrightarrow>
      slot_sector v' d' (Blk pos) \<noteq> UNUSED_SECTOR"
    and here: "slot_sector v' d' (Blk (ofs div DISK_SECTOR_SIZE)) \<noteq> UNUSED_SECTOR"
    and k: "k \<le> n" "0 < n" "ofs + n \<le> FILE_MAX"
  shows "holes v' d' (ofs + k) (n - k) + (if slot_sector v d (Blk (ofs div DISK_SECTOR_SIZE)) = UNUSED_SECTOR then 1 else 0) \<le> holes v d ofs n"
proof -
  let ?A = "{pos \<in> touched ofs n. slot_sector v d (Blk pos) = UNUSED_SECTOR}"
  let ?B = "{pos \<in> touched (ofs + k) (n - k). slot_sector v' d' (Blk pos) = UNUSED_SECTOR}"
  let ?p = "ofs div DISK_SECTOR_SIZE"
  have sub: "?B \<subseteq> ?A - {?p}"
  proof
    fix pos assume "pos \<in> ?B"
    then have "pos \<in> touched ofs n" "slot_sector v' d' (Blk pos) = UNUSED_SECTOR" using k by (auto simp: touched_def)
    then show "pos \<in> ?A - {?p}" using touched_max [OF _ k(3)] persist here by (auto simp del: slot_sector.simps)
  qed
  have fin: "finite ?A" using finite_touched by simp
  have "card ?B \<le> card (?A - {?p})" by (rule card_mono [OF _ sub]) (use fin in simp)
  moreover have "card (?A - {?p}) + (if slot_sector v d (Blk ?p) = UNUSED_SECTOR then 1 else 0) = card ?A"
    using fin card_Suc_Diff1 [OF fin, of ?p] touched_first [OF k(2)] by (simp del: slot_sector.simps)
  ultimately show ?thesis unfolding holes_def by linarith
qed

lemma touched_step:
  assumes "k = (if n < DISK_SECTOR_SIZE - ofs mod DISK_SECTOR_SIZE then n else DISK_SECTOR_SIZE - ofs mod DISK_SECTOR_SIZE)"
    "pos \<in> touched ofs n"
  shows "pos = ofs div DISK_SECTOR_SIZE \<or> k < n \<and> pos \<in> touched (ofs + k) (n - k)"
proof -
  let ?q = "ofs div DISK_SECTOR_SIZE"
  have e: "ofs = ?q * DISK_SECTOR_SIZE + ofs mod DISK_SECTOR_SIZE" "ofs mod DISK_SECTOR_SIZE < DISK_SECTOR_SIZE" by simp_all
  have t: "pos * DISK_SECTOR_SIZE < ofs + n" "ofs < Suc pos * DISK_SECTOR_SIZE" using assms(2) by (auto simp: touched_def)
  have "?q < Suc pos" using t(2) by (rule less_mult_imp_div_less)
  then consider "pos = ?q" | "Suc ?q \<le> pos" by linarith
  then show ?thesis
  proof cases
    case 2
    then have le: "Suc ?q * DISK_SECTOR_SIZE \<le> pos * DISK_SECTOR_SIZE" by (rule mult_le_mono1)
    then have "\<not> n < DISK_SECTOR_SIZE - ofs mod DISK_SECTOR_SIZE" using t(1) e unfolding mult_Suc by linarith
    then have "k = DISK_SECTOR_SIZE - ofs mod DISK_SECTOR_SIZE" using assms(1) by simp
    then have k: "ofs + k = Suc ?q * DISK_SECTOR_SIZE" using e unfolding mult_Suc by linarith
    then have "k < n" using le t(1) by linarith
    then show ?thesis using k le t(1) unfolding touched_def by simp
  qed simp
qed

lemma fbyte_patch:
  assumes co: "\<And>i. i < BLOCK_MAX \<Longrightarrow> content v' d' i =
      (if i = ofs div DISK_SECTOR_SIZE then patch (content v d i) (ofs mod DISK_SECTOR_SIZE) bs else content v d i)"
    and len: "\<And>i. length (content v d i) = DISK_SECTOR_SIZE" and le: "ofs mod DISK_SECTOR_SIZE + length bs \<le> DISK_SECTOR_SIZE"
    and x: "x < FILE_MAX"
  shows "fbyte v' d' x = (if ofs \<le> x \<and> x < ofs + length bs then bs ! (x - ofs) else fbyte v d x)"
proof -
  have e: "x = x div DISK_SECTOR_SIZE * DISK_SECTOR_SIZE + x mod DISK_SECTOR_SIZE" "ofs = ofs div DISK_SECTOR_SIZE * DISK_SECTOR_SIZE + ofs mod DISK_SECTOR_SIZE"
    by simp_all
  have m: "x mod DISK_SECTOR_SIZE < DISK_SECTOR_SIZE" by simp
  show ?thesis
  proof (cases "x div DISK_SECTOR_SIZE = ofs div DISK_SECTOR_SIZE")
    case True
    then obtain q where q: "x = q + x mod DISK_SECTOR_SIZE" "ofs = q + ofs mod DISK_SECTOR_SIZE" using e by metis
    have "(ofs \<le> x) = (ofs mod DISK_SECTOR_SIZE \<le> x mod DISK_SECTOR_SIZE)"
      "(x < ofs + length bs) = (x mod DISK_SECTOR_SIZE < ofs mod DISK_SECTOR_SIZE + length bs)"
      "x - ofs = x mod DISK_SECTOR_SIZE - ofs mod DISK_SECTOR_SIZE" by (rule iffI; use q in linarith)+ (use q in linarith)
    then show ?thesis unfolding fbyte_def co [OF block_below [OF x]] using True len le m by (simp add: nth_patch)
  next
    case False
    have "\<not> (ofs \<le> x \<and> x < ofs + length bs)"
    proof
      assume a: "ofs \<le> x \<and> x < ofs + length bs"
      have "ofs div DISK_SECTOR_SIZE \<le> x div DISK_SECTOR_SIZE" using a by (intro div_le_mono) simp
      moreover have "x < Suc (ofs div DISK_SECTOR_SIZE) * DISK_SECTOR_SIZE" using a e(2) le unfolding mult_Suc by linarith
      then have "x div DISK_SECTOR_SIZE < Suc (ofs div DISK_SECTOR_SIZE)" by (rule less_mult_imp_div_less)
      ultimately show False using False by simp
    qed
    then show ?thesis unfolding fbyte_def co [OF block_below [OF x]] using False by auto
  qed
qed

text \<open>One turn of the loops: the block at the offset has a sector, and the contents of the file are as before.\<close>

lemma loop_step:
  assumes ok: "fs_ok m K D s" and save: "saver_ok save m" and p: "p \<in> K" "p \<noteq> m" and pos: "pos < BLOCK_MAX"
  obtains blk d' s' where "allocate_block save s (D p) pos = Some (blk, d', s')"
    "wrote m K p D s d' (upd_inode s' p (\<lambda>i. i\<lparr>data := d'\<rparr>))"
    "slot_sector (view s') d' (Blk pos) = blk"
    "blk = UNUSED_SECTOR \<Longrightarrow> slot_sector (view s) (D p) (Blk pos) = UNUSED_SECTOR \<and> nfree s < 3"
    "nfree s \<le> nfree s' + (if slot_sector (view s) (D p) (Blk pos) = UNUSED_SECTOR then 3 else 0)"
    "\<And>i. i < BLOCK_MAX \<Longrightarrow> content (view s') d' i = content (view s) (D p) i"
    "\<And>i. i < BLOCK_MAX \<Longrightarrow> slot_sector (view s) (D p) (Blk i) \<noteq> UNUSED_SECTOR \<Longrightarrow> slot_sector (view s') d' (Blk i) \<noteq> UNUSED_SECTOR"
proof -
  obtain blk d' s' where a: "allocate_block save s (D p) pos = Some (blk, d', s')"
    "grown m K D s (D(p := d')) s' (if slot_sector (view s) (D p) (Blk pos) = UNUSED_SECTOR then 3 else 0)"
    "slot_sector (view s') d' (Blk pos) = blk"
    "blk = UNUSED_SECTOR \<Longrightarrow> slot_sector (view s) (D p) (Blk pos) = UNUSED_SECTOR \<and> nfree s < 3" "same_head d' (D p)"
    by (rule allocate_block_spec [OF ok save p pos]) (simp del: slot_sector.simps)
  have co: "content (view s') d' i = content (view s) (D p) i" if "i < BLOCK_MAX" for i
  proof -
    have "content (view s') ((D(p := d')) p) i = content (view s) (D p) i" using a(2) p that unfolding grown_def by blast
    then show ?thesis by simp
  qed
  have ss: "slot_sector (view s') d' (Blk i) \<noteq> UNUSED_SECTOR" if "i < BLOCK_MAX" "slot_sector (view s) (D p) (Blk i) \<noteq> UNUSED_SECTOR" for i
  proof -
    have "valid_slot (Blk i)" using that by simp
    then have "slot_sector (view s') ((D(p := d')) p) (Blk i) = slot_sector (view s) (D p) (Blk i)"
      using a(2) p that(2) unfolding grown_def by blast
    then show ?thesis using that(2) by (simp del: slot_sector.simps)
  qed
  have nf: "nfree s \<le> nfree s' + (if slot_sector (view s) (D p) (Blk pos) = UNUSED_SECTOR then 3 else 0)"
    using a(2) by (simp add: grown_def del: slot_sector.simps)
  show thesis by (rule that [OF a(1) grown_wrote [OF a(2) p(2) a(5)] a(3,4) nf co ss])
qed

lemma wrote_block:
  assumes ok: "fs_ok m K D s" and d: "data (inode_at s p) = D p" and p: "p \<noteq> m"
    and c: "fs_ok m K D (s\<lparr>cache := c\<rparr>)"
    and ss: "\<And>q y. q \<in> K \<Longrightarrow> valid_slot y \<Longrightarrow> slot_sector (sector_view c) (D q) y = slot_sector (view s) (D q) y"
    and co: "\<And>q i. q \<in> K \<Longrightarrow> q \<noteq> p \<Longrightarrow> i < BLOCK_MAX \<Longrightarrow> content (sector_view c) (D q) i = content (view s) (D q) i"
  shows "wrote m K p D s (D p) (s\<lparr>cache := c\<rparr>)"
proof -
  have "(inode_at s p)\<lparr>data := D p\<rparr> = inode_at s p" using d by (cases "inode_at s p") simp
  then have "s\<lparr>cache := c\<rparr> = s\<lparr>cache := c, free_map := free_map s, inode_at := (inode_at s)(p := (inode_at s p)\<lparr>data := D p\<rparr>)\<rparr>"
    by simp
  then have "\<exists>c' b. s\<lparr>cache := c\<rparr> = s\<lparr>cache := c', free_map := b, inode_at := (inode_at s)(p := (inode_at s p)\<lparr>data := D p\<rparr>)\<rparr>" by blast
  then show ?thesis using c ss co unfolding wrote_def fun_upd_triv by (simp del: slot_sector.simps)
qed

lemma wrote_open: "wrote m K p D s d' s' \<Longrightarrow> open_inodes s' = open_inodes s \<and> data (inode_at s' p) = d'"
  unfolding wrote_def by auto

lemma wrote_persist:
  assumes w: "wrote m K p D s d' s'" and p: "p \<in> K" and i: "i < BLOCK_MAX" "slot_sector (view s) (D p) (Blk i) \<noteq> UNUSED_SECTOR"
  shows "slot_sector (view s') d' (Blk i) \<noteq> UNUSED_SECTOR"
proof -
  have "valid_slot (Blk i)" using i by simp
  then have "slot_sector (view s') ((D(p := d')) p) (Blk i) = slot_sector (view s) (D p) (Blk i)"
    using w p i(2) unfolding wrote_def by blast
  then show ?thesis using i(2) by (simp del: slot_sector.simps)
qed

lemma write_loop_spec:
  assumes "fs_ok m K D s" "saver_ok save m" "p \<in> K" "p \<noteq> m" "p \<in> set (open_inodes s)" "data (inode_at s p) = D p"
    and "ofs + length buffer \<le> FILE_MAX" "3 * holes (view s) (D p) ofs (length buffer) \<le> nfree s" "buffer \<noteq> []"
  shows "\<exists>d' s'. write_loop save s p buffer ofs n = Some (n + length buffer, s') \<and> wrote m K p D s d' s' \<and>
    (\<forall>x < FILE_MAX. fbyte (view s') d' x =
       (if ofs \<le> x \<and> x < ofs + length buffer then buffer ! (x - ofs) else fbyte (view s) (D p) x)) \<and>
    nfree s \<le> nfree s' + 3 * holes (view s) (D p) ofs (length buffer) \<and>
    (\<forall>pos \<in> touched ofs (length buffer). slot_sector (view s') d' (Blk pos) \<noteq> UNUSED_SECTOR)"
  using assms
proof (induction "length buffer" arbitrary: s D buffer ofs n rule: less_induct)
  case less
  note ok = less.prems(1) and save = less.prems(2) and p = less.prems(3,4)
  let ?pos = "ofs div DISK_SECTOR_SIZE" and ?o = "ofs mod DISK_SECTOR_SIZE"
  define chunk where "chunk = (if length buffer < DISK_SECTOR_SIZE - ?o then length buffer else DISK_SECTOR_SIZE - ?o)"
  let ?h = "holes (view s) (D p) ofs (length buffer)"
  have len: "0 < length buffer" using less.prems(9) by simp
  have k: "0 < chunk" "chunk \<le> length buffer" "?o + chunk \<le> DISK_SECTOR_SIZE" using len by (auto simp: chunk_def)
  have pos: "?pos < BLOCK_MAX" using less.prems(7) len by (intro block_below) linarith
  obtain blk d1 s1 where a: "allocate_block save s (D p) ?pos = Some (blk, d1, s1)"
      "wrote m K p D s d1 (upd_inode s1 p (\<lambda>i. i\<lparr>data := d1\<rparr>))" "slot_sector (view s1) d1 (Blk ?pos) = blk"
      "blk = UNUSED_SECTOR \<Longrightarrow> slot_sector (view s) (D p) (Blk ?pos) = UNUSED_SECTOR \<and> nfree s < 3"
      "nfree s \<le> nfree s1 + (if slot_sector (view s) (D p) (Blk ?pos) = UNUSED_SECTOR then 3 else 0)"
      "\<And>i. i < BLOCK_MAX \<Longrightarrow> content (view s1) d1 i = content (view s) (D p) i"
      "\<And>i. i < BLOCK_MAX \<Longrightarrow> slot_sector (view s) (D p) (Blk i) \<noteq> UNUSED_SECTOR \<Longrightarrow> slot_sector (view s1) d1 (Blk i) \<noteq> UNUSED_SECTOR"
    by (rule loop_step [OF ok save p pos]) (simp del: slot_sector.simps)
  let ?s1 = "upd_inode s1 p (\<lambda>i. i\<lparr>data := d1\<rparr>)" and ?D = "D(p := d1)"
  have blk: "blk \<noteq> UNUSED_SECTOR"
  proof
    assume u: "blk = UNUSED_SECTOR"
    have "?pos \<in> {pos \<in> touched ofs (length buffer). slot_sector (view s) (D p) (Blk pos) = UNUSED_SECTOR}"
      using a(4) [OF u] touched_first [OF len] by simp
    then have "0 < ?h" unfolding holes_def using finite_touched by (subst card_gt_0_iff) auto
    then show False using a(4) [OF u] less.prems(8) by linarith
  qed
  have ok1: "fs_ok m K ?D ?s1" by (rule wrote_fs_ok [OF a(2)])
  have sec: "slot_sector (view ?s1) (?D p) (Blk ?pos) = blk" using a(3) by simp
  have le: "?o + length (take chunk buffer) \<le> DISK_SECTOR_SIZE" using k by simp
  obtain c where c: "write_cache ?s1 (take chunk buffer) blk ?o = Some (?s1\<lparr>cache := c\<rparr>)" "fs_ok m K ?D (?s1\<lparr>cache := c\<rparr>)"
      "\<And>q y. q \<in> K \<Longrightarrow> valid_slot y \<Longrightarrow> slot_sector (sector_view c) (?D q) y = slot_sector (view ?s1) (?D q) y"
      "\<And>q i. q \<in> K \<Longrightarrow> i < BLOCK_MAX \<Longrightarrow> content (sector_view c) (?D q) i =
         (if q = p \<and> i = ?pos then patch (content (view ?s1) (?D p) ?pos) ?o (take chunk buffer) else content (view ?s1) (?D q) i)"
    by (rule write_block [OF ok1 p(1) pos _ le, unfolded sec, OF blk]) (simp del: slot_sector.simps fun_upd_apply)
  let ?s2 = "?s1\<lparr>cache := c\<rparr>"
  have w2: "wrote m K p ?D ?s1 (?D p) ?s2"
  proof (rule wrote_block [OF ok1 _ p(2) c(2) c(3)])
    show "content (sector_view c) (?D q) i = content (view ?s1) (?D q) i" if "q \<in> K" "q \<noteq> p" "i < BLOCK_MAX" for q i
      using c(4) [OF that(1,3)] that(2) by simp
  qed simp
  have w: "wrote m K p D s d1 ?s2" using wrote_trans [OF a(2) w2] by simp
  have fb: "fbyte (view ?s2) d1 x = (if ofs \<le> x \<and> x < ofs + chunk then buffer ! (x - ofs) else fbyte (view s) (D p) x)"
    if x: "x < FILE_MAX" for x
  proof -
    have "fbyte (sector_view c) d1 x = (if ofs \<le> x \<and> x < ofs + length (take chunk buffer) then take chunk buffer ! (x - ofs) else fbyte (view s) (D p) x)"
    proof (rule fbyte_patch [OF _ _ le x])
      fix i :: nat assume "i < BLOCK_MAX"
      then show "content (sector_view c) d1 i =
          (if i = ?pos then patch (content (view s) (D p) i) ?o (take chunk buffer) else content (view s) (D p) i)"
        using c(4) [OF p(1)] a(6) pos by simp
    next
      show "length (content (view s) (D p) i) = DISK_SECTOR_SIZE" for i
        using content_length layout_length [OF fs_okD(5) [OF ok]] by blast
    qed
    then show ?thesis using k(2) by auto
  qed
  have ss2: "slot_sector (view ?s2) d1 (Blk i) = slot_sector (view s1) d1 (Blk i)" if "i < BLOCK_MAX" for i
    using c(3) [OF p(1), of "Blk i"] that by (simp del: slot_sector.simps)
  have here: "slot_sector (view ?s2) d1 (Blk ?pos) \<noteq> UNUSED_SECTOR" using ss2 [OF pos] a(3) blk by (simp del: slot_sector.simps)
  have nf: "nfree ?s2 = nfree s1" by (simp add: nfree_def)
  have hs: "holes (view ?s2) d1 (ofs + chunk) (length buffer - chunk) +
      (if slot_sector (view s) (D p) (Blk ?pos) = UNUSED_SECTOR then 1 else 0) \<le> ?h"
    using a(3,7) blk ss2 pos k(2) len less.prems(7) by (intro holes_step) (simp_all del: slot_sector.simps)
  have step: "write_loop save s p buffer ofs n = write_loop save ?s2 p (drop chunk buffer) (ofs + chunk) (n + chunk)"
    using len less.prems(5,6) a(1) c(1) k(1)
    by (simp add: write_loop.simps [of save s p buffer] deref_def Let_def chunk_def [symmetric] del: slot_sector.simps)
  show ?case
  proof (cases "drop chunk buffer = []")
    case True
    then have "chunk = length buffer" using k(2) by (simp only: drop_eq_Nil)
    then have "write_loop save s p buffer ofs n = Some (n + length buffer, ?s2)"
      using step True by (simp add: write_loop.simps [of save ?s2 p "[]"])
    moreover have "nfree s \<le> nfree ?s2 + 3 * ?h" using a(5) hs nf by (simp split: if_splits del: slot_sector.simps)
    moreover have "slot_sector (view ?s2) d1 (Blk i) \<noteq> UNUSED_SECTOR" if "i \<in> touched ofs (length buffer)" for i
      using touched_step [OF chunk_def that] \<open>chunk = length buffer\<close> here by (simp del: slot_sector.simps)
    ultimately show ?thesis using w fb \<open>chunk = length buffer\<close> by (intro exI [of _ d1] exI [of _ ?s2]) (simp del: slot_sector.simps)
  next
    case False
    have room: "3 * holes (view ?s2) ((D(p := d1)) p) (ofs + chunk) (length (drop chunk buffer)) \<le> nfree ?s2"
      using a(5) hs nf less.prems(8) by (simp split: if_splits del: slot_sector.simps)
    have o: "p \<in> set (open_inodes ?s2)" "data (inode_at ?s2 p) = ?D p" using wrote_open [OF w] less.prems(5) by simp_all
    have le2: "length (drop chunk buffer) < length buffer" "ofs + chunk + length (drop chunk buffer) \<le> FILE_MAX"
      using k less.prems(7) by simp_all
    obtain d2 s3 where r: "write_loop save ?s2 p (drop chunk buffer) (ofs + chunk) (n + chunk) = Some (n + chunk + length (drop chunk buffer), s3)"
        "wrote m K p ?D ?s2 d2 s3" "\<forall>x < FILE_MAX. fbyte (view s3) d2 x =
           (if ofs + chunk \<le> x \<and> x < ofs + chunk + length (drop chunk buffer) then drop chunk buffer ! (x - (ofs + chunk)) else fbyte (view ?s2) (?D p) x)"
        "nfree ?s2 \<le> nfree s3 + 3 * holes (view ?s2) (?D p) (ofs + chunk) (length (drop chunk buffer))"
        "\<forall>pos \<in> touched (ofs + chunk) (length (drop chunk buffer)). slot_sector (view s3) d2 (Blk pos) \<noteq> UNUSED_SECTOR"
      using less.hyps [OF le2(1) c(2) save p o le2(2) room False, of "n + chunk"] by blast
    have "fbyte (view s3) d2 x = (if ofs \<le> x \<and> x < ofs + length buffer then buffer ! (x - ofs) else fbyte (view s) (D p) x)"
      if x: "x < FILE_MAX" for x
      using r(3) fb [OF x] x k(2) by auto
    moreover have "nfree s \<le> nfree s3 + 3 * ?h" using a(5) hs nf r(4) by (simp split: if_splits del: slot_sector.simps)
    moreover have "slot_sector (view s3) d2 (Blk i) \<noteq> UNUSED_SECTOR" if "i \<in> touched ofs (length buffer)" for i
    proof -
      have "slot_sector (view ?s2) (?D p) (Blk ?pos) \<noteq> UNUSED_SECTOR" using here by (simp del: slot_sector.simps)
      then show ?thesis
        using touched_step [OF chunk_def that] wrote_persist [OF r(2) p(1) pos] r(5) by (auto simp del: slot_sector.simps)
    qed
    ultimately show ?thesis using step r(1) k(2) wrote_trans [OF w r(2)]
      by (intro exI [of _ d2] exI [of _ s3]) (simp del: slot_sector.simps)
  qed
qed

lemma wrote_refl: "fs_ok m K D s \<Longrightarrow> data (inode_at s p) = D p \<Longrightarrow> p \<noteq> m \<Longrightarrow> wrote m K p D s (D p) s"
  using wrote_block [of m K D s p "cache s"] by simp

lemma content_bytes:
  assumes "ofs mod DISK_SECTOR_SIZE + n \<le> DISK_SECTOR_SIZE" "length (content v d (ofs div DISK_SECTOR_SIZE)) = DISK_SECTOR_SIZE"
  shows "take n (drop (ofs mod DISK_SECTOR_SIZE) (content v d (ofs div DISK_SECTOR_SIZE))) = map (fbyte v d) [ofs..<ofs + n]"
proof (rule nth_equalityI)
  show "length (take n (drop (ofs mod DISK_SECTOR_SIZE) (content v d (ofs div DISK_SECTOR_SIZE)))) = length (map (fbyte v d) [ofs..<ofs + n])"
    using assms by simp
  fix i assume "i < length (take n (drop (ofs mod DISK_SECTOR_SIZE) (content v d (ofs div DISK_SECTOR_SIZE))))"
  then have i: "i < n" by simp
  have e: "ofs + i = ofs div DISK_SECTOR_SIZE * DISK_SECTOR_SIZE + (ofs mod DISK_SECTOR_SIZE + i)" by simp
  have lt: "ofs mod DISK_SECTOR_SIZE + i < DISK_SECTOR_SIZE" using assms(1) i by linarith
  have gen: "(q * DISK_SECTOR_SIZE + r) div DISK_SECTOR_SIZE = q" "(q * DISK_SECTOR_SIZE + r) mod DISK_SECTOR_SIZE = r"
    if "r < DISK_SECTOR_SIZE" for q r :: nat using that by simp_all
  have "(ofs + i) div DISK_SECTOR_SIZE = ofs div DISK_SECTOR_SIZE" "(ofs + i) mod DISK_SECTOR_SIZE = ofs mod DISK_SECTOR_SIZE + i"
    using gen [OF lt] e by metis+
  then show "take n (drop (ofs mod DISK_SECTOR_SIZE) (content v d (ofs div DISK_SECTOR_SIZE))) ! i = map (fbyte v d) [ofs..<ofs + n] ! i"
    using i assms by (simp add: fbyte_def)
qed

lemma fbyte_cong: "(\<And>i. i < BLOCK_MAX \<Longrightarrow> content v' d' i = content v d i) \<Longrightarrow> x < FILE_MAX \<Longrightarrow> fbyte v' d' x = fbyte v d x"
  unfolding fbyte_def using block_below by simp

lemma read_loop_spec:
  assumes "fs_ok m K D s" "saver_ok save m" "p \<in> K" "p \<noteq> m" "p \<in> set (open_inodes s)" "data (inode_at s p) = D p"
    and "ofs < FILE_MAX" "ilength (D p) < FILE_MAX" "3 * holes (view s) (D p) ofs (min sz (ilength (D p) - ofs)) \<le> nfree s"
  shows "\<exists>d' s'. read_loop save s p sz ofs buffer =
      Some (buffer @ map (fbyte (view s) (D p)) [ofs..<ofs + min sz (ilength (D p) - ofs)], s') \<and> wrote m K p D s d' s' \<and>
    (\<forall>i < BLOCK_MAX. content (view s') d' i = content (view s) (D p) i) \<and>
    nfree s \<le> nfree s' + 3 * holes (view s) (D p) ofs (min sz (ilength (D p) - ofs)) + (if ofs + sz \<le> ilength (D p) then 0 else 3)"
  using assms
proof (induction sz arbitrary: s D ofs buffer rule: less_induct)
  case (less sz)
  note ok = less.prems(1) and save = less.prems(2) and p = less.prems(3,4)
  let ?pos = "ofs div DISK_SECTOR_SIZE" and ?o = "ofs mod DISK_SECTOR_SIZE" and ?n = "min sz (ilength (D p) - ofs)"
  let ?h = "holes (view s) (D p) ofs ?n"
  show ?case
  proof (cases "sz = 0")
    case True
    then show ?thesis using wrote_refl [OF ok less.prems(6) p(2)]
      by (intro exI [of _ "D p"] exI [of _ s]) (simp add: read_loop.simps [of save s p 0])
  next
    case False
    have pos: "?pos < BLOCK_MAX" using less.prems(7) by (rule block_below)
    obtain blk d1 s1 where a: "allocate_block save s (D p) ?pos = Some (blk, d1, s1)"
        "wrote m K p D s d1 (upd_inode s1 p (\<lambda>i. i\<lparr>data := d1\<rparr>))" "slot_sector (view s1) d1 (Blk ?pos) = blk"
        "blk = UNUSED_SECTOR \<Longrightarrow> slot_sector (view s) (D p) (Blk ?pos) = UNUSED_SECTOR \<and> nfree s < 3"
        "nfree s \<le> nfree s1 + (if slot_sector (view s) (D p) (Blk ?pos) = UNUSED_SECTOR then 3 else 0)"
        "\<And>i. i < BLOCK_MAX \<Longrightarrow> content (view s1) d1 i = content (view s) (D p) i"
      by (rule loop_step [OF ok save p pos]) (simp del: slot_sector.simps)
    let ?s1 = "upd_inode s1 p (\<lambda>i. i\<lparr>data := d1\<rparr>)" and ?D = "D(p := d1)"
    have L: "ilength d1 = ilength (D p)" using a(2) by (simp add: wrote_def same_head_def)
    have nf1: "nfree ?s1 = nfree s1" by (simp add: nfree_def)
    let ?chunk = "read_chunk (ilength d1) sz ofs"
    show ?thesis
    proof (cases "?chunk \<le> 0")
      case True
      then have n: "?n = 0" using False L mod_less_divisor [of DISK_SECTOR_SIZE ofs] by (auto simp: read_chunk_def Let_def split: if_splits)
      have "read_loop save s p sz ofs buffer = Some (buffer, ?s1)"
        using False less.prems(5,6) a(1) True by (simp add: read_loop.simps [of save s p sz] deref_def)
      moreover have "nfree s \<le> nfree ?s1 + 3" using a(5) nf1 by (simp split: if_splits del: slot_sector.simps)
      moreover have "\<not> ofs + sz \<le> ilength (D p)" using n False by simp
      ultimately show ?thesis using n a(2,6) by (intro exI [of _ d1] exI [of _ ?s1]) simp
    next
      case pos_chunk: False
      define k where "k = nat ?chunk"
      have k: "0 < k" "k \<le> ?n" "?o + k \<le> DISK_SECTOR_SIZE" "k \<le> sz" "?chunk = int k"
        using pos_chunk False L mod_less_divisor [of DISK_SECTOR_SIZE ofs] by (auto simp: k_def read_chunk_def Let_def split: if_splits)
      have blk: "blk \<noteq> UNUSED_SECTOR"
      proof
        assume u: "blk = UNUSED_SECTOR"
        have "?pos \<in> {pos \<in> touched ofs ?n. slot_sector (view s) (D p) (Blk pos) = UNUSED_SECTOR}"
          using a(4) [OF u] touched_first [of ?n ofs] k by simp
        then have "0 < ?h" unfolding holes_def using finite_touched by (subst card_gt_0_iff) auto
        then show False using a(4) [OF u] less.prems(9) by linarith
      qed
      have ok1: "fs_ok m K ?D ?s1" by (rule wrote_fs_ok [OF a(2)])
      have vp: "valid_slot (Blk ?pos)" using pos by simp
      have sec: "slot_sector (view ?s1) (?D p) (Blk ?pos) = blk" using a(3) by simp
      have lim: "disk_limit (cache ?s1) blk" using fs_ok_slot_limit [OF ok1 p(1) vp] sec blk by (simp only:) simp
      obtain c where c: "read_cache ?s1 blk ?o k = Some (take k (drop ?o (view ?s1 blk)), ?s1\<lparr>cache := c\<rparr>)"
          "cache_ok c" "sector_view c = view ?s1" "disk_limit c = disk_limit (cache ?s1)"
        by (rule read_cache_spec [OF fs_okD(1) [OF ok1] lim k(3)])
      let ?s2 = "?s1\<lparr>cache := c\<rparr>"
      have ok2: "fs_ok m K ?D ?s2" by (rule grown_fs_ok [OF grown_read [OF ok1 c(2,3,4)]])
      have w2: "wrote m K p ?D ?s1 (?D p) ?s2"
        by (rule wrote_block [OF ok1 _ p(2) ok2]) (simp_all only: c(3), simp)
      have w: "wrote m K p D s d1 ?s2" using wrote_trans [OF a(2) w2] by simp
      have v2: "view ?s2 = view s1" using c(3) by simp
      have len: "length (content (view s) (D p) i) = DISK_SECTOR_SIZE" for i
        using content_length layout_length [OF fs_okD(5) [OF ok]] by blast
      have "view ?s1 blk = content (view s) (D p) ?pos" using a(6) [OF pos] a(3) blk by (simp add: content_def del: slot_sector.simps)
      then have bytes: "take k (drop ?o (view ?s1 blk)) = map (fbyte (view s) (D p)) [ofs..<ofs + k]"
        using content_bytes [OF k(3) len] by simp
      have step: "read_loop save s p sz ofs buffer =
          read_loop save ?s2 p (sz - k) (ofs + k) (buffer @ map (fbyte (view s) (D p)) [ofs..<ofs + k])"
        using False less.prems(5,6) a(1) k(1,5) c(1) bytes
        by (simp add: read_loop.simps [of save s p sz] deref_def)
      have n2: "min (sz - k) (ilength (?D p) - (ofs + k)) = ?n - k" using L k(2) by simp
      have hs: "holes (view ?s2) (?D p) (ofs + k) (?n - k) +
          (if slot_sector (view s) (D p) (Blk ?pos) = UNUSED_SECTOR then 1 else 0) \<le> ?h"
      proof -
        have "holes (view ?s2) d1 (ofs + k) (?n - k) + (if slot_sector (view s) (D p) (Blk ?pos) = UNUSED_SECTOR then 1 else 0) \<le> ?h"
        proof (rule holes_step [OF _ _ k(2)])
          show "slot_sector (view ?s2) d1 (Blk ?pos) \<noteq> UNUSED_SECTOR" unfolding v2 a(3) by (rule blk)
          show "ofs + ?n \<le> FILE_MAX" using less.prems(7,8) by simp
        qed (use wrote_persist [OF w p(1)] k in auto)
        then show ?thesis by simp
      qed
      have nf: "nfree ?s2 = nfree s1" by (simp add: nfree_def)
      have rest: "(ofs + k + (sz - k) \<le> ilength (?D p)) = (ofs + sz \<le> ilength (D p))" using L k(4) by simp
      have room: "3 * holes (view ?s2) (?D p) (ofs + k) (min (sz - k) (ilength (?D p) - (ofs + k))) \<le> nfree ?s2"
        unfolding n2 nf using a(5) hs less.prems(9) by (cases "slot_sector (view s) (D p) (Blk ?pos) = UNUSED_SECTOR") (simp_all del: slot_sector.simps)
      have o: "p \<in> set (open_inodes ?s2)" "data (inode_at ?s2 p) = ?D p" using wrote_open [OF w] less.prems(5) by simp_all
      have le: "sz - k < sz" "ofs + k < FILE_MAX" "ilength (?D p) < FILE_MAX" using k False less.prems(8) L by auto
      obtain d2 s3 where r: "read_loop save ?s2 p (sz - k) (ofs + k) (buffer @ map (fbyte (view s) (D p)) [ofs..<ofs + k]) =
            Some ((buffer @ map (fbyte (view s) (D p)) [ofs..<ofs + k]) @ map (fbyte (view ?s2) (?D p)) [ofs + k..<ofs + k + (?n - k)], s3)"
          "wrote m K p ?D ?s2 d2 s3" "\<forall>i < BLOCK_MAX. content (view s3) d2 i = content (view ?s2) (?D p) i"
          "nfree ?s2 \<le> nfree s3 + 3 * holes (view ?s2) (?D p) (ofs + k) (?n - k) + (if ofs + sz \<le> ilength (D p) then 0 else 3)"
        using less.IH [OF le(1) ok2 save p o le(2,3) room] unfolding n2 rest by blast
      have fb: "map (fbyte (view ?s2) (?D p)) [ofs + k..<ofs + k + (?n - k)] = map (fbyte (view s) (D p)) [ofs + k..<ofs + ?n]"
      proof -
        have "fbyte (view ?s2) (?D p) x = fbyte (view s) (D p) x" if "x < FILE_MAX" for x
          using a(6) that unfolding v2 by (intro fbyte_cong) auto
        then show ?thesis using k(2) less.prems(8) by auto
      qed
      have "[ofs..<ofs + ?n] = [ofs..<ofs + k] @ [ofs + k..<ofs + ?n]" using k(2) by (metis le_add_diff_inverse upt_add_eq_append le_add1 add.assoc)
      then have res: "read_loop save s p sz ofs buffer = Some (buffer @ map (fbyte (view s) (D p)) [ofs..<ofs + ?n], s3)"
        unfolding step r(1) fb by simp
      have "nfree s \<le> nfree s3 + 3 * ?h + (if ofs + sz \<le> ilength (D p) then 0 else 3)"
        using a(5) hs nf r(4) by (cases "slot_sector (view s) (D p) (Blk ?pos) = UNUSED_SECTOR") (simp_all del: slot_sector.simps)
      then show ?thesis using res wrote_trans [OF w r(2)] r(3) a(6) v2 by (intro exI [of _ d2] exI [of _ s3]) simp
    qed
  qed
qed

text \<open>With no free sector, a block that has none gets none.\<close>

lemma table_block_full:
  assumes ok: "fs_ok m K D s" and full: "nfree s = 0" and p: "p \<in> K" and x: "valid_slot x" "table_of x = Some (t, i)"
    and tab: "slot_sector (view s) (D p) t \<noteq> UNUSED_SECTOR"
  obtains c where "table_block save s (slot_sector (view s) (D p) t) i fill = Some (slot_sector (view s) (D p) x, s\<lparr>cache := c\<rparr>)"
    "cache_ok c" "sector_view c = view s" "disk_limit c = disk_limit (cache s)"
proof -
  obtain c where c: "read_cache s (slot_sector (view s) (D p) t) (4 * i) 4 =
        Some (take 4 (drop (4 * i) (view s (slot_sector (view s) (D p) t))), s\<lparr>cache := c\<rparr>)"
      "bytes_word (take 4 (drop (4 * i) (view s (slot_sector (view s) (D p) t)))) = slot_sector (view s) (D p) x"
      "cache_ok c" "sector_view c = view s" "disk_limit c = disk_limit (cache s)"
    by (rule table_read [OF ok p x tab])
  have "fs_ok m K D (s\<lparr>cache := c\<rparr>)" by (rule grown_fs_ok [OF grown_read [OF ok c(3,4,5)]])
  then have "free_map_allocate save (s\<lparr>cache := c\<rparr>) 1 = Some (None, s\<lparr>cache := c\<rparr>)"
    by (rule free_map_allocate_full) (simp add: full)
  then have "table_block save s (slot_sector (view s) (D p) t) i fill = Some (slot_sector (view s) (D p) x, s\<lparr>cache := c\<rparr>)"
    using c(1,2) by (cases "slot_sector (view s) (D p) x = UNUSED_SECTOR") (simp_all add: table_block_def Let_def del: slot_sector.simps)
  then show thesis using c(3,4,5) by (rule that)
qed

lemma allocate_block_full:
  assumes ok: "fs_ok m K D s" and full: "nfree s = 0" and p: "p \<in> K" and pos: "pos < BLOCK_MAX"
    and absent: "slot_sector (view s) (D p) (Blk pos) = UNUSED_SECTOR"
  obtains c where "allocate_block save s (D p) pos = Some (UNUSED_SECTOR, D p, s\<lparr>cache := c\<rparr>)" "cache_ok c"
proof -
  have v: "valid_slot (Blk pos)" using pos by simp
  note al = free_map_allocate_full [OF ok full, of save]
  have s: "s\<lparr>cache := cache s\<rparr> = s" by simp
  consider "pos < DIRECT_MAX" | "\<not> pos < DIRECT_MAX" "pos < DIRECT_MAX + SECTOR_MAX" | "\<not> pos < DIRECT_MAX + SECTOR_MAX" by linarith
  then show thesis
  proof cases
    case 1
    then have d: "direct (D p) ! pos = UNUSED_SECTOR" using absent by simp
    then have "(direct (D p))[pos := UNUSED_SECTOR] = direct (D p)" by (metis list_update_id)
    then have "allocate_block save s (D p) pos = Some (UNUSED_SECTOR, D p, s\<lparr>cache := cache s\<rparr>)"
      using 1 d al by (simp add: allocate_block_def root_block_def)
    then show thesis using fs_okD(1) [OF ok] by (rule that)
  next
    case 2
    then have t: "table_of (Blk pos) = Some (Tab, pos - DIRECT_MAX)" by simp
    show thesis
    proof (cases "indirect (D p) = UNUSED_SECTOR")
      case True
      then have "(D p)\<lparr>indirect := UNUSED_SECTOR\<rparr> = D p" by (cases "D p") simp
      then have "allocate_block save s (D p) pos = Some (UNUSED_SECTOR, D p, s\<lparr>cache := cache s\<rparr>)"
        using 2 True al by (simp add: allocate_block_def root_block_def)
      then show thesis using fs_okD(1) [OF ok] by (rule that)
    next
      case False
      then have tab: "slot_sector (view s) (D p) Tab \<noteq> UNUSED_SECTOR" by simp
      obtain c where c: "table_block save s (slot_sector (view s) (D p) Tab) (pos - DIRECT_MAX) zeros =
          Some (slot_sector (view s) (D p) (Blk pos), s\<lparr>cache := c\<rparr>)" "cache_ok c"
        by (rule table_block_full [OF ok full p v t tab])
      have "allocate_block save s (D p) pos = Some (UNUSED_SECTOR, D p, s\<lparr>cache := c\<rparr>)"
        using 2 False c(1) absent by (simp add: allocate_block_def root_block_def)
      then show thesis using c(2) by (rule that)
    qed
  next
    case 3
    let ?i = "(pos - DIRECT_MAX - SECTOR_MAX) div SECTOR_MAX" and ?j = "(pos - DIRECT_MAX - SECTOR_MAX) mod SECTOR_MAX"
    have t: "table_of (Blk pos) = Some (Sub ?i, ?j)" using 3 by simp
    have vi: "valid_slot (Sub ?i)" using table_of_valid [OF v t] by simp
    show thesis
    proof (cases "double_indirect (D p) = UNUSED_SECTOR")
      case True
      then have "(D p)\<lparr>double_indirect := UNUSED_SECTOR\<rparr> = D p" by (cases "D p") simp
      then have "allocate_block save s (D p) pos = Some (UNUSED_SECTOR, D p, s\<lparr>cache := cache s\<rparr>)"
        using 3 True al by (simp add: allocate_block_def root_block_def)
      then show thesis using fs_okD(1) [OF ok] by (rule that)
    next
      case False
      then have tab: "slot_sector (view s) (D p) Dtab \<noteq> UNUSED_SECTOR" by simp
      obtain c where c: "table_block save s (slot_sector (view s) (D p) Dtab) ?i unused = Some (slot_sector (view s) (D p) (Sub ?i), s\<lparr>cache := c\<rparr>)"
          "cache_ok c" "sector_view c = view s" "disk_limit c = disk_limit (cache s)"
        by (rule table_block_full [OF ok full p vi table_of.simps(3) tab])
      have ok1: "fs_ok m K D (s\<lparr>cache := c\<rparr>)" by (rule grown_fs_ok [OF grown_read [OF ok c(2,3,4)]])
      show thesis
      proof (cases "slot_sector (view s) (D p) (Sub ?i) = UNUSED_SECTOR")
        case True
        have "allocate_block save s (D p) pos = Some (UNUSED_SECTOR, D p, s\<lparr>cache := c\<rparr>)"
          using 3 False c(1) True by (simp add: allocate_block_def root_block_def Let_def)
        then show thesis using c(2) by (rule that)
      next
        case sub: False
        then have tab1: "slot_sector (view (s\<lparr>cache := c\<rparr>)) (D p) (Sub ?i) \<noteq> UNUSED_SECTOR" using c(3) by simp
        have full1: "nfree (s\<lparr>cache := c\<rparr>) = 0" using full by simp
        obtain c1 where c1: "table_block save (s\<lparr>cache := c\<rparr>) (slot_sector (view (s\<lparr>cache := c\<rparr>)) (D p) (Sub ?i)) ?j zeros =
            Some (slot_sector (view (s\<lparr>cache := c\<rparr>)) (D p) (Blk pos), s\<lparr>cache := c\<rparr>\<lparr>cache := c1\<rparr>)" "cache_ok c1"
          by (rule table_block_full [OF ok1 full1 p v t tab1])
        have "allocate_block save s (D p) pos = Some (UNUSED_SECTOR, D p, s\<lparr>cache := c1\<rparr>)"
          using 3 False c(1,3) c1(1) sub absent by (simp add: allocate_block_def root_block_def Let_def del: slot_sector.simps(3,4))
        then show thesis using c1(2) by (rule that)
      qed
    qed
  qed
qed

lemma write_cache_unused:
  assumes "cache_ok (cache s)"
  shows "write_cache s bs UNUSED_SECTOR ofs = None"
proof -
  have lim: "\<not> (UNUSED_SECTOR < capacity d \<and> UNUSED_SECTOR < push_bit 28 (1 :: u32))" for d by (simp add: push_bit_eq_mult)
  have "disk_read d UNUSED_SECTOR = None" for d using lim [of d] by (simp add: disk_read_def select_sector_def)
  moreover have "cache_table_find (cache s) UNUSED_SECTOR = None"
    using assms lim [of "filesys_disk (cache s)"] by (auto simp: cache_table_find_def find_None_block cache_ok_def disk_limit_def)
  ultimately have "cache_load (cache s) UNUSED_SECTOR = None" by (simp add: cache_load_def bind_eq_None_conv)
  then show ?thesis by (simp add: write_cache_def cache_table_write_def)
qed

lemma write_loop_full:
  assumes ok: "fs_ok m K D s" and full: "nfree s = 0" and p: "p \<in> K" "p \<in> set (open_inodes s)" "data (inode_at s p) = D p"
    and ofs: "ofs < FILE_MAX" "buffer \<noteq> []" and absent: "slot_sector (view s) (D p) (Blk (ofs div DISK_SECTOR_SIZE)) = UNUSED_SECTOR"
  shows "write_loop save s p buffer ofs n = None"
proof -
  obtain c where c: "allocate_block save s (D p) (ofs div DISK_SECTOR_SIZE) = Some (UNUSED_SECTOR, D p, s\<lparr>cache := c\<rparr>)" "cache_ok c"
    by (rule allocate_block_full [OF ok full p(1) block_below [OF ofs(1)] absent])
  have "write_cache (upd_inode (s\<lparr>cache := c\<rparr>) p f) bs UNUSED_SECTOR i = None" for f bs i
    using c(2) by (intro write_cache_unused) simp
  then show ?thesis using c(1) p ofs(2) mod_less_divisor [of DISK_SECTOR_SIZE ofs]
    by (simp add: write_loop.simps [of save s p buffer] deref_def Let_def)
qed

end
