(* ===== verification/File_Store.thy ===== *)
theory File_Store
  imports Sector_Store
begin

text \<open>
  The contract of a store of files that are read and written at offsets, and what follows for its clients. The index
  nodes of the file system provide it; directories use it.
\<close>

text \<open>The bytes of a file after a write: the file is filled up with zeros to the end of the write.\<close>

definition store_bytes :: "u8 list \<Rightarrow> nat \<Rightarrow> u8 list \<Rightarrow> u8 list" where
  "store_bytes bs ofs new = patch (bs @ replicate (ofs + length new - length bs) 0) ofs new"

lemma length_store_bytes [simp]: "length (store_bytes bs ofs new) = max (length bs) (ofs + length new)"
  by (simp add: store_bytes_def patch_def)

lemma nth_store_bytes:
  "i < max (length bs) (ofs + length new) \<Longrightarrow> store_bytes bs ofs new ! i =
     (if ofs \<le> i \<and> i < ofs + length new then new ! (i - ofs) else if i < length bs then bs ! i else 0)"
  unfolding store_bytes_def by (subst nth_patch) (auto simp: nth_append)

lemma store_bytes_read: "take (length new) (drop ofs (store_bytes bs ofs new)) = new"
  unfolding store_bytes_def by (rule take_drop_patch_same) simp

text \<open>A file is ready when all its blocks have space in the store; \<open>spare s\<close> counts the units of space that are free.\<close>

locale file_store =
  fixes inv :: "'s \<Rightarrow> bool"
    and files :: "'s \<Rightarrow> 'k set"
    and bytes :: "'s \<Rightarrow> 'k \<Rightarrow> u8 list"
    and writable :: "'s \<Rightarrow> 'k \<Rightarrow> bool"
    and ready :: "'s \<Rightarrow> 'k \<Rightarrow> bool"
    and spare :: "'s \<Rightarrow> nat"
    and cost :: "nat \<Rightarrow> nat"
    and cap :: nat
    and rd :: "'s \<Rightarrow> 'k \<Rightarrow> nat \<Rightarrow> nat \<Rightarrow> (u8 list \<times> 's) option"
    and wr :: "'s \<Rightarrow> 'k \<Rightarrow> u8 list \<Rightarrow> nat \<Rightarrow> (nat \<times> 's) option"
  assumes rd_law: "inv s \<Longrightarrow> p \<in> files s \<Longrightarrow> ready s p \<Longrightarrow> ofs < cap \<Longrightarrow>
      \<exists>s'. rd s p n ofs = Some (take n (drop ofs (bytes s p)), s') \<and> inv s' \<and> files s' = files s \<and> 
        spare s \<le> spare s' + (if ofs + n \<le> length (bytes s p) then 0 else 3) \<and>
        (\<forall>q \<in> files s. bytes s' q = bytes s q \<and> (ready s q \<longrightarrow> ready s' q) \<and> (writable s q \<longrightarrow> writable s' q))"
    and wr_law: "inv s \<Longrightarrow> p \<in> files s \<Longrightarrow> writable s p \<Longrightarrow> ready s p \<Longrightarrow> ofs \<le> length (bytes s p) \<Longrightarrow>
      ofs + length bs < cap \<Longrightarrow> cost (length bs) \<le> spare s \<Longrightarrow>
      \<exists>s'. wr s p bs ofs = Some (length bs, s') \<and> inv s' \<and> files s' = files s \<and> bytes s' p = store_bytes (bytes s p) ofs bs \<and>
        (\<forall>q \<in> files s. (q \<noteq> p \<longrightarrow> bytes s' q = bytes s q) \<and> (ready s q \<longrightarrow> ready s' q) \<and> (writable s q \<longrightarrow> writable s' q))"
begin

text \<open>What is written is read back, and every other file still reads as before.\<close>

lemma write_read:
  assumes "inv s" "p \<in> files s" "writable s p" "ready s p" "ofs \<le> length (bytes s p)" "ofs + length bs < cap" "cost (length bs) \<le> spare s"
  shows "\<exists>s1 s2. wr s p bs ofs = Some (length bs, s1) \<and> rd s1 p (length bs) ofs = Some (bs, s2) \<and> inv s2 \<and> files s2 = files s \<and>
    (\<forall>q \<in> files s. q \<noteq> p \<longrightarrow> bytes s2 q = bytes s q)"
proof -
  obtain s1 where s1: "wr s p bs ofs = Some (length bs, s1)" "inv s1" "files s1 = files s" "bytes s1 p = store_bytes (bytes s p) ofs bs"
    "\<forall>q \<in> files s. (q \<noteq> p \<longrightarrow> bytes s1 q = bytes s q) \<and> (ready s q \<longrightarrow> ready s1 q)"
    using wr_law [OF assms] by blast
  have "ofs < cap" using assms(6) by simp
  then obtain s2 where "rd s1 p (length bs) ofs = Some (take (length bs) (drop ofs (bytes s1 p)), s2)" "inv s2" "files s2 = files s1"
      "\<forall>q \<in> files s1. bytes s2 q = bytes s1 q"
    using rd_law [OF s1(2), of p ofs "length bs"] s1(3,5) assms(2,4) by auto
  with s1 show ?thesis unfolding s1(4) store_bytes_read by auto
qed

end

end
