(* ===== verification/Inode_Spec.thy ===== *)
theory Inode_Spec
  imports Inode_Files File_Store
begin

text \<open>
  The contract of the index nodes: reading and writing the open files of the file system, other than the free map's, is reading and
  writing lists of bytes. This gives the interpretation of the interface of a store of files.
\<close>

definition map_inode :: "fs \<Rightarrow> ptr" where
  "map_inode s = (case free_map_file s of Some f \<Rightarrow> f_inode f | None \<Rightarrow> NULL)"

definition files :: "fs \<Rightarrow> ptr set" where
  "files s = set (open_inodes s) - {map_inode s}"

definition file_data :: "fs \<Rightarrow> ptr \<Rightarrow> inode_disk" where
  "file_data s p = data (inode_at s p)"

definition file_bytes :: "fs \<Rightarrow> ptr \<Rightarrow> u8 list" where
  "file_bytes s p = map (fbyte (view s) (file_data s p)) [0..<ilength (file_data s p)]"

text \<open>The files are laid out on the disk without sharing sectors, and the bytes behind the end of each file are zero.\<close>

definition fs_inv :: "fs \<Rightarrow> bool" where
  "fs_inv s \<longleftrightarrow> fs_ok (map_inode s) (set (open_inodes s)) (file_data s) s \<and>
     (\<forall>q \<in> files s. ilength (file_data s q) < FILE_MAX \<and> (\<forall>x < FILE_MAX. ilength (file_data s q) \<le> x \<longrightarrow> fbyte (view s) (file_data s q) x = 0))"

definition room :: "fs \<Rightarrow> ptr \<Rightarrow> nat \<Rightarrow> nat \<Rightarrow> bool" where
  "room s p ofs n \<longleftrightarrow> 3 * holes (view s) (file_data s p) ofs n \<le> nfree s"

definition dense :: "fs \<Rightarrow> ptr \<Rightarrow> bool" where
  "dense s p \<longleftrightarrow> (\<forall>pos. pos * DISK_SECTOR_SIZE < ilength (file_data s p) \<longrightarrow> slot_sector (view s) (file_data s p) (Blk pos) \<noteq> UNUSED_SECTOR)"

text \<open>What a step of a file keeps: the open files, their state in memory, and the fields of their inodes that are not about contents.\<close>

definition same_inodes :: "fs \<Rightarrow> fs \<Rightarrow> bool" where
  "same_inodes s s' \<longleftrightarrow> open_inodes s' = open_inodes s \<and> free_map_file s' = free_map_file s \<and> outcomes s' = outcomes s \<and> next_inode s' = next_inode s \<and>
     (\<forall>q. sector (inode_at s' q) = sector (inode_at s q) \<and> open_cnt (inode_at s' q) = open_cnt (inode_at s q) \<and>
          removed (inode_at s' q) = removed (inode_at s q) \<and> deny_write_cnt (inode_at s' q) = deny_write_cnt (inode_at s q) \<and>
          is_dir (file_data s' q) = is_dir (file_data s q) \<and> parent_dir (file_data s' q) = parent_dir (file_data s q))"

lemma same_inodes_refl [simp]: "same_inodes s s"
  by (simp add: same_inodes_def)

lemma same_inodes_trans: "same_inodes s s1 \<Longrightarrow> same_inodes s1 s2 \<Longrightarrow> same_inodes s s2"
  by (simp add: same_inodes_def)

lemma same_files: "same_inodes s s' \<Longrightarrow> files s' = files s \<and> map_inode s' = map_inode s"
  by (simp add: same_inodes_def files_def map_inode_def)

lemma file_data_wrote:
  assumes w: "wrote m K p (file_data s) s d' s'"
  shows "file_data s' = (file_data s)(p := d')" "same_inodes s s'"
proof -
  obtain c b where s': "s' = s\<lparr>cache := c, free_map := b, inode_at := (inode_at s)(p := (inode_at s p)\<lparr>data := d'\<rparr>)\<rparr>"
    using w unfolding wrote_def by blast
  show fd: "file_data s' = (file_data s)(p := d')" unfolding s' by (auto simp: file_data_def)
  have "same_head d' (file_data s p)" using w by (simp add: wrote_def)
  then show "same_inodes s s'" unfolding same_inodes_def fd by (simp add: s' same_head_def)
qed

lemma file_bytes_length [simp]: "length (file_bytes s p) = ilength (file_data s p)"
  by (simp add: file_bytes_def)

lemma nth_file_bytes: "i < ilength (file_data s p) \<Longrightarrow> file_bytes s p ! i = fbyte (view s) (file_data s p) i"
  by (simp add: file_bytes_def)

text \<open>The invariant after a step of the file \<open>p\<close>.\<close>

lemma fs_inv_wrote:
  assumes inv: "fs_inv s" and w: "wrote (map_inode s) (set (open_inodes s)) p (file_data s) s d' s'" and p: "p \<in> files s"
    and len: "ilength d' < FILE_MAX" and tail: "\<And>x. x < FILE_MAX \<Longrightarrow> ilength d' \<le> x \<Longrightarrow> fbyte (view s') d' x = 0"
  shows "fs_inv s'" "\<And>q. q \<in> files s \<Longrightarrow> q \<noteq> p \<Longrightarrow> file_bytes s' q = file_bytes s q"
proof -
  note fd = file_data_wrote [OF w]
  have op: "open_inodes s' = open_inodes s" using fd(2) by (simp add: same_inodes_def)
  have mp: "map_inode s' = map_inode s" "files s' = files s" using same_files [OF fd(2)] by auto
  have fb: "fbyte (view s') (file_data s q) x = fbyte (view s) (file_data s q) x" if "q \<in> files s" "q \<noteq> p" "x < FILE_MAX" for q x
    using w that unfolding wrote_def files_def by (intro fbyte_cong) auto
  show "fs_inv s'"
    unfolding fs_inv_def mp op fd(1) using wrote_fs_ok [OF w] inv fb len tail by (auto simp: fs_inv_def)
  show "file_bytes s' q = file_bytes s q" if "q \<in> files s" "q \<noteq> p" for q
    using fb [OF that] inv that by (auto simp: file_bytes_def fd(1) fs_inv_def)
qed

lemma fs_inv_files:
  assumes "fs_inv s" "p \<in> files s"
  shows "fs_ok (map_inode s) (set (open_inodes s)) (file_data s) s" "p \<in> set (open_inodes s)" "p \<noteq> map_inode s"
    "ilength (file_data s p) < FILE_MAX" "\<And>x. x < FILE_MAX \<Longrightarrow> ilength (file_data s p) \<le> x \<Longrightarrow> fbyte (view s) (file_data s p) x = 0"
    "data (inode_at s p) = file_data s p"
  using assms by (auto simp: fs_inv_def files_def file_data_def)

lemma inode_read_spec:
  assumes inv: "fs_inv s" and p: "p \<in> files s" and ofs: "ofs < FILE_MAX" and room: "room s p ofs (min n (ilength (file_data s p) - ofs))"
  obtains s' where "inode_read_at s p n ofs = Some (take n (drop ofs (file_bytes s p)), s')" "fs_inv s'" "same_inodes s s'"
    "\<And>q. q \<in> files s \<Longrightarrow> file_bytes s' q = file_bytes s q" "wrote (map_inode s) (set (open_inodes s)) p (file_data s) s (file_data s' p) s'"
    "nfree s \<le> nfree s' + 3 * holes (view s) (file_data s p) ofs (min n (ilength (file_data s p) - ofs)) + (if ofs + n \<le> ilength (file_data s p) then 0 else 3)"
proof -
  note f = fs_inv_files [OF inv p]
  let ?n = "min n (ilength (file_data s p) - ofs)"
  obtain d' s' where r: "read_loop save_map s p n ofs [] = Some ([] @ map (fbyte (view s) (file_data s p)) [ofs..<ofs + ?n], s')"
      "wrote (map_inode s) (set (open_inodes s)) p (file_data s) s d' s'"
      "\<forall>i < BLOCK_MAX. content (view s') d' i = content (view s) (file_data s p) i"
      "nfree s \<le> nfree s' + 3 * holes (view s) (file_data s p) ofs ?n + (if ofs + n \<le> ilength (file_data s p) then 0 else 3)"
    using read_loop_spec [OF f(1) save_map_ok f(2,3,2,6) ofs f(4), of n] room unfolding room_def by blast
  note fd = file_data_wrote [OF r(2)]
  have d': "file_data s' p = d'" "ilength d' = ilength (file_data s p)"
    using fd(1) r(2) by (simp_all add: wrote_def same_head_def)
  have fb: "fbyte (view s') d' x = fbyte (view s) (file_data s p) x" if "x < FILE_MAX" for x
    using r(3) that by (intro fbyte_cong) auto
  note fi = fs_inv_wrote [OF inv r(2) p]
  have inv': "fs_inv s'" using fb f(4,5) d'(2) by (intro fi) auto
  have "file_bytes s' q = file_bytes s q" if "q \<in> files s" for q
  proof (cases "q = p")
    case True
    then show ?thesis using fb f(4) d' by (auto simp: file_bytes_def)
  next
    case False
    then show ?thesis using fb f(4,5) d'(2) that by (intro fi) auto
  qed
  moreover have "map (fbyte (view s) (file_data s p)) [ofs..<ofs + ?n] = take n (drop ofs (file_bytes s p))"
    by (rule nth_equalityI) (auto simp: nth_file_bytes)
  then have "inode_read_at s p n ofs = Some (take n (drop ofs (file_bytes s p)), s')"
    using r(1) by (simp add: inode_read_at_def inode_read_with_def)
  ultimately show thesis using inv' fd(2) r(2,4) d'(1) by (intro that) auto
qed

section \<open>Writing\<close>

text \<open>Making a file longer changes none of its sectors.\<close>

lemma slot_sector_length [simp]: "slot_sector v (d\<lparr>ilength := n\<rparr>) x = slot_sector v d x"
  by (cases x) simp_all

lemma content_ilength [simp]: "content v (d\<lparr>ilength := n\<rparr>) pos = content v d pos"
  by (simp add: content_def del: slot_sector.simps)

lemma fbyte_ilength [simp]: "fbyte v (d\<lparr>ilength := n\<rparr>) x = fbyte v d x"
  by (simp add: fbyte_def)

lemma holes_ilength [simp]: "holes v (d\<lparr>ilength := n\<rparr>) ofs k = holes v d ofs k"
  by (simp add: holes_def del: slot_sector.simps)

lemma own_ilength: "own v K (D(p := (D p)\<lparr>ilength := n\<rparr>)) = own v K D"
  by (auto simp: own_def simp del: slot_sector.simps split: if_splits)

lemma fs_ok_ilength:
  assumes ok: "fs_ok m K D s" and p: "p \<noteq> m"
  shows "fs_ok m K (D(p := (D p)\<lparr>ilength := n\<rparr>)) (upd_inode s p f)"
proof -
  let ?D = "D(p := (D p)\<lparr>ilength := n\<rparr>)"
  have f: "(\<lambda>(q, x). slot_sector (view s) (?D q) x) = (\<lambda>(q, x). slot_sector (view s) (D q) x)" by auto
  have "layout (view s) K ?D = layout (view s) K D" unfolding layout_def own_ilength f by auto
  moreover have "owned (view s) K ?D = owned (view s) K D" unfolding owned_def own_ilength f ..
  ultimately show ?thesis using ok p unfolding fs_ok_def upd_inode_def map_blocks_def by (simp del: slot_sector.simps)
qed

definition longer :: "fs \<Rightarrow> ptr \<Rightarrow> nat \<Rightarrow> fs" where
  "longer s p n = (if ilength (file_data s p) < n then upd_inode s p (\<lambda>i. i\<lparr>data := (data i)\<lparr>ilength := n\<rparr>\<rparr>) else s)"

lemma longer_spec:
  assumes inv: "fs_inv s" and p: "p \<in> files s" and n: "n < FILE_MAX"
  shows "fs_inv (longer s p n)" "same_inodes s (longer s p n)" "\<And>q. q \<noteq> p \<Longrightarrow> file_data (longer s p n) q = file_data s q"
    "file_data (longer s p n) p = (file_data s p)\<lparr>ilength := max (ilength (file_data s p)) n\<rparr>" "view (longer s p n) = view s" "nfree (longer s p n) = nfree s"
proof -
  note f = fs_inv_files [OF inv p]
  have si: "same_inodes s (longer s p n)" by (simp add: longer_def same_inodes_def upd_inode_def file_data_def)
  have fp: "file_data (longer s p n) p = (file_data s p)\<lparr>ilength := max (ilength (file_data s p)) n\<rparr>"
  proof (cases "ilength (file_data s p) < n")
    case False
    then have "max (ilength (file_data s p)) n = ilength (file_data s p)" by simp
    then show ?thesis using False by (simp add: longer_def)
  qed (simp add: longer_def file_data_def upd_inode_def)
  have fq: "file_data (longer s p n) q = file_data s q" if "q \<noteq> p" for q using that by (simp add: longer_def file_data_def upd_inode_def)
  have v: "view (longer s p n) = view s" by (simp add: longer_def)
  have fd: "file_data (longer s p n) = (file_data s)(p := (file_data s p)\<lparr>ilength := max (ilength (file_data s p)) n\<rparr>)"
    using fp fq by (intro ext) simp
  have op: "open_inodes (longer s p n) = open_inodes s" using si by (simp add: same_inodes_def)
  have "fs_ok (map_inode s) (set (open_inodes s)) (file_data (longer s p n)) (longer s p n)"
  proof (cases "ilength (file_data s p) < n")
    case True
    then show ?thesis unfolding fd using fs_ok_ilength [OF f(1,3)] by (simp add: longer_def)
  next
    case False
    then show ?thesis using f(1) by (simp add: longer_def)
  qed
  then show "fs_inv (longer s p n)"
    using inv same_files [OF si] n v f(4) unfolding fs_inv_def op fd by (auto split: if_splits)
  show "same_inodes s (longer s p n)" "file_data (longer s p n) p = (file_data s p)\<lparr>ilength := max (ilength (file_data s p)) n\<rparr>"
    "view (longer s p n) = view s" by (rule si fp v)+
  show "nfree (longer s p n) = nfree s" by (simp add: longer_def nfree_def)
  show "file_data (longer s p n) q = file_data s q" if "q \<noteq> p" for q by (rule fq [OF that])
qed

lemma inode_write_unfold:
  assumes "p \<in> files s" "deny_write_cnt (inode_at s p) = 0"
  shows "inode_write_at s p buffer ofs = write_loop save_map (longer s p (ofs + length buffer)) p buffer ofs 0"
  using assms by (simp add: inode_write_at_def inode_write_with_def deref_def files_def longer_def file_data_def)

lemma store_bytes_eq:
  assumes len: "ilength (file_data s' p) = max (ilength (file_data s p)) (ofs + length buffer)" "ilength (file_data s' p) < FILE_MAX"
    and fb: "\<And>x. x < FILE_MAX \<Longrightarrow> fbyte (view s') (file_data s' p) x =
      (if ofs \<le> x \<and> x < ofs + length buffer then buffer ! (x - ofs) else fbyte (view s) (file_data s p) x)"
    and tail: "\<And>x. x < FILE_MAX \<Longrightarrow> ilength (file_data s p) \<le> x \<Longrightarrow> fbyte (view s) (file_data s p) x = 0"
  shows "file_bytes s' p = store_bytes (file_bytes s p) ofs buffer"
  using assms by (intro nth_equalityI) (auto simp: nth_file_bytes nth_store_bytes)

lemma inode_write_spec:
  assumes inv: "fs_inv s" and p: "p \<in> files s" and deny: "deny_write_cnt (inode_at s p) = 0"
    and ofs: "ofs + length buffer < FILE_MAX" and room: "room s p ofs (length buffer)"
  obtains s' where "inode_write_at s p buffer ofs = Some (length buffer, s')" "fs_inv s'" "same_inodes s s'"
    "file_bytes s' p = store_bytes (file_bytes s p) ofs buffer" "\<And>q. q \<in> files s \<Longrightarrow> q \<noteq> p \<Longrightarrow> file_bytes s' q = file_bytes s q"
    "wrote (map_inode s) (set (open_inodes s)) p (file_data (longer s p (ofs + length buffer))) (longer s p (ofs + length buffer)) (file_data s' p) s'"
    "\<And>pos. pos \<in> touched ofs (length buffer) \<Longrightarrow> slot_sector (view s') (file_data s' p) (Blk pos) \<noteq> UNUSED_SECTOR"
proof -
  let ?s = "longer s p (ofs + length buffer)"
  note l = longer_spec [OF inv p ofs]
  have sf: "files ?s = files s" "map_inode ?s = map_inode s" using same_files [OF l(2)] by auto
  have op: "open_inodes ?s = open_inodes s" using l(2) by (simp add: same_inodes_def)
  have p': "p \<in> files ?s" using p sf by simp
  note f = fs_inv_files [OF l(1) p', unfolded op sf(2)]
  have "\<exists>d' s'. write_loop save_map ?s p buffer ofs 0 = Some (length buffer, s') \<and>
      wrote (map_inode s) (set (open_inodes s)) p (file_data ?s) ?s d' s' \<and>
      (\<forall>x < FILE_MAX. fbyte (view s') d' x =
         (if ofs \<le> x \<and> x < ofs + length buffer then buffer ! (x - ofs) else fbyte (view ?s) (file_data ?s p) x)) \<and>
      (\<forall>pos \<in> touched ofs (length buffer). slot_sector (view s') d' (Blk pos) \<noteq> UNUSED_SECTOR)"
  proof (cases "buffer = []")
    case True
    have "touched ofs 0 = {}" by (auto simp: touched_def)
    then show ?thesis using True wrote_refl [OF f(1,6,3)]
      by (intro exI [of _ "file_data ?s p"] exI [of _ ?s]) (auto simp add: write_loop.simps [of save_map _ p "[]"])
  next
    case False
    have h: "3 * holes (view ?s) (file_data ?s p) ofs (length buffer) \<le> nfree ?s" "ofs + length buffer \<le> FILE_MAX"
      using room ofs by (simp_all add: l(4,5,6) room_def)
    have "p \<in> set (open_inodes ?s)" using f(2) op by simp
    from write_loop_spec [OF f(1) save_map_ok f(2,3) this f(6) h(2,1) False, of 0] show ?thesis unfolding add_0 by blast
  qed
  then obtain d' s' where r: "write_loop save_map ?s p buffer ofs 0 = Some (length buffer, s')"
      "wrote (map_inode s) (set (open_inodes s)) p (file_data ?s) ?s d' s'"
      "\<forall>x < FILE_MAX. fbyte (view s') d' x =
         (if ofs \<le> x \<and> x < ofs + length buffer then buffer ! (x - ofs) else fbyte (view ?s) (file_data ?s p) x)"
      "\<forall>pos \<in> touched ofs (length buffer). slot_sector (view s') d' (Blk pos) \<noteq> UNUSED_SECTOR" by blast
  note fd = file_data_wrote [OF r(2)]
  have d': "file_data s' p = d'" "ilength d' = max (ilength (file_data s p)) (ofs + length buffer)"
    using fd(1) r(2) l(4) by (simp_all add: wrote_def same_head_def)
  have fb: "fbyte (view s') d' x = (if ofs \<le> x \<and> x < ofs + length buffer then buffer ! (x - ofs) else fbyte (view s) (file_data s p) x)"
    if "x < FILE_MAX" for x using r(3) that by (simp add: l(4,5))
  note t = fs_inv_files [OF inv p]
  have r2: "wrote (map_inode ?s) (set (open_inodes ?s)) p (file_data ?s) ?s d' s'" using r(2) sf op by simp
  note fi = fs_inv_wrote [OF l(1) r2 p']
  have len: "ilength d' < FILE_MAX" using d'(2) ofs t(4) by simp
  have tail: "fbyte (view s') d' x = 0" if "x < FILE_MAX" "ilength d' \<le> x" for x using fb [OF that(1)] t(5) [OF that(1)] that(2) d'(2) by auto
  have inv': "fs_inv s'" by (rule fi(1) [OF len tail])
  have oth: "file_bytes s' q = file_bytes s q" if "q \<in> files s" "q \<noteq> p" for q
    using fi(2) [OF len tail, of q] that sf l(3) [OF that(2)] l(5) by (simp add: file_bytes_def)
  have st: "file_bytes s' p = store_bytes (file_bytes s p) ofs buffer"
    using fb t(5) len d' by (intro store_bytes_eq) auto
  show thesis
    using inode_write_unfold [OF p deny, of buffer ofs] r(1,2,4) inv' same_inodes_trans [OF l(2) fd(2)] st oth d'(1)
    by (intro that [of s']) auto
qed

section \<open>The files as a store\<close>

lemma dense_room:
  assumes "dense s p" "ofs + n \<le> ilength (file_data s p) \<or> n = 0"
  shows "holes (view s) (file_data s p) ofs n = 0"
proof -
  have none: "{pos \<in> touched ofs n. slot_sector (view s) (file_data s p) (Blk pos) = UNUSED_SECTOR} = {}"
  proof (rule equals0I)
    fix pos assume "pos \<in> {pos \<in> touched ofs n. slot_sector (view s) (file_data s p) (Blk pos) = UNUSED_SECTOR}"
    then have "0 < n" "pos * DISK_SECTOR_SIZE < ofs + n" "slot_sector (view s) (file_data s p) (Blk pos) = UNUSED_SECTOR"
      by (auto simp: touched_def)
    then show False using assms unfolding dense_def by (meson less_le_trans less_irrefl)
  qed
  show ?thesis unfolding holes_def none by simp
qed

lemma card_touched: "card (touched ofs n) \<le> n div DISK_SECTOR_SIZE + 2"
proof -
  let ?q = "ofs div DISK_SECTOR_SIZE" and ?k = "n div DISK_SECTOR_SIZE"
  have "touched ofs n \<subseteq> {?q..<?q + (?k + 2)}"
  proof
    fix pos assume "pos \<in> touched ofs n"
    then have t: "pos * DISK_SECTOR_SIZE < ofs + n" "ofs < Suc pos * DISK_SECTOR_SIZE" by (auto simp: touched_def)
    have "?q < Suc pos" using t(2) by (rule less_mult_imp_div_less)
    moreover have "ofs < Suc ?q * DISK_SECTOR_SIZE" "n < Suc ?k * DISK_SECTOR_SIZE"
      using dividend_less_div_times [of DISK_SECTOR_SIZE ofs] dividend_less_div_times [of DISK_SECTOR_SIZE n] by simp_all
    then have "pos * DISK_SECTOR_SIZE < (?q + ?k + 2) * DISK_SECTOR_SIZE" using t(1) by simp
    then have "pos < ?q + ?k + 2" by simp
    ultimately show "pos \<in> {?q..<?q + (?k + 2)}" by simp
  qed
  then have "card (touched ofs n) \<le> card {?q..<?q + (?k + 2)}" by (rule card_mono [rotated]) simp
  then show ?thesis by simp
qed

lemma holes_bound: "holes v d ofs n \<le> n div DISK_SECTOR_SIZE + 2"
proof -
  have "holes v d ofs n \<le> card (touched ofs n)" unfolding holes_def by (rule card_mono [OF finite_touched]) auto
  then show ?thesis using card_touched [of ofs n] by linarith
qed

lemma wrote_dense:
  assumes w: "wrote m K p D s d' s'" and q: "q \<in> K" "pos < BLOCK_MAX" "slot_sector (view s) (D q) (Blk pos) \<noteq> UNUSED_SECTOR"
  shows "slot_sector (view s') ((D(p := d')) q) (Blk pos) \<noteq> UNUSED_SECTOR"
proof -
  have "valid_slot (Blk pos)" using q by simp
  then have "slot_sector (view s') ((D(p := d')) q) (Blk pos) = slot_sector (view s) (D q) (Blk pos)" using w q unfolding wrote_def by blast
  then show ?thesis using q(3) by (simp del: slot_sector.simps)
qed

lemma wrote_slot:
  assumes w: "wrote m K p (file_data s) s (file_data s' p) s'" and q: "q \<in> K" "pos < BLOCK_MAX" "slot_sector (view s) (file_data s q) (Blk pos) \<noteq> UNUSED_SECTOR"
  shows "slot_sector (view s') (file_data s' q) (Blk pos) \<noteq> UNUSED_SECTOR"
proof -
  have e: "((file_data s)(p := file_data s' p)) q = file_data s' q" using fun_cong [OF file_data_wrote(1) [OF w], of q] by (rule sym)
  show "slot_sector (view s') (file_data s' q) (Blk pos) \<noteq> UNUSED_SECTOR" using wrote_dense [OF w q] unfolding e .
qed

lemma wrote_length:
  assumes w: "wrote m K p (file_data s) s (file_data s' p) s'"
  shows "ilength (file_data s' q) = ilength (file_data s q)"
proof (cases "q = p")
  case True
  then show ?thesis using w by (simp add: wrote_def same_head_def)
next
  case False
  then show ?thesis using fun_cong [OF file_data_wrote(1) [OF w], of q] by simp
qed

lemma below_max: "pos * DISK_SECTOR_SIZE < n \<Longrightarrow> n < FILE_MAX \<Longrightarrow> pos < BLOCK_MAX"
  by simp

lemma dense_read:
  assumes inv: "fs_inv s" and w: "wrote (map_inode s) (set (open_inodes s)) p (file_data s) s (file_data s' p) s'"
    and q: "q \<in> files s" "dense s q"
  shows "dense s' q"
  unfolding dense_def
proof (intro allI impI)
  fix pos assume pos: "pos * DISK_SECTOR_SIZE < ilength (file_data s' q)"
  have pos': "pos * DISK_SECTOR_SIZE < ilength (file_data s q)" using pos wrote_length [OF w] by simp
  show "slot_sector (view s') (file_data s' q) (Blk pos) \<noteq> UNUSED_SECTOR"
  proof (rule wrote_slot [OF w])
    show "q \<in> set (open_inodes s)" using q(1) by (simp add: files_def)
    show "pos < BLOCK_MAX" by (rule below_max [OF pos' fs_inv_files(4) [OF inv q(1)]])
    show "slot_sector (view s) (file_data s q) (Blk pos) \<noteq> UNUSED_SECTOR" using q(2) pos' unfolding dense_def by blast
  qed
qed

lemma dense_write:
  assumes inv: "fs_inv s" and p: "p \<in> files s" and n: "ofs + n < FILE_MAX" "ofs \<le> ilength (file_data s p)"
    and w: "wrote (map_inode s) (set (open_inodes s)) p (file_data (longer s p (ofs + n))) (longer s p (ofs + n)) (file_data s' p) s'"
    and new: "\<And>pos. pos \<in> touched ofs n \<Longrightarrow> slot_sector (view s') (file_data s' p) (Blk pos) \<noteq> UNUSED_SECTOR"
    and q: "q \<in> files s" "dense s q"
  shows "dense s' q"
  unfolding dense_def
proof (intro allI impI)
  fix pos assume pos: "pos * DISK_SECTOR_SIZE < ilength (file_data s' q)"
  note l = longer_spec [OF inv p n(1)]
  have keep: "slot_sector (view s') (file_data s' q) (Blk pos) \<noteq> UNUSED_SECTOR" if "pos * DISK_SECTOR_SIZE < ilength (file_data s q)"
  proof -
    have "slot_sector (view s) (file_data s q) (Blk pos) \<noteq> UNUSED_SECTOR" using q(2) that unfolding dense_def by blast
    moreover have "slot_sector (view (longer s p (ofs + n))) (file_data (longer s p (ofs + n)) q) (Blk pos) = slot_sector (view s) (file_data s q) (Blk pos)"
      using l(3,4,5) by (cases "q = p") (simp_all del: slot_sector.simps)
    moreover have "q \<in> set (open_inodes s)" using q(1) by (simp add: files_def)
    moreover have "pos < BLOCK_MAX" by (rule below_max [OF that fs_inv_files(4) [OF inv q(1)]])
    ultimately show ?thesis using wrote_slot [OF w] by metis
  qed
  show "slot_sector (view s') (file_data s' q) (Blk pos) \<noteq> UNUSED_SECTOR"
  proof (cases "pos * DISK_SECTOR_SIZE < ilength (file_data s q)")
    case True
    then show ?thesis by (rule keep)
  next
    case False
    have "ilength (file_data s' p) = max (ilength (file_data s p)) (ofs + n)" using wrote_length [OF w] l(4) by simp
    moreover have "q = p"
    proof (rule ccontr)
      assume "q \<noteq> p"
      then have "ilength (file_data s' q) = ilength (file_data s q)" using wrote_length [OF w] l(3) by simp
      with False pos show False by simp
    qed
    ultimately have "pos \<in> touched ofs n" "q = p" using False pos n(2) by (auto simp: touched_def)
    then show ?thesis using new by simp
  qed
qed

abbreviation writable :: "fs \<Rightarrow> ptr \<Rightarrow> bool" where "writable s p \<equiv> deny_write_cnt (inode_at s p) = 0"

lemma inode_read_law:
  assumes inv: "fs_inv s" and p: "p \<in> files s" "dense s p" and ofs: "ofs < FILE_MAX"
  shows "\<exists>s'. inode_read_at s p n ofs = Some (take n (drop ofs (file_bytes s p)), s') \<and> (fs_inv s' \<and> same_inodes s s') \<and>
    nfree s \<le> nfree s' + (if ofs + n \<le> length (file_bytes s p) then 0 else 3) \<and> (\<forall>q \<in> files s. file_bytes s' q = file_bytes s q \<and> (dense s q \<longrightarrow> dense s' q))"
proof -
  let ?n = "min n (ilength (file_data s p) - ofs)"
  have h: "holes (view s) (file_data s p) ofs ?n = 0" by (rule dense_room [OF p(2)]) auto
  then have "room s p ofs ?n" by (simp add: room_def)
  then obtain s' where r: "inode_read_at s p n ofs = Some (take n (drop ofs (file_bytes s p)), s')" "fs_inv s'" "same_inodes s s'"
      "\<And>q. q \<in> files s \<Longrightarrow> file_bytes s' q = file_bytes s q" "wrote (map_inode s) (set (open_inodes s)) p (file_data s) s (file_data s' p) s'"
      "nfree s \<le> nfree s' + 3 * holes (view s) (file_data s p) ofs ?n + (if ofs + n \<le> ilength (file_data s p) then 0 else 3)"
    by (rule inode_read_spec [OF inv p(1) ofs]) blast
  then show ?thesis using h dense_read [OF inv r(5)] by auto
qed

lemma inode_write_law:
  assumes inv: "fs_inv s" and p: "p \<in> files s" "writable s p" "dense s p" and ofs: "ofs \<le> length (file_bytes s p)" "ofs + length bs < FILE_MAX"
    and spare: "3 * (length bs div DISK_SECTOR_SIZE + 2) \<le> nfree s"
  shows "\<exists>s'. inode_write_at s p bs ofs = Some (length bs, s') \<and> (fs_inv s' \<and> same_inodes s s') \<and>
    file_bytes s' p = store_bytes (file_bytes s p) ofs bs \<and>
    (\<forall>q \<in> files s. (q \<noteq> p \<longrightarrow> file_bytes s' q = file_bytes s q) \<and> (dense s q \<longrightarrow> dense s' q))"
proof -
  have "room s p ofs (length bs)" using spare holes_bound [of "view s" "file_data s p" ofs "length bs"] unfolding room_def by (meson le_trans mult_le_mono2)
  then obtain s' where r: "inode_write_at s p bs ofs = Some (length bs, s')" "fs_inv s'" "same_inodes s s'"
      "file_bytes s' p = store_bytes (file_bytes s p) ofs bs" "\<And>q. q \<in> files s \<Longrightarrow> q \<noteq> p \<Longrightarrow> file_bytes s' q = file_bytes s q"
      "wrote (map_inode s) (set (open_inodes s)) p (file_data (longer s p (ofs + length bs))) (longer s p (ofs + length bs)) (file_data s' p) s'"
      "\<And>pos. pos \<in> touched ofs (length bs) \<Longrightarrow> slot_sector (view s') (file_data s' p) (Blk pos) \<noteq> UNUSED_SECTOR"
    by (rule inode_write_spec [OF inv p(1,2) ofs(2)]) (simp del: slot_sector.simps)
  have ol: "ofs \<le> ilength (file_data s p)" using ofs(1) by simp
  have "dense s' q" if "q \<in> files s" "dense s q" for q by (rule dense_write [OF inv p(1) ofs(2) ol r(6,7) that])
  then show ?thesis using r by blast
qed

lemma same_writable: "same_inodes s s' \<Longrightarrow> files s' = files s \<and> (writable s q \<longrightarrow> writable s' q)"
  using same_files by (auto simp: same_inodes_def)

interpretation inode_files: file_store fs_inv files file_bytes writable dense nfree "\<lambda>n. 3 * (n div DISK_SECTOR_SIZE + 2)" FILE_MAX
  inode_read_at inode_write_at
proof
  fix s :: fs and p ofs n
  assume "fs_inv s" "p \<in> files s" "dense s p" "ofs < FILE_MAX"
  from inode_read_law [OF this, of n] same_writable show "\<exists>s'. inode_read_at s p n ofs = Some (take n (drop ofs (file_bytes s p)), s') \<and> fs_inv s' \<and>
      files s' = files s \<and> nfree s \<le> nfree s' + (if ofs + n \<le> length (file_bytes s p) then 0 else 3) \<and>
      (\<forall>q \<in> files s. file_bytes s' q = file_bytes s q \<and> (dense s q \<longrightarrow> dense s' q) \<and> (writable s q \<longrightarrow> writable s' q))"
    by blast
next
  fix s :: fs and p ofs and bs :: "u8 list"
  assume "fs_inv s" "p \<in> files s" "writable s p" "dense s p" "ofs \<le> length (file_bytes s p)" "ofs + length bs < FILE_MAX"
    "3 * (length bs div DISK_SECTOR_SIZE + 2) \<le> nfree s"
  from inode_write_law [OF this] same_writable show "\<exists>s'. inode_write_at s p bs ofs = Some (length bs, s') \<and> fs_inv s' \<and> files s' = files s \<and>
      file_bytes s' p = store_bytes (file_bytes s p) ofs bs \<and>
      (\<forall>q \<in> files s. (q \<noteq> p \<longrightarrow> file_bytes s' q = file_bytes s q) \<and> (dense s q \<longrightarrow> dense s' q) \<and> (writable s q \<longrightarrow> writable s' q))"
    by blast
qed

end
