(* ===== verification/Inode_Props.thy ===== *)
theory Inode_Props
  imports Inode_Spec
begin

text \<open>
  Properties of the index nodes of \<open>src/filesys/inode.c\<close>, with a small file system as their concrete instance.
\<close>

section \<open>A small file system\<close>

text \<open>A disk with an empty cache and three open inodes: the free map's with its data in sector 2, a directory and a file, both empty.\<close>

definition no_sectors :: inode_disk where
  "no_sectors = \<lparr>direct = replicate DIRECT_MAX UNUSED_SECTOR, indirect = UNUSED_SECTOR, double_indirect = UNUSED_SECTOR, is_dir = 0,
     parent_dir = UNUSED_SECTOR, ilength = 0, imagic = INODE_MAGIC\<rparr>"

definition small_inode :: "ptr \<Rightarrow> inode" where
  "small_inode p =
     (if p = 1 then \<lparr>sector = 0, open_cnt = 1, removed = False, deny_write_cnt = 0,
        data = no_sectors\<lparr>direct := (replicate DIRECT_MAX UNUSED_SECTOR)[0 := 2], ilength := 8\<rparr>\<rparr>
      else if p = 2 then \<lparr>sector = 1, open_cnt = 1, removed = False, deny_write_cnt = 0, data = no_sectors\<lparr>is_dir := 1\<rparr>\<rparr>
      else \<lparr>sector = 3, open_cnt = 1, removed = False, deny_write_cnt = 0, data = no_sectors\<rparr>)"

definition small_fs :: "u32 \<Rightarrow> fs" where
  "small_fs w = \<lparr>cache = cache_table_init blank_disk, free_map = \<lparr>bit_cnt = 64, bits = [w, w]\<rparr>,
     free_map_file = Some \<lparr>f_inode = 1, f_pos = 0, f_deny = False\<rparr>, open_inodes = [3, 2, 1], inode_at = small_inode, next_inode = 4, outcomes = []\<rparr>"

lemma small_view: "cache_ok (cache_table_init blank_disk)" "sector_view (cache_table_init blank_disk) = (\<lambda>_. zeros)"
  using cache_init_ok [of blank_disk] by (simp_all add: blank_disk_def zeros_def)

lemma small_slot:
  "valid_slot x \<Longrightarrow> slot_sector v (data (small_inode p)) x = (if p = 1 \<and> x = Blk 0 then 2 else UNUSED_SECTOR)"
  by (cases x) (auto simp: small_inode_def no_sectors_def entry_def nth_list_update)

lemma small_layout:
  "layout (\<lambda>_. zeros) K (\<lambda>p. data (small_inode p))" "owned (\<lambda>_. zeros) K (\<lambda>p. data (small_inode p)) \<subseteq> {2}"
proof -
  have own: "own (\<lambda>_. zeros) K (\<lambda>p. data (small_inode p)) \<subseteq> {(1, Blk 0)}" 
  proof
    fix z assume "z \<in> own (\<lambda>_. zeros) K (\<lambda>p. data (small_inode p))"
    then show "z \<in> {(1, Blk 0)}" unfolding own_def by (cases z) (auto simp: small_slot simp del: slot_sector.simps split: if_splits)
  qed
  then have "inj_on f (own (\<lambda>_. zeros) K (\<lambda>p. data (small_inode p)))" for f :: "nat \<times> slot \<Rightarrow> u32" by (rule inj_on_subset [rotated]) simp
  then show "layout (\<lambda>_. zeros) K (\<lambda>p. data (small_inode p))" by (simp add: layout_def small_inode_def no_sectors_def)
  have "(case z of (q, x) \<Rightarrow> slot_sector (\<lambda>_. zeros) (data (small_inode q)) x) = 2" if "z \<in> own (\<lambda>_. zeros) K (\<lambda>p. data (small_inode p))" for z
  proof -
    have "z = (1, Blk 0)" using own that by auto
    then show ?thesis by (simp add: small_inode_def no_sectors_def)
  qed
  then show "owned (\<lambda>_. zeros) K (\<lambda>p. data (small_inode p)) \<subseteq> {2}" unfolding owned_def by blast
qed

lemma small_files: "files (small_fs w) = {2, 3}" "map_inode (small_fs w) = 1" "file_data (small_fs w) = (\<lambda>p. data (small_inode p))"
  by (auto simp: files_def map_inode_def small_fs_def file_data_def)

lemma small_fbyte: "p \<noteq> 1 \<Longrightarrow> x < FILE_MAX \<Longrightarrow> fbyte (\<lambda>_. zeros) (data (small_inode p)) x = 0"
  using small_slot [of "Blk (x div DISK_SECTOR_SIZE)" "\<lambda>_. zeros" p] block_below [of x]
  by (simp add: fbyte_def content_def zeros_def del: slot_sector.simps)

lemma small_used: "2 \<in> used_bits (free_map (small_fs w)) \<longleftrightarrow> bit w 2"
  by (simp add: used_bits_def bits_of_def small_fs_def numeral_2_eq_2)

lemma small_inv:
  assumes "bit w 2"
  shows "fs_inv (small_fs w)"
proof -
  have cap: "disk_limit (cache_table_init blank_disk) (of_nat i)" if "i < 64" for i
  proof -
    have "unat (of_nat i :: u32) = i" using that by (simp only: unat_of_nat) simp
    then show ?thesis using that by (simp add: disk_limit_def cache_table_init_def blank_disk_def word_less_nat_alt push_bit_eq_mult)
  qed
  have mb: "map_blocks (small_fs w) = 1" by (simp add: map_blocks_def small_fs_def bytes_to_sectors_def byte_cnt_def elem_cnt_eq)
  have sim: "bit_cnt (free_map (small_fs w)) = 64" "bits (free_map (small_fs w)) = [w, w]" "view (small_fs w) = (\<lambda>_. zeros)"
    "cache (small_fs w) = cache_table_init blank_disk" "free_map_file (small_fs w) = Some \<lparr>f_inode = 1, f_pos = 0, f_deny = False\<rparr>"
    "set (open_inodes (small_fs w)) = {3, 2, 1}" "inode_at (small_fs w) = small_inode"
    using small_view by (auto simp: small_fs_def)
  have ok: "fs_ok 1 {3, 2, 1} (\<lambda>p. data (small_inode p)) (small_fs w)"
    unfolding fs_ok_def
  proof (intro conjI allI impI)
    show "unat ` owned (view (small_fs w)) {3, 2, 1} (\<lambda>p. data (small_inode p)) \<subseteq> used_bits (free_map (small_fs w))"
    proof
      fix i assume "i \<in> unat ` owned (view (small_fs w)) {3, 2, 1} (\<lambda>p. data (small_inode p))"
      then have "i = 2" using small_layout(2) [of "{3, 2, 1}"] unfolding sim(3) by auto
      then show "i \<in> used_bits (free_map (small_fs w))" using small_used [of w] assms by simp
    qed
    show "slot_sector (view (small_fs w)) (data (small_inode 1)) (Blk pos) \<noteq> UNUSED_SECTOR" if "pos < map_blocks (small_fs w)" for pos
      using that small_slot [of "Blk pos" _ 1] unfolding mb by (simp del: slot_sector.simps)
    show "disk_limit (cache (small_fs w)) (of_nat i)" if "i < bit_cnt (free_map (small_fs w))" for i using that cap unfolding sim by simp
    show "layout (view (small_fs w)) {3, 2, 1} (\<lambda>p. data (small_inode p))" unfolding sim(3) by (rule small_layout(1))
    show "byte_cnt (bit_cnt (free_map (small_fs w))) \<le> ilength (data (small_inode 1))"
      by (simp add: sim byte_cnt_def elem_cnt_eq small_inode_def)
  qed (simp_all add: sim small_view bitmap_wf_def elem_cnt_eq small_inode_def)
  have "ilength (data (small_inode q)) < FILE_MAX" for q by (simp add: small_inode_def no_sectors_def)
  then show ?thesis unfolding fs_inv_def small_files sim(3,6) using ok small_fbyte by auto
qed

lemma bit_15: "bit (15 :: u32) i \<longleftrightarrow> i < 4"
proof -
  have m: "(15 :: u32) = mask 4" by (simp add: mask_eq_exp_minus_1)
  show ?thesis unfolding m bit_mask_iff by auto
qed

lemma small_free: "bit_cnt (free_map (small_fs 15)) = 64" "10 \<le> nfree (small_fs 15)"
proof -
  have "{10..<20} \<subseteq> {..<64} - used_bits (free_map (small_fs 15))"
  proof
    fix i :: nat assume i: "i \<in> {10..<20}"
    have "\<not> bit (15 :: u32) i" using i bit_15 [of i] by auto
    then show "i \<in> {..<64} - used_bits (free_map (small_fs 15))" using i by (simp add: used_bits_def bits_of_def small_fs_def)
  qed
  then have "card {10..<20 :: nat} \<le> card ({..<64} - used_bits (free_map (small_fs 15)))" by (rule card_mono [rotated]) simp
  then show "10 \<le> nfree (small_fs 15)" by (simp add: nfree_def small_fs_def)
qed (simp add: small_fs_def)

lemma small_room: "n < DISK_SECTOR_SIZE \<Longrightarrow> room (small_fs 15) p ofs n"
  using holes_bound [of "view (small_fs 15)" "file_data (small_fs 15) p" ofs n] small_free(2) by (simp add: room_def)

lemma small_bytes: "p \<noteq> 1 \<Longrightarrow> file_bytes (small_fs w) p = []" "deny_write_cnt (inode_at (small_fs w) p) = 0"
  by (simp add: file_bytes_def small_files small_inode_def no_sectors_def) (simp add: small_fs_def small_inode_def)

lemma small_inv15: "fs_inv (small_fs 15)"
  by (rule small_inv) (simp add: bit_15)

section \<open>Properties\<close>

text \<open>C35. \<open>inode_write_at\<close> implements a write to a list of bytes. For an open file that is not write-protected,
  a write below the largest file size, and three free sectors for each block of the range that has none yet, the
  whole buffer is written; the bytes of the file are then the old ones with the buffer at the offset, with zeros up to the offset if
  the file was shorter; every other open file keeps its bytes, and the layout of the disk stays sound.\<close>

theorem inode_write_refines:
  assumes "fs_inv s" and "p \<in> files s" and "deny_write_cnt (inode_at s p) = 0" and "ofs + length buffer < FILE_MAX"
    and "room s p ofs (length buffer)"
  shows "\<exists>s'. inode_write_at s p buffer ofs = Some (length buffer, s') \<and> fs_inv s' \<and> files s' = files s \<and>
      file_bytes s' p = store_bytes (file_bytes s p) ofs buffer \<and> (\<forall>q \<in> files s - {p}. file_bytes s' q = file_bytes s q)"
proof -
  obtain s' where "inode_write_at s p buffer ofs = Some (length buffer, s')" "fs_inv s'" "same_inodes s s'"
      "file_bytes s' p = store_bytes (file_bytes s p) ofs buffer" "\<And>q. q \<in> files s \<Longrightarrow> q \<noteq> p \<Longrightarrow> file_bytes s' q = file_bytes s q"
    by (rule inode_write_spec [OF assms]) blast
  then show ?thesis using same_files [of s s'] by auto
qed

theorem inode_write_refines_witness:
  "\<exists>s'. inode_write_at (small_fs 15) 3 [104, 105] 2 = Some (2, s') \<and> file_bytes s' 3 = [0, 0, 104, 105] \<and> file_bytes s' 2 = []"
proof -
  have "\<exists>s'. inode_write_at (small_fs 15) 3 [104, 105] 2 = Some (length [104, 105 :: u8], s') \<and> fs_inv s' \<and> files s' = files (small_fs 15) \<and>
      file_bytes s' 3 = store_bytes (file_bytes (small_fs 15) 3) 2 [104, 105] \<and>
      (\<forall>q \<in> files (small_fs 15) - {3}. file_bytes s' q = file_bytes (small_fs 15) q)"
    by (rule inode_write_refines [OF small_inv15]) (simp_all add: small_files small_bytes small_room)
  then show ?thesis by (auto simp: small_files small_bytes store_bytes_def patch_def numeral_2_eq_2)
qed

text \<open>C36. \<open>inode_read_at\<close> returns the bytes of the file from the offset on, at most as many as asked for and
  not past the end of the file, and leaves the bytes of every open file as they are. It needs three free sectors for each
  block of the range that has none, since it allocates them.\<close>

theorem inode_read_refines:
  assumes "fs_inv s" and "p \<in> files s" and "ofs < FILE_MAX" and "room s p ofs (min n (length (file_bytes s p) - ofs))"
  shows "\<exists>s'. inode_read_at s p n ofs = Some (take n (drop ofs (file_bytes s p)), s') \<and> fs_inv s' \<and> files s' = files s \<and>
      (\<forall>q \<in> files s. file_bytes s' q = file_bytes s q)"
proof -
  have "room s p ofs (min n (ilength (file_data s p) - ofs))" using assms(4) by simp
  then obtain s' where "inode_read_at s p n ofs = Some (take n (drop ofs (file_bytes s p)), s')" "fs_inv s'" "same_inodes s s'"
      "\<And>q. q \<in> files s \<Longrightarrow> file_bytes s' q = file_bytes s q"
    by (rule inode_read_spec [OF assms(1,2,3)]) blast
  then show ?thesis using same_files [of s s'] by auto
qed

theorem inode_read_refines_witness:
  "\<exists>s1 s2. inode_write_at (small_fs 15) 3 [104, 105] 2 = Some (2, s1) \<and> inode_read_at s1 3 9 1 = Some ([0, 104, 105], s2)"
proof -
  obtain s1 where s1: "inode_write_at (small_fs 15) 3 [104, 105] 2 = Some (length [104, 105 :: u8], s1)" "fs_inv s1" "same_inodes (small_fs 15) s1"
      "file_bytes s1 3 = store_bytes (file_bytes (small_fs 15) 3) 2 [104, 105]"
      "\<And>pos. pos \<in> touched 2 (length [104, 105 :: u8]) \<Longrightarrow> slot_sector (view s1) (file_data s1 3) (Blk pos) \<noteq> UNUSED_SECTOR"
    by (rule inode_write_spec [OF small_inv15, where p = 3 and buffer = "[104, 105]" and ofs = 2])
      (simp_all add: small_files small_bytes small_room del: slot_sector.simps)
  have b: "file_bytes s1 3 = [0, 0, 104, 105]" using s1(4) by (simp add: small_bytes store_bytes_def patch_def numeral_2_eq_2)
  have "touched 1 3 \<subseteq> touched 2 (length [104, 105 :: u8])" by (auto simp: touched_def)
  then have "{pos \<in> touched 1 3. slot_sector (view s1) (file_data s1 3) (Blk pos) = UNUSED_SECTOR} = {}" using s1(5) by blast
  then have "holes (view s1) (file_data s1 3) 1 3 = 0" unfolding holes_def by (simp only: card.empty)
  then have r: "room s1 3 1 (min 9 (length (file_bytes s1 3) - 1))" unfolding b by (simp add: room_def numeral_3_eq_3)
  have "3 \<in> files s1" using same_files [OF s1(3)] by (simp add: small_files)
  from inode_read_refines [OF s1(2) this _ r] show ?thesis using s1(1) unfolding b by (auto simp: numeral_2_eq_2)
qed

text \<open>C37. When no sector is free, a write that reaches a block without a sector stops the kernel: the missing sector number is used
  as if it were one, and the disk driver's assertion on the sector fails.\<close>

theorem inode_write_disk_full:
  assumes "fs_inv s" and "p \<in> files s" and "deny_write_cnt (inode_at s p) = 0" and "ofs + length buffer < FILE_MAX" and "buffer \<noteq> []"
    and "nfree s = 0" and "slot_sector (view s) (file_data s p) (Blk (ofs div DISK_SECTOR_SIZE)) = UNUSED_SECTOR"
  shows "inode_write_at s p buffer ofs = None"
proof -
  let ?s = "longer s p (ofs + length buffer)"
  note l = longer_spec [OF assms(1,2,4)]
  have op: "open_inodes ?s = open_inodes s" using l(2) by (simp add: same_inodes_def)
  have p': "p \<in> files ?s" using assms(2) same_files [OF l(2)] by simp
  note f = fs_inv_files [OF l(1) p']
  show ?thesis
    unfolding inode_write_unfold [OF assms(2,3)]
    using assms(4,5,6,7) f(2) by (intro write_loop_full [OF f(1) _ f(2) f(2) f(6)]) (simp_all add: l(4,5,6) del: slot_sector.simps)
qed

theorem inode_write_disk_full_witness: "inode_write_at (small_fs (- 1)) 3 [1] 0 = None"
proof (rule inode_write_disk_full)
  have "used_bits (free_map (small_fs (- 1))) = {..<64}" by (auto simp: used_bits_def bits_of_def small_fs_def nth_Cons')
  then show "nfree (small_fs (- 1)) = 0" by (simp add: nfree_def small_fs_def)
  show "slot_sector (view (small_fs (- 1))) (file_data (small_fs (- 1)) 3) (Blk (0 div DISK_SECTOR_SIZE)) = UNUSED_SECTOR"
    using small_slot [of "Blk 0" _ 3] unfolding small_files by (simp del: slot_sector.simps)
qed (simp_all add: small_inv small_files small_bytes)

end
