(* ===== verification/Filesys.thy ===== *)
theory Filesys
  imports Inode
begin

text \<open>
  Open files, directories and path names: \<open>src/filesys/file.c\<close>, \<open>src/filesys/directory.c\<close>, \<open>src/filesys/filesys.c\<close>
  and the part of \<open>src/filesys/free-map.c\<close> that keeps the free map in a file. A \<open>struct file\<close> or \<open>struct dir\<close>
  is a value that its operations return updated; a null pointer is \<open>None\<close>. Names are byte strings without their
  terminator. In a directory entry the bytes behind the terminator of the name are zero, and a name is read
  up to its terminator or the end of its 15 bytes, where \<open>strcmp\<close> would read on: \<open>dir_add\<close>, the only writer of names, refuses
  names of more than 14 bytes, so every name it stores is terminated. The current directory of the process is an argument.
\<close>

section \<open>Files\<close>

definition file_open :: "fs \<Rightarrow> ptr \<Rightarrow> (open_file option \<times> fs) option" where
  "file_open s p = (let (ok, s) = alloc_memory s
     in if p \<noteq> NULL \<and> ok then Some (Some \<lparr>f_inode = p, f_pos = 0, f_deny = False\<rparr>, s)
        else do { s \<leftarrow> inode_close s p; Some (None, s) })"

definition file_reopen :: "fs \<Rightarrow> open_file \<Rightarrow> (open_file option \<times> fs) option" where
  "file_reopen s f = do { (p, s) \<leftarrow> inode_reopen s (f_inode f); file_open s p }"

definition file_deny_write :: "fs \<Rightarrow> open_file \<Rightarrow> (open_file \<times> fs) option" where
  "file_deny_write s f =
     (if \<not> f_deny f then do { s \<leftarrow> inode_deny_write s (f_inode f); Some (f\<lparr>f_deny := True\<rparr>, s) } else Some (f, s))"

definition file_allow_write :: "fs \<Rightarrow> open_file \<Rightarrow> (open_file \<times> fs) option" where
  "file_allow_write s f =
     (if f_deny f then do { s \<leftarrow> inode_allow_write s (f_inode f); Some (f\<lparr>f_deny := False\<rparr>, s) } else Some (f, s))"

definition file_close :: "fs \<Rightarrow> open_file option \<Rightarrow> fs option" where
  "file_close s fo = (case fo of None \<Rightarrow> Some s
     | Some f \<Rightarrow> do { (f, s) \<leftarrow> file_allow_write s f; inode_close s (f_inode f) })"

definition file_get_inode :: "open_file \<Rightarrow> ptr" where
  "file_get_inode f = f_inode f"

definition file_read :: "fs \<Rightarrow> open_file \<Rightarrow> nat \<Rightarrow> (u8 list \<times> open_file \<times> fs) option" where
  "file_read s f sz = do {
     (bs, s) \<leftarrow> inode_read_at s (f_inode f) sz (f_pos f);
     Some (bs, f\<lparr>f_pos := f_pos f + length bs\<rparr>, s)
   }"

definition file_read_at :: "fs \<Rightarrow> open_file \<Rightarrow> nat \<Rightarrow> nat \<Rightarrow> (u8 list \<times> fs) option" where
  "file_read_at s f sz ofs = inode_read_at s (f_inode f) sz ofs"

definition file_write :: "fs \<Rightarrow> open_file \<Rightarrow> u8 list \<Rightarrow> (nat \<times> open_file \<times> fs) option" where
  "file_write s f buffer = do {
     (n, s) \<leftarrow> inode_write_at s (f_inode f) buffer (f_pos f);
     Some (n, f\<lparr>f_pos := f_pos f + n\<rparr>, s)
   }"

definition file_write_at :: "fs \<Rightarrow> open_file \<Rightarrow> u8 list \<Rightarrow> nat \<Rightarrow> (nat \<times> fs) option" where
  "file_write_at s f buffer ofs = inode_write_at s (f_inode f) buffer ofs"

definition file_length :: "fs \<Rightarrow> open_file \<Rightarrow> nat option" where
  "file_length s f = inode_length s (f_inode f)"

definition file_seek :: "open_file \<Rightarrow> int \<Rightarrow> open_file option" where
  "file_seek f new_pos = do { ASSERT (new_pos \<ge> 0); Some (f\<lparr>f_pos := nat new_pos\<rparr>) }"

definition file_tell :: "open_file \<Rightarrow> nat" where
  "file_tell f = f_pos f"

section \<open>The file of the free map\<close>

text \<open>\<open>bitmap_read\<close> on the free map; the bits behind the last one of the map are cleared.\<close>

definition bitmap_read :: "fs \<Rightarrow> open_file \<Rightarrow> (bool \<times> fs) option" where
  "bitmap_read s f =
     (let m = free_map s
      in if bit_cnt m > 0
      then do {
        let sz = byte_cnt (bit_cnt m);
        (got, s) \<leftarrow> file_read_at s f sz 0;
        let bs = got @ drop (length got) (concat (map word_bytes (bits m)));
        let ws = map (word_at bs) [0..<elem_cnt (bit_cnt m)];
        let l = elem_cnt (bit_cnt m) - 1;
        Some (length got = sz, s\<lparr>free_map := m\<lparr>bits := ws[l := (ws ! l) AND last_mask m]\<rparr>\<rparr>)
      }
      else Some (True, s))"

definition free_map_open :: "fs \<Rightarrow> fs option" where
  "free_map_open s = do {
     (p, s) \<leftarrow> inode_open s FREE_MAP_SECTOR;
     (f, s) \<leftarrow> file_open s p;
     let s = s\<lparr>free_map_file := f\<rparr>;
     f \<leftarrow> f;
     (ok, s) \<leftarrow> bitmap_read s f;
     ASSERT ok;
     Some s
   }"

definition free_map_close :: "fs \<Rightarrow> fs option" where
  "free_map_close s = file_close s (free_map_file s)"

definition free_map_create :: "fs \<Rightarrow> fs option" where
  "free_map_create s = do {
     (ok, s) \<leftarrow> inode_create s FREE_MAP_SECTOR (bitmap_file_size (free_map s)) False UNUSED_SECTOR;
     ASSERT ok;
     (p, s) \<leftarrow> inode_open s FREE_MAP_SECTOR;
     (f, s) \<leftarrow> file_open s p;
     let s = s\<lparr>free_map_file := f\<rparr>;
     f \<leftarrow> f;
     (ok, s) \<leftarrow> save_map s;
     ASSERT ok;
     Some s
   }"

section \<open>Directories\<close>

abbreviation NAME_MAX :: nat where "NAME_MAX \<equiv> 14"
abbreviation DEPTH_MAX :: nat where "DEPTH_MAX \<equiv> 128"
abbreviation sizeof_entry :: nat where "sizeof_entry \<equiv> 20"

record dir =
  d_inode :: ptr
  d_pos :: nat

record dir_entry =
  inode_sector :: u32
  ename :: "u8 list"
  in_use :: bool

definition encode_entry :: "dir_entry \<Rightarrow> u8 list" where
  "encode_entry e = word_bytes (inode_sector e) @ take (NAME_MAX + 1) (ename e @ replicate (NAME_MAX + 1) 0) @ [if in_use e then 1 else 0]"

definition decode_entry :: "u8 list \<Rightarrow> dir_entry" where
  "decode_entry bs = \<lparr>inode_sector = word_at bs 0, ename = takeWhile (\<lambda>c. c \<noteq> 0) (take (NAME_MAX + 1) (drop 4 bs)), in_use = bs ! 19 \<noteq> 0\<rparr>"

definition dir_create :: "fs \<Rightarrow> u32 \<Rightarrow> nat \<Rightarrow> u32 \<Rightarrow> (bool \<times> fs) option" where
  "dir_create s sec entry_cnt parent = inode_create s sec (entry_cnt * sizeof_entry) True parent"

definition dir_open :: "fs \<Rightarrow> ptr \<Rightarrow> (dir option \<times> fs) option" where
  "dir_open s p = (let (ok, s) = alloc_memory s
     in if p \<noteq> NULL \<and> ok then Some (Some \<lparr>d_inode = p, d_pos = 0\<rparr>, s)
        else do { s \<leftarrow> inode_close s p; Some (None, s) })"

definition dir_open_root :: "fs \<Rightarrow> (dir option \<times> fs) option" where
  "dir_open_root s = do { (p, s) \<leftarrow> inode_open s ROOT_DIR_SECTOR; dir_open s p }"

definition dir_reopen :: "fs \<Rightarrow> dir \<Rightarrow> (dir option \<times> fs) option" where
  "dir_reopen s d = do { (p, s) \<leftarrow> inode_reopen s (d_inode d); dir_open s p }"

definition dir_close :: "fs \<Rightarrow> dir option \<Rightarrow> fs option" where
  "dir_close s d = (case d of None \<Rightarrow> Some s | Some d \<Rightarrow> inode_close s (d_inode d))"

definition dir_get_inode :: "dir \<Rightarrow> ptr" where
  "dir_get_inode d = d_inode d"

text \<open>The loop over the entries of a directory that stops at the first one with a property. It returns that entry and
  its offset, or the offset of the end of the directory.\<close>

partial_function (option) dir_scan :: "fs \<Rightarrow> ptr \<Rightarrow> (dir_entry \<Rightarrow> bool) \<Rightarrow> nat \<Rightarrow> (dir_entry option \<times> nat \<times> fs) option" where
  "dir_scan s p stop ofs = do {
     (bs, s) \<leftarrow> inode_read_at s p sizeof_entry ofs;
     if length bs = sizeof_entry
     then (let e = decode_entry bs in if stop e then Some (Some e, ofs, s) else dir_scan s p stop (ofs + sizeof_entry))
     else Some (None, ofs, s)
   }"

definition lookup :: "fs \<Rightarrow> dir \<Rightarrow> u8 list \<Rightarrow> (dir_entry option \<times> nat \<times> fs) option" where
  "lookup s d name = dir_scan s (d_inode d) (\<lambda>e. in_use e \<and> ename e = name) 0"

definition dir_lookup :: "fs \<Rightarrow> dir \<Rightarrow> u8 list \<Rightarrow> (ptr \<times> fs) option" where
  "dir_lookup s d name = do {
     i \<leftarrow> deref s (d_inode d);
     if removed i then Some (NULL, s)
     else if name = [46] \<or> name = [] then Some (d_inode d, s)
     else if name = [46, 46] then inode_open s (parent_dir (data i))
     else do {
       (e, _, s) \<leftarrow> lookup s d name;
       case e of Some e \<Rightarrow> inode_open s (inode_sector e) | None \<Rightarrow> Some (NULL, s)
     }
   }"

definition dir_add :: "fs \<Rightarrow> dir \<Rightarrow> u8 list \<Rightarrow> u32 \<Rightarrow> (bool \<times> fs) option" where
  "dir_add s d name sec =
     (if name = [] \<or> length name > NAME_MAX then Some (False, s)
      else do {
        (e, _, s) \<leftarrow> lookup s d name;
        if e \<noteq> None then Some (False, s)
        else do {
          (_, ofs, s) \<leftarrow> dir_scan s (d_inode d) (\<lambda>e. \<not> in_use e) 0;
          (n, s) \<leftarrow> inode_write_at s (d_inode d) (encode_entry \<lparr>inode_sector = sec, ename = name, in_use = True\<rparr>) ofs;
          Some (n = sizeof_entry, s)
        }
      })"

definition dir_empty :: "fs \<Rightarrow> dir \<Rightarrow> (bool \<times> fs) option" where
  "dir_empty s d = do { (e, _, s) \<leftarrow> dir_scan s (d_inode d) in_use 0; Some (e = None, s) }"

definition dir_remove :: "fs \<Rightarrow> dir \<Rightarrow> u8 list \<Rightarrow> (bool \<times> fs) option" where
  "dir_remove s d name = do {
     (e, ofs, s) \<leftarrow> lookup s d name;
     case e of None \<Rightarrow> Some (False, s)
     | Some e \<Rightarrow> do {
         (p, s) \<leftarrow> inode_open s (inode_sector e);
         (ok, s) \<leftarrow> (if p = NULL then Some (False, s) else do {
            i \<leftarrow> deref s p;
            if sector i = ROOT_DIR_SECTOR then Some (False, s)
            else if is_dir (data i) \<noteq> 0
            then do {
              (q, s) \<leftarrow> inode_reopen s p;
              (temp, s) \<leftarrow> dir_open s q;
              t \<leftarrow> temp;
              (empty, s) \<leftarrow> dir_empty s t;
              s \<leftarrow> dir_close s temp;
              Some (empty, s)
            }
            else Some (True, s) });
         (success, s) \<leftarrow> (if \<not> ok then Some (False, s)
            else do {
              (n, s) \<leftarrow> inode_write_at s (d_inode d) (encode_entry (e\<lparr>in_use := False\<rparr>)) ofs;
              if n \<noteq> sizeof_entry then Some (False, s)
              else do { s \<leftarrow> inode_remove s p; Some (True, s) }
            });
         s \<leftarrow> inode_close s p;
         Some (success, s)
       }
   }"

definition dir_readdir :: "fs \<Rightarrow> dir \<Rightarrow> (u8 list option \<times> dir \<times> fs) option" where
  "dir_readdir s d = do {
     (e, ofs, s) \<leftarrow> dir_scan s (d_inode d) in_use (d_pos d);
     Some (case e of Some e \<Rightarrow> (Some (ename e), d\<lparr>d_pos := ofs + sizeof_entry\<rparr>, s) | None \<Rightarrow> (None, d\<lparr>d_pos := ofs\<rparr>, s))
   }"

section \<open>Path names\<close>

text \<open>The components of a path: the non-empty parts between slashes, as \<open>strtok_r\<close> finds them.\<close>

fun path_parts :: "u8 list \<Rightarrow> u8 list \<Rightarrow> u8 list list" where
  "path_parts [] part = (if part = [] then [] else [part])"
| "path_parts (c # cs) part =
     (if c = 47 then (if part = [] then path_parts cs [] else part # path_parts cs []) else path_parts cs (part @ [c]))"

text \<open>The components are stored in an array of \<open>DEPTH_MAX\<close> pointers with a null pointer behind the last.\<close>

definition filesys_parse :: "u8 list \<Rightarrow> u8 list list option" where
  "filesys_parse name = (let path = path_parts name [] in if length path < DEPTH_MAX then Some path else None)"

fun find_dirs :: "fs \<Rightarrow> dir option \<Rightarrow> u8 list list \<Rightarrow> (dir option \<times> fs) option" where
  "find_dirs s d [] = Some (d, s)"
| "find_dirs s d (name # path) = do {
     dr \<leftarrow> d;
     (p, s) \<leftarrow> dir_lookup s dr name;
     if p = NULL then do { s \<leftarrow> dir_close s d; Some (None, s) }
     else do {
       i \<leftarrow> deref s p;
       if is_dir (data i) = 0 then do { s \<leftarrow> dir_close s d; s \<leftarrow> inode_close s p; Some (None, s) }
       else do {
         s \<leftarrow> dir_close s d;
         (d, s) \<leftarrow> dir_open s p;
         if d = None then Some (None, s) else find_dirs s d path
       }
     }
   }"

definition filesys_find_dir :: "fs \<Rightarrow> dir \<Rightarrow> u8 list \<Rightarrow> (dir option \<times> u8 list \<times> fs) option" where
  "filesys_find_dir s d name = do {
     let (ok, s) = alloc_memory s;
     ASSERT ok;
     path \<leftarrow> filesys_parse name;
     (d, s) \<leftarrow> dir_reopen s d;
     (d, s) \<leftarrow> find_dirs s d (butlast path);
     Some (d, if path = [] then [] else last path, s)
   }"

definition filesys_find_and_create :: "fs \<Rightarrow> dir \<Rightarrow> u8 list \<Rightarrow> nat \<Rightarrow> (bool \<times> fs) option" where
  "filesys_find_and_create s d name initial_size = do {
     (d, final, s) \<leftarrow> filesys_find_dir s d name;
     case d of None \<Rightarrow> Some (False, s)
     | Some dr \<Rightarrow> do {
         i \<leftarrow> deref s (d_inode dr);
         if removed i then do { s \<leftarrow> dir_close s d; Some (False, s) }
         else do {
           (sec, s) \<leftarrow> free_map_allocate save_map s 1;
           (success, s) \<leftarrow> (case sec of None \<Rightarrow> Some (False, s)
             | Some sec \<Rightarrow> do {
                 (ok, s) \<leftarrow> inode_create s sec initial_size False (sector i);
                 if ok then dir_add s dr final sec else Some (False, s)
               });
           s \<leftarrow> (case sec of None \<Rightarrow> Some s
             | Some sec \<Rightarrow> if \<not> success \<and> sec \<noteq> 0 then free_map_release save_map s sec 1 else Some s);
           s \<leftarrow> dir_close s d;
           Some (success, s)
         }
       }
   }"

definition filesys_find_and_open :: "fs \<Rightarrow> dir \<Rightarrow> u8 list \<Rightarrow> (open_file option \<times> fs) option" where
  "filesys_find_and_open s d name = do {
     (d, final, s) \<leftarrow> filesys_find_dir s d name;
     case d of None \<Rightarrow> Some (None, s)
     | Some dr \<Rightarrow> do {
         (p, s) \<leftarrow> dir_lookup s dr final;
         s \<leftarrow> dir_close s d;
         if p = NULL then Some (None, s) else file_open s p
       }
   }"

definition filesys_find_and_remove :: "fs \<Rightarrow> dir \<Rightarrow> u8 list \<Rightarrow> (bool \<times> fs) option" where
  "filesys_find_and_remove s d name = do {
     (d, final, s) \<leftarrow> filesys_find_dir s d name;
     case d of None \<Rightarrow> Some (False, s)
     | Some dr \<Rightarrow> do {
         (ok, s) \<leftarrow> dir_remove s dr final;
         s \<leftarrow> dir_close s d;
         Some (ok, s)
       }
   }"

text \<open>The directory that a path starts from: the root, which is opened, or the current directory \<open>cwd\<close>.\<close>

definition start_dir :: "fs \<Rightarrow> dir \<Rightarrow> u8 list \<Rightarrow> (dir \<times> fs) option" where
  "start_dir s cwd name =
     (if name \<noteq> [] \<and> hd name = 47 then do { (d, s) \<leftarrow> dir_open_root s; d \<leftarrow> d; Some (d, s) } else Some (cwd, s))"

definition filesys_create :: "fs \<Rightarrow> dir \<Rightarrow> u8 list \<Rightarrow> nat \<Rightarrow> (bool \<times> fs) option" where
  "filesys_create s cwd name initial_size = do {
     (d, s) \<leftarrow> start_dir s cwd name;
     filesys_find_and_create s d name initial_size
   }"

definition filesys_open :: "fs \<Rightarrow> dir \<Rightarrow> u8 list \<Rightarrow> (open_file option \<times> fs) option" where
  "filesys_open s cwd name = do { (d, s) \<leftarrow> start_dir s cwd name; filesys_find_and_open s d name }"

definition filesys_remove :: "fs \<Rightarrow> dir \<Rightarrow> u8 list \<Rightarrow> (bool \<times> fs) option" where
  "filesys_remove s cwd name = do { (d, s) \<leftarrow> start_dir s cwd name; filesys_find_and_remove s d name }"

section \<open>Starting and stopping\<close>

definition do_format :: "fs \<Rightarrow> fs option" where
  "do_format s = do {
     s \<leftarrow> free_map_create s;
     (ok, s) \<leftarrow> dir_create s ROOT_DIR_SECTOR 16 UNUSED_SECTOR;
     ASSERT ok;
     free_map_close s
   }"

definition filesys_init :: "fs \<Rightarrow> disk option \<Rightarrow> bool \<Rightarrow> fs option" where
  "filesys_init s dk format = do {
     dk \<leftarrow> dk;
     let s = s\<lparr>cache := (cache s)\<lparr>filesys_disk := dk\<rparr>\<rparr>;
     let s = inode_init s;
     s \<leftarrow> free_map_init s;
     let s = s\<lparr>cache := cache_table_init (filesys_disk (cache s))\<rparr>;
     s \<leftarrow> (if format then do_format s else Some s);
     free_map_open s
   }"

definition filesys_done :: "fs \<Rightarrow> fs option" where
  "filesys_done s = do {
     c \<leftarrow> cache_table_destroy (cache s);
     free_map_close (s\<lparr>cache := c\<rparr>)
   }"

end
