(* ===== verification/Directory.thy ===== *)
theory Directory
  imports Filesys Inode_Props
begin

text \<open>
  Directories of \<open>src/filesys/directory.c\<close> as finite maps from names to sectors, over the store of files that the index nodes provide.
\<close>

section \<open>Entries\<close>

definition name_ok :: "u8 list \<Rightarrow> bool" where
  "name_ok name \<longleftrightarrow> name \<noteq> [] \<and> length name \<le> NAME_MAX \<and> 0 \<notin> set name"

lemma length_encode_entry [simp]: "length (encode_entry e) = sizeof_entry"
  by (simp add: encode_entry_def)

lemma decode_encode_entry:
  assumes "length (ename e) \<le> NAME_MAX" "0 \<notin> set (ename e)"
  shows "decode_entry (encode_entry e) = e"
proof -
  let ?f = "take 15 (ename e @ replicate 15 0)"
  have len: "length ?f = 15" by simp
  have sec: "word_at (encode_entry e) 0 = inode_sector e" by (simp add: word_at_def encode_entry_def)
  have fld: "take 15 (drop 4 (encode_entry e)) = ?f" using len by (simp add: encode_entry_def)
  have "?f = ename e @ 0 # replicate (14 - length (ename e)) 0"
  proof -
    have "15 - length (ename e) = Suc (14 - length (ename e))" using assms(1) by simp
    then show ?thesis using assms(1) by (simp add: min_def)
  qed
  then have nm: "takeWhile (\<lambda>c. c \<noteq> 0) ?f = ename e" using assms(2) by (simp add: takeWhile_tail takeWhile_eq_all_conv) (metis takeWhile_append2 takeWhile_eq_all_conv append_Nil2)
  have "length (word_bytes (inode_sector e) @ ?f) = 19" using len by simp
  then have us: "encode_entry e ! 19 = (if in_use e then 1 else 0)"
    using nth_append_length [of "word_bytes (inode_sector e) @ ?f"] by (simp add: encode_entry_def del: length_append take_append)
  show ?thesis unfolding decode_entry_def using sec fld nm us by (cases e) simp
qed

text \<open>The entries of a directory, and the map they stand for.\<close>

definition entry_at :: "u8 list \<Rightarrow> nat \<Rightarrow> dir_entry" where
  "entry_at bs i = decode_entry (take sizeof_entry (drop (sizeof_entry * i) bs))"

definition dir_entries :: "u8 list \<Rightarrow> dir_entry list" where
  "dir_entries bs = map (entry_at bs) [0..<length bs div sizeof_entry]"

definition dir_map :: "u8 list \<Rightarrow> u8 list \<Rightarrow> u32 option" where
  "dir_map bs name = map_option inode_sector (List.find (\<lambda>e. in_use e \<and> ename e = name) (dir_entries bs))"

lemma length_dir_entries [simp]: "length (dir_entries bs) = length bs div sizeof_entry"
  by (simp add: dir_entries_def)

lemma nth_dir_entries: "i < length bs div sizeof_entry \<Longrightarrow> dir_entries bs ! i = entry_at bs i"
  by (simp add: dir_entries_def)

lemma entry_at_store:
  assumes "length new = sizeof_entry" "sizeof_entry * i + sizeof_entry \<le> length bs \<or> i = j" "sizeof_entry * j \<le> length bs"
  shows "entry_at (store_bytes bs (sizeof_entry * j) new) i = (if i = j then decode_entry new else entry_at bs i)"
proof (cases "i = j")
  case True
  then show ?thesis using store_bytes_read [of new "sizeof_entry * j" bs] assms(1) by (simp add: entry_at_def)
next
  case False
  then have "i + 1 \<le> j \<or> j + 1 \<le> i" by linarith
  then have apart: "sizeof_entry * i + sizeof_entry \<le> sizeof_entry * j \<or> sizeof_entry * j + sizeof_entry \<le> sizeof_entry * i" by auto
  have "take sizeof_entry (drop (sizeof_entry * i) (store_bytes bs (sizeof_entry * j) new)) = take sizeof_entry (drop (sizeof_entry * i) bs)"
    using assms False apart by (intro nth_equalityI) (auto simp: nth_store_bytes)
  then show ?thesis using False by (simp add: entry_at_def)
qed

lemma dir_entries_store:
  assumes new: "length new = sizeof_entry" and j: "j \<le> length bs div sizeof_entry"
  shows "dir_entries (store_bytes bs (sizeof_entry * j) new) =
    (if j < length bs div sizeof_entry then (dir_entries bs)[j := decode_entry new] else dir_entries bs @ [decode_entry new])"
proof -
  let ?n = "length bs div sizeof_entry"
  have le: "sizeof_entry * ?n \<le> length bs" "length bs < sizeof_entry * ?n + sizeof_entry" by simp_all
  have jn: "sizeof_entry * j \<le> length bs" using j le(1) by (meson le_trans mult_le_mono2)
  have full: "sizeof_entry * i + sizeof_entry \<le> length bs" if "i < ?n" for i
  proof -
    have "sizeof_entry * Suc i \<le> sizeof_entry * ?n" using that by (intro mult_le_mono2) simp
    then show ?thesis using le(1) by simp
  qed
  show ?thesis
  proof (cases "j < ?n")
    case True
    then have len: "length (store_bytes bs (sizeof_entry * j) new) = length bs" using full [OF True] new by simp
    show ?thesis using True len new jn full by (intro nth_equalityI) (auto simp: nth_dir_entries entry_at_store nth_list_update)
  next
    case False
    then have jj: "j = ?n" using j by simp
    then have len: "length (store_bytes bs (sizeof_entry * j) new) = sizeof_entry * ?n + sizeof_entry" using le new by simp
    then have ln: "length (store_bytes bs (sizeof_entry * j) new) div sizeof_entry = Suc ?n" by simp
    show ?thesis
      using jj new jn full ln by (intro nth_equalityI) (auto simp: nth_dir_entries entry_at_store nth_append less_Suc_eq)
  qed
qed

section \<open>Scanning a directory\<close>

text \<open>A file of the store that a directory is kept in.\<close>

definition dir_file :: "fs \<Rightarrow> ptr \<Rightarrow> bool" where
  "dir_file s p \<longleftrightarrow> fs_inv s \<and> p \<in> files s \<and> dense s p"

text \<open>What a scan keeps: the bytes of every file, and all but three sectors of the free space.\<close>

definition kept :: "nat \<Rightarrow> fs \<Rightarrow> fs \<Rightarrow> bool" where
  "kept k s s' \<longleftrightarrow> fs_inv s' \<and> same_inodes s s' \<and> nfree s \<le> nfree s' + k \<and>
     (\<forall>q \<in> files s. file_bytes s' q = file_bytes s q \<and> (dense s q \<longrightarrow> dense s' q))"

lemma scan_kept_trans: "kept k s s1 \<Longrightarrow> kept l s1 s2 \<Longrightarrow> kept (k + l) s s2"
  unfolding kept_def using same_inodes_trans [of s s1 s2] same_files [of s s1] by auto

lemma kept_dir_file: "kept k s s' \<Longrightarrow> dir_file s p \<Longrightarrow> dir_file s' p"
  unfolding kept_def dir_file_def using same_files [of s s'] by auto

lemma read_entry:
  assumes d: "dir_file s p" and ofs: "ofs \<le> length (file_bytes s p)"
  obtains s' where "inode_read_at s p sizeof_entry ofs = Some (take sizeof_entry (drop ofs (file_bytes s p)), s')"
    "kept (if ofs + sizeof_entry \<le> length (file_bytes s p) then 0 else 3) s s'"
proof -
  have f: "fs_inv s" "p \<in> files s" "dense s p" using d by (auto simp: dir_file_def)
  have "ofs < FILE_MAX" using ofs fs_inv_files(4) [OF f(1,2)] by simp
  from inode_read_law [OF f this, of sizeof_entry] show thesis by (elim exE) (rule that, auto simp: kept_def)
qed

text \<open>The first entry from \<open>i\<close> on that satisfies a predicate.\<close>

fun scan_from :: "(dir_entry \<Rightarrow> bool) \<Rightarrow> dir_entry list \<Rightarrow> nat \<Rightarrow> (dir_entry \<times> nat) option" where
  "scan_from stop [] i = None"
| "scan_from stop (e # es) i = (if stop e then Some (e, i) else scan_from stop es (Suc i))"

lemma scan_from_find: "List.find stop es = map_option fst (scan_from stop es i)"
  by (induction es arbitrary: i) auto

lemma scan_from_Some:
  "scan_from stop es i = Some (e, j) \<Longrightarrow> i \<le> j \<and> j < i + length es \<and> e = es ! (j - i) \<and> stop e \<and> (\<forall>k < j - i. \<not> stop (es ! k))"
proof (induction es arbitrary: i)
  case (Cons x es)
  show ?case
  proof (cases "stop x")
    case False
    then have "scan_from stop es (Suc i) = Some (e, j)" using Cons.prems by simp
    from Cons.IH [OF this] have j: "Suc i \<le> j" "j < Suc i + length es" "e = es ! (j - Suc i)" "stop e" "\<forall>k < j - Suc i. \<not> stop (es ! k)" by auto
    have "\<not> stop ((x # es) ! k)" if "k < j - i" for k using that j(5) False by (cases k) auto
    moreover have "j - i = Suc (j - Suc i)" using j(1) by simp
    ultimately show ?thesis using j by simp
  qed (use Cons.prems in auto)
qed simp

lemma scan_from_None: "scan_from stop es i = None \<longleftrightarrow> (\<forall>e \<in> set es. \<not> stop e)"
  by (induction es arbitrary: i) auto

lemma dir_scan_step:
  assumes "inode_read_at s p sizeof_entry ofs = Some (bs, s')"
  shows "length bs \<noteq> sizeof_entry \<Longrightarrow> dir_scan s p stop ofs = Some (None, ofs, s')"
    and "length bs = sizeof_entry \<Longrightarrow> stop (decode_entry bs) \<Longrightarrow> dir_scan s p stop ofs = Some (Some (decode_entry bs), ofs, s')"
    and "length bs = sizeof_entry \<Longrightarrow> \<not> stop (decode_entry bs) \<Longrightarrow> dir_scan s p stop ofs = dir_scan s' p stop (ofs + sizeof_entry)"
  using assms by (simp_all add: dir_scan.simps [of s p stop] Let_def)

lemma dir_scan_spec:
  assumes "dir_file s p" "i \<le> length (file_bytes s p) div sizeof_entry"
  shows "\<exists>s'. kept 3 s s' \<and> dir_scan s p stop (sizeof_entry * i) =
    Some (case scan_from stop (drop i (dir_entries (file_bytes s p))) i of Some (e, j) \<Rightarrow> (Some e, sizeof_entry * j, s')
      | None \<Rightarrow> (None, sizeof_entry * (length (file_bytes s p) div sizeof_entry), s'))"
  using assms
proof (induction "length (file_bytes s p) div sizeof_entry - i" arbitrary: s i)
  case 0
  let ?bs = "file_bytes s p"
  have i: "i = length ?bs div sizeof_entry" using 0 by simp
  have le: "sizeof_entry * i \<le> length ?bs" "\<not> sizeof_entry * i + sizeof_entry \<le> length ?bs" unfolding i by simp_all
  obtain s' where s': "inode_read_at s p sizeof_entry (sizeof_entry * i) = Some (take sizeof_entry (drop (sizeof_entry * i) ?bs), s')" "kept 3 s s'"
    by (rule read_entry [OF 0(2) le(1), unfolded if_not_P [OF le(2)]])
  have "length (take sizeof_entry (drop (sizeof_entry * i) ?bs)) \<noteq> sizeof_entry" using le by simp
  then have "dir_scan s p stop (sizeof_entry * i) = Some (None, sizeof_entry * i, s')" by (rule dir_scan_step(1) [OF s'(1)])
  then show ?case using s'(2) i by (intro exI [of _ s']) simp
next
  case (Suc n)
  let ?bs = "file_bytes s p" and ?n = "length (file_bytes s p) div sizeof_entry"
  have i: "i < ?n" using Suc(2) by simp
  have "sizeof_entry * Suc i \<le> sizeof_entry * ?n" using i by (intro mult_le_mono2) simp
  moreover have "sizeof_entry * ?n \<le> length ?bs" by simp
  ultimately have le: "sizeof_entry * i + sizeof_entry \<le> length ?bs" "sizeof_entry * i \<le> length ?bs" by simp_all
  obtain s1 where s1: "inode_read_at s p sizeof_entry (sizeof_entry * i) = Some (take sizeof_entry (drop (sizeof_entry * i) ?bs), s1)" "kept 0 s s1"
    by (rule read_entry [OF Suc(3) le(2), unfolded if_P [OF le(1)]])
  have b: "file_bytes s1 p = ?bs" using s1(2) Suc(3) by (simp add: kept_def dir_file_def)
  have len: "length (take sizeof_entry (drop (sizeof_entry * i) ?bs)) = sizeof_entry" using le by simp
  have dr: "drop i (dir_entries ?bs) = entry_at ?bs i # drop (Suc i) (dir_entries ?bs)" using i by (simp add: Cons_nth_drop_Suc [symmetric] nth_dir_entries)
  have k3: "kept 3 s s1" using scan_kept_trans [OF s1(2), of 3 s1] s1(2) by (simp add: kept_def)
  show ?case
  proof (cases "stop (entry_at ?bs i)")
    case True
    then have "dir_scan s p stop (sizeof_entry * i) = Some (Some (entry_at ?bs i), sizeof_entry * i, s1)"
      using dir_scan_step(2) [OF s1(1) len] by (simp add: entry_at_def)
    then show ?thesis using k3 True dr by (intro exI [of _ s1]) simp
  next
    case False
    have step: "dir_scan s p stop (sizeof_entry * i) = dir_scan s1 p stop (sizeof_entry * Suc i)"
      using dir_scan_step(3) [OF s1(1) len] False by (simp add: entry_at_def add.commute)
    have "\<exists>s'. kept 3 s1 s' \<and> dir_scan s1 p stop (sizeof_entry * Suc i) =
      Some (case scan_from stop (drop (Suc i) (dir_entries (file_bytes s1 p))) (Suc i) of Some (e, j) \<Rightarrow> (Some e, sizeof_entry * j, s')
        | None \<Rightarrow> (None, sizeof_entry * (length (file_bytes s1 p) div sizeof_entry), s'))"
      by (rule Suc(1)) (use Suc(2) i b kept_dir_file [OF s1(2) Suc(3)] in auto)
    then obtain s2 where s2: "kept 3 s1 s2" "dir_scan s p stop (sizeof_entry * i) =
        Some (case scan_from stop (drop (Suc i) (dir_entries ?bs)) (Suc i) of Some (e, j) \<Rightarrow> (Some e, sizeof_entry * j, s2)
          | None \<Rightarrow> (None, sizeof_entry * ?n, s2))" unfolding step b by blast
    have "kept 3 s s2" using scan_kept_trans [OF s1(2) s2(1)] by simp
    then show ?thesis using s2(2) False dr by (intro exI [of _ s2]) simp
  qed
qed

section \<open>Adding and finding entries\<close>

lemma lookup_spec:
  assumes d: "dir_file s (d_inode d)"
  obtains r ofs s' where "lookup s d name = Some (r, ofs, s')" "kept 3 s s'"
    "map_option inode_sector r = dir_map (file_bytes s (d_inode d)) name"
proof -
  let ?stop = "\<lambda>e. in_use e \<and> ename e = name" and ?es = "dir_entries (file_bytes s (d_inode d))"
  obtain s' where s': "kept 3 s s'" "dir_scan s (d_inode d) ?stop (sizeof_entry * 0) =
      Some (case scan_from ?stop (drop 0 ?es) 0 of Some (e, j) \<Rightarrow> (Some e, sizeof_entry * j, s')
        | None \<Rightarrow> (None, sizeof_entry * (length (file_bytes s (d_inode d)) div sizeof_entry), s'))"
    using dir_scan_spec [OF d, of 0 ?stop] by auto
  have "dir_map (file_bytes s (d_inode d)) name = map_option inode_sector (map_option fst (scan_from ?stop ?es 0))"
    by (simp add: dir_map_def scan_from_find [of _ _ 0])
  then show thesis using s' unfolding lookup_def
    by (cases "scan_from ?stop ?es 0") (auto intro!: that simp: lookup_def)
qed

text \<open>The place for a new entry: the first that is not in use, or the end of the directory.\<close>

lemma free_entry_spec:
  assumes d: "dir_file s p"
  obtains j r s' where "dir_scan s p (\<lambda>e. \<not> in_use e) 0 = Some (r, sizeof_entry * j, s')" "kept 3 s s'"
    "j \<le> length (dir_entries (file_bytes s p))" "j < length (dir_entries (file_bytes s p)) \<Longrightarrow> \<not> in_use (dir_entries (file_bytes s p) ! j)"
proof -
  let ?stop = "\<lambda>e. \<not> in_use e" and ?es = "dir_entries (file_bytes s p)"
  obtain s' where s': "kept 3 s s'" "dir_scan s p ?stop (sizeof_entry * 0) =
      Some (case scan_from ?stop (drop 0 ?es) 0 of Some (e, j) \<Rightarrow> (Some e, sizeof_entry * j, s')
        | None \<Rightarrow> (None, sizeof_entry * (length (file_bytes s p) div sizeof_entry), s'))"
    using dir_scan_spec [OF d, of 0 ?stop] by auto
  show thesis
  proof (cases "scan_from ?stop ?es 0")
    case None
    then show thesis using s' by (intro that [of None "length ?es" s']) auto
  next
    case (Some z)
    then obtain e j where z: "scan_from ?stop ?es 0 = Some (e, j)" by (cases z) auto
    from scan_from_Some [OF this] show thesis using s' z by (intro that [of "Some e" j s']) auto
  qed
qed

lemma find_update: "j < length es \<Longrightarrow> \<not> P (es ! j) \<Longrightarrow> \<not> P x \<Longrightarrow> List.find P (es[j := x]) = List.find P es"
  by (induction es arbitrary: j) (auto split: nat.split)

lemma find_update_new: "j < length es \<Longrightarrow> List.find P es = None \<Longrightarrow> P x \<Longrightarrow> List.find P (es[j := x]) = Some x"
  by (induction es arbitrary: j) (auto split: nat.split if_splits)

lemma dir_map_store:
  assumes j: "j \<le> length (dir_entries bs)" "j < length (dir_entries bs) \<Longrightarrow> \<not> in_use (dir_entries bs ! j)"
    and name: "name_ok name" and none: "dir_map bs name = None"
  shows "dir_map (store_bytes bs (sizeof_entry * j) (encode_entry \<lparr>inode_sector = sec, ename = name, in_use = True\<rparr>)) = (dir_map bs)(name \<mapsto> sec)"
proof
  fix n
  let ?e = "\<lparr>inode_sector = sec, ename = name, in_use = True\<rparr>" and ?P = "\<lambda>e. in_use e \<and> ename e = n" and ?es = "dir_entries bs"
  have dec: "decode_entry (encode_entry ?e) = ?e" using name by (intro decode_encode_entry) (simp_all add: name_ok_def)
  have es: "dir_entries (store_bytes bs (sizeof_entry * j) (encode_entry ?e)) = (if j < length ?es then ?es[j := ?e] else ?es @ [?e])"
    using dir_entries_store [of "encode_entry ?e" j bs] j(1) dec by simp
  have old: "List.find (\<lambda>e. in_use e \<and> ename e = name) ?es = None" using none by (simp add: dir_map_def)
  have "List.find ?P (if j < length ?es then ?es[j := ?e] else ?es @ [?e]) = (if n = name then Some ?e else List.find ?P ?es)"
  proof (cases "j < length ?es")
    case True
    show ?thesis
    proof (cases "n = name")
      case eq: True
      then show ?thesis using True old by (simp add: find_update_new)
    next
      case False
      then show ?thesis using True j(2) by (simp add: find_update)
    qed
  next
    case False
    then show ?thesis using old by (auto simp: find_append split: option.split)
  qed
  then show "dir_map (store_bytes bs (sizeof_entry * j) (encode_entry ?e)) n = ((dir_map bs)(name \<mapsto> sec)) n"
    unfolding dir_map_def es by simp
qed

lemma dir_add_new:
  assumes d: "dir_file s (d_inode d)" and w: "writable s (d_inode d)" and name: "name_ok name" and none: "dir_map (file_bytes s (d_inode d)) name = None"
    and sz: "length (file_bytes s (d_inode d)) + sizeof_entry < FILE_MAX" and spare: "12 \<le> nfree s"
  obtains s' where "dir_add s d name sec = Some (True, s')" "dir_file s' (d_inode d)"
    "dir_map (file_bytes s' (d_inode d)) = (dir_map (file_bytes s (d_inode d)))(name \<mapsto> sec)"
    "\<And>q. q \<in> files s \<Longrightarrow> q \<noteq> d_inode d \<Longrightarrow> file_bytes s' q = file_bytes s q"
proof -
  let ?p = "d_inode d" and ?bs = "file_bytes s (d_inode d)" and ?e = "\<lparr>inode_sector = sec, ename = name, in_use = True\<rparr>"
  obtain r ofs s1 where l: "lookup s d name = Some (r, ofs, s1)" "kept 3 s s1" "map_option inode_sector r = dir_map ?bs name"
    by (rule lookup_spec [OF d])
  have d1: "dir_file s1 ?p" by (rule kept_dir_file [OF l(2) d])
  obtain j r' s2 where f: "dir_scan s1 ?p (\<lambda>e. \<not> in_use e) 0 = Some (r', sizeof_entry * j, s2)" "kept 3 s1 s2"
      "j \<le> length (dir_entries (file_bytes s1 ?p))" "j < length (dir_entries (file_bytes s1 ?p)) \<Longrightarrow> \<not> in_use (dir_entries (file_bytes s1 ?p) ! j)"
    by (rule free_entry_spec [OF d1]) blast
  have k: "kept 6 s s2" using scan_kept_trans [OF l(2) f(2)] by simp
  have d2: "dir_file s2 ?p" by (rule kept_dir_file [OF f(2) d1])
  have b: "file_bytes s1 ?p = ?bs" "file_bytes s2 ?p = ?bs" using l(2) k d by (auto simp: kept_def dir_file_def)
  have fi: "fs_inv s2" "?p \<in> files s2" "dense s2 ?p" using d2 by (auto simp: dir_file_def)
  have w2: "writable s2 ?p" using w k by (simp add: kept_def same_inodes_def)
  have jl: "sizeof_entry * j \<le> length (file_bytes s2 ?p)"
  proof -
    have "sizeof_entry * j \<le> sizeof_entry * (length ?bs div sizeof_entry)" using f(3) b by (intro mult_le_mono2) simp
    also have "\<dots> \<le> length ?bs" by simp
    finally show ?thesis using b by simp
  qed
  then have mx: "sizeof_entry * j + length (encode_entry ?e) < FILE_MAX" using sz b by simp
  have sp: "3 * (length (encode_entry ?e) div DISK_SECTOR_SIZE + 2) \<le> nfree s2" using spare k by (simp add: kept_def)
  obtain s3 where s3: "inode_write_at s2 ?p (encode_entry ?e) (sizeof_entry * j) = Some (length (encode_entry ?e), s3)" "fs_inv s3" "same_inodes s2 s3"
      "file_bytes s3 ?p = store_bytes (file_bytes s2 ?p) (sizeof_entry * j) (encode_entry ?e)"
      "\<forall>q \<in> files s2. (q \<noteq> ?p \<longrightarrow> file_bytes s3 q = file_bytes s2 q) \<and> (dense s2 q \<longrightarrow> dense s3 q)"
    using inode_write_law [OF fi(1,2) w2 fi(3) jl mx sp] by blast
  have "r = None" using l(3) none by simp
  then have add: "dir_add s d name sec = Some (True, s3)"
    using name l(1) f(1) s3(1) by (simp add: dir_add_def name_ok_def)
  have "dir_map (file_bytes s3 ?p) = (dir_map ?bs)(name \<mapsto> sec)"
    unfolding s3(4) b using f(3,4) b name none by (intro dir_map_store) auto
  moreover have "dir_file s3 ?p" using s3 fi same_files [OF s3(3)] by (simp add: dir_file_def)
  moreover have "file_bytes s3 q = file_bytes s q" if "q \<in> files s" "q \<noteq> ?p" for q
  proof -
    have "files s2 = files s" using k same_files [of s s2] by (simp add: kept_def)
    then show ?thesis using s3(5) k that by (simp add: kept_def)
  qed
  ultimately show thesis using add by (intro that)
qed

section \<open>Properties\<close>

text \<open>C39. Adding a name that a directory does not have, with room for it and twelve free sectors, succeeds; afterwards a
  lookup finds the new entry's sector under that name and what was there before under every other name, and no other
  open file has changed.\<close>

theorem dir_add_lookup:
  assumes "dir_file s (d_inode d)" and "writable s (d_inode d)" and "name_ok name" and "dir_map (file_bytes s (d_inode d)) name = None"
    and "length (file_bytes s (d_inode d)) + sizeof_entry < FILE_MAX" and "12 \<le> nfree s"
  shows "\<exists>s1 r ofs s2. dir_add s d name sec = Some (True, s1) \<and> lookup s1 d n = Some (r, ofs, s2) \<and>
      map_option inode_sector r = (if n = name then Some sec else dir_map (file_bytes s (d_inode d)) n) \<and>
      (\<forall>q \<in> files s - {d_inode d}. file_bytes s1 q = file_bytes s q)"
proof -
  obtain s1 where s1: "dir_add s d name sec = Some (True, s1)" "dir_file s1 (d_inode d)"
      "dir_map (file_bytes s1 (d_inode d)) = (dir_map (file_bytes s (d_inode d)))(name \<mapsto> sec)"
      "\<And>q. q \<in> files s \<Longrightarrow> q \<noteq> d_inode d \<Longrightarrow> file_bytes s1 q = file_bytes s q"
    by (rule dir_add_new [OF assms]) blast
  obtain r ofs s2 where "lookup s1 d n = Some (r, ofs, s2)" "map_option inode_sector r = dir_map (file_bytes s1 (d_inode d)) n"
    by (rule lookup_spec [OF s1(2)])
  then show ?thesis using s1(1,3,4) by auto
qed

lemma small_dense: "p \<noteq> 1 \<Longrightarrow> dense (small_fs w) p"
  by (simp add: dense_def small_files small_inode_def no_sectors_def)

lemma small_spare: "12 \<le> nfree (small_fs 15)"
proof -
  have "{10..<22} \<subseteq> {..<64} - used_bits (free_map (small_fs 15))"
  proof
    fix i :: nat assume i: "i \<in> {10..<22}"
    have "\<not> bit (15 :: u32) i" using i bit_15 [of i] by auto
    then show "i \<in> {..<64} - used_bits (free_map (small_fs 15))" using i by (simp add: used_bits_def bits_of_def small_fs_def)
  qed
  then have "card {10..<22 :: nat} \<le> card ({..<64} - used_bits (free_map (small_fs 15)))" by (rule card_mono [rotated]) simp
  then show ?thesis by (simp add: nfree_def small_fs_def)
qed

theorem dir_add_lookup_witness:
  "\<exists>s1 r ofs s2. dir_add (small_fs 15) \<lparr>d_inode = 2, d_pos = 0\<rparr> [97] 3 = Some (True, s1) \<and>
     lookup s1 \<lparr>d_inode = 2, d_pos = 0\<rparr> [97] = Some (r, ofs, s2) \<and> map_option inode_sector r = Some 3"
proof -
  let ?d = "\<lparr>d_inode = 2, d_pos = 0\<rparr>"
  have d: "dir_file (small_fs 15) 2" using small_inv15 small_dense [of 2 15] by (simp add: dir_file_def small_files)
  have "dir_map (file_bytes (small_fs 15) 2) [97] = None" by (simp add: small_bytes dir_map_def dir_entries_def)
  with dir_add_lookup [of "small_fs 15" ?d "[97]" 3 "[97]"] d small_spare show ?thesis
    by (auto simp: name_ok_def small_bytes)
qed

text \<open>C40. Opening the path "." and closing the file again frees the inode of the current directory while the process still has it:
  the lookup of "." returns the directory's inode without counting a new opener. The next lookup from the current directory is an access
  to freed memory.\<close>

theorem dot_frees_current_dir:
  assumes "deref s (d_inode cwd) = Some i" and "d_inode cwd \<noteq> NULL" and "open_cnt i = 1" and "\<not> removed i" and "distinct (open_inodes s)"
    and "outcomes s = []" and "disk_write (filesys_disk (cache s)) (sector i) (encode_inode (data i)) = Some dk"
  shows "\<exists>f s1 s2. filesys_open s cwd [46] = Some (Some f, s1) \<and> file_close s1 (Some f) = Some s2 \<and> dir_lookup s2 cwd name = None"
proof -
  let ?p = "d_inode cwd" and ?dr = "\<lparr>d_inode = d_inode cwd, d_pos = 0\<rparr>"
  let ?s1 = "upd_inode s ?p (\<lambda>i. i\<lparr>open_cnt := open_cnt i + 1\<rparr>)"
  let ?s2 = "upd_inode ?s1 ?p (\<lambda>i. i\<lparr>open_cnt := open_cnt i - 1\<rparr>)"
  let ?s3 = "upd_inode ?s2 ?p (\<lambda>i. i\<lparr>open_cnt := open_cnt i - 1\<rparr>)"
  let ?s4 = "?s3\<lparr>open_inodes := remove1 ?p (open_inodes ?s3), cache := (cache ?s3)\<lparr>filesys_disk := dk\<rparr>\<rparr>"
  have p: "?p \<in> set (open_inodes s)" "inode_at s ?p = i" using assms(1) by (simp_all add: deref_def split: if_splits)
  have al: "alloc_memory s = (True, s)" "alloc_memory ?s1 = (True, ?s1)" "alloc_memory ?s2 = (True, ?s2)"
    using assms(6) by (simp_all add: alloc_memory_def upd_inode_def)
  have d1: "deref ?s1 ?p = Some (i\<lparr>open_cnt := 2\<rparr>)" "deref ?s2 ?p = Some (i\<lparr>open_cnt := 1\<rparr>)" using p assms(3) by (simp_all add: deref_def)
  have "dir_reopen s cwd = Some (Some ?dr, ?s1)" using assms(1,2) al(2) by (simp add: dir_reopen_def inode_reopen_def dir_open_def)
  then have "filesys_find_dir s cwd [46] = Some (Some ?dr, [46], ?s1)" using al(1) by (simp add: filesys_find_dir_def filesys_parse_def)
  moreover have "dir_lookup ?s1 ?dr [46] = Some (?p, ?s1)" using d1(1) assms(4) by (simp add: dir_lookup_def)
  moreover have "dir_close ?s1 (Some ?dr) = Some ?s2" using d1(1) assms(2) by (simp add: dir_close_def inode_close_def)
  moreover have "file_open ?s2 ?p = Some (Some \<lparr>f_inode = ?p, f_pos = 0, f_deny = False\<rparr>, ?s2)" using al(3) assms(2) by (simp add: file_open_def)
  ultimately have o: "filesys_open s cwd [46] = Some (Some \<lparr>f_inode = ?p, f_pos = 0, f_deny = False\<rparr>, ?s2)"
    using assms(2) by (simp add: filesys_open_def start_dir_def filesys_find_and_open_def)
  have "disk_write (filesys_disk (cache ?s3)) (sector i) (encode_inode (data i)) = Some dk" using assms(7) by simp
  then have "inode_close ?s2 ?p = Some ?s4" using d1(2) assms(2,4) by (simp add: inode_close_def Let_def)
  then have c: "file_close ?s2 (Some \<lparr>f_inode = ?p, f_pos = 0, f_deny = False\<rparr>) = Some ?s4" by (simp add: file_close_def file_allow_write_def)
  have "deref ?s4 ?p = None" using assms(5) by (simp add: deref_def)
  then have "dir_lookup ?s4 cwd name = None" by (simp add: dir_lookup_def)
  then show ?thesis using o c by blast
qed

theorem dot_frees_current_dir_witness:
  "\<exists>f s1 s2. filesys_open (small_fs 15) \<lparr>d_inode = 2, d_pos = 0\<rparr> [46] = Some (Some f, s1) \<and> file_close s1 (Some f) = Some s2 \<and>
     dir_lookup s2 \<lparr>d_inode = 2, d_pos = 0\<rparr> [97] = None"
proof -
  let ?i = "small_inode 2"
  have len: "length (encode_inode (data ?i)) = DISK_SECTOR_SIZE"
    unfolding encode_inode_def length_words by (simp add: small_inode_def no_sectors_def)
  have "disk_write blank_disk 1 (encode_inode (data ?i)) \<noteq> None"
    using len by (simp add: disk_write_def select_sector_def blank_disk_def issue_pio_command_def push_bit_eq_mult Let_def)
  then obtain dk where dk: "disk_write blank_disk 1 (encode_inode (data ?i)) = Some dk" by blast
  show ?thesis
    by (rule dot_frees_current_dir [where i = ?i and dk = dk])
      (use dk in \<open>simp_all add: deref_def small_fs_def small_inode_def cache_table_init_def\<close>)
qed

end
