(* ===== verification/Inode_Open.thy ===== *)
theory Inode_Open
  imports Inode_Props
begin

text \<open>
  Closing and opening files, \<open>inode_close\<close> and \<open>inode_open\<close> of \<open>src/filesys/inode.c\<close>. The inode of an open file is in memory; the
  last \<open>inode_close\<close> writes it to its sector, past the cache, and the next \<open>inode_open\<close> of the sector reads it.
\<close>

section \<open>The inode on disk\<close>

lemma decode_encode_inode:
  assumes "length (direct d) = DIRECT_MAX" and "ilength d < 2 ^ 31"
  shows "length (encode_inode d) = DISK_SECTOR_SIZE" "decode_inode (encode_inode d) = d"
proof -
  let ?ws = "direct d @ [indirect d, double_indirect d, is_dir d, parent_dir d, of_nat (ilength d), imagic d] @ replicate 110 0"
  have len: "length ?ws = 128" using assms(1) by simp
  have w: "word_at (encode_inode d) i = ?ws ! i" if "i < 18" for i
    unfolding encode_inode_def by (rule word_at_words) (use that len in simp)
  have dir: "map (word_at (encode_inode d)) [0..<DIRECT_MAX] = direct d"
    by (rule nth_equalityI) (use assms(1) w in \<open>auto simp: nth_append\<close>)
  have "unat (of_nat (ilength d) :: u32) = ilength d" using assms(2) by (simp only: unat_of_nat) simp
  then show "decode_inode (encode_inode d) = d"
    unfolding decode_inode_def dir using assms(1) w [of 12] w [of 13] w [of 14] w [of 15] w [of 16] w [of 17]
    by (cases d) (simp add: nth_append)
  show "length (encode_inode d) = DISK_SECTOR_SIZE" unfolding encode_inode_def length_words len by simp
qed

section \<open>Writing past the cache\<close>

text \<open>The disk has changed in at most one sector, and the cache is as it was.\<close>

definition disk_changed :: "cache_table \<Rightarrow> cache_table \<Rightarrow> u32 set \<Rightarrow> bool" where
  "disk_changed c c' X \<longleftrightarrow> (\<exists>dk. c' = c\<lparr>filesys_disk := dk\<rparr> \<and> capacity dk = capacity (filesys_disk c) \<and>
     (\<forall>x. x \<notin> X \<longrightarrow> sectors dk x = sectors (filesys_disk c) x) \<and> (\<forall>x. length (sectors dk x) = DISK_SECTOR_SIZE))"

lemma disk_upd_inj: "c\<lparr>filesys_disk := dk\<rparr> = c\<lparr>filesys_disk := dk'\<rparr> \<longleftrightarrow> dk = dk'"
proof
  assume "c\<lparr>filesys_disk := dk\<rparr> = c\<lparr>filesys_disk := dk'\<rparr>"
  then have "filesys_disk (c\<lparr>filesys_disk := dk\<rparr>) = filesys_disk (c\<lparr>filesys_disk := dk'\<rparr>)" by (rule arg_cong)
  then show "dk = dk'" by simp
qed simp

lemma disk_changed_upd:
  "disk_changed c (c\<lparr>filesys_disk := dk\<rparr>) X \<longleftrightarrow> capacity dk = capacity (filesys_disk c) \<and>
     (\<forall>x. x \<notin> X \<longrightarrow> sectors dk x = sectors (filesys_disk c) x) \<and> (\<forall>x. length (sectors dk x) = DISK_SECTOR_SIZE)"
  unfolding disk_changed_def disk_upd_inj by blast

lemma disk_changed_trans:
  assumes "disk_changed c c' X" "disk_changed c' c'' Y"
  shows "disk_changed c c'' (X \<union> Y)"
proof -
  obtain dk where dk: "c' = c\<lparr>filesys_disk := dk\<rparr>" using assms(1) unfolding disk_changed_def by blast
  obtain dk' where e: "c'' = c'\<lparr>filesys_disk := dk'\<rparr>" using assms(2) unfolding disk_changed_def by blast
  then have dk': "c'' = c\<lparr>filesys_disk := dk'\<rparr>" by (simp add: dk)
  show ?thesis using assms(1) assms(2) [unfolded e disk_changed_upd] unfolding dk' disk_changed_upd unfolding dk disk_changed_upd by simp
qed

lemma disk_changedD:
  assumes "disk_changed c c' X" "cache_ok c"
  shows "cache_ok c'" "disk_limit c' = disk_limit c" "\<And>x. x \<notin> X \<Longrightarrow> sector_view c' x = sector_view c x"
    "\<And>x. length (sector_view c' x) = DISK_SECTOR_SIZE"
proof -
  obtain dk where dk: "c' = c\<lparr>filesys_disk := dk\<rparr>" "capacity dk = capacity (filesys_disk c)"
      "\<And>x. x \<notin> X \<Longrightarrow> sectors dk x = sectors (filesys_disk c) x" "\<And>x. length (sectors dk x) = DISK_SECTOR_SIZE"
    using assms(1) by (auto simp: disk_changed_def)
  show l: "disk_limit c' = disk_limit c" using dk(1,2) by (simp add: disk_limit_def fun_eq_iff)
  show ok: "cache_ok c'" using assms(2) dk(4) unfolding cache_ok_def l by (simp add: dk(1))
  show "sector_view c' x = sector_view c x" if "x \<notin> X" for x
    using dk(3) [OF that] by (simp add: sector_view_def dk(1) cache_table_find_def split: option.split)
  show "length (sector_view c' x) = DISK_SECTOR_SIZE" for x
    using ok by (auto simp: sector_view_def cache_ok_def cache_table_find_def dest: find_block split: option.split)
qed

text \<open>Files do not notice a change of a sector they do not have.\<close>

lemma unowned_slots:
  assumes lay: "layout v K D" and same: "\<And>x. x \<in> owned v K D \<Longrightarrow> v' x = v x" and q: "q \<in> K" "valid_slot y"
  shows "slot_sector v' (D q) y = slot_sector v (D q) y"
  using same ownedI [OF q(1)] by (intro slot_sector_cong [OF _ q(2)]) auto

lemma unowned_content:
  assumes lay: "layout v K D" and same: "\<And>x. x \<in> owned v K D \<Longrightarrow> v' x = v x" and q: "q \<in> K" "pos < BLOCK_MAX"
  shows "content v' (D q) pos = content v (D q) pos"
proof -
  have "valid_slot (Blk pos)" using q by simp
  then have u: "slot_sector v' (D q) (Blk pos) = slot_sector v (D q) (Blk pos)" using same by (intro unowned_slots [OF lay _ q(1)])
  show ?thesis unfolding content_def u using same ownedI [OF q(1) \<open>valid_slot (Blk pos)\<close>] by (auto simp del: slot_sector.simps)
qed

section \<open>The invariant\<close>

text \<open>Other files are open in memory: \<open>K'\<close> are the old files \<open>f q\<close>, some of them perhaps under new addresses \<open>q\<close>.\<close>

lemma fs_ok_other:
  assumes ok: "fs_ok m K D s" and c: "disk_changed (cache s) (cache s') X" "X \<inter> owned (view s) K D = {}"
    and keep: "free_map s' = free_map s" "free_map_file s' = free_map_file s"
    and f: "inj_on f K'" "f ` K' \<subseteq> K" "\<And>q. q \<in> K' \<Longrightarrow> D' q = D (f q)" "m \<in> K'" "f m = m"
    and m: "m \<in> set (open_inodes s')" "inode_at s' m = inode_at s m"
  shows "fs_ok m K' D' s'" "\<And>q pos. q \<in> K' \<Longrightarrow> pos < BLOCK_MAX \<Longrightarrow> content (view s') (D' q) pos = content (view s) (D (f q)) pos"
proof -
  note o = fs_okD [OF ok]
  note v = disk_changedD [OF c(1) o(1)]
  have same: "view s' x = view s x" if "x \<in> owned (view s) K D" for x using v(3) [of x] c(2) that by blast
  have fK: "f q \<in> K" if "q \<in> K'" for q using f(2) that by blast
  have slot: "slot_sector (view s') (D' q) y = slot_sector (view s) (D (f q)) y" if "q \<in> K'" "valid_slot y" for q y
    unfolding f(3) [OF that(1)] using same by (intro unowned_slots [OF o(5) _ fK [OF that(1)] that(2)])
  show cont: "content (view s') (D' q) pos = content (view s) (D (f q)) pos" if "q \<in> K'" "pos < BLOCK_MAX" for q pos
    unfolding f(3) [OF that(1)] using same by (intro unowned_content [OF o(5) _ fK [OF that(1)] that(2)])
  have own: "z \<in> own (view s') K' D' \<Longrightarrow> map_prod f id z \<in> own (view s) K D" for z
    unfolding own_def using slot fK by (auto simp del: slot_sector.simps)
  have "inj_on (\<lambda>(q, x). slot_sector (view s') (D' q) x) (own (view s') K' D')"
  proof (rule inj_onI, clarify)
    fix q x r y assume a: "(q, x) \<in> own (view s') K' D'" "(r, y) \<in> own (view s') K' D'"
      "slot_sector (view s') (D' q) x = slot_sector (view s') (D' r) y"
    then have k: "q \<in> K'" "r \<in> K'" "valid_slot x" "valid_slot y" "slot_sector (view s') (D' q) x \<noteq> UNUSED_SECTOR"
      by (auto simp: own_def simp del: slot_sector.simps)
    have "f q = f r \<and> x = y"
      using layout_inj [OF o(5) fK [OF k(1)] fK [OF k(2)] k(3,4)] a(3) k(5) slot [OF k(1,3)] slot [OF k(2,4)] by simp
    then show "q = r \<and> x = y" using f(1) k(1,2) by (auto dest: inj_onD)
  qed
  moreover have "length (direct (D' q)) = DIRECT_MAX" if "q \<in> K'" for q using o(5) fK [OF that] f(3) [OF that] by (simp add: layout_def)
  ultimately have lay: "layout (view s') K' D'" using v(4) by (simp add: layout_def)
  have ow: "owned (view s') K' D' \<subseteq> owned (view s) K D"
  proof
    fix x assume "x \<in> owned (view s') K' D'"
    then obtain q y where q: "q \<in> K'" "valid_slot y" "slot_sector (view s') (D' q) y \<noteq> UNUSED_SECTOR" "x = slot_sector (view s') (D' q) y"
      by (auto simp: owned_def own_def simp del: slot_sector.simps)
    then show "x \<in> owned (view s) K D" using slot [OF q(1,2)] ownedI [OF fK [OF q(1)] q(2), of "view s" D] by simp
  qed
  have mb: "map_blocks s' = map_blocks s" by (simp add: map_blocks_def keep)
  have Dm: "D' m = D m" using f(3-5) by metis
  have "slot_sector (view s') (D' m) (Blk pos) \<noteq> UNUSED_SECTOR" if "pos < map_blocks s" for pos
  proof -
    have "pos < BLOCK_MAX" using that map_blocks_max [OF ok] by simp
    then have "valid_slot (Blk pos)" by simp
    from slot [OF f(4) this] o(12) [OF that] f(5) show ?thesis by (simp del: slot_sector.simps)
  qed
  moreover have "unat ` owned (view s') K' D' \<subseteq> used_bits (free_map s)" using ow o(6) by auto
  ultimately show "fs_ok m K' D' s'"
    using ok lay v(1,2) m f(4) Dm unfolding fs_ok_def keep mb by (auto simp del: slot_sector.simps)
qed

lemma fs_inv_other:
  assumes inv: "fs_inv s" and c: "disk_changed (cache s) (cache s') X" "X \<inter> owned (view s) (set (open_inodes s)) (file_data s) = {}"
    and keep: "free_map s' = free_map s" "free_map_file s' = free_map_file s"
    and f: "inj_on f (set (open_inodes s'))" "f ` set (open_inodes s') \<subseteq> set (open_inodes s)"
      "\<And>q. q \<in> set (open_inodes s') \<Longrightarrow> file_data s' q = file_data s (f q)"
    and m: "map_inode s \<in> set (open_inodes s')" "f (map_inode s) = map_inode s" "inode_at s' (map_inode s) = inode_at s (map_inode s)"
  shows "fs_inv s'" "\<And>q. q \<in> files s' \<Longrightarrow> file_bytes s' q = file_bytes s (f q)"
proof -
  have mm: "map_inode s' = map_inode s" by (simp add: map_inode_def keep)
  have ok: "fs_ok (map_inode s) (set (open_inodes s)) (file_data s) s" using inv by (simp add: fs_inv_def)
  note o = fs_ok_other [OF ok c keep f m(1,2,1,3)]
  have fil: "f q \<in> files s" "q \<in> set (open_inodes s')" if "q \<in> files s'" for q
    using that f(1,2) m(1,2) inj_onD [OF f(1), of q "map_inode s"] by (auto simp: files_def mm)
  have fb: "fbyte (view s') (file_data s' q) x = fbyte (view s) (file_data s (f q)) x" if "q \<in> files s'" "x < FILE_MAX" for q x
    by (rule fbyte_cong [OF o(2) that(2)]) (use fil(2) [OF that(1)] in simp_all)
  have le: "ilength (file_data s' q) = ilength (file_data s (f q))" "ilength (file_data s (f q)) < FILE_MAX" if "q \<in> files s'" for q
    using f(3) [OF fil(2) [OF that]] inv fil(1) [OF that] by (auto simp: fs_inv_def)
  show "fs_inv s'" unfolding fs_inv_def mm using o(1) fb le fil(1) inv by (simp add: fs_inv_def)
  show "file_bytes s' q = file_bytes s (f q)" if "q \<in> files s'" for q
    unfolding file_bytes_def le(1) [OF that] using le(2) [OF that] by (intro map_cong refl fb [OF that]) auto
qed

section \<open>The last close and the next open\<close>

lemma inode_close_last:
  assumes "p \<noteq> NULL" "p \<in> set (open_inodes s)" "open_cnt (inode_at s p) = 1" "\<not> removed (inode_at s p)"
    and "disk_limit (cache s) (sector (inode_at s p))" "length (direct (file_data s p)) = DIRECT_MAX" "ilength (file_data s p) < FILE_MAX"
    and "cache_ok (cache s)"
  shows "\<exists>s1. inode_close s p = Some s1 \<and> open_inodes s1 = remove1 p (open_inodes s) \<and> (\<forall>q. q \<noteq> p \<longrightarrow> inode_at s1 q = inode_at s q) \<and>
    disk_changed (cache s) (cache s1) {sector (inode_at s p)} \<and> sectors (filesys_disk (cache s1)) (sector (inode_at s p)) = encode_inode (file_data s p) \<and>
    free_map s1 = free_map s \<and> free_map_file s1 = free_map_file s \<and> next_inode s1 = next_inode s \<and> outcomes s1 = outcomes s"
proof -
  have e: "length (encode_inode (file_data s p)) = DISK_SECTOR_SIZE" using assms(6,7) by (intro decode_encode_inode) simp_all
  show ?thesis
    using assms(1-5,8) e unfolding inode_close_def
    by (simp add: deref_def upd_inode_def disk_write_eq disk_limit_def file_data_def disk_changed_upd cache_ok_def)
qed

lemma inode_open_first:
  assumes "\<And>q. q \<in> set (open_inodes s) \<Longrightarrow> sector (inode_at s q) \<noteq> sec" "fst (alloc_memory s)" "disk_limit (cache s) sec" "cache_ok (cache s)"
  shows "\<exists>s2. inode_open s sec = Some (next_inode s, s2) \<and> open_inodes s2 = next_inode s # open_inodes s \<and>
    (\<forall>q. q \<noteq> next_inode s \<longrightarrow> inode_at s2 q = inode_at s q) \<and> disk_changed (cache s) (cache s2) {} \<and>
    inode_at s2 (next_inode s) = \<lparr>sector = sec, open_cnt = 1, removed = False, deny_write_cnt = 0, data = decode_inode (sectors (filesys_disk (cache s)) sec)\<rparr> \<and>
    free_map s2 = free_map s \<and> free_map_file s2 = free_map_file s \<and> next_inode s2 = next_inode s + 1"
proof -
  have "List.find (\<lambda>p. sector (inode_at s p) = sec) (open_inodes s) = None" using assms(1) by (auto simp: find_None_iff)
  moreover obtain t where t: "alloc_memory s = (True, t)" "cache t = cache s" "next_inode t = next_inode s" "open_inodes t = open_inodes s"
      "inode_at t = inode_at s" "free_map t = free_map s" "free_map_file t = free_map_file s"
    using assms(2) by (cases "outcomes s") (auto simp: alloc_memory_def)
  ultimately show ?thesis
    using assms(3,4) unfolding inode_open_def by (simp add: disk_read_eq disk_limit_def disk_changed_upd cache_ok_def Let_def)
qed

section \<open>Properties\<close>

text \<open>C38. A file survives its last \<open>inode_close\<close>. For an open file that has one opener, is not removed and is the only open inode
  of its sector, where the sector is on the disk, holds no data of an open file, and \<open>malloc\<close> finds memory for the inode: the close
  frees the inode, so that no access through the old pointer succeeds, and keeps the bytes of all other open files; \<open>inode_open\<close> of the
  sector then gives a new inode, in which the file has the bytes, the length and the sectors it had before the close, though
  \<open>inode_write_at\<close> and block allocation changed them in memory only. The layout of the disk stays sound throughout.\<close>

theorem inode_close_open:
  assumes "fs_inv s" and "distinct (open_inodes s)" and "next_inode s \<notin> set (open_inodes s)" and "fst (alloc_memory s)"
    and "p \<in> files s" and "p \<noteq> NULL" and "sec = sector (inode_at s p)" and "open_cnt (inode_at s p) = 1" and "\<not> removed (inode_at s p)"
    and "\<forall>q \<in> set (open_inodes s) - {p}. sector (inode_at s q) \<noteq> sec"
    and "disk_limit (cache s) sec" and "sec \<notin> owned (view s) (set (open_inodes s)) (file_data s)"
  shows "\<exists>s1 q s2. inode_close s p = Some s1 \<and> deref s1 p = None \<and> fs_inv s1 \<and> files s1 = files s - {p} \<and>
    (\<forall>r \<in> files s1. file_bytes s1 r = file_bytes s r) \<and>
    inode_open s1 sec = Some (q, s2) \<and> q \<notin> set (open_inodes s) \<and> fs_inv s2 \<and> files s2 = insert q (files s - {p}) \<and>
    file_data s2 q = file_data s p \<and> file_bytes s2 q = file_bytes s p \<and> (\<forall>r \<in> files s - {p}. file_bytes s2 r = file_bytes s r)"
proof -
  note f = fs_inv_files [OF assms(1,5)]
  let ?q = "next_inode s" and ?m = "map_inode s"
  have d: "length (direct (file_data s p)) = DIRECT_MAX" using fs_okD(5) [OF f(1)] f(2) by (simp add: layout_def)
  obtain s1 where s1: "inode_close s p = Some s1" "open_inodes s1 = remove1 p (open_inodes s)" "\<And>q. q \<noteq> p \<Longrightarrow> inode_at s1 q = inode_at s q"
      "disk_changed (cache s) (cache s1) {sec}" "sectors (filesys_disk (cache s1)) sec = encode_inode (file_data s p)"
      "free_map s1 = free_map s" "free_map_file s1 = free_map_file s" "next_inode s1 = ?q" "outcomes s1 = outcomes s"
    using inode_close_last [OF assms(6) f(2) assms(8,9) _ d f(4) fs_okD(1) [OF f(1)]] assms(7,11) by auto
  note c1 = disk_changedD [OF s1(4) fs_okD(1) [OF f(1)]]
  have o1: "set (open_inodes s1) = set (open_inodes s) - {p}" using s1(2) assms(2) by simp
  have "\<And>q. q \<in> set (open_inodes s1) \<Longrightarrow> sector (inode_at s1 q) \<noteq> sec" "fst (alloc_memory s1)"
    using assms(4,10) s1(3,9) by (auto simp: o1 alloc_memory_def split: list.splits)
  then obtain s2 where s2: "inode_open s1 sec = Some (?q, s2)" "open_inodes s2 = ?q # open_inodes s1" "\<And>q. q \<noteq> ?q \<Longrightarrow> inode_at s2 q = inode_at s1 q"
      "disk_changed (cache s1) (cache s2) {}" "data (inode_at s2 ?q) = decode_inode (encode_inode (file_data s p))"
      "free_map s2 = free_map s" "free_map_file s2 = free_map_file s"
    using inode_open_first [of s1 sec] c1(1,2) assms(11) s1(5-8) by auto
  have data: "file_data s2 ?q = file_data s p" using s2(5) decode_encode_inode(2) [OF d] f(4) by (simp add: file_data_def)
  have X: "{sec} \<inter> owned (view s) (set (open_inodes s)) (file_data s) = {}" using assms(12) by simp
  have m: "?m \<in> set (open_inodes s)" "?m \<noteq> p" "?m \<noteq> ?q" using fs_okD(8) [OF f(1)] f(3) assms(3) by auto
  have s1': "fs_inv s1" "\<And>r. r \<in> files s1 \<Longrightarrow> file_bytes s1 r = file_bytes s (id r)"
    by (rule fs_inv_other [OF assms(1) s1(4) X s1(6,7)]; use s1(3) m in \<open>simp add: o1 file_data_def\<close>)+
  let ?f = "\<lambda>r. if r = ?q then p else r"
  have o2: "set (open_inodes s2) = insert ?q (set (open_inodes s) - {p})" using s2(2) by (simp add: o1)
  have f2: "inj_on ?f (set (open_inodes s2))" "?f ` set (open_inodes s2) \<subseteq> set (open_inodes s)"
    unfolding o2 using assms(3) f(2) by (auto simp: inj_on_def)
  have d2: "file_data s2 r = file_data s (?f r)" if "r \<in> set (open_inodes s2)" for r
    using data s2(3) [of r] s1(3) [of r] that unfolding o2 by (auto simp: file_data_def)
  have c2: "disk_changed (cache s) (cache s2) {sec}" using disk_changed_trans [OF s1(4) s2(4)] by simp
  have s2': "fs_inv s2" "\<And>r. r \<in> files s2 \<Longrightarrow> file_bytes s2 r = file_bytes s (?f r)"
    by (rule fs_inv_other [OF assms(1) c2 X s2(6,7) f2 d2]; use m s1(3) s2(3) in \<open>simp add: o2\<close>)+
  have fil: "files s1 = files s - {p}" "files s2 = insert ?q (files s - {p})"
    using s1(7) s2(7) m(3) unfolding files_def o1 o2 map_inode_def by auto
  have "file_bytes s2 r = file_bytes s r" if "r \<in> files s - {p}" for r
  proof -
    have "r \<noteq> ?q" "r \<in> files s2" using that assms(3) unfolding fil(2) by (auto simp: files_def)
    then show ?thesis using s2'(2) [of r] by simp
  qed
  then show ?thesis
    using s1(1) s1' s2(1) s2' fil data assms(3) by (intro exI [of _ s1] exI [of _ ?q] exI [of _ s2]) (simp add: deref_def o1)
qed

text \<open>The file of the witness has two bytes, a hole without a sector: its length is in the inode only.\<close>

lemma slot_sector_ilength: "slot_sector v (d\<lparr>ilength := n\<rparr>) x = slot_sector v d x"
  by (cases x) simp_all

theorem inode_close_open_witness:
  "\<exists>s1 q s2. inode_close (longer (small_fs 15) 3 2) 3 = Some s1 \<and> deref s1 3 = None \<and> files s1 = {2} \<and>
    inode_open s1 3 = Some (q, s2) \<and> fs_inv s2 \<and> files s2 = {2, q} \<and> file_bytes s2 q = [0, 0] \<and> file_bytes s2 2 = []"
proof -
  let ?s = "longer (small_fs 15) 3 2"
  have 3: "3 \<in> files (small_fs 15)" by (simp add: small_files)
  note l = longer_spec [OF small_inv15 3, of 2]
  have eq: "?s = upd_inode (small_fs 15) 3 (\<lambda>i. i\<lparr>data := (data i)\<lparr>ilength := 2\<rparr>\<rparr>)"
    by (simp add: longer_def small_files small_inode_def no_sectors_def)
  have st: "open_inodes ?s = [3, 2, 1]" "next_inode ?s = 4" "outcomes ?s = []" "cache ?s = cache_table_init blank_disk" "files ?s = {2, 3}"
    "inode_at ?s = small_inode (3 := (small_inode 3)\<lparr>data := no_sectors\<lparr>ilength := 2\<rparr>\<rparr>)"
    unfolding eq by (auto simp: upd_inode_def small_fs_def files_def map_inode_def small_inode_def)
  have d: "file_data ?s = (\<lambda>p. data (small_inode p)) (3 := no_sectors\<lparr>ilength := 2\<rparr>)" by (auto simp: file_data_def st(6))
  have slot: "slot_sector v (file_data ?s p) x = slot_sector v (data (small_inode p)) x" for v p x
    unfolding d by (simp add: slot_sector_ilength small_inode_def)
  have v: "view ?s = (\<lambda>_. zeros)" using small_view(2) by (simp add: st(4))
  have "owned (view ?s) (set (open_inodes ?s)) (file_data ?s) = owned (\<lambda>_. zeros) {1, 2, 3} (\<lambda>p. data (small_inode p))"
    unfolding owned_def own_def slot v st(1) by (simp add: insert_commute del: slot_sector.simps)
  then have own: "3 \<notin> owned (view ?s) (set (open_inodes ?s)) (file_data ?s)" using small_layout(2) [of "{1, 2, 3}"] by auto
  have two: "[0..<2] = [0, 1 :: nat]" by (simp add: upt_rec)
  have bytes: "file_bytes ?s p = (if p = 3 then [0, 0] else [])" if "p \<in> {2, 3}" for p
    using that two unfolding file_bytes_def v fbyte_def content_def slot by (auto simp: d small_inode_def no_sectors_def zeros_def)
  have "\<exists>s1 q s2. inode_close ?s 3 = Some s1 \<and> deref s1 3 = None \<and> fs_inv s1 \<and> files s1 = files ?s - {3} \<and>
      (\<forall>r \<in> files s1. file_bytes s1 r = file_bytes ?s r) \<and>
      inode_open s1 3 = Some (q, s2) \<and> q \<notin> set (open_inodes ?s) \<and> fs_inv s2 \<and> files s2 = insert q (files ?s - {3}) \<and>
      file_data s2 q = file_data ?s 3 \<and> file_bytes s2 q = file_bytes ?s 3 \<and> (\<forall>r \<in> files ?s - {3}. file_bytes s2 r = file_bytes ?s r)"
    by (rule inode_close_open [OF l(1) _ _ _ _ _ _ _ _ _ _ own])
      (simp_all add: st alloc_memory_def small_inode_def disk_limit_def cache_table_init_def blank_disk_def)
  then obtain s1 q s2 where w: "inode_close ?s 3 = Some s1" "deref s1 3 = None" "files s1 = files ?s - {3}" "inode_open s1 3 = Some (q, s2)" "fs_inv s2"
      "files s2 = insert q (files ?s - {3})" "file_bytes s2 q = file_bytes ?s 3" "\<forall>r \<in> files ?s - {3}. file_bytes s2 r = file_bytes ?s r" by blast
  have "files ?s - {3} = {2}" unfolding st(5) by auto
  then show ?thesis using w bytes [of 2] bytes [of 3] by (intro exI [of _ s1] exI [of _ q] exI [of _ s2]) (simp add: insert_commute)
qed

end
