(* ===== verification/Stdio.thy ===== *)
theory Stdio
  imports Stdlib
begin

unbundle bit_operations_syntax

text \<open>
  Formatted output, \<open>src/lib/stdio.c\<close>. The characters that a conversion passes to its output function, one call each, are the list that
  the model returns. A format is its bytes up to the terminator; arguments are a list of 32-bit and 64-bit words and of
  strings (\<open>None\<close> for a null pointer), and fetching one of the wrong size, or one too many, is an error, as is
  reading the format past its terminator and an overflow of a field width or precision.
\<close>

section \<open>Conversions\<close>

datatype va_arg = Arg_int u32 | Arg_long u64 | Arg_string "u8 list option"

datatype conv_type = CHAR_T | SHORT | INT_T | INTMAX | LONG | LONGLONG | PTRDIFFT | SIZET

record printf_flags =
  MINUS :: bool
  PLUS :: bool
  SPACE :: bool
  POUND :: bool
  ZERO :: bool
  GROUP :: bool

record printf_conversion =
  flags :: printf_flags
  width :: int
  precision :: int
  ctype :: conv_type

definition no_flags :: printf_flags where
  "no_flags = \<lparr>MINUS = False, PLUS = False, SPACE = False, POUND = False, ZERO = False, GROUP = False\<rparr>"

datatype integer_base = base_d | base_o | base_x | base_X

fun base :: "integer_base \<Rightarrow> nat" where
  "base base_d = 10"
| "base base_o = 8"
| "base base_x = 16"
| "base base_X = 16"

text \<open>The character for a digit, from the table of the base.\<close>

definition digit_char :: "integer_base \<Rightarrow> nat \<Rightarrow> u8" where
  "digit_char b d = (if d < 10 then of_nat (48 + d) else if b = base_X then of_nat (65 + (d - 10)) else of_nat (97 + (d - 10)))"

fun base_x_char :: "integer_base \<Rightarrow> u8" where
  "base_x_char base_x = 120"
| "base_x_char base_X = 88"
| "base_x_char _ = 0"

fun group :: "integer_base \<Rightarrow> nat" where
  "group base_d = 3"
| "group base_o = 3"
| "group base_x = 4"
| "group base_X = 4"

section \<open>Integers\<close>

definition output_dup :: "u8 \<Rightarrow> nat \<Rightarrow> u8 list" where
  "output_dup ch cnt = replicate cnt ch"

lemma base_gt: "1 < base b" by (cases b) simp_all

text \<open>The loop that puts the digits into the buffer, in reverse order.\<close>

function digits_loop :: "integer_base \<Rightarrow> bool \<Rightarrow> nat \<Rightarrow> nat \<Rightarrow> u8 list \<Rightarrow> u8 list" where
  "digits_loop b grouped value digit_cnt buf =
     (if value > 0
      then let buf = (if grouped \<and> digit_cnt > 0 \<and> digit_cnt mod group b = 0 then buf @ [44] else buf)
           in digits_loop b grouped (value div base b) (digit_cnt + 1) (buf @ [digit_char b (value mod base b)])
      else buf)"
  by pat_completeness auto

termination
  by (relation "measure (\<lambda>(b, g, value, n, buf). value)") (use base_gt in \<open>auto intro!: div_less_dividend\<close>)

declare digits_loop.simps [simp del]

definition BUF_SIZE :: nat where "BUF_SIZE = 64"

text \<open>The zeros for the precision are put after the digits. A buffer that is too small is an error.\<close>

definition precision_zeros :: "printf_conversion \<Rightarrow> u8 list \<Rightarrow> u8 list" where
  "precision_zeros c buf = buf @ replicate (min (if precision c < 0 then 1 else nat (precision c)) (BUF_SIZE - 1) - length buf) 48"

definition octal_zero :: "integer_base \<Rightarrow> printf_conversion \<Rightarrow> u8 list \<Rightarrow> u8 list" where
  "octal_zero b c buf = (if POUND (flags c) \<and> base b = 8 \<and> (buf = [] \<or> last buf \<noteq> 48) then buf @ [48] else buf)"

definition digits_buffer :: "integer_base \<Rightarrow> printf_conversion \<Rightarrow> nat \<Rightarrow> u8 list option" where
  "digits_buffer b c value = do {
     let buf = octal_zero b c (precision_zeros c (digits_loop b (GROUP (flags c)) value 0 []));
     ASSERT (length buf \<le> BUF_SIZE);
     Some buf
   }"

definition sign_char :: "bool \<Rightarrow> bool \<Rightarrow> printf_flags \<Rightarrow> u8" where
  "sign_char is_signed negative f =
     (if is_signed
      then if PLUS f then (if negative then 45 else 43)
           else if SPACE f then (if negative then 45 else 32)
           else if negative then 45 else 0
      else 0)"

text \<open>The order of the output, given the digits in reverse.\<close>

definition layout_integer :: "nat \<Rightarrow> bool \<Rightarrow> bool \<Rightarrow> integer_base \<Rightarrow> printf_conversion \<Rightarrow> u8 list \<Rightarrow> u8 list" where
  "layout_integer value is_signed negative b c buf =
     (let sign = sign_char is_signed negative (flags c);
          x = (if POUND (flags c) \<and> value \<noteq> 0 then base_x_char b else 0);
          pad_cnt = nat (width c - int (length buf) - (if x \<noteq> 0 then 2 else 0) - (if sign \<noteq> 0 then 1 else 0))
      in (if \<not> MINUS (flags c) \<and> \<not> ZERO (flags c) then output_dup 32 pad_cnt else []) @
       (if sign \<noteq> 0 then [sign] else []) @
       (if x \<noteq> 0 then [48, x] else []) @
       (if ZERO (flags c) then output_dup 48 pad_cnt else []) @
       rev buf @
       (if MINUS (flags c) then output_dup 32 pad_cnt else []))"

definition format_integer :: "nat \<Rightarrow> bool \<Rightarrow> bool \<Rightarrow> integer_base \<Rightarrow> printf_conversion \<Rightarrow> u8 list option" where
  "format_integer value is_signed negative b c = do {
     buf \<leftarrow> digits_buffer b c value;
     Some (layout_integer value is_signed negative b c buf)
   }"

definition format_string :: "u8 list \<Rightarrow> printf_conversion \<Rightarrow> u8 list" where
  "format_string s c =
     (if width c > int (length s) \<and> \<not> MINUS (flags c) then output_dup 32 (nat (width c - int (length s))) else []) @ s @
     (if width c > int (length s) \<and> MINUS (flags c) then output_dup 32 (nat (width c - int (length s))) else [])"

section \<open>Parsing a conversion\<close>

fun parse_flags :: "u8 list \<Rightarrow> printf_flags \<Rightarrow> u8 list \<times> printf_flags" where
  "parse_flags (ch # fmt) f =
     (if ch = 45 then parse_flags fmt (f\<lparr>MINUS := True\<rparr>)
      else if ch = 43 then parse_flags fmt (f\<lparr>PLUS := True\<rparr>)
      else if ch = 32 then parse_flags fmt (f\<lparr>SPACE := True\<rparr>)
      else if ch = 35 then parse_flags fmt (f\<lparr>POUND := True\<rparr>)
      else if ch = 48 then parse_flags fmt (f\<lparr>ZERO := True\<rparr>)
      else if ch = 39 then parse_flags fmt (f\<lparr>GROUP := True\<rparr>)
      else (ch # fmt, f))"
| "parse_flags [] f = ([], f)"

definition int_result :: "int \<Rightarrow> int option" where
  "int_result z = (if - (2 ^ 31) \<le> z \<and> z < 2 ^ 31 then Some z else None)"

fun parse_number :: "u8 list \<Rightarrow> int \<Rightarrow> (u8 list \<times> int) option" where
  "parse_number (ch # fmt) v =
     (if isdigit (sint ch) then do { v \<leftarrow> int_result (v * 10 + sint ch); parse_number fmt (v - 48) } else Some (ch # fmt, v))"
| "parse_number [] v = Some ([], v)"

fun take_int :: "va_arg list \<Rightarrow> (u32 \<times> va_arg list) option" where
  "take_int (Arg_int w # args) = Some (w, args)"
| "take_int _ = None"

fun take_long :: "va_arg list \<Rightarrow> (u64 \<times> va_arg list) option" where
  "take_long (Arg_long w # args) = Some (w, args)"
| "take_long _ = None"

fun take_string :: "va_arg list \<Rightarrow> (u8 list option \<times> va_arg list) option" where
  "take_string (Arg_string s # args) = Some (s, args)"
| "take_string _ = None"

definition parse_width :: "u8 list \<Rightarrow> va_arg list \<Rightarrow> printf_flags \<Rightarrow> (u8 list \<times> va_arg list \<times> printf_flags \<times> int) option" where
  "parse_width fmt args f = do {
     (fmt, args, w) \<leftarrow> (if fmt \<noteq> [] \<and> hd fmt = 42
        then do { (w, args) \<leftarrow> take_int args; Some (tl fmt, args, sint w) }
        else do { (fmt, w) \<leftarrow> parse_number fmt 0; Some (fmt, args, w) });
     if w < 0
     then do { w \<leftarrow> int_result (- w); Some (fmt, args, f\<lparr>MINUS := True\<rparr>, w) }
     else Some (fmt, args, f, w)
   }"

definition parse_precision :: "u8 list \<Rightarrow> va_arg list \<Rightarrow> (u8 list \<times> va_arg list \<times> int) option" where
  "parse_precision fmt args =
     (if fmt \<noteq> [] \<and> hd fmt = 46
      then do {
        (fmt, args, n) \<leftarrow> (if tl fmt \<noteq> [] \<and> hd (tl fmt) = 42
           then do { (w, args) \<leftarrow> take_int args; Some (tl (tl fmt), args, sint w) }
           else do { (fmt, n) \<leftarrow> parse_number (tl fmt) 0; Some (fmt, args, n) });
        Some (fmt, args, if n < 0 then - 1 else n)
      }
      else Some (fmt, args, - 1))"

fun parse_type :: "u8 list \<Rightarrow> u8 list \<times> conv_type" where
  "parse_type [] = ([], INT_T)"
| "parse_type (ch # fmt) =
     (if ch = 104 then (if fmt \<noteq> [] \<and> hd fmt = 104 then (tl fmt, CHAR_T) else (fmt, SHORT))
      else if ch = 106 then (fmt, INTMAX)
      else if ch = 108 then (if fmt \<noteq> [] \<and> hd fmt = 108 then (tl fmt, LONGLONG) else (fmt, LONG))
      else if ch = 116 then (fmt, PTRDIFFT)
      else if ch = 122 then (fmt, SIZET)
      else (ch # fmt, INT_T))"

definition parse_conversion :: "u8 list \<Rightarrow> va_arg list \<Rightarrow> (u8 list \<times> printf_conversion \<times> va_arg list) option" where
  "parse_conversion fmt args = do {
     let (fmt, f) = parse_flags fmt no_flags;
     let f = (if MINUS f then f\<lparr>ZERO := False\<rparr> else f);
     let f = (if PLUS f then f\<lparr>SPACE := False\<rparr> else f);
     (fmt, args, f, w) \<leftarrow> parse_width fmt args f;
     (fmt, args, prec) \<leftarrow> parse_precision fmt args;
     let f = (if prec \<ge> 0 then f\<lparr>ZERO := False\<rparr> else f);
     let (fmt, t) = parse_type fmt;
     Some (fmt, \<lparr>flags = f, width = w, precision = prec, ctype = t\<rparr>, args)
   }"

section \<open>Formatted output\<close>

fun signed_arg :: "conv_type \<Rightarrow> va_arg list \<Rightarrow> (int \<times> va_arg list) option" where
  "signed_arg CHAR_T args = do { (w, args) \<leftarrow> take_int args; Some (sint (ucast w :: u8), args) }"
| "signed_arg SHORT args = do { (w, args) \<leftarrow> take_int args; Some (sint (ucast w :: u16), args) }"
| "signed_arg INTMAX args = do { (w, args) \<leftarrow> take_long args; Some (sint w, args) }"
| "signed_arg LONGLONG args = do { (w, args) \<leftarrow> take_long args; Some (sint w, args) }"
| "signed_arg SIZET args = do { (w, args) \<leftarrow> take_int args; Some (if uint w > (2 ^ 32 - 1) div 2 then uint w - (2 ^ 32 - 1) - 1 else uint w, args) }"
| "signed_arg _ args = do { (w, args) \<leftarrow> take_int args; Some (sint w, args) }"

fun unsigned_arg :: "conv_type \<Rightarrow> va_arg list \<Rightarrow> (nat \<times> va_arg list) option" where
  "unsigned_arg CHAR_T args = do { (w, args) \<leftarrow> take_int args; Some (unat (ucast w :: u8), args) }"
| "unsigned_arg SHORT args = do { (w, args) \<leftarrow> take_int args; Some (unat (ucast w :: u16), args) }"
| "unsigned_arg INTMAX args = do { (w, args) \<leftarrow> take_long args; Some (unat w, args) }"
| "unsigned_arg LONGLONG args = do { (w, args) \<leftarrow> take_long args; Some (unat w, args) }"
| "unsigned_arg PTRDIFFT args = do { (w, args) \<leftarrow> take_int args; Some (unat ((scast w :: u64) AND 0xffffffff), args) }"
| "unsigned_arg _ args = do { (w, args) \<leftarrow> take_int args; Some (unat w, args) }"

definition null_string :: "u8 list" where "null_string = [40, 110, 117, 108, 108, 41]"

text \<open>The messages \<open>"<<no %c in kernel>>"\<close> and \<open>"<<no %c conversion>>"\<close>.\<close>

definition no_in_kernel :: "u8 \<Rightarrow> u8 list" where
  "no_in_kernel ch = [60, 60, 110, 111, 32, 37, ch, 32, 105, 110, 32, 107, 101, 114, 110, 101, 108, 62, 62]"

definition no_conversion :: "u8 \<Rightarrow> u8 list" where
  "no_conversion ch = [60, 60, 110, 111, 32, 37, ch, 32, 99, 111, 110, 118, 101, 114, 115, 105, 111, 110, 62, 62]"

definition convert :: "u8 \<Rightarrow> printf_conversion \<Rightarrow> va_arg list \<Rightarrow> (u8 list \<times> va_arg list) option" where
  "convert ch c args =
     (if ch = 100 \<or> ch = 105
      then do {
        (value, args) \<leftarrow> signed_arg (ctype c) args;
        out \<leftarrow> format_integer (nat (if value < 0 then - value else value)) True (value < 0) base_d c;
        Some (out, args)
      }
      else if ch = 111 \<or> ch = 117 \<or> ch = 120 \<or> ch = 88
      then do {
        (value, args) \<leftarrow> unsigned_arg (ctype c) args;
        out \<leftarrow> format_integer value False False (if ch = 111 then base_o else if ch = 117 then base_d else if ch = 120 then base_x else base_X) c;
        Some (out, args)
      }
      else if ch = 99
      then do { (w, args) \<leftarrow> take_int args; Some (format_string [ucast w] c, args) }
      else if ch = 115
      then do {
        (s, args) \<leftarrow> take_string args;
        let s = (case s of Some s \<Rightarrow> s | None \<Rightarrow> null_string);
        Some (format_string (if precision c < 0 then s else take (nat (precision c)) s) c, args)
      }
      else if ch = 112
      then do {
        (w, args) \<leftarrow> take_int args;
        out \<leftarrow> format_integer (unat w) False False base_x (c\<lparr>flags := no_flags\<lparr>POUND := True\<rparr>\<rparr>);
        Some (out, args)
      }
      else if ch \<in> {102, 101, 69, 103, 71, 110} then Some (no_in_kernel ch, args)
      else Some (no_conversion ch, args))"

lemma parse_flags_length: "length (fst (parse_flags fmt f)) \<le> length fmt"
  by (induction fmt f rule: parse_flags.induct) auto

lemma parse_number_length: "parse_number fmt v = Some (fmt', v') \<Longrightarrow> length fmt' \<le> length fmt"
  by (induction fmt v rule: parse_number.induct) (auto split: if_splits simp: bind_eq_Some_conv)

lemma parse_type_length: "length (fst (parse_type fmt)) \<le> length fmt"
  by (cases fmt) auto

lemma parse_conversion_length:
  assumes "parse_conversion fmt args = Some (fmt', c, args')"
  shows "length fmt' \<le> length fmt"
proof -
  obtain fmt1 f1 where 1: "parse_flags fmt no_flags = (fmt1, f1)" by (cases "parse_flags fmt no_flags") auto
  obtain f2 fmt2 args2 f3 w fmt3 args3 prec where 2: "parse_width fmt1 args f2 = Some (fmt2, args2, f3, w)"
      "parse_precision fmt2 args2 = Some (fmt3, args3, prec)" "fmt' = fst (parse_type fmt3)"
    using assms 1 unfolding parse_conversion_def by (auto simp: bind_eq_Some_conv Let_def case_prod_beta)
  have "length fmt1 \<le> length fmt" using parse_flags_length [of fmt no_flags] 1 by simp
  moreover have "length fmt2 \<le> length fmt1"
    using 2(1) parse_number_length [of fmt1] unfolding parse_width_def by (auto simp: bind_eq_Some_conv split: if_splits)
  moreover have "length fmt3 \<le> length fmt2"
    using 2(2) parse_number_length [of "tl fmt2"] unfolding parse_precision_def
    by (force simp: bind_eq_Some_conv split: if_splits)
  ultimately show ?thesis using 2(3) parse_type_length [of fmt3] by simp
qed

function do_vprintf :: "u8 list \<Rightarrow> va_arg list \<Rightarrow> u8 list option" where
  "do_vprintf [] args = Some []"
| "do_vprintf (ch # fmt) args =
     (if ch \<noteq> 37 then do { out \<leftarrow> do_vprintf fmt args; Some (ch # out) }
      else if fmt \<noteq> [] \<and> hd fmt = 37 then do { out \<leftarrow> do_vprintf (tl fmt) args; Some (37 # out) }
      else case parse_conversion fmt args of
        None \<Rightarrow> None
      | Some (fmt', c, args') \<Rightarrow>
          if fmt' = [] then None
          else do {
            (s, args'') \<leftarrow> convert (hd fmt') c args';
            out \<leftarrow> do_vprintf (tl fmt') args'';
            Some (s @ out)
          })"
  by pat_completeness auto

termination
proof (relation "measure (\<lambda>(fmt, args). length fmt)")
  fix ch :: u8 and fmt :: "u8 list" and args x y and fmt' and z c args' a out args''
  assume "parse_conversion fmt args = Some x" "(fmt', y) = x" "fmt' \<noteq> []"
  then have "length fmt' \<le> length fmt" by (cases y) (auto dest: parse_conversion_length)
  with \<open>fmt' \<noteq> []\<close> show "((tl fmt', args''), ch # fmt, args) \<in> measure (\<lambda>(fmt, args). length fmt)" by simp
qed auto

text \<open>The messages for unsupported conversions are themselves formatted output.\<close>

definition do_printf :: "string \<Rightarrow> va_arg list \<Rightarrow> u8 list option" where
  "do_printf fmt args = do_vprintf (map (\<lambda>ch. of_char ch) fmt) args"

lemma char_roundtrip: "ucast (scast ch :: u32) = (ch :: u8)"
  by (rule bit_word_eqI) (simp add: bit_simps)

lemma no_in_kernel_printf: "do_printf ''<<no %%%c in kernel>>'' [Arg_int (scast ch)] = Some (no_in_kernel ch)"
  unfolding do_printf_def no_in_kernel_def 
  by (simp add: parse_conversion_def parse_width_def parse_precision_def isdigit_def convert_def format_string_def no_flags_def char_roundtrip)

lemma no_conversion_printf: "do_printf ''<<no %%%c conversion>>'' [Arg_int (scast ch)] = Some (no_conversion ch)"
  unfolding do_printf_def no_conversion_def 
  by (simp add: parse_conversion_def parse_width_def parse_precision_def isdigit_def convert_def format_string_def no_flags_def char_roundtrip)

section \<open>Output into a buffer\<close>

record vsnprintf_aux =
  out_ptr :: ptr
  out_length :: int
  max_length :: int

fun vsnprintf_helper :: "u8 \<Rightarrow> memory \<Rightarrow> vsnprintf_aux \<Rightarrow> (memory \<times> vsnprintf_aux) option" where
  "vsnprintf_helper ch m aux = do {
     n \<leftarrow> int_result (out_length aux + 1);
     if out_length aux < max_length aux
     then do { m \<leftarrow> wr m (out_ptr aux) ch; Some (m, aux\<lparr>out_ptr := out_ptr aux + 1, out_length := n\<rparr>) }
     else Some (m, aux\<lparr>out_length := n\<rparr>)
   }"

fun helper_each :: "u8 list \<Rightarrow> memory \<Rightarrow> vsnprintf_aux \<Rightarrow> (memory \<times> vsnprintf_aux) option" where
  "helper_each [] m aux = Some (m, aux)"
| "helper_each (ch # out) m aux = do { (m, aux) \<leftarrow> vsnprintf_helper ch m aux; helper_each out m aux }"

definition vsnprintf :: "memory \<Rightarrow> ptr \<Rightarrow> u32 \<Rightarrow> u8 list \<Rightarrow> va_arg list \<Rightarrow> (memory \<times> int) option" where
  "vsnprintf m buffer buf_size fmt args = do {
     let aux = \<lparr>out_ptr = buffer, out_length = 0, max_length = (if buf_size > 0 then sint (buf_size - 1) else 0)\<rparr>;
     out \<leftarrow> do_vprintf fmt args;
     (m, aux) \<leftarrow> helper_each out m aux;
     m \<leftarrow> (if buf_size > 0 then wr m (out_ptr aux) 0 else Some m);
     Some (m, out_length aux)
   }"

section \<open>Hexadecimal dumps\<close>

text \<open>The characters of one line: \<open>start\<close> blank columns, the bytes, and with \<open>ascii\<close> their characters.\<close>

fun hex_bytes :: "nat \<Rightarrow> u8 list \<Rightarrow> u8 list option" where
  "hex_bytes i [] = Some []"
| "hex_bytes i (b # bs) = do {
     s \<leftarrow> do_printf ''%02hhx%c'' [Arg_int (ucast b), Arg_int (if i = 7 then 45 else 32)];
     r \<leftarrow> hex_bytes (i + 1) bs;
     Some (s @ r)
   }"

fun ascii_bytes :: "u8 list \<Rightarrow> u8 list option" where
  "ascii_bytes [] = Some []"
| "ascii_bytes (b # bs) = do {
     s \<leftarrow> do_printf ''%c'' [Arg_int (if isprint (uint b) then ucast b else 46)];
     r \<leftarrow> ascii_bytes bs;
     Some (s @ r)
   }"

definition hex_line :: "u32 \<Rightarrow> nat \<Rightarrow> u8 list \<Rightarrow> bool \<Rightarrow> u8 list option" where
  "hex_line ofs start line ascii = do {
     let end' = start + length line;
     addr \<leftarrow> do_printf ''%08jx  '' [Arg_long (ucast (ofs div 16 * 16))];
     bytes \<leftarrow> hex_bytes start line;
     chars \<leftarrow> (if ascii
        then do {
          cs \<leftarrow> ascii_bytes line;
          Some (concat (replicate (16 - end') [32, 32, 32]) @ [124] @ replicate start 32 @ cs @ replicate (16 - end') 32 @ [124])
        }
        else Some []);
     Some (addr @ concat (replicate start [32, 32, 32]) @ bytes @ chars @ [10])
   }"

function hex_dump :: "u32 \<Rightarrow> u8 list \<Rightarrow> bool \<Rightarrow> u8 list option" where
  "hex_dump ofs buf ascii =
     (if length buf > 0
      then do {
        let start = unat ofs mod 16;
        let n = min (16 - start) (length buf);
        s \<leftarrow> hex_line ofs start (take n buf) ascii;
        r \<leftarrow> hex_dump (ofs + of_nat n) (drop n buf) ascii;
        Some (s @ r)
      }
      else Some [])"
  by pat_completeness auto

termination
  by (relation "measure (\<lambda>(ofs, buf, ascii). length buf)") auto

declare hex_dump.simps [simp del]

section \<open>The digit buffer is large enough\<close>

lemma digits_loop_length:
  assumes "v < base b ^ k"
  shows "length (digits_loop b g v n buf) \<le> length buf + (if g then 2 * k else k)"
  using assms
proof (induction k arbitrary: v n buf)
  case 0
  then show ?case by (subst digits_loop.simps) simp
next
  case (Suc k)
  have "v div base b < base b ^ k" using Suc.prems base_gt [of b] by (simp add: div_less_iff_less_mult mult.commute)
  note IH = Suc.IH [OF this]
  show ?case
    using IH [of "Suc n" "buf @ [44, digit_char b (v mod base b)]"] IH [of "Suc n" "buf @ [digit_char b (v mod base b)]"]
    by (subst digits_loop.simps) (cases g; simp add: Let_def)
qed

lemma precision_zeros_length: "length buf \<le> 63 \<Longrightarrow> length (precision_zeros c buf) \<le> 63"
  by (simp add: precision_zeros_def BUF_SIZE_def)

lemma octal_zero_length: "length (octal_zero b c buf) \<le> length buf + 1"
  by (simp add: octal_zero_def)

lemma digits_buffer_Some:
  assumes "v < 2 ^ 64"
  obtains buf where "digits_buffer b c v = Some buf"
proof -
  have "(2::nat) ^ 64 \<le> base b ^ 22" by (cases b) simp_all
  then have "v < base b ^ 22" using assms by simp
  then have "length (digits_loop b (GROUP (flags c)) v 0 []) \<le> 63" (is "length ?d \<le> 63")
    using digits_loop_length [of v b 22 "GROUP (flags c)" 0 "[]"] by (simp split: if_splits)
  then have "length (octal_zero b c (precision_zeros c ?d)) \<le> BUF_SIZE"
    using precision_zeros_length [of ?d c] octal_zero_length [of b c "precision_zeros c ?d"] by (simp add: BUF_SIZE_def)
  then show ?thesis using that by (simp add: digits_buffer_def)
qed

lemma format_integer_Some:
  assumes "v < 2 ^ 64"
  obtains out where "format_integer v is_signed negative b c = Some out"
proof -
  obtain buf where "digits_buffer b c v = Some buf" by (rule digits_buffer_Some [OF assms])
  then have "format_integer v is_signed negative b c = Some (layout_integer v is_signed negative b c buf)"
    by (simp add: format_integer_def)
  then show thesis by (rule that)
qed

section \<open>Decimal numbers\<close>

lemma decimal_digits:
  "\<exists>ds. digits_loop base_d False v n buf = buf @ rev (map (\<lambda>d. of_nat (48 + d)) ds) \<and> (\<forall>d\<in>set ds. d < 10) \<and>
     digits_value ds = int v \<and> (ds = [] \<longleftrightarrow> v = 0)"
proof (induction v arbitrary: n buf rule: less_induct)
  case (less v)
  show ?case
  proof (cases "v = 0")
    case True
    then show ?thesis by (intro exI [of _ "[]"]) (simp add: digits_loop.simps digits_value_def)
  next
    case False
    then obtain ds where ds: "digits_loop base_d False (v div 10) (Suc n) (buf @ [digit_char base_d (v mod 10)]) =
        (buf @ [digit_char base_d (v mod 10)]) @ rev (map (\<lambda>d. of_nat (48 + d)) ds)" "\<forall>d\<in>set ds. d < 10" "digits_value ds = int (v div 10)"
      using less [of "v div 10" "Suc n" "buf @ [digit_char base_d (v mod 10)]"] by auto
    then show ?thesis using False
      by (intro exI [of _ "ds @ [v mod 10]"], subst digits_loop.simps) (simp add: digit_char_def digits_value_def zdiv_int zmod_int)
  qed
qed

lemma signed_decimal:
  assumes "c = \<lparr>flags = no_flags, width = 0, precision = - 1, ctype = t\<rparr>" "- (2 ^ 63) \<le> value" "value < 2 ^ 63"
  shows "\<exists>ds. format_integer (nat (if value < 0 then - value else value)) True (value < 0) base_d c =
      Some ((if value < 0 then [45] else []) @ map (\<lambda>d. of_nat (48 + d)) ds) \<and>
    ds \<noteq> [] \<and> (\<forall>d\<in>set ds. d < 10) \<and> (if value < 0 then - digits_value ds else digits_value ds) = value"
proof -
  let ?v = "nat (if value < 0 then - value else value)"
  obtain ds where ds: "digits_loop base_d False ?v 0 [] = rev (map (\<lambda>d. of_nat (48 + d)) ds)" "\<forall>d\<in>set ds. d < 10"
      "digits_value ds = int ?v" "ds = [] \<longleftrightarrow> ?v = 0"
    using decimal_digits [of ?v 0 "[]"] by auto
  define es where "es = (if ds = [] then [0] else ds)"
  have es: "es \<noteq> []" "\<forall>d\<in>set es. d < 10" "digits_value es = int ?v"
    using ds by (auto simp: es_def digits_value_def)
  have "precision_zeros c (digits_loop base_d False ?v 0 []) = rev (map (\<lambda>d. of_nat (48 + d)) es)"
    unfolding ds(1) by (cases ds) (auto simp: precision_zeros_def es_def assms(1) BUF_SIZE_def)
  then have "octal_zero base_d c (precision_zeros c (digits_loop base_d False ?v 0 [])) = rev (map (\<lambda>d. of_nat (48 + d)) es)"
    by (simp add: octal_zero_def)
  moreover obtain buf where "digits_buffer base_d c ?v = Some buf" using assms(2,3) by (rule_tac digits_buffer_Some [of ?v]) auto
  ultimately have "digits_buffer base_d c ?v = Some (rev (map (\<lambda>d. of_nat (48 + d)) es))"
    by (auto simp: digits_buffer_def assms(1) no_flags_def bind_eq_Some_conv split: if_splits)
  then have "format_integer ?v True (value < 0) base_d c = Some ((if value < 0 then [45] else []) @ map (\<lambda>d. of_nat (48 + d)) es)"
    by (cases "value < 0") (simp_all add: format_integer_def layout_integer_def assms(1) no_flags_def sign_char_def output_dup_def)
  then show ?thesis using es by (intro exI [of _ es]) simp
qed

section \<open>The contract of vsnprintf\<close>

lemma helper_each_spec:
  assumes "0 \<le> n" "n + int (length out) < 2 ^ 31" "q + min (length out) (nat (mx - n)) \<le> length m"
  shows "helper_each out m \<lparr>out_ptr = q, out_length = n, max_length = mx\<rparr> =
    Some (poke m q (take (nat (mx - n)) out),
      \<lparr>out_ptr = q + min (length out) (nat (mx - n)), out_length = n + int (length out), max_length = mx\<rparr>)"
  using assms
proof (induction out arbitrary: n q m)
  case Nil
  then show ?case by (simp add: poke_Nil)
next
  case (Cons ch out)
  show ?case
  proof (cases "n < mx")
    case True
    then have k: "nat (mx - n) = Suc (nat (mx - (n + 1)))" by simp
    have "helper_each out (m[q := ch]) \<lparr>out_ptr = q + 1, out_length = n + 1, max_length = mx\<rparr> =
      Some (poke (m[q := ch]) (q + 1) (take (nat (mx - (n + 1))) out),
        \<lparr>out_ptr = q + 1 + min (length out) (nat (mx - (n + 1))), out_length = n + 1 + int (length out), max_length = mx\<rparr>)"
      using Cons.prems k by (intro Cons.IH) simp_all
    then show ?thesis using True Cons.prems k by (simp add: int_result_def wr_Some poke_Cons)
  next
    case False
    have "helper_each out m \<lparr>out_ptr = q, out_length = n + 1, max_length = mx\<rparr> =
      Some (poke m q (take (nat (mx - (n + 1))) out),
        \<lparr>out_ptr = q + min (length out) (nat (mx - (n + 1))), out_length = n + 1 + int (length out), max_length = mx\<rparr>)"
      using Cons.prems False by (intro Cons.IH) simp_all
    then show ?thesis using False Cons.prems by (simp add: int_result_def)
  qed
qed

lemma sint_small:
  fixes w :: u32
  assumes "unat w < 2 ^ 31"
  shows "sint w = int (unat w)"
proof -
  have "int (unat w) < int (2 ^ 31)" using assms by (simp only: of_nat_less_iff)
  then have "uint w < 2 ^ 31" by simp
  moreover have "- (2 ^ 31) \<le> uint w" by (rule order_trans [OF _ uint_ge_0]) simp
  ultimately have "signed_take_bit 31 (uint w) = uint w" by (rule signed_take_bit_int_eq_self [rotated])
  then have "signed_take_bit (LENGTH(32) - 1) (uint w) = int (unat w)" by simp
  then show ?thesis by (simp only: sint_uint One_nat_def)
qed

lemma poke_end:
  assumes "q + length bs < length m"
  shows "wr (poke m q bs) (q + length bs) b = Some (poke m q (bs @ [b]))"
proof -
  have "(poke m q bs)[q + length bs := b] = poke m q (bs @ [b])"
    using assms by (intro poke_eqI) (auto simp: length_poke nth_poke nth_list_update nth_append)
  then show ?thesis using assms by (simp add: wr_def length_poke)
qed

lemma vsnprintf_stores:
  assumes "do_vprintf fmt args = Some out" "length out < 2 ^ 31" "0 < buf_size" "buf_size \<le> 2 ^ 31"
    and "buffer + unat buf_size \<le> length m"
  shows "vsnprintf m buffer buf_size fmt args =
    Some (poke m buffer (take (unat buf_size - 1) out @ [0]), int (length out))"
proof -
  define n where "n = unat buf_size - 1"
  have 0: "unat buf_size = Suc n" "n < 2 ^ 31" using assms(3,4) by (simp_all add: n_def word_less_nat_alt word_le_nat_alt)
  have "unat (buf_size - 1) = n" using assms(3) by (simp add: unat_minus_one n_def)
  then have mx: "sint (buf_size - 1) = int n" using 0(2) sint_small by metis
  have "helper_each out m \<lparr>out_ptr = buffer, out_length = 0, max_length = int n\<rparr> =
    Some (poke m buffer (take n out), \<lparr>out_ptr = buffer + length (take n out), out_length = int (length out), max_length = int n\<rparr>)"
    using helper_each_spec [of 0 out buffer "int n" m] assms(2,5) 0 by simp
  moreover have "wr (poke m buffer (take n out)) (buffer + length (take n out)) 0 = Some (poke m buffer (take n out @ [0]))"
    using assms(5) 0 by (intro poke_end) simp
  ultimately show ?thesis using assms(1,3) by (simp add: vsnprintf_def mx) (simp add: n_def)
qed

text \<open>\<open>vsnprintf\<close> with a buffer of \<open>buf_size\<close> bytes stores the formatted text, cut to \<open>buf_size - 1\<close> characters, and a terminator
after it, changes no other byte of memory, and returns the length of the whole text.\<close>

lemma vsnprintf_bounds:
  assumes "do_vprintf fmt args = Some out" "length out < 2 ^ 31" "0 < buf_size" "buf_size \<le> 2 ^ 31"
    and "buffer + unat buf_size \<le> length m"
  shows "\<exists>m'. vsnprintf m buffer buf_size fmt args = Some (m', int (length out)) \<and> length m' = length m \<and>
    peek m' buffer (min (unat buf_size - 1) (length out) + 1) = take (unat buf_size - 1) out @ [0] \<and>
    (\<forall>i < length m. i < buffer \<or> buffer + unat buf_size \<le> i \<longrightarrow> m' ! i = m ! i)"
proof -
  define t where "t = take (unat buf_size - 1) out @ [0]"
  have l: "length t \<le> unat buf_size" "length t = min (unat buf_size - 1) (length out) + 1"
    using assms(3) by (simp_all add: t_def word_less_nat_alt)
  then have b: "buffer + length t \<le> length m" using assms(5) by simp
  then have "length (poke m buffer t) = length m" "peek (poke m buffer t) buffer (min (unat buf_size - 1) (length out) + 1) = t"
    "\<forall>i < length m. i < buffer \<or> buffer + unat buf_size \<le> i \<longrightarrow> poke m buffer t ! i = m ! i"
    using l(1) peek_poke_same [OF b] by (simp_all only: l(2) [symmetric] length_poke, auto simp: nth_poke)
  then show ?thesis
    using vsnprintf_stores [OF assms] unfolding t_def [symmetric] by blast
qed

lemma vsnprintf_example:
  "\<exists>m'. vsnprintf (replicate 8 7) 2 4 [97, 37, 115] [Arg_string (Some [98, 99, 100])] = Some (m', 4) \<and> peek m' 2 4 = [97, 98, 99, 0] \<and> m' ! 6 = 7"
proof -
  have "do_vprintf [97, 37, 115] [Arg_string (Some [98, 99, 100])] = Some [97, 98, 99, 100]"
    by (simp add: parse_conversion_def parse_width_def parse_precision_def isdigit_def convert_def format_string_def no_flags_def)
  from vsnprintf_bounds [OF this, of 4 2 "replicate 8 7"] obtain m' where
      m': "vsnprintf (replicate 8 7) 2 4 [97, 37, 115] [Arg_string (Some [98, 99, 100])] = Some (m', 4)"
      "peek m' 2 (Suc (Suc (Suc (Suc 0)))) = [97, 98, 99, 0]" "m' ! 6 = 7"
    by auto
  have "Suc (Suc (Suc (Suc 0))) = 4" by simp
  with m' show ?thesis by (intro exI [of _ m']) (simp only:)
qed

section \<open>Printing and reading decimal numbers\<close>

lemma digit_nonzero: "d < 10 \<Longrightarrow> of_nat (48 + d) \<noteq> (0 :: u8)"
  using digit_byte(3) [of d] by (metis add_nonneg_pos of_nat_0_le_iff unsigned_0 less_irrefl zero_less_numeral)

lemma percent_d: "do_vprintf [37, 100] [Arg_int w] =
    format_integer (nat (if sint w < 0 then - sint w else sint w)) True (sint w < 0) base_d
      \<lparr>flags = no_flags, width = 0, precision = - 1, ctype = INT_T\<rparr>"
  by (simp add: parse_conversion_def parse_width_def parse_precision_def isdigit_def convert_def no_flags_def split: Option.bind_splits)

lemma format_decimal_length:
  assumes "value < 10 ^ k" "0 < k" "format_integer value is_signed negative base_d \<lparr>flags = no_flags, width = 0, precision = - 1, ctype = t\<rparr> = Some out"
  shows "length out \<le> k + 1"
proof -
  have "length (digits_loop base_d False value 0 []) \<le> k"
    using digits_loop_length [of "value" base_d k False 0 "[]"] assms(1) by simp
  then show ?thesis using assms(2,3)
    by (auto simp: format_integer_def digits_buffer_def octal_zero_def precision_zeros_def no_flags_def layout_integer_def
        output_dup_def bind_eq_Some_conv Let_def split: if_splits)
qed

text \<open>A 32-bit integer printed with \<open>%d\<close> into a buffer of at least 12 bytes is read back by \<open>atoi\<close>: the
text is complete and terminated, and its number is the integer, for every value down to the most negative one.\<close>

lemma print_then_atoi:
  assumes "12 \<le> buf_size" "buf_size \<le> 2 ^ 31" "buffer \<noteq> NULL" "buffer + unat buf_size \<le> length m"
  shows "\<exists>m' n. vsnprintf m buffer buf_size [37, 100] [Arg_int w] = Some (m', n) \<and> 0 < n \<and> n \<le> 11 \<and> atoi m' buffer = Some w"
proof -
  let ?z = "sint w" and ?c = "\<lparr>flags = no_flags, width = 0, precision = - 1, ctype = INT_T\<rparr>"
  have z: "- (2 ^ 31) \<le> ?z" "?z < 2 ^ 31" using sint_ge [of w] sint_lt [of w] by simp_all
  then obtain ds where ds: "format_integer (nat (if ?z < 0 then - ?z else ?z)) True (?z < 0) base_d ?c =
        Some ((if ?z < 0 then [45] else []) @ map (\<lambda>d. of_nat (48 + d)) ds)" (is "_ = Some ?out")
      "ds \<noteq> []" "\<forall>d\<in>set ds. d < 10" "(if ?z < 0 then - digits_value ds else digits_value ds) = ?z"
    using signed_decimal [of ?c INT_T ?z] by auto
  have len: "length ?out \<le> 11" "0 < length ?out"
    using format_decimal_length [OF _ _ ds(1), of 10] z ds(2) by auto
  have size: "0 < buf_size" "12 \<le> unat buf_size" using assms(1) by (auto simp: word_less_nat_alt word_le_nat_alt)
  have st: "vsnprintf m buffer buf_size [37, 100] [Arg_int w] = Some (poke m buffer (?out @ [0]), int (length ?out))"
    using vsnprintf_stores [of "[37, 100]" "[Arg_int w]" ?out buf_size buffer m] percent_d ds(1) len size assms(2,4) by simp
  have nz: "0 \<notin> set ?out" using ds(3) digit_nonzero by auto
  have "cstring (poke m buffer (?out @ [0])) buffer ?out"
    using len size assms(4) nz by (intro cstring_poke) auto
  then have "atoi (poke m buffer (?out @ [0])) buffer = Some (word_of_int ?z)"
    using ds assms(3) by (intro atoi_reads [of _ _ "[]" "if ?z < 0 then [45] else []" ds "[]"]) auto
  then show ?thesis using st len by auto
qed

lemma print_then_atoi_example:
  "\<exists>m' n. vsnprintf (replicate 13 0) 1 12 [37, 100] [Arg_int 0x80000000] = Some (m', n) \<and> atoi m' 1 = Some 0x80000000"
  using print_then_atoi [of 12 1 "replicate 13 0" "0x80000000"] by auto

end
