(* ===== verification/Spec2Isabelle.thy ===== *)
theory Spec2Isabelle
  imports Prelude Interfaces Kernel_List Kernel_List_Algo Kernel_List_Sort Bitmap
    Hash_Table Intq Arith64 C_Memory Cstring
    Threads Synch Threads_Inv Threads_Safe Threads_Steps Threads_Switch Threads_Wake Threads_Run Threads_Sleep Threads_Props Stdlib Random_Gen Vaddr Palloc Pagedir Block_Store Malloc Disk Sector_Store Buffer_Cache Inode Inode_Layout Inode_Files File_Store Inode_Spec Inode_Props Filesys Directory Inode_Open Stdio
begin

text \<open>
  A verification development of the Pintos kernel of this repository: the kernel library, threads and synchronisation, memory
  management, and the file system, translated from the C sources, with the theorems that make each part correct. Paths such as
  \<open>src/threads/thread.c\<close> are those of the repository; definitions have the names of the C functions they model, with a suffix
  where HOL already uses the name. The configuration is the one that the sources build: \<open>PR_USER\<close>, \<open>PR_VM\<close> and \<open>PR_FS\<close> of
  \<open>src/lib/debug.h\<close> defined, round-robin scheduling, \<open>unsigned long\<close> and pointers of 32 bits.

  \<^bold>\<open>Conventions.\<close> The theories \<open>Prelude\<close> and \<open>C_Memory\<close> have the shared vocabulary. A routine that can fail an \<open>ASSERT\<close>, call \<open>PANIC\<close> or access memory that is not
  there is a function into an option type, and \<open>None\<close> is the kernel stopping there. A theorem that an operation returns \<open>Some\<close>
  says that no assertion fails. Values that C code returns for an error, such as \<open>NULL\<close>, \<open>-1\<close> or \<open>BITMAP_ERROR\<close>, are ordinary values.
  State is passed explicitly, one record for each component. Machine words are words of their width where the code can
  wrap; where a theory uses natural numbers, its opening text says why no sum leaves the C type or what is reduced.
  Where an operation runs under a lock or with interrupts off, it is one step.

  \<^bold>\<open>Parts and how they interact.\<close>

  The kernel library.
  \<^item> \<open>Kernel_List\<close>, \<open>Kernel_List_Algo\<close>, \<open>Kernel_List_Sort\<close>: \<open>src/lib/kernel/list.c\<close> over a memory of \<open>prev\<close> and \<open>next\<close> links, one
    update for each assignment. \<open>is_list\<close> relates the memory to a list of elements; every operation refines an operation on that
    list, and the loops, sorting included, are shown to end. The other components use lists of elements.
  \<^item> \<open>Bitmap\<close>: \<open>src/lib/kernel/bitmap.c\<close> on 32-bit elements, refined to a list of bits. The page allocator and the free map
    of the file system are its clients.
  \<^item> \<open>Hash_Table\<close>: \<open>src/lib/kernel/hash.c\<close>, buckets and rehashing, refined to a set of elements with distinct keys.
  \<^item> \<open>Cstring\<close>, \<open>Stdlib\<close>, \<open>Stdio\<close>: \<open>src/lib/ctype.h\<close>, \<open>src/lib/string.c\<close>, \<open>src/lib/stdlib.c\<close> and \<open>src/lib/stdio.c\<close> over a memory of
    bytes. \<open>Stdio\<close> shows that the buffer for digits is large enough, that \<open>vsnprintf\<close> stays in its buffer, and that \<open>atoi\<close> reads
    what \<open>%d\<close> printed.
  \<^item> \<open>Arith64\<close>: the 64-bit division of \<open>src/lib/arithmetic.c\<close>. \<open>Random_Gen\<close>: \<open>src/lib/random.c\<close>.

  Threads.
  \<^item> \<open>Threads\<close>, \<open>Synch\<close>: \<open>src/threads/thread.c\<close>, \<open>src/threads/synch.c\<close>, and the parts of \<open>src/threads/interrupt.c\<close> and
    \<open>src/devices/timer.c\<close> that they need. The state is the record \<open>kernel\<close>. What a thread still has to do is a stack of frames,
    \<open>exec\<close> performs the topmost frame of the running thread, and \<open>kstep\<close> is the step relation: a frame, a call by a thread, or a timer
    interrupt. \<open>client_call\<close> lists the rules a caller must follow, for example to release only a lock it holds.
  \<^item> \<open>Threads_Inv\<close>, \<open>Threads_Safe\<close>, \<open>Threads_Steps\<close>, \<open>Threads_Switch\<close>, \<open>Threads_Wake\<close>: the invariant of lists, locks and
    stacks, and that every step returns and keeps it. \<open>Threads_Run\<close>, \<open>Threads_Sleep\<close>, \<open>Threads_Props\<close>: runs from the booted state,
    and their properties: no assertion fails, mutual exclusion, the shape of the lists, ready threads run, sleepers wake on time.
  \<^item> \<open>Intq\<close>: the ring buffer of \<open>src/devices/intq.c\<close> between threads and interrupt handlers.

  Memory.
  \<^item> \<open>Vaddr\<close>: \<open>src/threads/vaddr.h\<close> and \<open>src/threads/pte.h\<close>. \<open>Palloc\<close>: the page allocator \<open>src/threads/palloc.c\<close> over \<open>Bitmap\<close>,
    with the contents of the pages. \<open>Malloc\<close>: the heap \<open>src/threads/malloc.c\<close> over \<open>Palloc\<close>. \<open>Pagedir\<close>: \<open>src/userprog/pagedir.c\<close> over
    \<open>Palloc\<close>. Clients never get overlapping pages or blocks, and a mapping changes the translation of one page only.

  The file system, from the disk upwards.
  \<^item> \<open>Disk\<close>: \<open>src/devices/disk.c\<close>. \<open>Buffer_Cache\<close>: \<open>src/filesys/cache.c\<close>, which behaves like a flat array of sectors.
  \<^item> \<open>Inode\<close>: \<open>src/filesys/inode.c\<close> and \<open>src/filesys/free-map.c\<close>, over the cache and the bit map. \<open>Inode_Layout\<close>: which sectors a file
    has, and that adding one changes no contents. \<open>Inode_Files\<close>, \<open>Inode_Spec\<close>, \<open>Inode_Props\<close>: the invariant \<open>fs_inv\<close>,
    and that reading and writing files is reading and writing lists of bytes. \<open>Inode_Open\<close>: closing and opening a file.
  \<^item> \<open>Filesys\<close>: \<open>src/filesys/file.c\<close>, \<open>src/filesys/directory.c\<close>, \<open>src/filesys/filesys.c\<close>. \<open>Directory\<close>: directories as finite maps.

  \<^bold>\<open>Interfaces.\<close> The contracts between the parts are locales, and each is interpreted on the definitions of the part that provides it.
  In \<open>Interfaces\<close>: \<open>fifo\<close> (kernel lists) and \<open>bounded_fifo\<close> (interrupt queue), \<open>allocator\<close> and \<open>complete_allocator\<close> (bit map),
  \<open>allocators\<close> (page allocator), \<open>keyed_set\<close> (hash table). Then \<open>block_store\<close> of \<open>Block_Store\<close> (heap), \<open>sector_store\<close> of
  \<open>Sector_Store\<close> (buffer cache) and \<open>file_store\<close> of \<open>File_Store\<close> (index nodes, used for directories). What follows for
  every sequence of operations of a client is proved once in the locale.

  \<^bold>\<open>Bounds and termination.\<close>
  \<^item> Loops that follow links in memory or run through a file are partial functions into the option type, so that not
    returning is \<open>None\<close>; the theorems show that they return. All other loops are total functions.
  \<^item> Writing the free map to its file is a write to a file, which may allocate sectors and so write the free map: \<open>save_map\<close> is
    \<open>bitmap_write 2\<close>, at most two nested writes. One is enough under \<open>fs_inv\<close>, where the file of the free map has all its
    sectors, so that its own write allocates nothing; a write that needed more would be \<open>None\<close>, and the theorems show \<open>Some\<close>.
  \<^item> A file has at most \<open>12 + 128 + 128 * 128\<close> sectors, \<open>8460288\<close> bytes, which is \<open>FILE_MAX\<close>; the properties of files are about offsets below that.
  \<^item> Whether a memory allocation succeeds is an argument of the operation or part of the state, and both outcomes are modelled
    where the code checks the result.

  \<^bold>\<open>Divergences.\<close> Some theorems state what the code does against its comment or its purpose: \<open>list_remove\<close> leaves the links of
  the removed element as they were, \<open>memmove\<close> can return the end of the block, the 64-bit remainder is cut to 32 bits, freed
  entries of the buffer cache are never counted as free, a write on a full disk stops the kernel in the disk driver, and opening and closing the path \<open>.\<close> frees
  the inode of the current directory.

  \<^bold>\<open>Not modelled.\<close> Processes, system calls, exceptions and demand paging, in \<open>src/userprog/process.c\<close>, \<open>syscall.c\<close>, \<open>exception.c\<close> and
  \<open>src/vm\<close>: they work on the memory and the descriptor tables of user processes; the creation and the exit of a process are outcomes
  of the thread operations that call them. The boot code, the context switch and the segment tables are assembly or constants for the
  processor. The keyboard, serial port, display, console and host tools only move bytes to and from devices. Of the disk
  driver the reset sequence and timing are left out, and of the scheduler the priority and 4.4BSD variants, which the configuration
  does not build. Printing for debugging is left out everywhere.
\<close>

end
